(* ===== verification/Prelude.thy ===== *)
theory Prelude
  imports Main "HOL-Library.Word" "HOL-Library.Char_ord" "HOL-Library.List_Lexorder"
begin

unbundle bit_operations_syntax

text \<open>
  What every component shares: machine integers, the errors the C++ code raises as
  values (\<open>exn\<close>), results (\<open>'a res\<close>) with their bind, bytes as characters, and
  decimal and hexadecimal text.
\<close>

section \<open>Integers and results\<close>

type_synonym u8 = "8 word"
type_synonym u16 = "16 word"
type_synonym u32 = "32 word"
type_synonym u64 = "64 word"

text \<open>Integer division of C++ truncates towards zero.\<close>

definition cdiv :: "int \<Rightarrow> int \<Rightarrow> int" where
  "cdiv a b = (if (a < 0) = (b < 0) then \<bar>a\<bar> div \<bar>b\<bar> else - (\<bar>a\<bar> div \<bar>b\<bar>))"

text \<open>
  The exceptions that reach the program: the five classes of the JSON library (with the
  numeric id, for parse errors the byte position, and the text of \<open>what()\<close>), the standard
  exceptions the program throws or lets through, and, as a value of its own, behaviour the
  language leaves undefined.
\<close>

datatype exn =
    Json_parse_error int nat string
  | Json_invalid_iterator int string
  | Json_type_error int string
  | Json_out_of_range int string
  | Json_other_error int string
  | Runtime_error string
  | Filesystem_error string
  | System_error string
  | Undefined_behaviour string

type_synonym 'a res = "exn + 'a"

definition rbind :: "'a res \<Rightarrow> ('a \<Rightarrow> 'b res) \<Rightarrow> 'b res" where
  "rbind m f = (case m of Inl e \<Rightarrow> Inl e | Inr x \<Rightarrow> f x)"

lemma rbind_Inl [simp]: "rbind (Inl e) f = Inl e"
  by (simp add: rbind_def)

lemma rbind_Inr [simp]: "rbind (Inr x) f = f x"
  by (simp add: rbind_def)

lemma rbind_eq_Inr: "rbind m f = Inr y \<longleftrightarrow> (\<exists>x. m = Inr x \<and> f x = Inr y)"
  by (cases m) auto

lemma rbind_eq_Inl: "rbind m f = Inl e \<longleftrightarrow> m = Inl e \<or> (\<exists>x. m = Inr x \<and> f x = Inl e)"
  by (cases m) auto

lemma rbind_cong [fundef_cong]:
  "m = m' \<Longrightarrow> (\<And>x. m' = Inr x \<Longrightarrow> f x = f' x) \<Longrightarrow> rbind m f = rbind m' f'"
  by (cases m) auto

lemmas rbind_iffs = rbind_eq_Inr rbind_eq_Inl

named_theorems view_simps \<open>how the lexer's operations act on the input still to be read\<close>
named_theorems frame_simps \<open>fields an operation leaves alone\<close>

section \<open>Bytes\<close>

text \<open>
  A byte of a C++ \<open>std::string\<close> is a HOL \<open>char\<close>; where the code computes with its
  value, the value is the integer \<open>byte c\<close> in \<open>0..255\<close>, and \<open>chr n\<close> is the
  truncating conversion back (\<open>static_cast<char>\<close>).
\<close>

abbreviation byte :: "char \<Rightarrow> int" where
  "byte c \<equiv> of_char c"

abbreviation chr :: "int \<Rightarrow> char" where
  "chr n \<equiv> char_of n"

lemma byte_lower [simp]: "0 \<le> byte c"
  by (metis of_nat_0_le_iff of_nat_of_char)

lemma byte_upper [simp]: "byte c < 256"
  by (metis of_char_mod_256 pos_mod_bound zero_less_numeral)

lemma byte_not_neg [simp]: "byte c \<noteq> - 1"
  using byte_lower [of c] by linarith

lemma byte_le_255 [simp]: "byte c \<le> 255"
  using byte_upper [of c] by linarith

lemma byte_chr [simp]: "0 \<le> n \<Longrightarrow> n < 256 \<Longrightarrow> byte (chr n) = n"
  by (simp add: of_char_of)

lemma nat_byte [simp]: "nat (byte c) = of_char c"
  by (metis nat_int of_nat_of_char)

lemma byte_eq_iff: "byte c = byte d \<longleftrightarrow> c = d"
  by simp

lemma byte_eq_chr: "byte c = n \<Longrightarrow> c = chr n"
  by auto

section \<open>Text of numbers\<close>

definition digit_char :: "nat \<Rightarrow> char" where
  "digit_char d = char_of (48 + d)"

text \<open>\<open>std::to_string\<close> on unsigned values: the shortest decimal numeral.\<close>

fun show_nat :: "nat \<Rightarrow> string" where
  "show_nat n = (if n < 10 then [digit_char n] else show_nat (n div 10) @ [digit_char (n mod 10)])"

declare show_nat.simps [simp del]

definition hex_digit :: "nat \<Rightarrow> char" where
  "hex_digit d = (if d < 10 then char_of (48 + d) else char_of (87 + d))"

definition hex_digit_upper :: "nat \<Rightarrow> char" where
  "hex_digit_upper d = (if d < 10 then char_of (48 + d) else char_of (55 + d))"

text \<open>\<open>%04x\<close> of a 16-bit value, and the same in capitals (\<open>%.4X\<close>).\<close>

definition hex4 :: "nat \<Rightarrow> string" where
  "hex4 n = map hex_digit [n div 4096 mod 16, n div 256 mod 16, n div 16 mod 16, n mod 16]"

definition hex4_upper :: "nat \<Rightarrow> string" where
  "hex4_upper n =
     map hex_digit_upper [n div 4096 mod 16, n div 256 mod 16, n div 16 mod 16, n mod 16]"

lemma byte_digit_char [simp]:
  assumes "d < 10"
  shows "byte (digit_char d) = 48 + int d"
proof -
  have "of_char (digit_char d) = (48 + d :: nat)"
    using assms by (simp add: digit_char_def of_char_of)
  then have "int (of_char (digit_char d)) = int (48 + d)" by simp
  then show ?thesis by (simp only: of_nat_of_char of_nat_add of_nat_numeral)
qed

lemma show_nat_not_Nil [simp]: "show_nat n \<noteq> []"
  by (subst show_nat.simps) simp

lemma length_show_nat_pos [simp]: "0 < length (show_nat n)"
  by simp


end
