(* ===== verification/Containers.thy ===== *)
theory Containers
  imports Prelude
begin

text \<open>
  The standard containers the program keeps its state in. \<open>std::map\<close> (JSON objects, the
  camp levels of an account) is an association list in increasing key order;
  \<open>std::unordered_map\<close> (accounts, sessions, handlers, sequence numbers, scene factories)
  is an association list in iteration order, which the standard leaves unspecified: a new
  key goes to the front here, and what depends on the order is stated for all permutations.
  The locale \<open>kv_map\<close> is the interface both offer, \<open>kv_map_erase\<close> adds deletion.
\<close>

section \<open>The interface\<close>

locale kv_map =
  fixes lookup :: "'m \<Rightarrow> 'k \<Rightarrow> 'v option"
    and assign :: "'k \<Rightarrow> 'v \<Rightarrow> 'm \<Rightarrow> 'm"
    and entries :: "'m \<Rightarrow> ('k \<times> 'v) list"
    and invar :: "'m \<Rightarrow> bool"
  assumes lookup_entries: "invar m \<Longrightarrow> lookup m k = map_of (entries m) k"
    and distinct_entries: "invar m \<Longrightarrow> distinct (map fst (entries m))"
    and lookup_assign: "invar m \<Longrightarrow> lookup (assign k v m) k' = (if k' = k then Some v else lookup m k')"
    and invar_assign: "invar m \<Longrightarrow> invar (assign k v m)"
begin

lemma lookup_assign_same: "invar m \<Longrightarrow> lookup (assign k v m) k = Some v"
  by (simp add: lookup_assign)

lemma lookup_assign_other: "invar m \<Longrightarrow> k' \<noteq> k \<Longrightarrow> lookup (assign k v m) k' = lookup m k'"
  by (simp add: lookup_assign)

lemma entry_iff_lookup: "invar m \<Longrightarrow> (k, v) \<in> set (entries m) \<longleftrightarrow> lookup m k = Some v"
  by (simp add: lookup_entries distinct_entries)

lemma entry_after_assign:
  "invar m \<Longrightarrow> (k', v') \<in> set (entries (assign k v m)) \<longleftrightarrow>
     (if k' = k then v' = v else (k', v') \<in> set (entries m))"
  by (auto simp: entry_iff_lookup invar_assign lookup_assign)

lemma lookup_assign_twice:
  "invar m \<Longrightarrow> lookup (assign k v (assign k u m)) = lookup (assign k v m)"
  by (rule ext) (simp add: lookup_assign invar_assign)

lemma lookup_assign_commute:
  "invar m \<Longrightarrow> k \<noteq> l \<Longrightarrow>
     lookup (assign k v (assign l u m)) = lookup (assign l u (assign k v m))"
  by (rule ext) (auto simp: lookup_assign invar_assign)

end

locale kv_map_erase = kv_map lookup assign entries invar
  for lookup :: "'m \<Rightarrow> 'k \<Rightarrow> 'v option"
    and assign :: "'k \<Rightarrow> 'v \<Rightarrow> 'm \<Rightarrow> 'm"
    and entries :: "'m \<Rightarrow> ('k \<times> 'v) list"
    and invar :: "'m \<Rightarrow> bool" +
  fixes erase :: "'k \<Rightarrow> 'm \<Rightarrow> 'm"
  assumes lookup_erase: "invar m \<Longrightarrow> lookup (erase k m) k' = (if k' = k then None else lookup m k')"
    and invar_erase: "invar m \<Longrightarrow> invar (erase k m)"
begin

lemma lookup_erase_assign:
  "invar m \<Longrightarrow> lookup (erase k (assign k v m)) = lookup (erase k m)"
  by (rule ext) (simp add: lookup_erase lookup_assign invar_assign)

lemma entry_after_erase:
  "invar m \<Longrightarrow> (k', v') \<in> set (entries (erase k m)) \<longleftrightarrow> k' \<noteq> k \<and> (k', v') \<in> set (entries m)"
  by (auto simp: entry_iff_lookup invar_erase lookup_erase)

end

section \<open>Ordered maps (\<open>std::map\<close>)\<close>

text \<open>\<open>m[k] = v\<close>, and \<open>m.emplace(k, v)\<close>, which leaves an existing entry alone.\<close>

fun smap_set :: "'k::linorder \<Rightarrow> 'v \<Rightarrow> ('k \<times> 'v) list \<Rightarrow> ('k \<times> 'v) list" where
  "smap_set k v [] = [(k, v)]"
| "smap_set k v (p # ps) =
     (if fst p < k then p # smap_set k v ps
      else if fst p = k then (k, v) # ps
      else (k, v) # p # ps)"

definition smap_emplace :: "'k::linorder \<Rightarrow> 'v \<Rightarrow> ('k \<times> 'v) list \<Rightarrow> ('k \<times> 'v) list" where
  "smap_emplace k v m = (case map_of m k of None \<Rightarrow> smap_set k v m | Some _ \<Rightarrow> m)"

definition smap_inv :: "('k::linorder \<times> 'v) list \<Rightarrow> bool" where
  "smap_inv m \<longleftrightarrow> sorted_wrt (<) (map fst m)"

lemma smap_inv_Nil [simp]: "smap_inv []"
  by (simp add: smap_inv_def)

lemma smap_inv_Cons: "smap_inv (p # m) \<longleftrightarrow> (\<forall>q \<in> set m. fst p < fst q) \<and> smap_inv m"
  by (auto simp: smap_inv_def)

lemma smap_inv_distinct: "smap_inv m \<Longrightarrow> distinct (map fst m)"
  by (induction m) (auto simp: smap_inv_Cons)

lemma set_smap_set: "set (smap_set k v m) \<subseteq> insert (k, v) (set m)"
  by (induction m) auto

lemma smap_inv_set [simp]: "smap_inv m \<Longrightarrow> smap_inv (smap_set k v m)"
proof (induction m)
  case (Cons p m)
  then show ?case
    using set_smap_set [of k v m] by (auto simp: smap_inv_Cons)
qed (simp add: smap_inv_Cons)

lemma smap_inv_emplace [simp]: "smap_inv m \<Longrightarrow> smap_inv (smap_emplace k v m)"
  by (simp add: smap_emplace_def split: option.split)

lemma map_of_smap_set: "smap_inv m \<Longrightarrow> map_of (smap_set k v m) = (map_of m)(k \<mapsto> v)"
proof (induction m)
  case (Cons p m)
  then show ?case by (cases p) (auto simp: smap_inv_Cons fun_eq_iff)
qed (simp add: fun_eq_iff)

lemma map_of_smap_emplace:
  "smap_inv m \<Longrightarrow> map_of (smap_emplace k v m) =
     (map_of m)(k := (case map_of m k of None \<Rightarrow> Some v | Some u \<Rightarrow> Some u))"
  by (auto simp: smap_emplace_def map_of_smap_set fun_eq_iff split: option.split)

text \<open>Two ordered maps with the same lookups are the same list.\<close>

lemma smap_eqI:
  assumes "smap_inv m" "smap_inv n" "map_of m = map_of n"
  shows "m = n"
  using assms
proof (induction m arbitrary: n)
  case Nil
  then show ?case by (metis map_of_eq_empty_iff)
next
  case (Cons p m)
  from Cons.prems(3) obtain q n' where n: "n = q # n'"
    by (cases n) (auto simp: fun_eq_iff split: if_splits dest: spec [of _ "fst p"])
  have fst_eq: "fst p = fst q"
  proof (rule ccontr)
    assume ne: "fst p \<noteq> fst q"
    have "fst q \<in> fst ` set (p # m)" "fst p \<in> fst ` set (q # n')"
      using Cons.prems(3) n by (metis list.set_intros(1) imageI map_of_eq_None_iff)+
    with ne Cons.prems(1,2) n show False
      by (auto simp: smap_inv_Cons) (metis fst_conv less_asym')
  qed
  have "map_of m = map_of n'"
  proof
    fix k
    have "map_of m (fst p) = None" "map_of n' (fst q) = None"
      using Cons.prems(1,2) n
      by (auto simp: smap_inv_Cons map_of_eq_None_iff)
    then show "map_of m k = map_of n' k"
      using fun_cong [OF Cons.prems(3), of k] n fst_eq by (auto split: if_splits)
  qed
  moreover have "p = q"
    using fun_cong [OF Cons.prems(3), of "fst p"] n fst_eq
    by (metis map_of_Cons_code(2) option.inject prod.collapse)
  ultimately show ?case
    using Cons.IH [of n'] Cons.prems(1,2) n by (simp add: smap_inv_Cons)
qed

lemma smap_set_above:
  "(\<And>q. q \<in> set m \<Longrightarrow> fst q < k) \<Longrightarrow> smap_set k v m = m @ [(k, v)]"
  by (induction m) auto

text \<open>\<open>m.erase(k)\<close>\<close>

definition smap_erase :: "'k::linorder \<Rightarrow> ('k \<times> 'v) list \<Rightarrow> ('k \<times> 'v) list" where
  "smap_erase k m = filter (\<lambda>p. fst p \<noteq> k) m"

lemma map_of_smap_erase: "map_of (smap_erase k m) = (map_of m)(k := None)"
  by (induction m) (auto simp: smap_erase_def fun_eq_iff)

lemma smap_inv_erase [simp]: "smap_inv m \<Longrightarrow> smap_inv (smap_erase k m)"
  by (induction m) (auto simp: smap_inv_Cons smap_erase_def)

lemma smap_set_same: "smap_inv m \<Longrightarrow> map_of m k = Some v \<Longrightarrow> smap_set k v m = m"
  by (rule smap_eqI) (auto simp: map_of_smap_set)

interpretation smap: kv_map_erase map_of smap_set id smap_inv smap_erase
  by unfold_locales (auto simp: smap_inv_distinct map_of_smap_set map_of_smap_erase)

section \<open>Unordered maps (\<open>std::unordered_map\<close>)\<close>

fun umap_replace :: "'k \<Rightarrow> 'v \<Rightarrow> ('k \<times> 'v) list \<Rightarrow> ('k \<times> 'v) list" where
  "umap_replace k v [] = []"
| "umap_replace k v (p # ps) = (if fst p = k then (k, v) # ps else p # umap_replace k v ps)"

definition umap_set :: "'k \<Rightarrow> 'v \<Rightarrow> ('k \<times> 'v) list \<Rightarrow> ('k \<times> 'v) list" where
  "umap_set k v m = (case map_of m k of None \<Rightarrow> (k, v) # m | Some _ \<Rightarrow> umap_replace k v m)"

definition umap_erase :: "'k \<Rightarrow> ('k \<times> 'v) list \<Rightarrow> ('k \<times> 'v) list" where
  "umap_erase k m = filter (\<lambda>p. fst p \<noteq> k) m"

definition umap_inv :: "('k \<times> 'v) list \<Rightarrow> bool" where
  "umap_inv m \<longleftrightarrow> distinct (map fst m)"

lemma umap_inv_Nil [simp]: "umap_inv []"
  by (simp add: umap_inv_def)

lemma fst_umap_replace [simp]: "map fst (umap_replace k v m) = map fst m"
  by (induction m) auto

lemma map_of_umap_replace: "map_of m k = Some u \<Longrightarrow> map_of (umap_replace k v m) = (map_of m)(k \<mapsto> v)"
  by (induction m) (auto simp: fun_eq_iff split: if_splits)

lemma map_of_umap_set [simp]: "map_of (umap_set k v m) = (map_of m)(k \<mapsto> v)"
  by (auto simp: umap_set_def map_of_umap_replace split: option.split)

lemma keys_umap_set: "fst ` set (umap_set k v m) = insert k (fst ` set m)"
  by (metis dom_fun_upd dom_map_of_conv_image_fst map_of_umap_set option.distinct(1))

lemma map_of_umap_erase [simp]: "map_of (umap_erase k m) = (map_of m)(k := None)"
  by (induction m) (auto simp: umap_erase_def fun_eq_iff)

lemma umap_inv_set [simp]: "umap_inv m \<Longrightarrow> umap_inv (umap_set k v m)"
  unfolding umap_inv_def umap_set_def
  by (simp del: distinct_map add: map_of_eq_None_iff split: option.split)

lemma umap_inv_erase [simp]: "umap_inv m \<Longrightarrow> umap_inv (umap_erase k m)"
  by (induction m) (auto simp: umap_inv_def umap_erase_def)

interpretation umap: kv_map_erase map_of umap_set id umap_inv umap_erase
  by unfold_locales (auto simp: umap_inv_def [symmetric])

end
