(* ===== verification/JsonValue.thy ===== *)
theory JsonValue
  imports Containers
begin

text \<open>
  The JSON values of \<open>common/json.hpp\<close> (\<open>basic_json\<close>): the value type and its
  inspection, the exceptions, the conversions \<open>get<T>()\<close> the program uses, and the
  element access \<open>at\<close>, \<open>operator[]\<close>, \<open>value\<close>, \<open>find\<close>, \<open>contains\<close>,
  \<open>items\<close> and the initializer-list constructor. Objects are \<open>std::map\<close>s from byte
  strings, numbers keep their three 64-bit representations; a double is its IEEE-754 bit
  pattern. Conversions to machine integers truncate as \<open>static_cast\<close> does; an
  out-of-range conversion from a double is undefined behaviour and is a result of its own.
\<close>

section \<open>Doubles\<close>

type_synonym dbl = u64

definition dbl_sign :: "dbl \<Rightarrow> bool" where
  "dbl_sign x = bit x 63"

definition dbl_exponent :: "dbl \<Rightarrow> nat" where
  "dbl_exponent x = unat x div 2 ^ 52 mod 2 ^ 11"

definition dbl_fraction :: "dbl \<Rightarrow> nat" where
  "dbl_fraction x = unat x mod 2 ^ 52"

text \<open>\<open>std::isfinite\<close>\<close>

definition dbl_isfinite :: "dbl \<Rightarrow> bool" where
  "dbl_isfinite x \<longleftrightarrow> dbl_exponent x \<noteq> 2047"

text \<open>The integer part of a finite double, rounded towards zero, as a conversion to an
  integer type takes it.\<close>

definition dbl_trunc_abs :: "dbl \<Rightarrow> nat" where
  "dbl_trunc_abs x =
     (let e = dbl_exponent x; f = dbl_fraction x;
          m = (if e = 0 then f else f + 2 ^ 52);
          s = (if e = 0 then 1 else e)
      in if 1075 \<le> s then m * 2 ^ (s - 1075) else m div 2 ^ (1075 - s))"

definition dbl_trunc :: "dbl \<Rightarrow> int" where
  "dbl_trunc x = (if dbl_sign x then - int (dbl_trunc_abs x) else int (dbl_trunc_abs x))"

section \<open>Values\<close>

datatype value_t =
    T_null | T_object | T_array | T_string | T_boolean
  | T_number_integer | T_number_unsigned | T_number_float | T_binary | T_discarded

datatype json =
    JNull
  | JObject "(string \<times> json) list"
  | JArray "json list"
  | JString string
  | JBoolean bool
  | JNumber_integer u64
  | JNumber_unsigned u64
  | JNumber_float dbl
  | JBinary string "u64 option"
  | JDiscarded

text \<open>The invariant of \<open>std::map\<close> in every object of a value.\<close>

fun json_inv :: "json \<Rightarrow> bool" where
  "json_inv (JObject m) \<longleftrightarrow> smap_inv m \<and> (\<forall>p \<in> set m. json_inv (snd p))"
| "json_inv (JArray xs) \<longleftrightarrow> (\<forall>x \<in> set xs. json_inv x)"
| "json_inv _ \<longleftrightarrow> True"

fun json_type :: "json \<Rightarrow> value_t" where
  "json_type JNull = T_null"
| "json_type (JObject _) = T_object"
| "json_type (JArray _) = T_array"
| "json_type (JString _) = T_string"
| "json_type (JBoolean _) = T_boolean"
| "json_type (JNumber_integer _) = T_number_integer"
| "json_type (JNumber_unsigned _) = T_number_unsigned"
| "json_type (JNumber_float _) = T_number_float"
| "json_type (JBinary _ _) = T_binary"
| "json_type JDiscarded = T_discarded"

definition is_null :: "json \<Rightarrow> bool" where
  "is_null j \<longleftrightarrow> json_type j = T_null"

definition is_object :: "json \<Rightarrow> bool" where
  "is_object j \<longleftrightarrow> json_type j = T_object"

definition is_array :: "json \<Rightarrow> bool" where
  "is_array j \<longleftrightarrow> json_type j = T_array"

definition is_string :: "json \<Rightarrow> bool" where
  "is_string j \<longleftrightarrow> json_type j = T_string"

definition is_boolean :: "json \<Rightarrow> bool" where
  "is_boolean j \<longleftrightarrow> json_type j = T_boolean"

definition is_discarded :: "json \<Rightarrow> bool" where
  "is_discarded j \<longleftrightarrow> json_type j = T_discarded"

definition is_number_integer :: "json \<Rightarrow> bool" where
  "is_number_integer j \<longleftrightarrow> json_type j = T_number_integer \<or> json_type j = T_number_unsigned"

definition is_number_float :: "json \<Rightarrow> bool" where
  "is_number_float j \<longleftrightarrow> json_type j = T_number_float"

definition is_number :: "json \<Rightarrow> bool" where
  "is_number j \<longleftrightarrow> is_number_integer j \<or> is_number_float j"

definition is_structured :: "json \<Rightarrow> bool" where
  "is_structured j \<longleftrightarrow> is_array j \<or> is_object j"

definition type_name :: "json \<Rightarrow> string" where
  "type_name j = (case json_type j of
     T_null \<Rightarrow> ''null'' | T_object \<Rightarrow> ''object'' | T_array \<Rightarrow> ''array'' | T_string \<Rightarrow> ''string''
   | T_boolean \<Rightarrow> ''boolean'' | T_binary \<Rightarrow> ''binary'' | T_discarded \<Rightarrow> ''discarded''
   | T_number_integer \<Rightarrow> ''number'' | T_number_unsigned \<Rightarrow> ''number'' | T_number_float \<Rightarrow> ''number'')"

lemma type_test_simps [simp]:
  "is_object j \<longleftrightarrow> (\<exists>m. j = JObject m)"
  "is_array j \<longleftrightarrow> (\<exists>xs. j = JArray xs)"
  "is_string j \<longleftrightarrow> (\<exists>s. j = JString s)"
  "is_boolean j \<longleftrightarrow> (\<exists>b. j = JBoolean b)"
  "is_null j \<longleftrightarrow> j = JNull"
  "is_discarded j \<longleftrightarrow> j = JDiscarded"
  by (cases j; simp add: is_object_def is_array_def is_string_def is_boolean_def is_null_def
      is_discarded_def)+

section \<open>Exceptions\<close>

definition exception_name :: "string \<Rightarrow> nat \<Rightarrow> string" where
  "exception_name ename i = ''[json.exception.'' @ ename @ ''.'' @ show_nat i @ ''] ''"

record position_t =
  chars_read_total :: nat
  chars_read_current_line :: nat
  lines_read :: nat

definition position_string :: "position_t \<Rightarrow> string" where
  "position_string pos = '' at line '' @ show_nat (lines_read pos + 1)
     @ '', column '' @ show_nat (chars_read_current_line pos)"

definition parse_error_create :: "nat \<Rightarrow> position_t \<Rightarrow> string \<Rightarrow> exn" where
  "parse_error_create i pos what_arg =
     Json_parse_error (int i) (chars_read_total pos)
       (exception_name ''parse_error'' i @ ''parse error'' @ position_string pos @ '': '' @ what_arg)"

definition type_error_create :: "nat \<Rightarrow> string \<Rightarrow> exn" where
  "type_error_create i what_arg = Json_type_error (int i) (exception_name ''type_error'' i @ what_arg)"

definition out_of_range_create :: "nat \<Rightarrow> string \<Rightarrow> exn" where
  "out_of_range_create i what_arg =
     Json_out_of_range (int i) (exception_name ''out_of_range'' i @ what_arg)"

section \<open>Conversions\<close>

text \<open>
  A target type is given by its range and by the word it is kept in. \<open>static_cast\<close> from
  a 64-bit integer keeps the low bits (\<open>ucast\<close>); from a double it truncates, and is
  undefined when the truncated value does not fit.
\<close>

definition static_cast_dbl :: "int \<Rightarrow> int \<Rightarrow> dbl \<Rightarrow> 'a::len word res" where
  "static_cast_dbl lo hi x =
     (if dbl_isfinite x \<and> lo \<le> dbl_trunc x \<and> dbl_trunc x \<le> hi then Inr (word_of_int (dbl_trunc x))
      else Inl (Undefined_behaviour ''floating-point value out of range of the target type''))"

definition get_arithmetic_value :: "int \<Rightarrow> int \<Rightarrow> json \<Rightarrow> 'a::len word res" where
  "get_arithmetic_value lo hi j = (case j of
     JNumber_unsigned w \<Rightarrow> Inr (ucast w)
   | JNumber_integer w \<Rightarrow> Inr (ucast w)
   | JNumber_float x \<Rightarrow> static_cast_dbl lo hi x
   | _ \<Rightarrow> Inl (type_error_create 302 (''type must be number, but is '' @ type_name j)))"

text \<open>The overload for the other arithmetic types also takes booleans.\<close>

definition from_json_arithmetic :: "int \<Rightarrow> int \<Rightarrow> json \<Rightarrow> 'a::len word res" where
  "from_json_arithmetic lo hi j = (case j of
     JNumber_unsigned w \<Rightarrow> Inr (ucast w)
   | JNumber_integer w \<Rightarrow> Inr (ucast w)
   | JNumber_float x \<Rightarrow> static_cast_dbl lo hi x
   | JBoolean b \<Rightarrow> Inr (if b then 1 else 0)
   | _ \<Rightarrow> Inl (type_error_create 302 (''type must be number, but is '' @ type_name j)))"

text \<open>
  The instances the program asks for, on an LP64 platform: \<open>uint64_t\<close> is the library's own
  \<open>number_unsigned_t\<close>, while \<open>unsigned long long\<close>, \<open>uint32_t\<close>, \<open>uint8_t\<close> and
  \<open>int\<close> are other types.
\<close>

definition get_uint64 :: "json \<Rightarrow> u64 res" where
  "get_uint64 = get_arithmetic_value 0 (2 ^ 64 - 1)"

definition get_unsigned_long_long :: "json \<Rightarrow> u64 res" where
  "get_unsigned_long_long = from_json_arithmetic 0 (2 ^ 64 - 1)"

definition get_uint32 :: "json \<Rightarrow> u32 res" where
  "get_uint32 = from_json_arithmetic 0 (2 ^ 32 - 1)"

definition get_uint8 :: "json \<Rightarrow> u8 res" where
  "get_uint8 = from_json_arithmetic 0 (2 ^ 8 - 1)"

definition get_int :: "json \<Rightarrow> u32 res" where
  "get_int = from_json_arithmetic (- (2 ^ 31)) (2 ^ 31 - 1)"

definition get_string :: "json \<Rightarrow> string res" where
  "get_string j = (case j of
     JString s \<Rightarrow> Inr s
   | _ \<Rightarrow> Inl (type_error_create 302 (''type must be string, but is '' @ type_name j)))"

definition get_json :: "json \<Rightarrow> json res" where
  "get_json j = Inr j"

section \<open>Element access\<close>

definition json_at :: "json \<Rightarrow> string \<Rightarrow> json res" where
  "json_at j key = (case j of
     JObject m \<Rightarrow> (case map_of m key of
         Some v \<Rightarrow> Inr v
       | None \<Rightarrow> Inl (out_of_range_create 403 (''key '' @ [chr 39] @ key @ [chr 39] @ '' not found'')))
   | _ \<Rightarrow> Inl (type_error_create 304 (''cannot use at() with '' @ type_name j)))"

text \<open>\<open>j[key] = v\<close>: a null value first becomes an empty object.\<close>

definition json_index_set :: "json \<Rightarrow> string \<Rightarrow> json \<Rightarrow> json res" where
  "json_index_set j key v = (case j of
     JNull \<Rightarrow> Inr (JObject (smap_set key v []))
   | JObject m \<Rightarrow> Inr (JObject (smap_set key v m))
   | _ \<Rightarrow> Inl (type_error_create 305
            (''cannot use operator[] with a string argument with '' @ type_name j)))"

text \<open>\<open>j[key]\<close> read on a mutable value: a missing key is added with a null value.\<close>

definition json_index :: "json \<Rightarrow> string \<Rightarrow> (json \<times> json) res" where
  "json_index j key = (case (if is_null j then JObject [] else j) of
     JObject m \<Rightarrow>
       (let m' = smap_emplace key JNull m in Inr (the (map_of m' key), JObject m'))
   | j' \<Rightarrow> Inl (type_error_create 305
            (''cannot use operator[] with a string argument with '' @ type_name j')))"

definition json_value :: "(json \<Rightarrow> 'a res) \<Rightarrow> json \<Rightarrow> string \<Rightarrow> 'a \<Rightarrow> 'a res" where
  "json_value get j key default_value = (case j of
     JObject m \<Rightarrow> (case map_of m key of Some v \<Rightarrow> get v | None \<Rightarrow> Inr default_value)
   | _ \<Rightarrow> Inl (type_error_create 306 (''cannot use value() with '' @ type_name j)))"

definition json_contains :: "json \<Rightarrow> string \<Rightarrow> bool" where
  "json_contains j key = (case j of JObject m \<Rightarrow> map_of m key \<noteq> None | _ \<Rightarrow> False)"

text \<open>The pairs \<open>items()\<close> iterates over: object entries, array elements keyed by their
  decimal index, nothing for null, and one pair with the empty key for a primitive value.\<close>

definition json_items :: "json \<Rightarrow> (string \<times> json) list" where
  "json_items j = (case j of
     JObject m \<Rightarrow> m
   | JArray xs \<Rightarrow> map (\<lambda>i. (show_nat i, xs ! i)) [0..<length xs]
   | JNull \<Rightarrow> []
   | _ \<Rightarrow> [([], j)])"

text \<open>
  \<open>basic_json(initializer_list)\<close>: when every element is an array of two elements whose
  first is a string, an object (the first of two equal keys wins, as \<open>emplace\<close> does),
  otherwise an array.
\<close>

fun is_pair :: "json \<Rightarrow> bool" where
  "is_pair (JArray [JString _, _]) = True"
| "is_pair _ = False"

fun emplace_pair :: "json \<Rightarrow> (string \<times> json) list \<Rightarrow> (string \<times> json) list" where
  "emplace_pair (JArray [JString k, v]) m = smap_emplace k v m"
| "emplace_pair _ m = m"

definition json_init :: "json list \<Rightarrow> json" where
  "json_init xs = (if list_all is_pair xs then JObject (fold emplace_pair xs []) else JArray xs)"

end
