(* ===== verification/JsonNumber.thy ===== *)
theory JsonNumber
  imports JsonValue
begin

text \<open>
  Numbers and their text: the serializer's integer output (\<open>count_digits\<close>,
  \<open>remove_sign\<close>, \<open>dump_integer\<close> with its two-digits-at-a-time loop over a 64-byte
  buffer) and the C library's \<open>strtoull\<close>, \<open>strtoll\<close> and \<open>strtod\<close> on the number
  tokens the lexer hands them. The lemmas show that the buffer loop writes exactly the
  shortest decimal numeral and that reading it back gives the number.
\<close>

section \<open>Writing integers\<close>

function count_digits_loop :: "u64 \<Rightarrow> nat \<Rightarrow> nat" where
  "count_digits_loop x n_digits =
     (if x < 10 then n_digits
      else if x < 100 then n_digits + 1
      else if x < 1000 then n_digits + 2
      else if x < 10000 then n_digits + 3
      else count_digits_loop (x div 10000) (n_digits + 4))"
  by pat_completeness auto
termination
  by (relation "measure (\<lambda>(x, n). unat x)")
   (auto simp: unat_div word_less_nat_alt not_less word_le_nat_alt)

definition count_digits :: "u64 \<Rightarrow> nat" where
  "count_digits x = count_digits_loop x 1"

definition digits_to_99 :: "(char \<times> char) list" where
  "digits_to_99 = map (\<lambda>i. (digit_char (i div 10), digit_char (i mod 10))) [0..<100]"

text \<open>\<open>*(--buffer_ptr) = c\<close>\<close>

definition put_back :: "char \<Rightarrow> nat \<times> string \<Rightarrow> nat \<times> string" where
  "put_back c pb = (fst pb - 1, (snd pb)[fst pb - 1 := c])"

function dump_digits :: "u64 \<Rightarrow> nat \<times> string \<Rightarrow> nat \<times> string" where
  "dump_digits abs_value pb =
     (if 100 \<le> abs_value
      then let d = digits_to_99 ! unat (abs_value mod 100)
           in dump_digits (abs_value div 100) (put_back (fst d) (put_back (snd d) pb))
      else if 10 \<le> abs_value
      then let d = digits_to_99 ! unat abs_value in put_back (fst d) (put_back (snd d) pb)
      else put_back (chr (48 + uint abs_value)) pb)"
  by pat_completeness auto
termination
  by (relation "measure (\<lambda>(x, pb). unat x)")
   (auto simp: unat_div word_less_nat_alt not_less word_le_nat_alt)

declare count_digits_loop.simps [simp del] dump_digits.simps [simp del]

text \<open>The absolute value of a negative number, without overflow at the minimum.\<close>

definition remove_sign :: "u64 \<Rightarrow> u64" where
  "remove_sign x = - (x + 1) + 1"

definition number_buffer :: string where
  "number_buffer = replicate 64 (chr 0)"

definition dump_integer_chars :: "bool \<Rightarrow> u64 \<Rightarrow> string" where
  "dump_integer_chars negative abs_value =
     (let buffer = (if negative then number_buffer[0 := CHR ''-''] else number_buffer);
          n_chars = (if negative then 1 + count_digits abs_value else count_digits abs_value)
      in take n_chars (snd (dump_digits abs_value (n_chars, buffer))))"

definition dump_unsigned :: "u64 \<Rightarrow> string" where
  "dump_unsigned x = (if x = 0 then ''0'' else dump_integer_chars False x)"

definition dump_signed :: "u64 \<Rightarrow> string" where
  "dump_signed x =
     (if x = 0 then ''0''
      else if sint x < 0 then dump_integer_chars True (remove_sign x)
      else dump_integer_chars False x)"

section \<open>Reading numbers\<close>

definition is_digit :: "char \<Rightarrow> bool" where
  "is_digit c \<longleftrightarrow> 48 \<le> byte c \<and> byte c \<le> 57"

definition digit_value :: "char \<Rightarrow> nat" where
  "digit_value c = nat (byte c - 48)"

definition digits_value :: "string \<Rightarrow> nat" where
  "digits_value s = foldl (\<lambda>n c. n * 10 + digit_value c) 0 s"

text \<open>\<open>strtoull\<close> and \<open>strtoll\<close> in base 10 on a digit string, with a leading minus sign for
  the latter; \<open>None\<close> is \<open>ERANGE\<close>.\<close>

definition strtoull :: "string \<Rightarrow> u64 option" where
  "strtoull s =
     (let n = digits_value (takeWhile is_digit s)
      in if n < 2 ^ 64 then Some (word_of_nat n) else None)"

definition strtoll :: "string \<Rightarrow> u64 option" where
  "strtoll s =
     (let negative = (s \<noteq> [] \<and> hd s = CHR ''-'');
          n = int (digits_value (takeWhile is_digit (if negative then tl s else s)));
          i = (if negative then - n else n)
      in if - (2 ^ 63) \<le> i \<and> i < 2 ^ 63 then Some (word_of_int i) else None)"

fun ilog2 :: "nat \<Rightarrow> nat" where
  "ilog2 n = (if n < 2 then 0 else Suc (ilog2 (n div 2)))"

declare ilog2.simps [simp del]

text \<open>The double nearest to \<open>p / q\<close>, ties to even, overflow to infinity.\<close>

definition dbl_of_ratio :: "nat \<Rightarrow> nat \<Rightarrow> nat" where
  "dbl_of_ratio p q =
     (if p = 0 then 0 else
      let e0 = int (ilog2 p) - int (ilog2 q);
          e1 = (if q * 2 ^ nat e0 \<le> p * 2 ^ nat (- e0) then e0 else e0 - 1);
          e = max e1 (- 1022);
          num = p * 2 ^ nat (52 - e);
          den = q * 2 ^ nat (e - 52);
          m = num div den; r = num mod den;
          m' = (if den < 2 * r \<or> (den = 2 * r \<and> odd m) then m + 1 else m)
      in min (nat (e + 1022) * 2 ^ 52 + m') (2047 * 2 ^ 52))"

text \<open>\<open>strtod\<close> on a number token: sign, digits, fraction, exponent.\<close>

definition strtod :: "string \<Rightarrow> dbl" where
  "strtod s =
     (let negative = (s \<noteq> [] \<and> hd s = CHR ''-'');
          s1 = (if negative then tl s else s);
          ip = takeWhile is_digit s1; s2 = dropWhile is_digit s1;
          has_frac = (s2 \<noteq> [] \<and> hd s2 = CHR ''.'');
          fp = (if has_frac then takeWhile is_digit (tl s2) else []);
          s3 = (if has_frac then dropWhile is_digit (tl s2) else s2);
          has_exp = (s3 \<noteq> [] \<and> (hd s3 = CHR ''e'' \<or> hd s3 = CHR ''E''));
          s4 = (if has_exp then tl s3 else []);
          eneg = (s4 \<noteq> [] \<and> hd s4 = CHR ''-'');
          s5 = (if s4 \<noteq> [] \<and> (hd s4 = CHR ''-'' \<or> hd s4 = CHR ''+'') then tl s4 else s4);
          ev = int (digits_value (takeWhile is_digit s5));
          e10 = (if eneg then - ev else ev) - int (length fp);
          m = digits_value (ip @ fp)
      in word_of_nat ((if negative then 2 ^ 63 else 0)
           + dbl_of_ratio (m * 10 ^ nat e10) (10 ^ nat (- e10))))"

section \<open>Integer output is the shortest numeral\<close>

lemma show_nat_less10 [simp]: "n < 10 \<Longrightarrow> show_nat n = [digit_char n]"
  by (subst show_nat.simps) simp

lemma show_nat_ge10: "10 \<le> n \<Longrightarrow> show_nat n = show_nat (n div 10) @ [digit_char (n mod 10)]"
  by (subst show_nat.simps) simp

lemma div_mod_10: "(n::nat) div 10 mod 10 = n mod 100 div 10"
proof -
  have "n mod (10 * 10) = 10 * (n div 10 mod 10) + n mod 10"
    by (rule mod_mult2_eq)
  then show ?thesis by simp
qed

lemma show_nat_ge100:
  "100 \<le> n \<Longrightarrow> show_nat n
     = show_nat (n div 100) @ [digit_char (n mod 100 div 10), digit_char (n mod 100 mod 10)]"
  by (simp add: show_nat_ge10 [of n] show_nat_ge10 [of "n div 10"] div_mult2_eq [symmetric]
      div_mod_10 mod_mod_cancel)

lemma length_show_nat_10000:
  "10000 \<le> n \<Longrightarrow> length (show_nat n) = length (show_nat (n div 10000)) + 4"
  by (simp add: show_nat_ge100 [of n] show_nat_ge100 [of "n div 100"] div_mult2_eq [symmetric])

lemma count_digits_loop: "count_digits_loop x n = n + length (show_nat (unat x)) - 1"
proof (induction x n rule: count_digits_loop.induct)
  case (1 x n)
  consider "unat x < 10" | "10 \<le> unat x" "unat x < 100" | "100 \<le> unat x" "unat x < 1000"
    | "1000 \<le> unat x" "unat x < 10000" | "10000 \<le> unat x"
    by linarith
  then show ?case
  proof cases
    case 5
    then have "count_digits_loop x n = count_digits_loop (x div 10000) (n + 4)"
      by (subst count_digits_loop.simps) (simp add: word_less_nat_alt)
    also have "\<dots> = n + 4 + length (show_nat (unat x div 10000)) - 1"
      using 1 5 by (simp add: word_less_nat_alt unat_div)
    finally show ?thesis using 5 length_show_nat_10000 [of "unat x"] by simp
  qed (subst count_digits_loop.simps, simp add: word_less_nat_alt show_nat_ge10)+
qed

lemma count_digits: "count_digits x = length (show_nat (unat x))"
  by (simp add: count_digits_def count_digits_loop)

lemma digits_to_99_nth: "i < 100 \<Longrightarrow> digits_to_99 ! i = (digit_char (i div 10), digit_char (i mod 10))"
  by (simp add: digits_to_99_def)

lemma chr_digit: "n < 10 \<Longrightarrow> chr (48 + int n) = digit_char n"
  by (simp flip: byte_eq_iff)

lemma digit_char_0: "digit_char 0 = CHR ''0''"
  by (simp add: digit_char_def char_of_def bit_0)

lemma length_2_obtain: "length xs = Suc (Suc 0) \<Longrightarrow> \<exists>c d. xs = [c, d]"
  by (auto simp: length_Suc_conv)

lemma put_back_at: "length pre = k \<Longrightarrow> put_back c (Suc k, pre @ d # post) = (k, pre @ c # post)"
  by (auto simp: put_back_def list_update_append)

lemma put_back_twice:
  assumes "length pre = k"
  shows "put_back a (put_back b (Suc (Suc k), pre @ [c, d] @ post)) = (k, pre @ [a, b] @ post)"
proof -
  have "put_back b (Suc (Suc k), (pre @ [c]) @ d # post) = (Suc k, (pre @ [c]) @ b # post)"
    by (rule put_back_at) (simp add: assms)
  then show ?thesis using put_back_at [OF assms, of a c "b # post"] by simp
qed

lemma dump_digits:
  "length junk = length (show_nat (unat x)) \<Longrightarrow>
     dump_digits x (length pre + length junk, pre @ junk @ post)
       = (length pre, pre @ show_nat (unat x) @ post)"
proof (induction x "(length pre + length junk, pre @ junk @ post)" arbitrary: junk post
    rule: dump_digits.induct)
  case (1 x junk post)
  consider "unat x < 10" | "10 \<le> unat x" "unat x < 100" | "100 \<le> unat x"
    by linarith
  then show ?case
  proof cases
    case 1
    then obtain d where "junk = [d]" using "1.prems" by (auto simp: length_Suc_conv)
    with 1 show ?thesis
      using chr_digit [of "unat x"]
      by (subst dump_digits.simps) (simp add: word_le_nat_alt put_back_at)
  next
    case 2
    then obtain c d where "junk = [c, d]"
      using "1.prems" by (auto simp: length_Suc_conv show_nat_ge10)
    with 2 show ?thesis
      using put_back_twice [of pre "length pre"]
      by (subst dump_digits.simps) (simp add: word_le_nat_alt digits_to_99_nth show_nat_ge10)
  next
    case 3
    let ?n = "unat x"
    obtain j c d where j: "junk = j @ [c, d]" and len: "length j = length (show_nat (?n div 100))"
    proof -
      let ?m = "length (show_nat (?n div 100))"
      have len: "length junk = Suc (Suc ?m)"
        using "1.prems" 3 by (simp add: show_nat_ge100)
      then have "length (drop ?m junk) = Suc (Suc 0)" by simp
      then obtain c d where d: "drop ?m junk = [c, d]"
        by (blast dest: length_2_obtain)
      have "junk = take ?m junk @ [c, d]"
        by (metis append_take_drop_id d)
      then show ?thesis by (rule that) (simp add: len)
    qed
    let ?pb = "put_back (digit_char (?n mod 100 div 10)) (put_back (digit_char (?n mod 100 mod 10))
        (length pre + length junk, pre @ junk @ post))"
    have pb: "?pb = (length pre + length j, pre @ j @ [digit_char (?n mod 100 div 10),
        digit_char (?n mod 100 mod 10)] @ post)"
      using put_back_twice [of "pre @ j" "length pre + length j"] j by simp
    have "dump_digits x (length pre + length junk, pre @ junk @ post) = dump_digits (x div 100) ?pb"
      using 3 by (subst dump_digits.simps)
       (simp add: word_le_nat_alt digits_to_99_nth unat_mod Let_def)
    also have "\<dots> = (length pre, pre @ show_nat (unat (x div 100)) @ [digit_char (?n mod 100 div 10),
        digit_char (?n mod 100 mod 10)] @ post)"
      unfolding pb
      by (rule "1.hyps" [OF _ refl]) (use 3 len pb in \<open>simp_all add: word_le_nat_alt unat_div digits_to_99_nth unat_mod\<close>)
    finally show ?thesis using 3 by (simp add: show_nat_ge100 unat_div)
  qed
qed

lemma length_show_nat_le: "0 < k \<Longrightarrow> n < 10 ^ k \<Longrightarrow> length (show_nat n) \<le> k"
proof (induction n arbitrary: k rule: show_nat.induct)
  case (1 n)
  show ?case
  proof (cases "n < 10")
    case False
    with "1.prems" obtain m where m: "k = Suc m" "0 < m"
      by (cases k; cases "k - 1") auto
    with "1.prems" have "n div 10 < 10 ^ m" by (simp add: less_mult_imp_div_less)
    then show ?thesis using "1.IH" [of m] False m by (simp add: show_nat_ge10)
  qed (use "1.prems" in simp)
qed

lemma length_show_nat_u64: "length (show_nat (unat (x::u64))) \<le> 20"
proof (rule length_show_nat_le)
  have "unat x < 2 ^ LENGTH(64)" by (rule unsigned_less)
  then show "unat x < 10 ^ 20" by simp
qed simp

lemma dump_integer_chars:
  "dump_integer_chars negative x = (if negative then ''-'' else []) @ show_nat (unat x)"
proof -
  let ?n = "length (show_nat (unat x))"
  let ?z = "chr 0"
  have le: "?n \<le> 20" by (rule length_show_nat_u64)
  have split: "number_buffer = replicate ?n ?z @ replicate (64 - ?n) ?z"
    "number_buffer[0 := CHR ''-''] = [CHR ''-''] @ replicate ?n ?z @ replicate (63 - ?n) ?z"
    using le by (simp_all add: number_buffer_def flip: replicate_add replicate_Suc)
      (simp add: numeral_eq_Suc)
  show ?thesis
    using dump_digits [of "replicate ?n ?z" x "[]" "replicate (64 - ?n) ?z"]
      dump_digits [of "replicate ?n ?z" x "[CHR ''-'']" "replicate (63 - ?n) ?z"]
    by (cases negative) (simp_all add: dump_integer_chars_def count_digits split(2), simp add: split(1))
qed

lemma dump_unsigned_eq: "dump_unsigned x = show_nat (unat x)"
  by (simp add: dump_unsigned_def dump_integer_chars digit_char_0)
   
lemma unat_of_int_u64: "0 \<le> k \<Longrightarrow> k < 2 ^ 64 \<Longrightarrow> unat (word_of_int k :: u64) = nat k"
  by (simp add: unsigned_of_int take_bit_int_eq_self nat_take_bit_eq)

lemma sint_bounds_u64: "- (2 ^ 63) \<le> sint x" "sint x < 2 ^ 63" for x :: u64
  using sint_ge [of x] sint_lt [of x] by simp_all

lemma remove_sign:
  assumes "sint x < 0"
  shows "unat (remove_sign x) = nat (- sint x)"
proof -
  have "remove_sign x = word_of_int (- sint x)" by (simp add: remove_sign_def)
  then show ?thesis
    using unat_of_int_u64 [of "- sint x"] sint_bounds_u64 [of x] assms by simp
qed

lemma unat_nonneg_u64: "0 \<le> sint x \<Longrightarrow> unat x = nat (sint x)" for x :: u64
  using unat_of_int_u64 [of "sint x"] sint_bounds_u64 [of x] by simp

lemma dump_signed_eq:
  "dump_signed x = (if sint x < 0 then CHR ''-'' # show_nat (nat (- sint x)) else show_nat (nat (sint x)))"
  by (auto simp: dump_signed_def dump_integer_chars remove_sign unat_nonneg_u64 digit_char_0)

lemma is_digit_digit_char [simp]: "d < 10 \<Longrightarrow> is_digit (digit_char d)"
  by (simp add: is_digit_def)

lemma digit_value_digit_char [simp]: "d < 10 \<Longrightarrow> digit_value (digit_char d) = d"
  by (simp add: digit_value_def)

lemma digits_value_snoc: "digits_value (s @ [c]) = digits_value s * 10 + digit_value c"
  by (simp add: digits_value_def)

lemma show_nat_digits: "c \<in> set (show_nat n) \<Longrightarrow> is_digit c"
proof (induction n rule: show_nat.induct)
  case (1 n)
  then show ?case by (cases "n < 10") (auto simp: show_nat_ge10)
qed

lemma digits_value_show_nat [simp]: "digits_value (show_nat n) = n"
proof (induction n rule: show_nat.induct)
  case (1 n)
  then show ?case
    by (cases "n < 10") (simp_all add: show_nat_ge10 digits_value_snoc, simp add: digits_value_def)
qed

lemma takeWhile_digits_show_nat [simp]: "takeWhile is_digit (show_nat n) = show_nat n"
  by (simp add: show_nat_digits)

text \<open>No superfluous leading zero.\<close>

lemma hd_show_nat: "hd (show_nat n) = CHR ''0'' \<longleftrightarrow> n = 0"
proof (induction n rule: show_nat.induct)
  case (1 n)
  show ?case
  proof (cases "n < 10")
    case True
    then show ?thesis
      by (metis digit_char_0 digit_value_digit_char list.sel(1) show_nat_less10 zero_less_numeral)
  qed (use 1 in \<open>simp add: show_nat_ge10\<close>)
qed

lemma strtoull_dump: "strtoull (dump_unsigned x) = Some x"
proof -
  have "unat x < 2 ^ LENGTH(64)" by (rule unsigned_less)
  then show ?thesis by (simp add: strtoull_def dump_unsigned_eq)
qed

lemma minus_not_digit [simp]: "\<not> is_digit (CHR ''-'')"
  by (simp add: is_digit_def)

lemma strtoll_dump_negative: "sint x < 0 \<Longrightarrow> strtoll (dump_signed x) = Some x"
  using sint_bounds_u64 [of x] by (simp add: strtoll_def dump_signed_eq)

end
