(* ===== verification/Lexer.thy ===== *)
theory Lexer
  imports JsonNumber
begin

text \<open>
  The lexer of \<open>common/json.hpp\<close>: the state of class \<open>lexer\<close> is the record \<open>lexer\<close>,
  its member functions are functions on that record. The characters not yet read are
  \<open>pending\<close>: every loop of the lexer shortens them, which is what ends it.
\<close>

datatype token_type =
    Tok_uninitialized | Tok_literal_true | Tok_literal_false | Tok_literal_null
  | Tok_value_string | Tok_value_unsigned | Tok_value_integer | Tok_value_float
  | Tok_begin_array | Tok_begin_object | Tok_end_array | Tok_end_object
  | Tok_name_separator | Tok_value_separator | Tok_parse_error | Tok_end_of_input
  | Tok_literal_or_value

definition quoted :: "char \<Rightarrow> string" where
  "quoted c = [chr 39, c, chr 39]"

fun token_type_name :: "token_type \<Rightarrow> string" where
  "token_type_name Tok_uninitialized = ''<uninitialized>''"
| "token_type_name Tok_literal_true = ''true literal''"
| "token_type_name Tok_literal_false = ''false literal''"
| "token_type_name Tok_literal_null = ''null literal''"
| "token_type_name Tok_value_string = ''string literal''"
| "token_type_name Tok_value_unsigned = ''number literal''"
| "token_type_name Tok_value_integer = ''number literal''"
| "token_type_name Tok_value_float = ''number literal''"
| "token_type_name Tok_begin_array = quoted (CHR ''['')"
| "token_type_name Tok_begin_object = quoted (CHR ''{'')"
| "token_type_name Tok_end_array = quoted (CHR '']'')"
| "token_type_name Tok_end_object = quoted (CHR ''}'')"
| "token_type_name Tok_name_separator = quoted (CHR '':'')"
| "token_type_name Tok_value_separator = quoted (CHR '','')"
| "token_type_name Tok_parse_error = ''<parse error>''"
| "token_type_name Tok_end_of_input = ''end of input''"
| "token_type_name Tok_literal_or_value =
     quoted (CHR ''['') @ '', '' @ quoted (CHR ''{'') @ '', or a literal''"

section \<open>State and input\<close>

text \<open>\<open>char_traits<char>::eof()\<close>; the current character is an \<open>int\<close> in the code.\<close>

abbreviation eof :: int where
  "eof \<equiv> - 1"

record lexer =
  lx_ia :: string
  lx_ignore_comments :: bool
  lx_current :: int
  lx_next_unget :: bool
  lx_position :: position_t
  lx_token_string :: string
  lx_token_buffer :: string
  lx_error_message :: string
  lx_value_integer :: u64
  lx_value_unsigned :: u64
  lx_value_float :: dbl
  lx_decimal_point_char :: int
  lx_decimal_point_position :: "nat option"

text \<open>The program never calls \<open>setlocale\<close>, so the decimal point is that of the "C" locale.\<close>

definition get_decimal_point :: int where
  "get_decimal_point = 46"

definition lexer_init :: "string \<Rightarrow> bool \<Rightarrow> lexer" where
  "lexer_init adapter ignore_comments =
     \<lparr>lx_ia = adapter, lx_ignore_comments = ignore_comments, lx_current = eof,
      lx_next_unget = False,
      lx_position = \<lparr>chars_read_total = 0, chars_read_current_line = 0, lines_read = 0\<rparr>,
      lx_token_string = [], lx_token_buffer = [], lx_error_message = [],
      lx_value_integer = 0, lx_value_unsigned = 0, lx_value_float = 0,
      lx_decimal_point_char = get_decimal_point, lx_decimal_point_position = None\<rparr>"

text \<open>The input adapters over a string view and over a stream both read byte by byte.\<close>

definition get_character :: "string \<Rightarrow> int \<times> string" where
  "get_character ia = (case ia of [] \<Rightarrow> (eof, []) | c # cs \<Rightarrow> (byte c, cs))"

definition reset_token :: "lexer \<Rightarrow> lexer" where
  "reset_token l = l\<lparr>lx_token_buffer := [], lx_token_string := [chr (lx_current l)],
     lx_decimal_point_position := None\<rparr>"

definition get_read :: "lexer \<Rightarrow> lexer" where
  "get_read l =
     (if lx_next_unget l then l\<lparr>lx_next_unget := False\<rparr>
      else let (c, cs) = get_character (lx_ia l) in l\<lparr>lx_current := c, lx_ia := cs\<rparr>)"

definition get_account :: "position_t \<Rightarrow> int \<Rightarrow> position_t" where
  "get_account pos c =
     (let p = pos\<lparr>chars_read_total := chars_read_total pos + 1,
                  chars_read_current_line := chars_read_current_line pos + 1\<rparr>
      in if c = 10 then p\<lparr>lines_read := lines_read p + 1, chars_read_current_line := 0\<rparr> else p)"

definition get :: "lexer \<Rightarrow> lexer" where
  "get l0 =
     (let l = get_read l0; c = lx_current l
      in l\<lparr>lx_position := get_account (lx_position l) c,
           lx_token_string := (if c \<noteq> eof then lx_token_string l @ [chr c] else lx_token_string l)\<rparr>)"

definition unget_account :: "position_t \<Rightarrow> position_t" where
  "unget_account pos =
     (let p = pos\<lparr>chars_read_total := chars_read_total pos - 1\<rparr>
      in if chars_read_current_line p = 0
         then (if 0 < lines_read p then p\<lparr>lines_read := lines_read p - 1\<rparr> else p)
         else p\<lparr>chars_read_current_line := chars_read_current_line p - 1\<rparr>)"

definition unget :: "lexer \<Rightarrow> lexer" where
  "unget l = l\<lparr>lx_next_unget := True, lx_position := unget_account (lx_position l),
     lx_token_string := (if lx_current l \<noteq> eof then butlast (lx_token_string l)
                         else lx_token_string l)\<rparr>"

definition add :: "int \<Rightarrow> lexer \<Rightarrow> lexer" where
  "add c l = l\<lparr>lx_token_buffer := lx_token_buffer l @ [chr c]\<rparr>"

definition set_error :: "string \<Rightarrow> lexer \<Rightarrow> lexer" where
  "set_error msg l = l\<lparr>lx_error_message := msg\<rparr>"

definition lexer_get_string :: "lexer \<Rightarrow> string" where
  "lexer_get_string l = (case lx_decimal_point_position l of
     Some i \<Rightarrow> (if lx_decimal_point_char l \<noteq> 46 then (lx_token_buffer l)[i := CHR ''.'']
                else lx_token_buffer l)
   | None \<Rightarrow> lx_token_buffer l)"

definition get_token_string :: "lexer \<Rightarrow> string" where
  "get_token_string l = concat (map (\<lambda>c. if byte c \<le> 31
     then ''<U+'' @ hex4_upper (of_char c) @ ''>'' else [c]) (lx_token_string l))"

section \<open>The input still to be read\<close>

definition pending :: "lexer \<Rightarrow> string" where
  "pending l = (if lx_next_unget l \<and> lx_current l \<noteq> eof then chr (lx_current l) # lx_ia l
                else lx_ia l)"

text \<open>A character that will be read again is a byte, or the end of an exhausted input.\<close>

definition lexer_wf :: "lexer \<Rightarrow> bool" where
  "lexer_wf l \<longleftrightarrow> (lx_next_unget l \<longrightarrow>
     eof \<le> lx_current l \<and> lx_current l < 256 \<and> (lx_current l = eof \<longrightarrow> lx_ia l = []))"

lemma pending_update [view_simps, simp]:
  "pending (l\<lparr>lx_token_buffer := b\<rparr>) = pending l"
  "pending (l\<lparr>lx_error_message := e\<rparr>) = pending l"
  "pending (l\<lparr>lx_value_unsigned := u\<rparr>) = pending l"
  "pending (l\<lparr>lx_value_integer := u\<rparr>) = pending l"
  "pending (l\<lparr>lx_value_float := u\<rparr>) = pending l"
  "pending (l\<lparr>lx_decimal_point_position := d\<rparr>) = pending l"
  "pending (add c l) = pending l"
  "pending (set_error m l) = pending l"
  "pending (reset_token l) = pending l"
  by (simp_all add: pending_def add_def set_error_def reset_token_def)

lemma length_pending_get: "length (pending (get l)) \<le> length (pending l)"
  by (auto simp: pending_def get_def get_read_def get_character_def Let_def split: list.split)

lemma length_pending_get_less:
  "lx_current (get l) \<noteq> eof \<Longrightarrow> length (pending (get l)) < length (pending l)"
  by (auto simp: pending_def get_def get_read_def get_character_def Let_def
      split: list.splits if_splits)

lemma length_pending_unget_get: "length (pending (unget (get l))) \<le> length (pending l)"
  by (auto simp: pending_def get_def unget_def get_read_def get_character_def Let_def split: list.splits)

lemma current_frame [frame_simps, simp]:
  "lx_current (add c l) = lx_current l"
  "lx_current (set_error m l) = lx_current l"
  "lx_current (reset_token l) = lx_current l"
  "lx_current (unget l) = lx_current l"
  by (simp_all add: add_def set_error_def reset_token_def unget_def)

section \<open>Strings\<close>

fun get_codepoint_loop :: "nat list \<Rightarrow> int \<Rightarrow> lexer \<Rightarrow> int \<times> lexer" where
  "get_codepoint_loop [] codepoint l = (codepoint, l)"
| "get_codepoint_loop (factor # factors) codepoint l0 =
     (let l = get l0; c = lx_current l
      in if 48 \<le> c \<and> c \<le> 57
         then get_codepoint_loop factors (codepoint + push_bit factor (c - 48)) l
         else if 65 \<le> c \<and> c \<le> 70
         then get_codepoint_loop factors (codepoint + push_bit factor (c - 55)) l
         else if 97 \<le> c \<and> c \<le> 102
         then get_codepoint_loop factors (codepoint + push_bit factor (c - 87)) l
         else (- 1, l))"

definition get_codepoint :: "lexer \<Rightarrow> int \<times> lexer" where
  "get_codepoint l = get_codepoint_loop [12, 8, 4, 0] 0 l"

fun next_byte_in_range_loop :: "(int \<times> int) list \<Rightarrow> lexer \<Rightarrow> bool \<times> lexer" where
  "next_byte_in_range_loop [] l = (True, l)"
| "next_byte_in_range_loop (rng # ranges) l0 =
     (let l = get l0
      in if fst rng \<le> lx_current l \<and> lx_current l \<le> snd rng
         then next_byte_in_range_loop ranges (add (lx_current l) l)
         else (False, set_error ''invalid string: ill-formed UTF-8 byte'' l))"

definition next_byte_in_range :: "(int \<times> int) list \<Rightarrow> lexer \<Rightarrow> bool \<times> lexer" where
  "next_byte_in_range ranges l = next_byte_in_range_loop ranges (add (lx_current l) l)"

text \<open>
  One turn of the loop of \<open>scan_string\<close>: \<open>Some t\<close> is a \<open>return\<close>, \<open>None\<close> goes on to
  the next character.
\<close>

definition scan_error :: "string \<Rightarrow> lexer \<Rightarrow> token_type option \<times> lexer" where
  "scan_error msg l = (Some Tok_parse_error, set_error msg l)"

text \<open>Writing a code point in UTF-8.\<close>

definition add_codepoint :: "int \<Rightarrow> lexer \<Rightarrow> lexer" where
  "add_codepoint cp l =
     (if cp < 128 then add cp l
      else if cp \<le> 2047
      then add (128 OR (cp AND 63)) (add (192 OR drop_bit 6 cp) l)
      else if cp \<le> 65535
      then add (128 OR (cp AND 63)) (add (128 OR (drop_bit 6 cp AND 63))
             (add (224 OR drop_bit 12 cp) l))
      else add (128 OR (cp AND 63)) (add (128 OR (drop_bit 6 cp AND 63))
             (add (128 OR (drop_bit 12 cp AND 63)) (add (240 OR drop_bit 18 cp) l))))"

text \<open>A \<open>\u\<close> escape, with the second half of a surrogate pair where the first needs one.\<close>

definition hex_error :: string where
  "hex_error = ''invalid string: '' @ [chr 39, chr 92] @ ''u'' @ [chr 39]
     @ '' must be followed by 4 hex digits''"

definition surrogate_error :: string where
  "surrogate_error = ''invalid string: surrogate U+D800..U+DBFF must be followed by U+DC00..U+DFFF''"

definition scan_low_surrogate :: "int \<Rightarrow> lexer \<Rightarrow> token_type option \<times> lexer" where
  "scan_low_surrogate codepoint1 l0 =
     (let l1 = get l0 in
      if lx_current l1 \<noteq> 92 then scan_error surrogate_error l1
      else let l2 = get l1 in
      if lx_current l2 \<noteq> 117 then scan_error surrogate_error l2
      else let (codepoint2, l3) = get_codepoint l2 in
      if codepoint2 = - 1 then scan_error hex_error l3
      else if 56320 \<le> codepoint2 \<and> codepoint2 \<le> 57343
      then (None, add_codepoint (push_bit 10 codepoint1 + codepoint2 - 56613888) l3)
      else scan_error surrogate_error l3)"

definition scan_unicode_escape :: "lexer \<Rightarrow> token_type option \<times> lexer" where
  "scan_unicode_escape l0 =
     (let (codepoint1, l1) = get_codepoint l0 in
      if codepoint1 = - 1 then scan_error hex_error l1
      else if 55296 \<le> codepoint1 \<and> codepoint1 \<le> 56319 then scan_low_surrogate codepoint1 l1
      else if 56320 \<le> codepoint1 \<and> codepoint1 \<le> 57343
      then scan_error ''invalid string: surrogate U+DC00..U+DFFF must follow U+D800..U+DBFF'' l1
      else (None, add_codepoint codepoint1 l1))"

definition scan_escape :: "lexer \<Rightarrow> token_type option \<times> lexer" where
  "scan_escape l0 =
     (let l = get l0; c = lx_current l in
      if c = 34 then (None, add 34 l)
      else if c = 92 then (None, add 92 l)
      else if c = 47 then (None, add 47 l)
      else if c = 98 then (None, add 8 l)
      else if c = 102 then (None, add 12 l)
      else if c = 110 then (None, add 10 l)
      else if c = 114 then (None, add 13 l)
      else if c = 116 then (None, add 9 l)
      else if c = 117 then scan_unicode_escape l
      else scan_error ''invalid string: forbidden character after backslash'' l)"

definition control_names :: "string list" where
  "control_names =
     [''NUL'', ''SOH'', ''STX'', ''ETX'', ''EOT'', ''ENQ'', ''ACK'', ''BEL'',
      ''BS'', ''HT'', ''LF'', ''VT'', ''FF'', ''CR'', ''SO'', ''SI'',
      ''DLE'', ''DC1'', ''DC2'', ''DC3'', ''DC4'', ''NAK'', ''SYN'', ''ETB'',
      ''CAN'', ''EM'', ''SUB'', ''ESC'', ''FS'', ''GS'', ''RS'', ''US'']"

definition control_short :: "nat \<Rightarrow> string" where
  "control_short n =
     (if n = 8 then ''b'' else if n = 9 then ''t'' else if n = 10 then ''n''
      else if n = 12 then ''f'' else if n = 13 then ''r'' else [])"

definition control_character_error :: "nat \<Rightarrow> string" where
  "control_character_error n =
     ''invalid string: control character U+'' @ hex4_upper n @ '' ('' @ control_names ! n
     @ '') must be escaped to '' @ [chr 92] @ ''u'' @ hex4_upper n
     @ (if control_short n = [] then [] else '' or '' @ [chr 92] @ control_short n)"

definition scan_control :: "lexer \<Rightarrow> token_type option \<times> lexer" where
  "scan_control l = scan_error (control_character_error (nat (lx_current l))) l"

text \<open>Multi-byte characters: the ranges the following bytes must lie in, by the first byte.\<close>

definition utf8_ranges :: "int \<Rightarrow> (int \<times> int) list" where
  "utf8_ranges c =
     (if 194 \<le> c \<and> c \<le> 223 then [(128, 191)]
      else if c = 224 then [(160, 191), (128, 191)]
      else if 225 \<le> c \<and> c \<le> 236 \<or> c = 238 \<or> c = 239 then [(128, 191), (128, 191)]
      else if c = 237 then [(128, 159), (128, 191)]
      else if c = 240 then [(144, 191), (128, 191), (128, 191)]
      else if 241 \<le> c \<and> c \<le> 243 then [(128, 191), (128, 191), (128, 191)]
      else if c = 244 then [(128, 143), (128, 191), (128, 191)]
      else [])"

definition scan_multibyte :: "lexer \<Rightarrow> token_type option \<times> lexer" where
  "scan_multibyte l =
     (case utf8_ranges (lx_current l) of
        [] \<Rightarrow> scan_error ''invalid string: ill-formed UTF-8 byte'' l
      | ranges \<Rightarrow> (let (ok, l') = next_byte_in_range ranges l
                   in (if ok then None else Some Tok_parse_error, l')))"

definition scan_string_step :: "lexer \<Rightarrow> token_type option \<times> lexer" where
  "scan_string_step l0 =
     (let l = get l0; c = lx_current l in
      if c = eof then scan_error ''invalid string: missing closing quote'' l
      else if c = 34 then (Some Tok_value_string, l)
      else if c = 92 then scan_escape l
      else if 0 \<le> c \<and> c \<le> 31 then scan_control l
      else if 32 \<le> c \<and> c \<le> 127 then (None, add c l)
      else scan_multibyte l)"

text \<open>No operation makes the pending input longer; a turn that goes on has read a character.\<close>

lemma length_pending_codepoint_loop:
  "length (pending (snd (get_codepoint_loop fs cp l))) \<le> length (pending l)"
proof (induction fs arbitrary: cp l)
  case (Cons f fs)
  show ?case
    using length_pending_get [of l] by (auto simp: Let_def intro: order_trans [OF Cons.IH])
qed simp

lemma length_pending_codepoint: "length (pending (snd (get_codepoint l))) \<le> length (pending l)"
  unfolding get_codepoint_def by (rule length_pending_codepoint_loop)

lemma length_pending_range_loop:
  "length (pending (snd (next_byte_in_range_loop rs l))) \<le> length (pending l)"
proof (induction rs arbitrary: l)
  case (Cons r rs)
  show ?case
    using length_pending_get [of l] by (auto simp: Let_def intro: order_trans [OF Cons.IH])
qed simp

lemma length_pending_range:
  "length (pending (snd (next_byte_in_range rs l))) \<le> length (pending l)"
  using length_pending_range_loop [of rs "add (lx_current l) l"] by (simp add: next_byte_in_range_def)

lemma pending_add_codepoint [view_simps, simp]: "pending (add_codepoint cp l) = pending l"
  by (simp add: add_codepoint_def)

lemma length_pending_low_surrogate:
  "length (pending (snd (scan_low_surrogate cp l))) \<le> length (pending l)"
  using length_pending_get [of l] length_pending_get [of "get l"]
    length_pending_codepoint [of "get (get l)"]
  by (auto simp: scan_low_surrogate_def scan_error_def Let_def split: prod.split)

lemma length_pending_unicode_escape:
  "length (pending (snd (scan_unicode_escape l))) \<le> length (pending l)"
  using length_pending_codepoint [of l]
  by (auto simp: scan_unicode_escape_def scan_error_def Let_def split: prod.split
      intro: order_trans [OF length_pending_low_surrogate])

lemma length_pending_escape: "length (pending (snd (scan_escape l))) \<le> length (pending l)"
  using length_pending_get [of l] length_pending_unicode_escape [of "get l"]
  by (auto simp: scan_escape_def scan_error_def Let_def intro: order_trans)

lemma length_pending_multibyte: "length (pending (snd (scan_multibyte l))) \<le> length (pending l)"
  using length_pending_range [of _ l]
  by (auto simp: scan_multibyte_def scan_error_def Let_def split: list.split prod.split)
   (metis snd_conv)

lemma length_pending_string_step:
  "length (pending (snd (scan_string_step l))) \<le> length (pending (get l))"
  using length_pending_escape [of "get l"] length_pending_multibyte [of "get l"]
  by (auto simp: scan_string_step_def scan_error_def scan_control_def Let_def)

lemma string_step_continues:
  "scan_string_step l = (None, l') \<Longrightarrow> length (pending l') < length (pending l)"
  using length_pending_string_step [of l] length_pending_get_less [of l]
  by (auto simp: scan_string_step_def scan_error_def Let_def split: if_splits)

function scan_string_loop :: "lexer \<Rightarrow> token_type \<times> lexer" where
  "scan_string_loop l =
     (case scan_string_step l of
        (Some t, l') \<Rightarrow> (t, l')
      | (None, l') \<Rightarrow> scan_string_loop l')"
  by pat_completeness auto
termination
  by (relation "measure (\<lambda>l. length (pending l))") (simp_all add: string_step_continues)

declare scan_string_loop.simps [simp del]

definition scan_string :: "lexer \<Rightarrow> token_type \<times> lexer" where
  "scan_string l = scan_string_loop (reset_token l)"

section \<open>Comments\<close>

function scan_line_comment :: "lexer \<Rightarrow> bool \<times> lexer" where
  "scan_line_comment l0 =
     (let l = get l0; c = lx_current l
      in if c = 10 \<or> c = 13 \<or> c = eof \<or> c = 0 then (True, l) else scan_line_comment l)"
  by pat_completeness auto
termination
  by (relation "measure (\<lambda>l. length (pending l))") (simp_all add: length_pending_get_less)

text \<open>After a star that no slash follows, the character read is put back.\<close>

function scan_block_comment :: "lexer \<Rightarrow> bool \<times> lexer" where
  "scan_block_comment l0 =
     (let l = get l0; c = lx_current l
      in if c = eof \<or> c = 0
         then (False, set_error (''invalid comment; missing closing '' @ [chr 39] @ ''*/'' @ [chr 39]) l)
         else if c = 42
         then (let l' = get l in
               if lx_current l' = 47 then (True, l') else scan_block_comment (unget l'))
         else scan_block_comment l)"
  by pat_completeness auto
termination
proof (relation "measure (\<lambda>l. length (pending l))", goal_cases)
  case (2 l0 l c l')
  then show ?case
    using length_pending_unget_get [of l] length_pending_get_less [of l0] by auto
qed (auto simp: length_pending_get_less)

declare scan_line_comment.simps [simp del] scan_block_comment.simps [simp del]

definition scan_comment :: "lexer \<Rightarrow> bool \<times> lexer" where
  "scan_comment l0 =
     (let l = get l0; c = lx_current l
      in if c = 47 then scan_line_comment l
         else if c = 42 then scan_block_comment l
         else (False, set_error (''invalid comment; expecting '' @ quoted (CHR ''/'') @ '' or ''
                 @ quoted (CHR ''*'') @ '' after '' @ quoted (CHR ''/'')) l))"

section \<open>Numbers\<close>

text \<open>
  The labels of \<open>scan_number\<close> are the states of a machine. A state reads a character
  and says how to go on: to another state with the token type so far, to the end, or with
  an error.
\<close>

datatype num_state =
    N_minus | N_zero | N_any1 | N_decimal1 | N_decimal2 | N_exponent | N_sign | N_any2

datatype num_next = Goto num_state | Goto_done | Goto_error string

abbreviation is_digit_code :: "int \<Rightarrow> bool" where
  "is_digit_code c \<equiv> 48 \<le> c \<and> c \<le> 57"

definition scan_number_init :: "int \<Rightarrow> num_state" where
  "scan_number_init c = (if c = 45 then N_minus else if c = 48 then N_zero
     else if 49 \<le> c \<and> c \<le> 57 then N_any1 else N_minus)"

definition scan_number_minus :: "int \<Rightarrow> num_next" where
  "scan_number_minus c = (if c = 48 then Goto N_zero
     else if 49 \<le> c \<and> c \<le> 57 then Goto N_any1
     else Goto_error (''invalid number; expected digit after '' @ quoted (CHR ''-'')))"

definition scan_number_zero :: "int \<Rightarrow> num_next" where
  "scan_number_zero c = (if c = 46 then Goto N_decimal1
     else if c = 101 \<or> c = 69 then Goto N_exponent else Goto_done)"

definition scan_number_any1 :: "int \<Rightarrow> num_next" where
  "scan_number_any1 c = (if is_digit_code c then Goto N_any1
     else if c = 46 then Goto N_decimal1
     else if c = 101 \<or> c = 69 then Goto N_exponent else Goto_done)"

definition scan_number_decimal1 :: "int \<Rightarrow> num_next" where
  "scan_number_decimal1 c = (if is_digit_code c then Goto N_decimal2
     else Goto_error (''invalid number; expected digit after '' @ quoted (CHR ''.'')))"

definition scan_number_decimal2 :: "int \<Rightarrow> num_next" where
  "scan_number_decimal2 c = (if is_digit_code c then Goto N_decimal2
     else if c = 101 \<or> c = 69 then Goto N_exponent else Goto_done)"

definition scan_number_exponent :: "int \<Rightarrow> num_next" where
  "scan_number_exponent c = (if c = 43 \<or> c = 45 then Goto N_sign
     else if is_digit_code c then Goto N_any2
     else Goto_error (''invalid number; expected '' @ quoted (CHR ''+'') @ '', ''
            @ quoted (CHR ''-'') @ '', or digit after exponent''))"

definition scan_number_sign :: "int \<Rightarrow> num_next" where
  "scan_number_sign c = (if is_digit_code c then Goto N_any2
     else Goto_error ''invalid number; expected digit after exponent sign'')"

definition scan_number_any2 :: "int \<Rightarrow> num_next" where
  "scan_number_any2 c = (if is_digit_code c then Goto N_any2 else Goto_done)"

fun scan_number_next :: "num_state \<Rightarrow> int \<Rightarrow> num_next" where
  "scan_number_next N_minus c = scan_number_minus c"
| "scan_number_next N_zero c = scan_number_zero c"
| "scan_number_next N_any1 c = scan_number_any1 c"
| "scan_number_next N_decimal1 c = scan_number_decimal1 c"
| "scan_number_next N_decimal2 c = scan_number_decimal2 c"
| "scan_number_next N_exponent c = scan_number_exponent c"
| "scan_number_next N_sign c = scan_number_sign c"
| "scan_number_next N_any2 c = scan_number_any2 c"

text \<open>The assignment to \<open>number_type\<close> at the head of three of the states.\<close>

fun number_type_at :: "num_state \<Rightarrow> token_type \<Rightarrow> token_type" where
  "number_type_at N_minus t = Tok_value_integer"
| "number_type_at N_decimal1 t = Tok_value_float"
| "number_type_at N_exponent t = Tok_value_float"
| "number_type_at _ t = t"

text \<open>The character is stored; a decimal point is stored as the locale's and its place kept.\<close>

definition add_number_char :: "lexer \<Rightarrow> lexer" where
  "add_number_char l =
     (if lx_current l = 46
      then (add (lx_decimal_point_char l) l)
             \<lparr>lx_decimal_point_position := Some (length (lx_token_buffer l))\<rparr>
      else add (lx_current l) l)"

lemma number_next_eof:
  "scan_number_next st eof = Goto_done \<or> (\<exists>m. scan_number_next st eof = Goto_error m)"
  by (cases st) (simp_all add: scan_number_minus_def scan_number_zero_def scan_number_any1_def
      scan_number_decimal1_def scan_number_decimal2_def scan_number_exponent_def
      scan_number_sign_def scan_number_any2_def)

lemma pending_add_number_char [view_simps, simp]: "pending (add_number_char l) = pending l"
  by (simp add: add_number_char_def)

function scan_number_loop :: "num_state \<Rightarrow> token_type \<Rightarrow> lexer \<Rightarrow> token_type \<times> lexer" where
  "scan_number_loop st t l0 =
     (let l = get l0; t' = number_type_at st t
      in case scan_number_next st (lx_current l) of
           Goto st' \<Rightarrow> scan_number_loop st' t' (add_number_char l)
         | Goto_done \<Rightarrow> (t', unget l)
         | Goto_error msg \<Rightarrow> (Tok_parse_error, set_error msg l))"
  by pat_completeness auto
termination
proof (relation "measure (\<lambda>(st, t, l). length (pending l))", goal_cases)
  case (2 st t l0 l t' st')
  then have "lx_current l \<noteq> eof" using number_next_eof [of st] by auto
  with 2 show ?case by (simp add: length_pending_get_less)
qed simp

declare scan_number_loop.simps [simp del]

text \<open>The label \<open>scan_number_done\<close>: integers first, a double where they do not fit.\<close>

definition scan_number_done :: "token_type \<Rightarrow> lexer \<Rightarrow> token_type \<times> lexer" where
  "scan_number_done number_type l =
     (let buf = lx_token_buffer l;
          float = (Tok_value_float, l\<lparr>lx_value_float := strtod buf\<rparr>)
      in if number_type = Tok_value_unsigned
         then (case strtoull buf of
                 Some x \<Rightarrow> (Tok_value_unsigned, l\<lparr>lx_value_unsigned := x\<rparr>) | None \<Rightarrow> float)
         else if number_type = Tok_value_integer
         then (case strtoll buf of
                 Some x \<Rightarrow> (Tok_value_integer, l\<lparr>lx_value_integer := x\<rparr>) | None \<Rightarrow> float)
         else float)"

definition scan_number :: "lexer \<Rightarrow> token_type \<times> lexer" where
  "scan_number l0 =
     (let l1 = reset_token l0;
          (t, l2) = scan_number_loop (scan_number_init (lx_current l1)) Tok_value_unsigned
                      (add (lx_current l1) l1)
      in if t = Tok_parse_error then (t, l2) else scan_number_done t l2)"

section \<open>Literals and the scanner\<close>

fun scan_literal_loop :: "string \<Rightarrow> token_type \<Rightarrow> lexer \<Rightarrow> token_type \<times> lexer" where
  "scan_literal_loop [] return_type l = (return_type, l)"
| "scan_literal_loop (c # cs) return_type l0 =
     (let l = get l0
      in if chr (lx_current l) \<noteq> c then (Tok_parse_error, set_error ''invalid literal'' l)
         else scan_literal_loop cs return_type l)"

text \<open>The first character of the literal has been read already.\<close>

definition scan_literal :: "string \<Rightarrow> token_type \<Rightarrow> lexer \<Rightarrow> token_type \<times> lexer" where
  "scan_literal literal_text return_type l = scan_literal_loop (tl literal_text) return_type l"

definition skip_bom :: "lexer \<Rightarrow> bool \<times> lexer" where
  "skip_bom l0 =
     (let l1 = get l0 in
      if lx_current l1 = 239
      then (let l2 = get l1 in
            if lx_current l2 = 187 then (let l3 = get l2 in (lx_current l3 = 191, l3))
            else (False, l2))
      else (True, unget l1))"

definition is_whitespace :: "int \<Rightarrow> bool" where
  "is_whitespace c \<longleftrightarrow> c = 32 \<or> c = 9 \<or> c = 10 \<or> c = 13"

function skip_whitespace :: "lexer \<Rightarrow> lexer" where
  "skip_whitespace l0 =
     (let l = get l0 in if is_whitespace (lx_current l) then skip_whitespace l else l)"
  by pat_completeness auto
termination
proof (relation "measure (\<lambda>l. length (pending l))", goal_cases)
  case (2 l0 l)
  then have "lx_current l \<noteq> eof" by (auto simp: is_whitespace_def)
  with 2 show ?case by (simp add: length_pending_get_less)
qed simp

declare skip_whitespace.simps [simp del]

lemma length_pending_skip_whitespace:
  "length (pending (skip_whitespace l)) \<le> length (pending l) \<and>
   (lx_current (skip_whitespace l) \<noteq> eof \<longrightarrow>
      length (pending (skip_whitespace l)) < length (pending l))"
proof (induction l rule: skip_whitespace.induct)
  case (1 l)
  then show ?case
    using length_pending_get [of l] length_pending_get_less [of l]
    by (cases "is_whitespace (lx_current (get l))") (auto simp: skip_whitespace.simps [of l])
qed

lemma length_pending_line_comment:
  "length (pending (snd (scan_line_comment l))) \<le> length (pending l)"
proof (induction l rule: scan_line_comment.induct)
  case (1 l)
  show ?case
    using length_pending_get [of l] 1 [OF refl refl]
    by (subst scan_line_comment.simps) (auto simp: Let_def)
qed

lemma length_pending_block_comment:
  "length (pending (snd (scan_block_comment l))) \<le> length (pending l)"
proof (induction l rule: scan_block_comment.induct)
  case (1 l)
  show ?case
    using length_pending_get [of l] length_pending_get [of "get l"]
      length_pending_unget_get [of "get l"] 1(1) [OF refl refl _ _ refl] 1(2) [OF refl refl]
    by (subst scan_block_comment.simps) (auto simp: Let_def)
qed

lemma length_pending_comment: "length (pending (snd (scan_comment l))) \<le> length (pending l)"
  using length_pending_get [of l] length_pending_line_comment [of "get l"]
    length_pending_block_comment [of "get l"]
  by (auto simp: scan_comment_def Let_def)

function skip_comments :: "lexer \<Rightarrow> bool \<times> lexer" where
  "skip_comments l =
     (if lx_ignore_comments l \<and> lx_current l = 47
      then (let (ok, l1) = scan_comment l in
            if ok then skip_comments (skip_whitespace l1) else (False, l1))
      else (True, l))"
  by pat_completeness auto
termination
proof (relation "measures [\<lambda>l. length (pending l), \<lambda>l. if lx_current l = 47 then 1 else 0]", goal_cases)
  case (2 l x ok l1)
  have "length (pending l1) \<le> length (pending l)"
    using length_pending_comment [of l] 2(2,3) by (metis snd_conv)
  then show ?case
    using 2(1) length_pending_skip_whitespace [of l1]
    by (cases "lx_current (skip_whitespace l1) = eof") auto
qed simp

declare skip_comments.simps [simp del]

text \<open>The final \<open>switch\<close> of \<open>scan\<close>.\<close>

definition scan_token :: "lexer \<Rightarrow> token_type \<times> lexer" where
  "scan_token l =
     (let c = lx_current l in
      if c = 91 then (Tok_begin_array, l)
      else if c = 93 then (Tok_end_array, l)
      else if c = 123 then (Tok_begin_object, l)
      else if c = 125 then (Tok_end_object, l)
      else if c = 58 then (Tok_name_separator, l)
      else if c = 44 then (Tok_value_separator, l)
      else if c = 116 then scan_literal ''true'' Tok_literal_true l
      else if c = 102 then scan_literal ''false'' Tok_literal_false l
      else if c = 110 then scan_literal ''null'' Tok_literal_null l
      else if c = 34 then scan_string l
      else if c = 45 \<or> is_digit_code c then scan_number l
      else if c = 0 \<or> c = eof then (Tok_end_of_input, l)
      else (Tok_parse_error, set_error ''invalid literal'' l))"

definition scan :: "lexer \<Rightarrow> token_type \<times> lexer" where
  "scan l0 =
     (let (bom_ok, l1) = (if chars_read_total (lx_position l0) = 0 then skip_bom l0 else (True, l0))
      in if \<not> bom_ok
         then (Tok_parse_error, set_error ''invalid BOM; must be 0xEF 0xBB 0xBF if given'' l1)
         else let (ok, l2) = skip_comments (skip_whitespace l1)
              in if ok then scan_token l2 else (Tok_parse_error, l2))"

section \<open>Every token consumes input\<close>

lemma length_pending_string_loop:
  "length (pending (snd (scan_string_loop l))) \<le> length (pending l)"
proof (induction l rule: scan_string_loop.induct)
  case (1 l)
  obtain st l' where s: "scan_string_step l = (st, l')" by fastforce
  have "length (pending l') \<le> length (pending l)"
    using length_pending_string_step [of l] length_pending_get [of l] s by simp
  then show ?case
  proof (cases st)
    case None
    with s have "scan_string_loop l = scan_string_loop l'" by (simp add: scan_string_loop.simps [of l])
    moreover have "length (pending (snd (scan_string_loop l'))) \<le> length (pending l')"
      by (rule 1 [OF s [symmetric] None])
    ultimately show ?thesis
      using \<open>length (pending l') \<le> length (pending l)\<close> by simp
  next
    case (Some t)
    with s have "scan_string_loop l = (t, l')" by (simp add: scan_string_loop.simps [of l])
    then show ?thesis using \<open>length (pending l') \<le> length (pending l)\<close> by simp
  qed
qed

lemma length_pending_number_loop:
  "length (pending (snd (scan_number_loop st t l))) \<le> length (pending l)"
proof (induction st t l rule: scan_number_loop.induct)
  case (1 st t l)
  show ?case
  proof (cases "scan_number_next st (lx_current (get l))")
    case (Goto st')
    then have "length (pending (snd (scan_number_loop st' (number_type_at st t) (add_number_char (get l)))))
        \<le> length (pending (get l))"
      using 1 [OF refl refl Goto] by simp
    with Goto show ?thesis
      using length_pending_get [of l] by (simp add: scan_number_loop.simps [of st t l])
  qed (use length_pending_get [of l] length_pending_unget_get [of l] in
      \<open>simp_all add: scan_number_loop.simps [of st t l]\<close>)
qed

lemma length_pending_literal_loop:
  "length (pending (snd (scan_literal_loop cs t l))) \<le> length (pending l)"
proof (induction cs arbitrary: l)
  case (Cons c cs)
  show ?case
    using length_pending_get [of l] by (auto simp: Let_def intro: order_trans [OF Cons.IH])
qed simp

lemma length_pending_literal: "length (pending (snd (scan_literal s t l))) \<le> length (pending l)"
  by (simp add: scan_literal_def length_pending_literal_loop)

lemma length_pending_number_done [simp]: "pending (snd (scan_number_done t l)) = pending l"
  by (simp add: scan_number_done_def Let_def split: option.split)

lemma length_pending_number: "length (pending (snd (scan_number l))) \<le> length (pending l)"
  using length_pending_number_loop [of "scan_number_init (lx_current l)" Tok_value_unsigned
      "add (lx_current l) (reset_token l)"]
  by (auto simp: scan_number_def Let_def split: prod.split)

lemma length_pending_token: "length (pending (snd (scan_token l))) \<le> length (pending l)"
  using length_pending_string_loop [of "reset_token l"] length_pending_number [of l]
  by (simp add: scan_token_def length_pending_literal scan_string_def Let_def)

lemma length_pending_skip_bom: "length (pending (snd (skip_bom l))) \<le> length (pending l)"
  using length_pending_get [of l] length_pending_get [of "get l"]
    length_pending_get [of "get (get l)"] length_pending_unget_get [of l]
  by (auto simp: skip_bom_def Let_def)

lemma length_pending_skip_comments:
  "length (pending (snd (skip_comments l))) \<le> length (pending l)"
proof (induction l rule: skip_comments.induct)
  case (1 l)
  obtain ok l1 where c: "scan_comment l = (ok, l1)" by fastforce
  show ?case
    using 1 [OF _ c [symmetric]] c length_pending_comment [of l] length_pending_skip_whitespace [of l1]
    by (auto simp: skip_comments.simps [of l] intro: order_trans)
qed

lemma skip_comments_ends:
  assumes "fst (skip_comments l)"
    and "length (pending l) < n \<or> lx_current l = eof"
  shows "length (pending (snd (skip_comments l))) < n \<or> lx_current (snd (skip_comments l)) = eof"
proof (cases "lx_ignore_comments l \<and> lx_current l = 47")
  case True
  then show ?thesis
    using assms length_pending_skip_comments [of l] by auto
qed (use assms in \<open>auto simp: skip_comments.simps [of l]\<close>)

lemma scan_token_eof: "lx_current l = eof \<Longrightarrow> fst (scan_token l) = Tok_end_of_input"
  by (simp add: scan_token_def)

lemma scan_consumes:
  "length (pending (snd (scan l))) \<le> length (pending l) \<and>
   (fst (scan l) \<noteq> Tok_end_of_input \<longrightarrow> fst (scan l) \<noteq> Tok_parse_error \<longrightarrow>
      length (pending (snd (scan l))) < length (pending l))"
proof -
  obtain bom l1 where b:
    "(if chars_read_total (lx_position l) = 0 then skip_bom l else (True, l)) = (bom, l1)"
    by fastforce
  then have l1: "length (pending l1) \<le> length (pending l)"
    using length_pending_skip_bom [of l] by (auto split: if_splits)
  obtain ok l2 where c: "skip_comments (skip_whitespace l1) = (ok, l2)" by fastforce
  have l2: "length (pending l2) \<le> length (pending l)"
    using l1 length_pending_skip_comments [of "skip_whitespace l1"] c
      length_pending_skip_whitespace [of l1] by simp
  have shorter: "ok \<Longrightarrow> length (pending l2) < length (pending l) \<or> lx_current l2 = eof"
    using skip_comments_ends [of "skip_whitespace l1" "length (pending l)"] c l1
      length_pending_skip_whitespace [of l1] by auto
  show ?thesis
    using l1 l2 shorter length_pending_token [of l2] scan_token_eof [of l2]
    by (auto simp: scan_def b c)
qed

end
