(* ===== verification/Utf8.thy ===== *)
theory Utf8
  imports Lexer
begin

text \<open>
  UTF-8 three ways: the encoding of Unicode scalar values (the specification), the byte
  ranges the lexer checks (\<open>utf8_ranges\<close>), and the serializer's table-driven decoder
  \<open>serializer::decode\<close>. The lemmas show that the three agree.
\<close>

section \<open>The decoder of the serializer\<close>

abbreviation (input) UTF8_ACCEPT :: nat where
  "UTF8_ACCEPT \<equiv> 0"

abbreviation (input) UTF8_REJECT :: nat where
  "UTF8_REJECT \<equiv> 1"

text \<open>The 400 entries: the class of each byte, then sixteen entries for each state.\<close>

definition utf8d :: "nat list" where
  "utf8d =
     replicate 128 0 @
     replicate 16 1 @ replicate 16 9 @
     replicate 32 7 @
     [8, 8] @ replicate 30 2 @
     [0xA] @ replicate 12 3 @ [4, 3, 3] @
     [0xB, 6, 6, 6, 5] @ replicate 11 8 @
     [0x0, 0x1, 0x2, 0x3, 0x5, 0x8, 0x7, 0x1, 0x1, 0x1, 0x4, 0x6, 0x1, 0x1, 0x1, 0x1] @
     [1, 1, 1, 1, 1, 1, 1, 1, 1, 1, 1, 1, 1, 1, 1, 1, 1, 0, 1, 1, 1, 1, 1, 0, 1, 0, 1, 1, 1, 1, 1, 1] @
     [1, 2, 1, 1, 1, 1, 1, 2, 1, 2, 1, 1, 1, 1, 1, 1, 1, 1, 1, 1, 1, 1, 1, 2, 1, 1, 1, 1, 1, 1, 1, 1] @
     [1, 2, 1, 1, 1, 1, 1, 1, 1, 2, 1, 1, 1, 1, 1, 1, 1, 1, 1, 1, 1, 1, 1, 3, 1, 3, 1, 1, 1, 1, 1, 1] @
     [1, 3, 1, 1, 1, 1, 1, 3, 1, 3, 1, 1, 1, 1, 1, 1, 1, 3, 1, 1, 1, 1, 1, 1, 1, 1, 1, 1, 1, 1, 1, 1]"

definition u8_of :: "char \<Rightarrow> u8" where
  "u8_of c = of_char c"

definition decode :: "nat \<Rightarrow> u32 \<Rightarrow> u8 \<Rightarrow> nat \<times> u32" where
  "decode state codep b =
     (let type = utf8d ! unat b;
          codep' = (if state \<noteq> UTF8_ACCEPT then (ucast b AND 0x3f) OR push_bit 6 codep
                    else drop_bit type 0xFF AND ucast b)
      in (utf8d ! (256 + state * 16 + type), codep'))"

section \<open>Code points\<close>

definition is_scalar :: "nat \<Rightarrow> bool" where
  "is_scalar cp \<longleftrightarrow> cp < 0x110000 \<and> \<not> (0xD800 \<le> cp \<and> cp \<le> 0xDFFF)"

definition utf8_encode :: "nat \<Rightarrow> string" where
  "utf8_encode cp = map (\<lambda>n. char_of n)
     (if cp < 0x80 then [cp]
      else if cp < 0x800 then [0xC0 + cp div 64, 0x80 + cp mod 64]
      else if cp < 0x10000 then [0xE0 + cp div 4096, 0x80 + cp div 64 mod 64, 0x80 + cp mod 64]
      else [0xF0 + cp div 262144, 0x80 + cp div 4096 mod 64, 0x80 + cp div 64 mod 64,
            0x80 + cp mod 64])"

definition utf8_encode_all :: "nat list \<Rightarrow> string" where
  "utf8_encode_all cps = concat (map utf8_encode cps)"

text \<open>A string is well-formed UTF-8 when it encodes a sequence of scalar values.\<close>

definition utf8_valid :: "string \<Rightarrow> bool" where
  "utf8_valid s \<longleftrightarrow> (\<exists>cps. list_all is_scalar cps \<and> s = utf8_encode_all cps)"

section \<open>Characters by byte ranges\<close>

definition in_range :: "int \<times> int \<Rightarrow> char \<Rightarrow> bool" where
  "in_range r c \<longleftrightarrow> fst r \<le> byte c \<and> byte c \<le> snd r"

fun utf8_char :: "string \<Rightarrow> bool" where
  "utf8_char [] = False"
| "utf8_char (c # cs) =
     (if byte c < 128 then cs = []
      else utf8_ranges (byte c) \<noteq> [] \<and> list_all2 in_range (utf8_ranges (byte c)) cs)"

text \<open>The code point of a character, byte by byte.\<close>

definition lead_code :: "char \<Rightarrow> nat" where
  "lead_code c = nat (if byte c < 128 then byte c
     else if byte c < 224 then byte c - 192
     else if byte c < 240 then byte c - 224 else byte c - 240)"

definition next_code :: "nat \<Rightarrow> char \<Rightarrow> nat" where
  "next_code n c = n * 64 + nat (byte c - 128)"

definition utf8_code :: "string \<Rightarrow> nat" where
  "utf8_code s = foldl next_code (lead_code (hd s)) (tl s)"

abbreviation cont :: "int \<times> int" where
  "cont \<equiv> (128, 191)"

lemma in_range_pair [simp]: "in_range (a, b) c \<longleftrightarrow> a \<le> byte c \<and> byte c \<le> b"
  by (simp add: in_range_def)

text \<open>The shapes of a character.\<close>

lemma utf8_char_cases:
  assumes "utf8_char s"
  obtains (one) c where "s = [c]" "byte c < 128"
  | (two) a b where "s = [a, b]" "194 \<le> byte a" "byte a \<le> 223" "in_range cont b"
  | (three) a b c where "s = [a, b, c]" "224 \<le> byte a" "byte a \<le> 239"
      "byte a = 224 \<Longrightarrow> 160 \<le> byte b" "byte a = 237 \<Longrightarrow> byte b \<le> 159"
      "in_range cont b" "in_range cont c"
  | (four) a b c d where "s = [a, b, c, d]" "240 \<le> byte a" "byte a \<le> 244"
      "byte a = 240 \<Longrightarrow> 144 \<le> byte b" "byte a = 244 \<Longrightarrow> byte b \<le> 143"
      "in_range cont b" "in_range cont c" "in_range cont d"
proof -
  obtain a cs where s: "s = a # cs" using assms by (cases s) auto
  show ?thesis
  proof (cases "byte a < 128")
    case True
    then show ?thesis using assms s by (intro one [of a]) auto
  next
    case False
    then have ne: "utf8_ranges (byte a) \<noteq> []" and all: "list_all2 in_range (utf8_ranges (byte a)) cs"
      using assms s by auto
    consider "194 \<le> byte a \<and> byte a \<le> 223" | "224 \<le> byte a \<and> byte a \<le> 239"
      | "240 \<le> byte a \<and> byte a \<le> 244"
      using ne by (auto simp: utf8_ranges_def split: if_splits)
    then show ?thesis
    proof cases
      case 1
      then show ?thesis using all s
        by (intro two [of a "hd cs"]) (auto simp: utf8_ranges_def list_all2_Cons1 split: if_splits)
    next
      case 2
      then have "list_all2 in_range [if byte a = 224 then (160, 191) else if byte a = 237 then (128, 159)
          else cont, cont] cs"
        using all by (auto simp: utf8_ranges_def split: if_splits)
      then show ?thesis using 2 s
        by (intro three [of a "cs ! 0" "cs ! 1"]) (auto simp: list_all2_Cons1 split: if_splits)
    next
      case 3
      then have "list_all2 in_range [if byte a = 240 then (144, 191) else if byte a = 244 then (128, 143)
          else cont, cont, cont] cs"
        using all by (auto simp: utf8_ranges_def split: if_splits)
      then show ?thesis using 3 s
        by (intro four [of a "cs ! 0" "cs ! 1" "cs ! 2"]) (auto simp: list_all2_Cons1 split: if_splits)
    qed
  qed
qed

lemma byte_char_of [simp]: "n < 256 \<Longrightarrow> byte (char_of (n::nat)) = int n"
proof -
  assume "n < 256"
  then have "int (of_char (char_of n)) = int n" by (simp only: of_char_of mod_less)
  then show ?thesis by (simp only: of_nat_of_char)
qed

lemma digits_64: "(cp::nat) = cp div 64 * 64 + cp mod 64"
  by simp

text \<open>A number in base 64.\<close>

lemma split_64: "c < 64 \<Longrightarrow> (x * 64 + c) div 64 = x" "c < 64 \<Longrightarrow> (x * 64 + c) mod 64 = (c::nat)"
  by simp_all

lemma div_4096: "(n::nat) div 4096 = n div 64 div 64"
  by (simp add: div_mult2_eq [symmetric])

lemma div_262144: "(n::nat) div 262144 = n div 4096 div 64"
  by (simp add: div_mult2_eq [symmetric])

lemma base64_3:
  fixes cp :: nat
  obtains a b c where "cp = a * 4096 + b * 64 + c" "b < 64" "c < 64"
proof
  show "cp = cp div 4096 * 4096 + cp div 64 mod 64 * 64 + cp mod 64"
    using digits_64 [of cp] digits_64 [of "cp div 64"] div_4096 [of cp] by linarith
qed simp_all

lemma base64_4:
  fixes cp :: nat
  obtains a b c d where "cp = a * 262144 + b * 4096 + c * 64 + d" "b < 64" "c < 64" "d < 64"
proof
  show "cp = cp div 262144 * 262144 + cp div 4096 mod 64 * 4096 + cp div 64 mod 64 * 64 + cp mod 64"
    using digits_64 [of cp] digits_64 [of "cp div 64"] digits_64 [of "cp div 4096"]
      div_4096 [of cp] div_262144 [of cp] by linarith
qed simp_all

lemma utf8_encode_3:
  assumes "0x800 \<le> cp" "cp < 0x10000" "cp = a * 4096 + b * 64 + c" "b < 64" "c < 64"
  shows "utf8_encode cp = [char_of (224 + a), char_of (128 + b), char_of (128 + c)]"
proof -
  have cp: "cp = (a * 64 + b) * 64 + c" using assms(3) by simp
  have 1: "cp div 64 = a * 64 + b" "cp mod 64 = c" unfolding cp by (rule split_64, fact)+
  have 2: "cp div 64 div 64 = a" "cp div 64 mod 64 = b" unfolding 1 by (rule split_64, fact)+
  show ?thesis using assms(1,2) 1 2 by (simp add: utf8_encode_def div_4096)
qed

lemma utf8_encode_4:
  assumes "0x10000 \<le> cp" "cp = a * 262144 + b * 4096 + c * 64 + d" "b < 64" "c < 64" "d < 64"
  shows "utf8_encode cp = [char_of (240 + a), char_of (128 + b), char_of (128 + c), char_of (128 + d)]"
proof -
  have cp: "cp = ((a * 64 + b) * 64 + c) * 64 + d" using assms(2) by simp
  have 1: "cp div 64 = (a * 64 + b) * 64 + c" "cp mod 64 = d" unfolding cp by (rule split_64, fact)+
  have 2: "cp div 64 div 64 = a * 64 + b" "cp div 64 mod 64 = c"
    unfolding 1 by (rule split_64, fact)+
  have 3: "cp div 64 div 64 div 64 = a" "cp div 64 div 64 mod 64 = b"
    unfolding 2 by (rule split_64, fact)+
  have "cp div 4096 = cp div 64 div 64" "cp div 262144 = cp div 64 div 64 div 64"
    by (simp_all only: div_4096 div_262144)
  then show ?thesis using assms(1) 1 2 3 by (simp add: utf8_encode_def)
qed

lemma utf8_char_encode_3:
  assumes "0x800 \<le> cp" "cp < 0x10000" "\<not> (0xD800 \<le> cp \<and> cp \<le> 0xDFFF)"
  shows "utf8_char (utf8_encode cp) \<and> utf8_code (utf8_encode cp) = cp"
proof -
  obtain a b c where cp: "cp = a * 4096 + b * 64 + c" "b < 64" "c < 64" by (rule base64_3)
  have a: "a < 16" using cp assms by linarith
  have a0: "32 \<le> b" if "a = 0" using that cp assms by linarith
  have a13: "b < 32" if "a = 13" using that cp assms by linarith
  have enc: "utf8_encode cp = [char_of (224 + a), char_of (128 + b), char_of (128 + c)]"
    by (rule utf8_encode_3 [OF assms(1,2) cp])
  have "utf8_char (utf8_encode cp)"
    using a a0 a13 cp(2,3) unfolding enc by (auto simp: utf8_ranges_def)
  moreover have "utf8_code (utf8_encode cp) = cp"
    using a cp unfolding enc by (simp add: utf8_code_def lead_code_def next_code_def)
  ultimately show ?thesis by simp
qed

lemma utf8_char_encode_4:
  assumes "0x10000 \<le> cp" "cp < 0x110000"
  shows "utf8_char (utf8_encode cp) \<and> utf8_code (utf8_encode cp) = cp"
proof -
  obtain a b c d where cp: "cp = a * 262144 + b * 4096 + c * 64 + d" "b < 64" "c < 64" "d < 64"
    by (rule base64_4)
  have a: "a < 5" using cp assms by linarith
  have a0: "16 \<le> b" if "a = 0" using that cp assms by linarith
  have a4: "b < 16" if "a = 4" using that cp assms by linarith
  have enc: "utf8_encode cp = [char_of (240 + a), char_of (128 + b), char_of (128 + c), char_of (128 + d)]"
    by (rule utf8_encode_4 [OF assms(1) cp])
  have "utf8_char (utf8_encode cp)"
    using a a0 a4 cp(2,3,4) unfolding enc by (auto simp: utf8_ranges_def)
  moreover have "utf8_code (utf8_encode cp) = cp"
    using a cp unfolding enc by (simp add: utf8_code_def lead_code_def next_code_def)
  ultimately show ?thesis by simp
qed

lemma is_scalar_utf8_char:
  assumes "is_scalar cp"
  shows "utf8_char (utf8_encode cp) \<and> utf8_code (utf8_encode cp) = cp"
proof -
  have lt: "cp < 0x110000" and sur: "\<not> (0xD800 \<le> cp \<and> cp \<le> 0xDFFF)"
    using assms by (auto simp: is_scalar_def)
  consider "cp < 0x80" | "0x80 \<le> cp" "cp < 0x800" | "0x800 \<le> cp" "cp < 0x10000"
    | "0x10000 \<le> cp" by linarith
  then show ?thesis
  proof cases
    case 1
    then show ?thesis by (simp add: utf8_encode_def utf8_code_def lead_code_def)
  next
    case 2
    then have "cp div 64 < 32" "2 \<le> cp div 64" by auto
    with 2 show ?thesis
      by (auto simp: utf8_encode_def utf8_ranges_def utf8_code_def lead_code_def next_code_def nat_add_distrib)
  next
    case 3
    then show ?thesis using sur by (rule utf8_char_encode_3)
  next
    case 4
    then show ?thesis using lt by (rule utf8_char_encode_4)
  qed
qed

text \<open>Conversely, every character of the right shape encodes its code point.\<close>

lemma char_of_nat_byte: "char_of (nat (byte c)) = c"
  by simp

lemma byte_minus: "k \<le> byte c \<Longrightarrow> \<exists>n. byte c = k + int n"
  by (metis zle_iff_zadd)

lemma char_of_eqI: "byte c = int n \<Longrightarrow> char_of n = c"
  by (metis char_of_nat_byte nat_int)

lemma code_less: "(of_char c :: nat) < n \<longleftrightarrow> byte c < int n"
  by (metis of_nat_less_iff of_nat_of_char)

lemma utf8_char_scalar:
  assumes "utf8_char s"
  shows "is_scalar (utf8_code s) \<and> utf8_encode (utf8_code s) = s"
  using assms
proof (cases rule: utf8_char_cases)
  case (one c)
  then have code: "utf8_code s = of_char c" by (simp add: utf8_code_def lead_code_def)
  moreover have "(of_char c :: nat) < 128" using one by (simp add: code_less)
  ultimately show ?thesis using one by (simp add: is_scalar_def utf8_encode_def)
next
  case (two a b)
  obtain i j where ij: "byte a = 192 + int i" "byte b = 128 + int j"
    using two byte_minus [of 192 a] byte_minus [of 128 b] by auto
  then have b: "2 \<le> i" "i < 32" "j < 64" using two by auto
  have code: "utf8_code s = i * 64 + j"
    using two ij b by (simp add: utf8_code_def lead_code_def next_code_def)
  have "char_of (192 + i) = a" "char_of (128 + j) = b"
    using ij by (auto intro!: char_of_eqI)
  then have "utf8_encode (i * 64 + j) = [a, b]"
    using b by (simp add: utf8_encode_def)
  then show ?thesis using code two(1) b by (simp add: is_scalar_def)
next
  case (three a b c)
  obtain i j k where ij: "byte a = 224 + int i" "byte b = 128 + int j" "byte c = 128 + int k"
    using three byte_minus [of 224 a] byte_minus [of 128 b] byte_minus [of 128 c] by auto
  then have b: "i < 16" "j < 64" "k < 64" "i = 0 \<Longrightarrow> 32 \<le> j" "i = 13 \<Longrightarrow> j < 32"
    using three by auto
  have code: "utf8_code s = i * 4096 + j * 64 + k"
    using three ij b by (simp add: utf8_code_def lead_code_def next_code_def)
  have r: "0x800 \<le> i * 4096 + j * 64 + k" "i * 4096 + j * 64 + k < 0x10000"
    using b by linarith+
  have sur: "\<not> (0xD800 \<le> i * 4096 + j * 64 + k \<and> i * 4096 + j * 64 + k \<le> 0xDFFF)"
  proof (cases "i = 13")
    case False
    then have "i \<le> 12 \<or> 14 \<le> i" by linarith
    then show ?thesis using b by linarith
  qed (use b in linarith)
  have "char_of (224 + i) = a" "char_of (128 + j) = b" "char_of (128 + k) = c"
    using ij by (auto intro!: char_of_eqI)
  then show ?thesis
    using utf8_encode_3 [OF r(1,2) refl b(2,3)] code three(1) r sur by (simp add: is_scalar_def)
next
  case (four a b c d)
  obtain i j k m where ij: "byte a = 240 + int i" "byte b = 128 + int j" "byte c = 128 + int k"
      "byte d = 128 + int m"
    using four byte_minus [of 240 a] byte_minus [of 128 b] byte_minus [of 128 c] byte_minus [of 128 d]
    by auto
  then have b: "i < 5" "j < 64" "k < 64" "m < 64" "i = 0 \<Longrightarrow> 16 \<le> j" "i = 4 \<Longrightarrow> j < 16"
    using four by auto
  have code: "utf8_code s = i * 262144 + j * 4096 + k * 64 + m"
    using four ij b by (simp add: utf8_code_def lead_code_def next_code_def)
  have r: "0x10000 \<le> i * 262144 + j * 4096 + k * 64 + m" "i * 262144 + j * 4096 + k * 64 + m < 0x110000"
    using b by linarith+
  have "char_of (240 + i) = a" "char_of (128 + j) = b" "char_of (128 + k) = c" "char_of (128 + m) = d"
    using ij by (auto intro!: char_of_eqI)
  then show ?thesis
    using utf8_encode_4 [OF r(1) refl b(2,3,4)] code four(1) r by (simp add: is_scalar_def)
qed

lemma utf8_valid_chars: "utf8_valid s \<longleftrightarrow> (\<exists>ws. list_all utf8_char ws \<and> s = concat ws)"
proof
  assume "utf8_valid s"
  then obtain cps where "list_all is_scalar cps" "s = concat (map utf8_encode cps)"
    by (auto simp: utf8_valid_def utf8_encode_all_def)
  then show "\<exists>ws. list_all utf8_char ws \<and> s = concat ws"
    by (intro exI [of _ "map utf8_encode cps"]) (auto simp: list_all_iff is_scalar_utf8_char)
next
  assume "\<exists>ws. list_all utf8_char ws \<and> s = concat ws"
  then obtain ws where ws: "list_all utf8_char ws" "s = concat ws" by auto
  then have "map (utf8_encode \<circ> utf8_code) ws = ws"
    by (auto simp: list_all_iff utf8_char_scalar intro: map_idI)
  with ws show "utf8_valid s"
    unfolding utf8_valid_def utf8_encode_all_def
    by (intro exI [of _ "map utf8_code ws"]) (auto simp: list_all_iff utf8_char_scalar)
qed

lemma utf8_valid_Nil [simp]: "utf8_valid []"
  by (auto simp: utf8_valid_chars intro: exI [of _ "[]"])

lemma utf8_valid_append: "utf8_valid s \<Longrightarrow> utf8_valid t \<Longrightarrow> utf8_valid (s @ t)"
  by (metis utf8_valid_chars concat_append list_all_append)

lemma utf8_valid_char: "utf8_char w \<Longrightarrow> utf8_valid w"
  by (auto simp: utf8_valid_chars intro: exI [of _ "[w]"])

lemma utf8_valid_ascii: "(\<And>c. c \<in> set s \<Longrightarrow> byte c < 128) \<Longrightarrow> utf8_valid s"
proof (induction s)
  case (Cons c s)
  then show ?case using utf8_valid_append [OF utf8_valid_char [of "[c]"]] by auto
qed simp
section \<open>The decoder reads characters\<close>

definition byte_class :: "nat \<Rightarrow> nat" where
  "byte_class n =
     (if n < 128 then 0 else if n < 144 then 1 else if n < 160 then 9 else if n < 192 then 7
      else if n < 194 then 8 else if n < 224 then 2 else if n = 224 then 10 else if n < 237 then 3
      else if n = 237 then 4 else if n < 240 then 3 else if n = 240 then 11 else if n < 244 then 6
      else if n = 244 then 5 else 8)"

lemma utf8d_classes: "take 256 utf8d = map byte_class [0..<256]"
  by code_simp

lemma utf8d_class: "n < 256 \<Longrightarrow> utf8d ! n = byte_class n"
  using arg_cong [OF utf8d_classes, of "\<lambda>xs. xs ! n"] by simp

lemma length_utf8d: "length utf8d = 400"
  by (simp add: utf8d_def)

definition byte_nat :: "char \<Rightarrow> nat" where
  "byte_nat c = of_char c"

lemma int_byte_nat [simp]: "int (byte_nat c) = byte c"
  by (simp only: byte_nat_def of_nat_of_char)

lemma byte_nat_less: "byte_nat c < 256"
  using int_byte_nat [of c] byte_upper [of c] by linarith

lemma unat_u8_of [simp]: "unat (u8_of c) = byte_nat c"
proof -
  have "u8_of c = of_nat (byte_nat c)" by (simp only: u8_of_def byte_nat_def of_nat_of_char)
  then show ?thesis using byte_nat_less [of c] by (simp add: unat_of_nat)
qed

text \<open>The ranges a state still expects.\<close>

definition state_ranges :: "nat \<Rightarrow> (int \<times> int) list" where
  "state_ranges st =
     (if st = 2 then [cont] else if st = 3 then [cont, cont]
      else if st = 4 then [(160, 191), cont] else if st = 5 then [(128, 159), cont]
      else if st = 6 then [(144, 191), cont, cont] else if st = 7 then [cont, cont, cont]
      else if st = 8 then [(128, 143), cont, cont] else [])"

lemma state_2_8: "2 \<le> st \<Longrightarrow> st \<le> 8 \<Longrightarrow>
    st = 2 \<or> st = 3 \<or> st = 4 \<or> st = 5 \<or> st = 6 \<or> st = 7 \<or> st = (8::nat)"
  by arith

text \<open>The first byte.\<close>

lemma decode_first:
  "byte c < 128 \<Longrightarrow> fst (decode 0 cp (u8_of c)) = 0"
  "128 \<le> byte c \<Longrightarrow> utf8_ranges (byte c) = [] \<Longrightarrow> fst (decode 0 cp (u8_of c)) = 1"
  "128 \<le> byte c \<Longrightarrow> utf8_ranges (byte c) \<noteq> [] \<Longrightarrow>
     2 \<le> fst (decode 0 cp (u8_of c)) \<and> fst (decode 0 cp (u8_of c)) \<le> 8 \<and>
     state_ranges (fst (decode 0 cp (u8_of c))) = utf8_ranges (byte c)"
proof -
  have s0: "utf8d ! 256 = 0" "utf8d ! 257 = 1" "utf8d ! 258 = 2" "utf8d ! 259 = 3" "utf8d ! 260 = 5"
    "utf8d ! 261 = 8" "utf8d ! 262 = 7" "utf8d ! 263 = 1" "utf8d ! 264 = 1" "utf8d ! 265 = 1"
    "utf8d ! 266 = 4" "utf8d ! 267 = 6"
    by (simp_all add: utf8d_def nth_append)
  show "byte c < 128 \<Longrightarrow> fst (decode 0 cp (u8_of c)) = 0"
    using byte_nat_less [of c]
    by (simp add: decode_def Let_def utf8d_class byte_class_def s0 flip: int_byte_nat)
  show "128 \<le> byte c \<Longrightarrow> utf8_ranges (byte c) = [] \<Longrightarrow> fst (decode 0 cp (u8_of c)) = 1"
    using byte_nat_less [of c]
    by (auto simp: decode_def Let_def utf8d_class byte_class_def s0 utf8_ranges_def
        simp flip: int_byte_nat split: if_splits)
  show "128 \<le> byte c \<Longrightarrow> utf8_ranges (byte c) \<noteq> [] \<Longrightarrow>
     2 \<le> fst (decode 0 cp (u8_of c)) \<and> fst (decode 0 cp (u8_of c)) \<le> 8 \<and>
     state_ranges (fst (decode 0 cp (u8_of c))) = utf8_ranges (byte c)"
    using byte_nat_less [of c]
    by (auto simp: decode_def Let_def utf8d_class byte_class_def s0 utf8_ranges_def state_ranges_def
        simp flip: int_byte_nat split: if_splits)
qed

text \<open>A following byte.\<close>

definition byte_next :: "nat \<Rightarrow> nat \<Rightarrow> nat" where
  "byte_next st k = utf8d ! (256 + st * 16 + k)"

lemma decode_next_state: "st \<noteq> 0 \<Longrightarrow> fst (decode st cp (u8_of c)) = byte_next st (byte_class (byte_nat c))"
  using byte_nat_less [of c] by (simp add: decode_def Let_def utf8d_class byte_next_def)

lemma byte_next:
  "st \<in> {2, 3, 4, 5, 6, 7, 8} \<Longrightarrow> k < 12 \<Longrightarrow> byte_next st k =
     (if k = 1 then [0, 2, 1, 2, 1, 3, 3] ! (st - 2)
      else if k = 9 then [0, 2, 1, 2, 3, 3, 1] ! (st - 2)
      else if k = 7 then [0, 2, 2, 1, 3, 3, 1] ! (st - 2)
      else 1)"
proof -
  assume "st \<in> {2, 3, 4, 5, 6, 7, 8}" "k < 12"
  moreover from \<open>k < 12\<close> have "k \<in> {0, 1, 2, 3, 4, 5, 6, 7, 8, 9, 10, 11}" by (simp, arith)
  ultimately show ?thesis
    unfolding byte_next_def utf8d_def by (elim insertE emptyE; simp add: nth_append)
qed

lemma byte_class_less: "byte_class n < 12"
  by (simp add: byte_class_def)

lemma byte_class_cont:
  "byte_class n = 1 \<longleftrightarrow> 128 \<le> n \<and> n < 144"
  "byte_class n = 9 \<longleftrightarrow> 144 \<le> n \<and> n < 160"
  "byte_class n = 7 \<longleftrightarrow> 160 \<le> n \<and> n < 192"
  by (auto simp: byte_class_def)

lemma in_range_nat: "in_range (a, b) c \<longleftrightarrow> nat a \<le> byte_nat c \<and> byte_nat c \<le> nat b" if "0 \<le> a" "0 \<le> b"
  using that by (simp add: nat_le_iff le_nat_iff)

lemma decode_next:
  assumes "st \<in> {2, 3, 4, 5, 6, 7, 8}" "state_ranges st = r # rs"
  shows "if in_range r c
         then state_ranges (fst (decode st cp (u8_of c))) = rs
              \<and> fst (decode st cp (u8_of c)) \<in> (if rs = [] then {0} else {2, 3, 4, 5, 6, 7, 8})
         else fst (decode st cp (u8_of c)) = 1"
proof -
  have st: "st \<noteq> 0" using assms(1) by auto
  let ?n = "byte_nat c"
  have d: "fst (decode st cp (u8_of c)) =
     (if 128 \<le> ?n \<and> ?n < 144 then [0, 2, 1, 2, 1, 3, 3] ! (st - 2)
      else if 144 \<le> ?n \<and> ?n < 160 then [0, 2, 1, 2, 3, 3, 1] ! (st - 2)
      else if 160 \<le> ?n \<and> ?n < 192 then [0, 2, 2, 1, 3, 3, 1] ! (st - 2)
      else 1)"
    unfolding decode_next_state [OF st] byte_next [OF assms(1) byte_class_less] byte_class_cont ..
  from assms(1) consider "st = 2" | "st = 3" | "st = 4" | "st = 5" | "st = 6" | "st = 7" | "st = 8"
    by auto
  then show ?thesis
    unfolding d using assms(2)
    by cases (simp_all add: state_ranges_def in_range_nat del: in_range_pair, auto simp: in_range_nat simp del: in_range_pair)
qed

text \<open>The code point.\<close>

lemma unat_ucast_u8: "unat (ucast (b::u8) :: u32) = unat b"
proof -
  have "unat b < 2 ^ LENGTH(8)" by (rule unsigned_less)
  then show ?thesis by (simp add: unsigned_ucast_eq take_bit_nat_eq_self)
qed

definition lead_nat :: "nat \<Rightarrow> nat" where
  "lead_nat n = (if n < 128 then n else if n < 224 then n - 192 else if n < 240 then n - 224
     else n - 240)"

lemma mod_block:
  fixes n :: nat
  assumes "k dvd a" "a \<le> n" "n < a + k"
  shows "n mod k = n - a"
proof -
  obtain d where n: "n = d + a" using assms(2) by (metis add.commute le_Suc_ex)
  then have "n mod k = d mod k" using assms(1) by (metis add_0_right dvd_imp_mod_0 mod_add_right_eq)
  then show ?thesis using n assms(3) by simp
qed

lemma lead_nat_class:
  assumes "n < 128 \<or> 194 \<le> n \<and> n \<le> 244"
  shows "n mod 2 ^ (8 - byte_class n) = lead_nat n"
  using assms mod_block [of 64 192 n] mod_block [of 32 224 n] mod_block [of 16 224 n]
    mod_block [of 4 240 n] mod_block [of 8 240 n]
  by (auto simp: byte_class_def lead_nat_def)

lemma lead_code_decode:
  assumes "byte c < 128 \<or> utf8_ranges (byte c) \<noteq> []"
  shows "unat (snd (decode 0 cp (u8_of c))) = lead_code c"
proof -
  have drop: "drop_bit k (mask 8) = (mask (8 - k) :: u32)" for k
    by (rule bit_word_eqI) (auto simp: bit_drop_bit_eq bit_mask_iff possible_bit_word)
  have 255: "(0xFF::u32) = mask 8" by (simp add: mask_eq_exp_minus_1)
  have "snd (decode 0 cp (u8_of c)) = take_bit (8 - byte_class (byte_nat c)) (ucast (u8_of c))"
    using byte_nat_less [of c]
    unfolding decode_def Let_def 255
    by (simp add: utf8d_class drop take_bit_eq_mask and.commute del: mask_numeral)
  then have "unat (snd (decode 0 cp (u8_of c))) = byte_nat c mod 2 ^ (8 - byte_class (byte_nat c))"
    by (simp add: unsigned_take_bit_eq take_bit_eq_mod [where 'a = nat] unat_ucast_u8)
  also have "\<dots> = lead_nat (byte_nat c)"
  proof (rule lead_nat_class)
    show "byte_nat c < 128 \<or> 194 \<le> byte_nat c \<and> byte_nat c \<le> 244"
      using assms by (auto simp: utf8_ranges_def simp flip: int_byte_nat split: if_splits)
  qed
  also have "\<dots> = lead_code c"
    by (simp add: lead_nat_def lead_code_def flip: int_byte_nat) arith
  finally show ?thesis .
qed

lemma next_code_decode:
  assumes "st \<noteq> 0" "unat cp < 2 ^ 26" "in_range cont c"
  shows "unat (snd (decode st cp (u8_of c))) = next_code (unat cp) c"
proof -
  have m: "(0x3f::u32) = mask 6" by (simp add: mask_eq_exp_minus_1)
  let ?low = "take_bit 6 (ucast (u8_of c)) :: u32"
  have "snd (decode st cp (u8_of c)) = ?low OR push_bit 6 cp"
    using assms(1) unfolding decode_def Let_def m
    by (simp add: take_bit_eq_mask and.commute del: mask_numeral)
  also have "\<dots> = ?low + push_bit 6 cp"
    by (rule disjunctive_add [symmetric]) (auto simp: bit_take_bit_iff bit_push_bit_iff)
  finally have "unat (snd (decode st cp (u8_of c))) = unat (?low + push_bit 6 cp)" by simp
  moreover have "unat ?low = byte_nat c mod 64"
    by (simp add: unsigned_take_bit_eq take_bit_eq_mod [where 'a = nat] unat_ucast_u8)
  moreover have "unat (push_bit 6 cp) = unat cp * 64"
    using assms(2) by (simp add: push_bit_eq_mult unat_word_ariths)
  ultimately have "unat (snd (decode st cp (u8_of c))) = byte_nat c mod 64 + unat cp * 64"
    using assms(2) by (simp add: unat_word_ariths)
  moreover have "byte_nat c mod 64 = nat (byte c - 128)"
  proof -
    have "byte_nat c mod 64 = byte_nat c - 128"
    proof (rule mod_block)
      show "128 \<le> byte_nat c" "byte_nat c < 128 + 64"
        using assms(3) by (simp_all flip: int_byte_nat)
    qed simp
    then show ?thesis by (simp flip: int_byte_nat)
  qed
  ultimately show ?thesis by (simp add: next_code_def)
qed
end
