(* ===== verification/Grisu.thy ===== *)
theory Grisu
  imports JsonNumber
begin

text \<open>
  Shortest decimal output of doubles: \<open>detail::to_chars\<close> of \<open>common/json.hpp\<close> with the
  Grisu2 algorithm of \<open>dtoa_impl\<close>. Significands are 64-bit words and wrap as in the code;
  binary and decimal exponents stay far inside \<open>int\<close> and are integers. A failing
  \<open>JSON_ASSERT\<close> (the library's assertions are on unless \<open>NDEBUG\<close> is set) ends the
  computation, and is a value of the result type here.
\<close>

definition json_assert :: "bool \<Rightarrow> string \<Rightarrow> 'a res \<Rightarrow> 'a res" where
  "json_assert b what k = (if b then k else Inl (Undefined_behaviour (''assertion failed: '' @ what)))"

lemma json_assert_True [simp]: "json_assert True w k = k"
  by (simp add: json_assert_def)

lemma json_assert_eq_Inr: "json_assert b w k = Inr x \<longleftrightarrow> b \<and> k = Inr x"
  by (simp add: json_assert_def)

lemma json_assert_cong [fundef_cong]:
  "b = b' \<Longrightarrow> (b' \<Longrightarrow> k = k') \<Longrightarrow> json_assert b w k = json_assert b' w k'"
  by (simp add: json_assert_def)

section \<open>Do-it-yourself floating point\<close>

record diyfp =
  fp_f :: u64
  fp_e :: int

abbreviation diyfp :: "u64 \<Rightarrow> int \<Rightarrow> diyfp" where
  "diyfp f e \<equiv> \<lparr>fp_f = f, fp_e = e\<rparr>"

definition diyfp_sub :: "diyfp \<Rightarrow> diyfp \<Rightarrow> diyfp res" where
  "diyfp_sub x y =
     json_assert (fp_e x = fp_e y \<and> fp_f y \<le> fp_f x) ''x.e == y.e && x.f >= y.f''
       (Inr (diyfp (fp_f x - fp_f y) (fp_e x)))"

definition diyfp_mul :: "diyfp \<Rightarrow> diyfp \<Rightarrow> diyfp" where
  "diyfp_mul x y =
     (let u_lo = fp_f x AND 0xFFFFFFFF; u_hi = drop_bit 32 (fp_f x);
          v_lo = fp_f y AND 0xFFFFFFFF; v_hi = drop_bit 32 (fp_f y);
          p0 = u_lo * v_lo; p1 = u_lo * v_hi; p2 = u_hi * v_lo; p3 = u_hi * v_hi;
          p0_hi = drop_bit 32 p0;
          p1_lo = p1 AND 0xFFFFFFFF; p1_hi = drop_bit 32 p1;
          p2_lo = p2 AND 0xFFFFFFFF; p2_hi = drop_bit 32 p2;
          Q = p0_hi + p1_lo + p2_lo;
          Q' = Q + push_bit (64 - 32 - 1) 1;
          h = p3 + p2_hi + p1_hi + drop_bit 32 Q'
      in diyfp h (fp_e x + fp_e y + 64))"

text \<open>The loop doubles a non-zero significand until its top bit is set.\<close>

lemma drop_bit_63_zero: "drop_bit 63 f = 0 \<Longrightarrow> unat f < 2 ^ 63" for f :: u64
proof -
  assume "drop_bit 63 f = 0"
  then have "unat f div 2 ^ 63 = 0" by (metis unat_0 unat_drop_bit_eq drop_bit_eq_div)
  then show ?thesis by (simp add: div_eq_0_iff)
qed

lemma unat_push_bit_1: "unat f < 2 ^ 63 \<Longrightarrow> unat (push_bit 1 f) = 2 * unat f" for f :: u64
  by (simp add: push_bit_eq_mult unat_word_ariths mult.commute)

function normalize_loop :: "u64 \<Rightarrow> int \<Rightarrow> diyfp" where
  "normalize_loop f e =
     (if f \<noteq> 0 \<and> drop_bit 63 f = 0 then normalize_loop (push_bit 1 f) (e - 1) else diyfp f e)"
  by pat_completeness auto
termination
proof (relation "measure (\<lambda>(f, e). 2 ^ 64 - unat f)", goal_cases)
  case (2 f e)
  then have "0 < unat f" by (simp add: unat_gt_0)
  then show ?case
    using 2 drop_bit_63_zero [of f] unat_push_bit_1 [of f] by simp
qed simp

declare normalize_loop.simps [simp del]

definition diyfp_normalize :: "diyfp \<Rightarrow> diyfp res" where
  "diyfp_normalize x = json_assert (fp_f x \<noteq> 0) ''x.f != 0'' (Inr (normalize_loop (fp_f x) (fp_e x)))"

definition diyfp_normalize_to :: "diyfp \<Rightarrow> int \<Rightarrow> diyfp res" where
  "diyfp_normalize_to x target_exponent =
     (let delta = fp_e x - target_exponent in
      json_assert (0 \<le> delta) ''delta >= 0''
        (json_assert (drop_bit (nat delta) (push_bit (nat delta) (fp_f x)) = fp_f x)
           ''((x.f << delta) >> delta) == x.f''
           (Inr (diyfp (push_bit (nat delta) (fp_f x)) target_exponent))))"

record boundaries =
  bd_w :: diyfp
  bd_minus :: diyfp
  bd_plus :: diyfp

definition compute_boundaries :: "dbl \<Rightarrow> boundaries res" where
  "compute_boundaries value =
     (let kPrecision = 53 :: nat; kBias = 1075 :: int; kMinExp = 1 - kBias;
          kHiddenBit = push_bit (kPrecision - 1) 1 :: u64;
          E = drop_bit (kPrecision - 1) value;
          F = value AND (kHiddenBit - 1);
          is_denormal = (E = 0);
          v = (if is_denormal then diyfp F kMinExp
               else diyfp (F + kHiddenBit) (uint E - kBias));
          lower_boundary_is_closer = (F = 0 \<and> 1 < E);
          m_plus = diyfp (2 * fp_f v + 1) (fp_e v - 1);
          m_minus = (if lower_boundary_is_closer then diyfp (4 * fp_f v - 1) (fp_e v - 2)
                     else diyfp (2 * fp_f v - 1) (fp_e v - 1))
      in rbind (diyfp_normalize m_plus) (\<lambda>w_plus.
         rbind (diyfp_normalize_to m_minus (fp_e w_plus)) (\<lambda>w_minus.
         rbind (diyfp_normalize v) (\<lambda>w.
         Inr \<lparr>bd_w = w, bd_minus = w_minus, bd_plus = w_plus\<rparr>))))"

section \<open>Cached powers\<close>

definition kAlpha :: int where
  "kAlpha = - 60"

definition kGamma :: int where
  "kGamma = - 32"

text \<open>Rows \<open>(f, e, k)\<close> with \<open>f * 2 ^ e\<close> close to \<open>10 ^ k\<close>.\<close>

definition kCachedPowers :: "(u64 \<times> int \<times> int) list" where
  "kCachedPowers =
     [
      (0xAB70FE17C79AC6CA, - 1060, - 300), (0xFF77B1FCBEBCDC4F, - 1034, - 292),
      (0xBE5691EF416BD60C, - 1007, - 284), (0x8DD01FAD907FFC3C, - 980, - 276),
      (0xD3515C2831559A83, - 954, - 268), (0x9D71AC8FADA6C9B5, - 927, - 260),
      (0xEA9C227723EE8BCB, - 901, - 252), (0xAECC49914078536D, - 874, - 244),
      (0x823C12795DB6CE57, - 847, - 236), (0xC21094364DFB5637, - 821, - 228),
      (0x9096EA6F3848984F, - 794, - 220), (0xD77485CB25823AC7, - 768, - 212),
      (0xA086CFCD97BF97F4, - 741, - 204), (0xEF340A98172AACE5, - 715, - 196),
      (0xB23867FB2A35B28E, - 688, - 188), (0x84C8D4DFD2C63F3B, - 661, - 180),
      (0xC5DD44271AD3CDBA, - 635, - 172), (0x936B9FCEBB25C996, - 608, - 164),
      (0xDBAC6C247D62A584, - 582, - 156), (0xA3AB66580D5FDAF6, - 555, - 148),
      (0xF3E2F893DEC3F126, - 529, - 140), (0xB5B5ADA8AAFF80B8, - 502, - 132),
      (0x87625F056C7C4A8B, - 475, - 124), (0xC9BCFF6034C13053, - 449, - 116),
      (0x964E858C91BA2655, - 422, - 108), (0xDFF9772470297EBD, - 396, - 100),
      (0xA6DFBD9FB8E5B88F, - 369, - 92), (0xF8A95FCF88747D94, - 343, - 84),
      (0xB94470938FA89BCF, - 316, - 76), (0x8A08F0F8BF0F156B, - 289, - 68),
      (0xCDB02555653131B6, - 263, - 60), (0x993FE2C6D07B7FAC, - 236, - 52),
      (0xE45C10C42A2B3B06, - 210, - 44), (0xAA242499697392D3, - 183, - 36),
      (0xFD87B5F28300CA0E, - 157, - 28), (0xBCE5086492111AEB, - 130, - 20),
      (0x8CBCCC096F5088CC, - 103, - 12), (0xD1B71758E219652C, - 77, - 4),
      (0x9C40000000000000, - 50, 4), (0xE8D4A51000000000, - 24, 12),
      (0xAD78EBC5AC620000, 3, 20), (0x813F3978F8940984, 30, 28),
      (0xC097CE7BC90715B3, 56, 36), (0x8F7E32CE7BEA5C70, 83, 44),
      (0xD5D238A4ABE98068, 109, 52), (0x9F4F2726179A2245, 136, 60),
      (0xED63A231D4C4FB27, 162, 68), (0xB0DE65388CC8ADA8, 189, 76),
      (0x83C7088E1AAB65DB, 216, 84), (0xC45D1DF942711D9A, 242, 92),
      (0x924D692CA61BE758, 269, 100), (0xDA01EE641A708DEA, 295, 108),
      (0xA26DA3999AEF774A, 322, 116), (0xF209787BB47D6B85, 348, 124),
      (0xB454E4A179DD1877, 375, 132), (0x865B86925B9BC5C2, 402, 140),
      (0xC83553C5C8965D3D, 428, 148), (0x952AB45CFA97A0B3, 455, 156),
      (0xDE469FBD99A05FE3, 481, 164), (0xA59BC234DB398C25, 508, 172),
      (0xF6C69A72A3989F5C, 534, 180), (0xB7DCBF5354E9BECE, 561, 188),
      (0x88FCF317F22241E2, 588, 196), (0xCC20CE9BD35C78A5, 614, 204),
      (0x98165AF37B2153DF, 641, 212), (0xE2A0B5DC971F303A, 667, 220),
      (0xA8D9D1535CE3B396, 694, 228), (0xFB9B7CD9A4A7443C, 720, 236),
      (0xBB764C4CA7A44410, 747, 244), (0x8BAB8EEFB6409C1A, 774, 252),
      (0xD01FEF10A657842C, 800, 260), (0x9B10A4E5E9913129, 827, 268),
      (0xE7109BFBA19C0C9D, 853, 276), (0xAC2820D9623BF429, 880, 284),
      (0x80444B5E7AA7CF85, 907, 292), (0xBF21E44003ACDD2D, 933, 300),
      (0x8E679C2F5E44FF8F, 960, 308), (0xD433179D9C8CB841, 986, 316),
      (0x9E19DB92B4E31BA9, 1013, 324)]"

definition cached_power_index :: "int \<Rightarrow> int" where
  "cached_power_index e =
     (let f = kAlpha - e - 1;
          k = cdiv (f * 78913) (2 ^ 18) + (if 0 < f then 1 else 0)
      in cdiv (300 + k + (8 - 1)) 8)"

definition get_cached_power_for_binary_exponent :: "int \<Rightarrow> (u64 \<times> int \<times> int) res" where
  "get_cached_power_for_binary_exponent e =
     json_assert (- 1500 \<le> e \<and> e \<le> 1500) ''e >= -1500 && e <= 1500''
       (let index = cached_power_index e in
        json_assert (0 \<le> index \<and> index < int (length kCachedPowers)) ''index < kCachedPowers.size()''
          (let cached = kCachedPowers ! nat index in
           json_assert (kAlpha \<le> fst (snd cached) + e + 64 \<and> fst (snd cached) + e + 64 \<le> kGamma)
             ''kAlpha <= cached.e + e + 64 <= kGamma'' (Inr cached)))"

section \<open>Digits\<close>

definition find_largest_pow10 :: "u32 \<Rightarrow> nat \<times> u32" where
  "find_largest_pow10 n =
     (if 1000000000 \<le> n then (10, 1000000000)
      else if 100000000 \<le> n then (9, 100000000)
      else if 10000000 \<le> n then (8, 10000000)
      else if 1000000 \<le> n then (7, 1000000)
      else if 100000 \<le> n then (6, 100000)
      else if 10000 \<le> n then (5, 10000)
      else if 1000 \<le> n then (4, 1000)
      else if 100 \<le> n then (3, 100)
      else if 10 \<le> n then (2, 10)
      else (1, 1))"

text \<open>The last digit goes down while that brings the number closer to \<open>w\<close>.\<close>

definition decrement_last :: "string \<Rightarrow> string" where
  "decrement_last buf = butlast buf @ [chr (byte (last buf) - 1)]"

lemma round_step_less:
  fixes rest delta ten_k :: u64
  assumes "rest \<le> delta" "0 < ten_k" "ten_k \<le> delta - rest"
  shows "unat (rest + ten_k) = unat rest + unat ten_k"
    and "unat rest + unat ten_k \<le> unat delta"
proof -
  have le: "unat rest \<le> unat delta" using assms(1) by (simp add: word_le_nat_alt)
  have "unat ten_k \<le> unat (delta - rest)" using assms(3) by (simp add: word_le_nat_alt)
  also have "\<dots> = unat delta - unat rest" by (rule unat_sub [OF assms(1)])
  finally show *: "unat rest + unat ten_k \<le> unat delta" using le by simp
  moreover have "unat delta < 2 ^ LENGTH(64)" by (rule unsigned_less)
  ultimately show "unat (rest + ten_k) = unat rest + unat ten_k"
    by (simp add: unat_word_ariths)
qed

function grisu2_round_loop :: "string \<Rightarrow> u64 \<Rightarrow> u64 \<Rightarrow> u64 \<Rightarrow> u64 \<Rightarrow> string res" where
  "grisu2_round_loop buf dist delta rest ten_k =
     json_assert (rest \<le> delta \<and> 0 < ten_k) ''rest <= delta && ten_k > 0''
      (if rest < dist \<and> ten_k \<le> delta - rest
          \<and> (rest + ten_k < dist \<or> rest + ten_k - dist < dist - rest)
       then json_assert (last buf \<noteq> CHR ''0'') ''last digit is not 0''
              (grisu2_round_loop (decrement_last buf) dist delta (rest + ten_k) ten_k)
       else Inr buf)"
  by pat_completeness auto
termination
proof (relation "measure (\<lambda>(buf, dist, delta, rest, ten_k). unat delta - unat rest)", goal_cases)
  case (2 buf dist delta rest ten_k)
  then have "rest \<le> delta" "0 < ten_k" "ten_k \<le> delta - rest" by auto
  note round_step_less [OF this]
  moreover have "0 < unat ten_k" using 2 by (simp add: unat_gt_0 word_neq_0_conv)
  ultimately show ?case by simp
qed simp

declare grisu2_round_loop.simps [simp del]

definition grisu2_round :: "string \<Rightarrow> u64 \<Rightarrow> u64 \<Rightarrow> u64 \<Rightarrow> u64 \<Rightarrow> string res" where
  "grisu2_round buf dist delta rest ten_k =
     json_assert (buf \<noteq> [] \<and> dist \<le> delta) ''len >= 1 && dist <= delta''
       (grisu2_round_loop buf dist delta rest ten_k)"

text \<open>
  Digits of the fraction \<open>p2 / 2 ^ s\<close>. Every turn multiplies it by ten and drops the
  integer part, which gives it one more trailing zero bit: the loop ends even where
  \<open>delta\<close> is zero.
\<close>

lemma mult10_trailing:
  fixes x s i :: nat
  assumes "2 ^ i dvd x" "(x * 10) mod 2 ^ s \<noteq> 0"
  shows "2 ^ Suc i dvd (x * 10) mod 2 ^ s"
proof -
  have dvd: "2 ^ Suc i dvd x * 10"
    using assms(1) by (metis mult.commute mult_dvd_mono power_Suc even_numeral numeral_Bit0_eq_double mult_2 dvd_triv_left mult.assoc dvd_mult2)
  have "Suc i \<le> s"
  proof (rule ccontr)
    assume "\<not> Suc i \<le> s"
    then have "2 ^ s dvd x * 10" using dvd by (meson le_imp_power_dvd nat_le_linear dvd_trans)
    then show False using assms(2) by simp
  qed
  then show ?thesis using dvd by (metis dvd_mod le_imp_power_dvd)
qed

definition odd_places :: "nat \<Rightarrow> nat set" where
  "odd_places x = {i. i < 64 \<and> \<not> 2 ^ i dvd x}"

lemma odd_places_shrink:
  assumes "(x * 10) mod 2 ^ s \<noteq> 0" "x < 2 ^ 63"
  shows "card (odd_places ((x * 10) mod 2 ^ s)) < card (odd_places x)"
proof -
  let ?y = "(x * 10) mod 2 ^ s"
  have sub: "odd_places ?y \<subseteq> Suc ` (odd_places x - {63})"
  proof
    fix i assume i: "i \<in> odd_places ?y"
    then obtain j where "i = Suc j" by (cases i) (auto simp: odd_places_def)
    with i show "i \<in> Suc ` (odd_places x - {63})"
      using mult10_trailing [of j x s] assms(1) by (auto simp: odd_places_def)
  qed
  have "x \<noteq> 0" using assms(1) by (cases "x = 0") auto
  then have mem: "63 \<in> odd_places x"
    using assms(2) by (auto simp: odd_places_def dest: dvd_imp_le)
  have fin: "finite (odd_places x)" by (simp add: odd_places_def)
  have "card (odd_places ?y) \<le> card (Suc ` (odd_places x - {63}))"
    by (rule card_mono [OF _ sub]) (simp add: fin)
  also have "\<dots> \<le> card (odd_places x - {63})" by (rule card_image_le) (simp add: fin)
  also have "\<dots> < card (odd_places x)" by (rule card_Diff1_less [OF fin mem])
  finally show ?thesis .
qed

lemma unat_fraction_step:
  fixes p2 :: u64
  assumes "unat p2 \<le> (2 ^ 64 - 1) div 10"
  shows "unat (p2 * 10 AND (push_bit s 1 - 1)) = unat p2 * 10 mod 2 ^ s"
proof -
  have "push_bit s (1::u64) - 1 = mask s" by (simp add: mask_eq_exp_minus_1 push_bit_eq_mult)
  then have "unat (p2 * 10 AND (push_bit s 1 - 1)) = unat (take_bit s (p2 * 10))"
    by (simp add: take_bit_eq_mask)
  also have "\<dots> = unat (p2 * 10) mod 2 ^ s"
    by (simp only: unsigned_take_bit_eq take_bit_eq_mod [where 'a = nat])
  also have "unat (p2 * 10) = unat p2 * 10" using assms by (simp add: unat_word_ariths)
  finally show ?thesis .
qed

function digit_gen_fraction ::
  "nat \<Rightarrow> u64 \<Rightarrow> u64 \<Rightarrow> u64 \<Rightarrow> int \<Rightarrow> string \<Rightarrow> (string \<times> int) res" where
  "digit_gen_fraction s p2 delta dist decimal_exponent buf =
     json_assert (unat p2 \<le> (2 ^ 64 - 1) div 10) ''p2 <= UINT64_MAX / 10''
      (let p2x = p2 * 10; d = drop_bit s p2x; r = p2x AND (push_bit s 1 - 1);
           delta' = delta * 10; dist' = dist * 10
       in json_assert (d \<le> 9) ''d <= 9''
         (let buf' = buf @ [chr (48 + uint d)]
          in if r \<le> delta'
             then rbind (grisu2_round buf' dist' delta' r (push_bit s 1))
                    (\<lambda>b. Inr (b, decimal_exponent - 1))
             else digit_gen_fraction s r delta' dist' (decimal_exponent - 1) buf'))"
  by pat_completeness auto
termination
proof (relation "measure (\<lambda>(s, p2, delta, dist, de, buf). card (odd_places (unat p2)))", goal_cases)
  case (2 s p2 delta dist de buf p2x d r delta' dist' buf')
  then have "unat p2 \<le> (2 ^ 64 - 1) div 10" by simp
  moreover from this have "unat p2 < 2 ^ 63" by simp
  moreover have "unat r \<noteq> 0" using 2 by (auto simp: unat_eq_zero)
  ultimately show ?case
    using 2 unat_fraction_step [of p2 s] odd_places_shrink [of "unat p2" s] by simp
qed simp

declare digit_gen_fraction.simps [simp del]

text \<open>Digits of the integer part, from the highest of \<open>n\<close> places down.\<close>

fun digit_gen_integer ::
  "nat \<Rightarrow> nat \<Rightarrow> u32 \<Rightarrow> u64 \<Rightarrow> u32 \<Rightarrow> u64 \<Rightarrow> u64 \<Rightarrow> int \<Rightarrow> string \<Rightarrow> (string \<times> int) res" where
  "digit_gen_integer 0 s p1 p2 pow10 delta dist decimal_exponent buf =
     json_assert (delta < p2) ''p2 > delta''
       (digit_gen_fraction s p2 delta dist decimal_exponent buf)"
| "digit_gen_integer (Suc n) s p1 p2 pow10 delta dist decimal_exponent buf =
     (let d = p1 div pow10; r = p1 mod pow10
      in json_assert (d \<le> 9) ''d <= 9''
        (let buf' = buf @ [chr (48 + uint d)];
             rest = push_bit s (ucast r) + p2
         in if rest \<le> delta
            then rbind (grisu2_round buf' dist delta rest (push_bit s (ucast pow10)))
                   (\<lambda>b. Inr (b, decimal_exponent + int n))
            else digit_gen_integer n s r p2 (pow10 div 10) delta dist decimal_exponent buf'))"

definition grisu2_digit_gen :: "int \<Rightarrow> diyfp \<Rightarrow> diyfp \<Rightarrow> diyfp \<Rightarrow> (string \<times> int) res" where
  "grisu2_digit_gen decimal_exponent M_minus w M_plus =
     json_assert (kAlpha \<le> fp_e M_plus \<and> fp_e M_plus \<le> kGamma) ''kAlpha <= M_plus.e <= kGamma''
      (rbind (diyfp_sub M_plus M_minus) (\<lambda>delta.
       rbind (diyfp_sub M_plus w) (\<lambda>dist.
       let s = nat (- fp_e M_plus);
           p1 = ucast (drop_bit s (fp_f M_plus)) :: u32;
           p2 = fp_f M_plus AND (push_bit s 1 - 1)
       in json_assert (0 < p1) ''p1 > 0''
         (let (k, pow10) = find_largest_pow10 p1
          in digit_gen_integer k s p1 p2 pow10 (fp_f delta) (fp_f dist) decimal_exponent []))))"

definition grisu2_scaled :: "diyfp \<Rightarrow> diyfp \<Rightarrow> diyfp \<Rightarrow> (string \<times> int) res" where
  "grisu2_scaled m_minus v m_plus =
     json_assert (fp_e m_plus = fp_e m_minus \<and> fp_e m_plus = fp_e v) ''m_plus.e == m_minus.e == v.e''
      (rbind (get_cached_power_for_binary_exponent (fp_e m_plus)) (\<lambda>(cf, ce, ck).
       let c_minus_k = diyfp cf ce;
           w = diyfp_mul v c_minus_k;
           w_minus = diyfp_mul m_minus c_minus_k;
           w_plus = diyfp_mul m_plus c_minus_k;
           M_minus = diyfp (fp_f w_minus + 1) (fp_e w_minus);
           M_plus = diyfp (fp_f w_plus - 1) (fp_e w_plus)
       in grisu2_digit_gen (- ck) M_minus w M_plus))"

definition grisu2 :: "dbl \<Rightarrow> (string \<times> int) res" where
  "grisu2 value =
     rbind (compute_boundaries value) (\<lambda>w. grisu2_scaled (bd_minus w) (bd_w w) (bd_plus w))"

section \<open>Layout\<close>

definition append_exponent :: "int \<Rightarrow> string res" where
  "append_exponent e =
     json_assert (- 1000 < e \<and> e < 1000) ''-1000 < e < 1000''
      (let k = nat \<bar>e\<bar>;
           sgn = (if e < 0 then ''-'' else ''+'')
       in Inr (sgn @
         (if k < 10 then [CHR ''0'', digit_char k]
          else if k < 100 then [digit_char (k div 10), digit_char (k mod 10)]
          else [digit_char (k div 100), digit_char (k mod 100 div 10), digit_char (k mod 100 mod 10)])))"

definition format_buffer :: "string \<Rightarrow> int \<Rightarrow> int \<Rightarrow> int \<Rightarrow> string res" where
  "format_buffer buf decimal_exponent min_exp max_exp =
     (let k = int (length buf); n = k + decimal_exponent
      in if k \<le> n \<and> n \<le> max_exp then Inr (buf @ replicate (nat (n - k)) (CHR ''0'') @ ''.0'')
         else if 0 < n \<and> n \<le> max_exp then Inr (take (nat n) buf @ ''.'' @ drop (nat n) buf)
         else if min_exp < n \<and> n \<le> 0
         then Inr (''0.'' @ replicate (nat (- n)) (CHR ''0'') @ buf)
         else rbind (append_exponent (n - 1)) (\<lambda>ex.
           Inr ((if k = 1 then buf else take 1 buf @ ''.'' @ drop 1 buf) @ ''e'' @ ex)))"

definition to_chars :: "dbl \<Rightarrow> string res" where
  "to_chars x =
     (let sgn = (if dbl_sign x then ''-'' else []);
          value = (if dbl_sign x then x AND (push_bit 63 1 - 1) else x)
      in if value = 0 then Inr (sgn @ ''0.0'')
         else rbind (grisu2 value) (\<lambda>(buf, decimal_exponent).
           json_assert (length buf \<le> 17) ''len <= max_digits10''
             (rbind (format_buffer buf decimal_exponent (- 4) 15) (\<lambda>out. Inr (sgn @ out)))))"

definition dump_float :: "dbl \<Rightarrow> string res" where
  "dump_float x = (if dbl_isfinite x then to_chars x else Inr ''null'')"

end
