(* ===== verification/Serializer.thy ===== *)
theory Serializer
  imports Utf8 Grisu
begin

text \<open>
  Class \<open>serializer\<close> of \<open>common/json.hpp\<close> and \<open>basic_json::dump\<close>. The serializer's
  state is its output, the indentation string that grows by doubling, and the 512-byte
  buffer strings are escaped through. Whether a write ever left that buffer is recorded in
  the ghost field \<open>sz_overrun\<close>; the code has no such test.
\<close>

datatype error_handler_t = EH_strict | EH_replace | EH_ignore

record serializer =
  sz_o :: string
  sz_indent_char :: char
  sz_indent_string :: string
  sz_string_buffer :: string
  sz_error_handler :: error_handler_t
  sz_overrun :: bool

definition serializer_init :: "char \<Rightarrow> error_handler_t \<Rightarrow> serializer" where
  "serializer_init ichar eh =
     \<lparr>sz_o = [], sz_indent_char = ichar, sz_indent_string = replicate 512 ichar,
      sz_string_buffer = replicate 512 (chr 0), sz_error_handler = eh, sz_overrun = False\<rparr>"

definition write_characters :: "string \<Rightarrow> serializer \<Rightarrow> serializer" where
  "write_characters s sz = sz\<lparr>sz_o := sz_o sz @ s\<rparr>"

definition write_character :: "char \<Rightarrow> serializer \<Rightarrow> serializer" where
  "write_character c sz = sz\<lparr>sz_o := sz_o sz @ [c]\<rparr>"

section \<open>Escaping strings\<close>

text \<open>The local variables of \<open>dump_escaped\<close>.\<close>

record escape_vars =
  ev_codepoint :: u32
  ev_state :: nat
  ev_bytes :: nat
  ev_bytes_after_last_accept :: nat
  ev_undumped_chars :: nat

definition escape_vars_init :: escape_vars where
  "escape_vars_init = \<lparr>ev_codepoint = 0, ev_state = UTF8_ACCEPT, ev_bytes = 0,
     ev_bytes_after_last_accept = 0, ev_undumped_chars = 0\<rparr>"

type_synonym escape_state = "serializer \<times> escape_vars"

text \<open>\<open>string_buffer[bytes++] = c\<close>\<close>

definition buffer_put :: "char \<Rightarrow> escape_state \<Rightarrow> escape_state" where
  "buffer_put c st =
     (let sz = fst st; ev = snd st
      in (sz\<lparr>sz_string_buffer := (sz_string_buffer sz)[ev_bytes ev := c],
             sz_overrun := sz_overrun sz \<or> length (sz_string_buffer sz) \<le> ev_bytes ev\<rparr>,
          ev\<lparr>ev_bytes := ev_bytes ev + 1\<rparr>))"

text \<open>\<open>snprintf(string_buffer.data() + bytes, ...)\<close>: the text and a terminating zero.\<close>

definition buffer_print :: "string \<Rightarrow> escape_state \<Rightarrow> escape_state" where
  "buffer_print s st =
     (let (sz, ev) = buffer_put (chr 0) (fold buffer_put s st)
      in (sz, ev\<lparr>ev_bytes := ev_bytes ev - 1\<rparr>))"

definition backslash :: char where
  "backslash = chr 92"

text \<open>\<open>\uXXXX\<close>, as a surrogate pair above the basic plane.\<close>

definition escape_unicode :: "u32 \<Rightarrow> string" where
  "escape_unicode codepoint =
     (if codepoint \<le> 0xFFFF then [backslash, CHR ''u''] @ hex4 (unat (ucast codepoint :: u16))
      else [backslash, CHR ''u''] @ hex4 (unat (ucast (0xD7C0 + drop_bit 10 codepoint) :: u16))
         @ [backslash, CHR ''u''] @ hex4 (unat (ucast (0xDC00 + (codepoint AND 0x3FF)) :: u16)))"

definition put_code_point :: "bool \<Rightarrow> char \<Rightarrow> escape_state \<Rightarrow> escape_state" where
  "put_code_point ensure_ascii c st =
     (let codepoint = ev_codepoint (snd st) in
      if codepoint = 0x08 then buffer_put (CHR ''b'') (buffer_put backslash st)
      else if codepoint = 0x09 then buffer_put (CHR ''t'') (buffer_put backslash st)
      else if codepoint = 0x0A then buffer_put (CHR ''n'') (buffer_put backslash st)
      else if codepoint = 0x0C then buffer_put (CHR ''f'') (buffer_put backslash st)
      else if codepoint = 0x0D then buffer_put (CHR ''r'') (buffer_put backslash st)
      else if codepoint = 0x22 then buffer_put (chr 34) (buffer_put backslash st)
      else if codepoint = 0x5C then buffer_put backslash (buffer_put backslash st)
      else if codepoint \<le> 0x1F \<or> (ensure_ascii \<and> 0x7F \<le> codepoint)
      then buffer_print (escape_unicode codepoint) st
      else buffer_put c st)"

text \<open>The buffer is written out when fewer than 13 bytes are left.\<close>

definition flush_buffer :: "escape_state \<Rightarrow> escape_state" where
  "flush_buffer st =
     (let sz = fst st; ev = snd st
      in if length (sz_string_buffer sz) - ev_bytes ev < 13
         then (write_characters (take (ev_bytes ev) (sz_string_buffer sz)) sz, ev\<lparr>ev_bytes := 0\<rparr>)
         else st)"

definition on_accept :: "bool \<Rightarrow> char \<Rightarrow> escape_state \<Rightarrow> escape_state" where
  "on_accept ensure_ascii c st =
     (let (sz, ev) = flush_buffer (put_code_point ensure_ascii c st)
      in (sz, ev\<lparr>ev_bytes_after_last_accept := ev_bytes ev, ev_undumped_chars := 0\<rparr>))"

definition hex_bytes :: "u8 \<Rightarrow> string" where
  "hex_bytes b = [hex_digit_upper (unat (b div 16)), hex_digit_upper (unat (b mod 16))]"

definition replacement :: "bool \<Rightarrow> string" where
  "replacement ensure_ascii =
     (if ensure_ascii then [backslash] @ ''ufffd'' else [chr 0xEF, chr 0xBF, chr 0xBD])"

definition on_reject :: "bool \<Rightarrow> escape_state \<Rightarrow> escape_state" where
  "on_reject ensure_ascii st =
     (let (sz, ev) = st;
          st1 = (sz, ev\<lparr>ev_bytes := ev_bytes_after_last_accept ev\<rparr>);
          (sz2, ev2) =
            (if sz_error_handler sz = EH_replace
             then (let (sz', ev') = flush_buffer (fold buffer_put (replacement ensure_ascii) st1)
                   in (sz', ev'\<lparr>ev_bytes_after_last_accept := ev_bytes ev'\<rparr>))
             else st1)
      in (sz2, ev2\<lparr>ev_undumped_chars := 0, ev_state := UTF8_ACCEPT\<rparr>))"

definition on_incomplete :: "bool \<Rightarrow> char \<Rightarrow> escape_state \<Rightarrow> escape_state" where
  "on_incomplete ensure_ascii c st =
     (let (sz, ev) = (if ensure_ascii then st else buffer_put c st)
      in (sz, ev\<lparr>ev_undumped_chars := ev_undumped_chars ev + 1\<rparr>))"

definition invalid_byte_error :: "nat \<Rightarrow> u8 \<Rightarrow> exn" where
  "invalid_byte_error i b =
     type_error_create 316 (''invalid UTF-8 byte at index '' @ show_nat i @ '': 0x'' @ hex_bytes b)"

definition incomplete_error :: "u8 \<Rightarrow> exn" where
  "incomplete_error b = type_error_create 316 (''incomplete UTF-8 string; last byte: 0x'' @ hex_bytes b)"

text \<open>
  The loop over the bytes. A byte that does not continue the sequence before it is read
  again on its own (\<open>--i\<close>); then no character is undumped, so it is not read a third time.
\<close>

definition decode_vars :: "char \<Rightarrow> escape_vars \<Rightarrow> escape_vars" where
  "decode_vars c ev =
     (let (state, codepoint) = decode (ev_state ev) (ev_codepoint ev) (u8_of c)
      in ev\<lparr>ev_state := state, ev_codepoint := codepoint\<rparr>)"

lemma undumped_on_reject [simp]: "ev_undumped_chars (snd (on_reject ensure_ascii st)) = 0"
  by (simp add: on_reject_def Let_def split: prod.split)

function dump_escaped_loop ::
  "bool \<Rightarrow> string \<Rightarrow> nat \<Rightarrow> escape_state \<Rightarrow> escape_state res" where
  "dump_escaped_loop ensure_ascii s i st =
     (if i < length s
      then (let st1 = (fst st, decode_vars (s ! i) (snd st));
                state = ev_state (snd st1)
            in if state = UTF8_ACCEPT
               then dump_escaped_loop ensure_ascii s (i + 1) (on_accept ensure_ascii (s ! i) st1)
               else if state = UTF8_REJECT
               then (if sz_error_handler (fst st) = EH_strict
                     then Inl (invalid_byte_error i (u8_of (s ! i)))
                     else if 0 < ev_undumped_chars (snd st)
                     then dump_escaped_loop ensure_ascii s i (on_reject ensure_ascii st1)
                     else dump_escaped_loop ensure_ascii s (i + 1) (on_reject ensure_ascii st1))
               else dump_escaped_loop ensure_ascii s (i + 1) (on_incomplete ensure_ascii (s ! i) st1))
      else Inr st)"
  by pat_completeness auto
termination
  by (relation "measures [\<lambda>(ea, s, i, st). length s - i, \<lambda>(ea, s, i, st). ev_undumped_chars (snd st)]")
     auto

declare dump_escaped_loop.simps [simp del]

definition dump_escaped_end :: "bool \<Rightarrow> string \<Rightarrow> escape_state \<Rightarrow> serializer res" where
  "dump_escaped_end ensure_ascii s st =
     (let (sz, ev) = st in
      if ev_state ev = UTF8_ACCEPT
      then Inr (if 0 < ev_bytes ev
                then write_characters (take (ev_bytes ev) (sz_string_buffer sz)) sz else sz)
      else (let accepted = take (ev_bytes_after_last_accept ev) (sz_string_buffer sz) in
        case sz_error_handler sz of
          EH_strict \<Rightarrow> Inl (incomplete_error (u8_of (last s)))
        | EH_ignore \<Rightarrow> Inr (write_characters accepted sz)
        | EH_replace \<Rightarrow> Inr (write_characters (replacement ensure_ascii) (write_characters accepted sz))))"

definition dump_escaped :: "bool \<Rightarrow> string \<Rightarrow> serializer \<Rightarrow> serializer res" where
  "dump_escaped ensure_ascii s sz =
     rbind (dump_escaped_loop ensure_ascii s 0 (sz, escape_vars_init)) (dump_escaped_end ensure_ascii s)"

section \<open>Values\<close>

text \<open>\<open>write_characters(indent_string.c_str(), n)\<close>; beyond the string and its
  terminating zero lies memory the string does not own.\<close>

definition write_indent :: "u32 \<Rightarrow> serializer \<Rightarrow> serializer res" where
  "write_indent n sz =
     (if unat n \<le> length (sz_indent_string sz) + 1
      then Inr (write_characters (take (unat n) (sz_indent_string sz @ [chr 0])) sz)
      else Inl (Undefined_behaviour ''read past indent_string''))"

definition grow_indent :: "u32 \<Rightarrow> serializer \<Rightarrow> serializer" where
  "grow_indent new_indent sz =
     (let n = length (sz_indent_string sz)
      in if n < unat new_indent
         then sz\<lparr>sz_indent_string := sz_indent_string sz @ replicate n (CHR '' '')\<rparr> else sz)"

definition dump_bytes :: "string \<Rightarrow> string \<Rightarrow> string" where
  "dump_bytes sep bs =
     (case map (\<lambda>b. dump_unsigned (of_char b)) bs of
        [] \<Rightarrow> [] | d # ds \<Rightarrow> d @ concat (map (\<lambda>x. sep @ x) ds))"

definition dump_subtype :: "u64 option \<Rightarrow> string" where
  "dump_subtype st = (case st of Some n \<Rightarrow> dump_unsigned n | None \<Rightarrow> ''null'')"

definition quote :: string where
  "quote = [chr 34]"

definition newline :: string where
  "newline = [chr 10]"

text \<open>An object key with its quotes and the separator of the mode.\<close>

definition dump_key :: "bool \<Rightarrow> bool \<Rightarrow> string \<Rightarrow> serializer \<Rightarrow> serializer res" where
  "dump_key pretty_print ensure_ascii k sz =
     rbind (dump_escaped ensure_ascii k (write_characters quote sz)) (\<lambda>sz.
       Inr (write_characters (quote @ (if pretty_print then '': '' else '':'')) sz))"

definition dump_string_value :: "bool \<Rightarrow> string \<Rightarrow> serializer \<Rightarrow> serializer res" where
  "dump_string_value ensure_ascii s sz =
     rbind (dump_escaped ensure_ascii s (write_characters quote sz)) (\<lambda>sz.
       Inr (write_characters quote sz))"

definition dump_binary :: "bool \<Rightarrow> u32 \<Rightarrow> u32 \<Rightarrow> string \<Rightarrow> u64 option \<Rightarrow> serializer \<Rightarrow> serializer res" where
  "dump_binary pretty_print indent_step current_indent bs subtype sz =
     (if pretty_print
      then (let new_indent = current_indent + indent_step;
                sz1 = grow_indent new_indent (write_characters (''{'' @ newline) sz)
            in rbind (write_indent new_indent sz1) (\<lambda>sz2.
               rbind (write_indent new_indent (write_characters
                   (quote @ ''bytes'' @ quote @ '': ['' @ dump_bytes '', '' bs @ ''],'' @ newline) sz2)) (\<lambda>sz3.
               rbind (write_indent current_indent (write_characters
                   (quote @ ''subtype'' @ quote @ '': '' @ dump_subtype subtype @ newline) sz3)) (\<lambda>sz4.
               Inr (write_character (CHR ''}'') sz4)))))
      else Inr (write_characters (''{'' @ quote @ ''bytes'' @ quote @ '':['' @ dump_bytes '','' bs
             @ ''],'' @ quote @ ''subtype'' @ quote @ '':'' @ dump_subtype subtype @ ''}'') sz))"


text \<open>
  Objects and arrays write their elements but the last with a separator after each.
\<close>

definition open_container :: "char \<Rightarrow> bool \<Rightarrow> u32 \<Rightarrow> serializer \<Rightarrow> serializer" where
  "open_container c pretty_print new_indent sz =
     (if pretty_print then grow_indent new_indent (write_characters ([c] @ newline) sz)
      else write_character c sz)"

definition begin_element :: "bool \<Rightarrow> u32 \<Rightarrow> serializer \<Rightarrow> serializer res" where
  "begin_element pretty_print new_indent sz =
     (if pretty_print then write_indent new_indent sz else Inr sz)"

definition separate :: "bool \<Rightarrow> serializer \<Rightarrow> serializer" where
  "separate pretty_print sz =
     (if pretty_print then write_characters ('','' @ newline) sz else write_character (CHR '','') sz)"

definition close_container :: "char \<Rightarrow> bool \<Rightarrow> u32 \<Rightarrow> serializer \<Rightarrow> serializer res" where
  "close_container c pretty_print current_indent sz =
     (if pretty_print
      then rbind (write_indent current_indent (write_characters newline sz)) (\<lambda>sz.
             Inr (write_character c sz))
      else Inr (write_character c sz))"

text \<open>Inside a container the pretty printer is \<open>indent_step\<close> deeper.\<close>

abbreviation deeper :: "bool \<Rightarrow> u32 \<Rightarrow> u32 \<Rightarrow> u32" where
  "deeper pretty_print indent_step current_indent \<equiv>
     (if pretty_print then current_indent + indent_step else current_indent)"

function (sequential) dump :: "json \<Rightarrow> bool \<Rightarrow> bool \<Rightarrow> u32 \<Rightarrow> u32 \<Rightarrow> serializer \<Rightarrow> serializer res"
  and dump_members :: "(string \<times> json) list \<Rightarrow> bool \<Rightarrow> bool \<Rightarrow> u32 \<Rightarrow> u32 \<Rightarrow> serializer \<Rightarrow> serializer res"
  and dump_elements :: "json list \<Rightarrow> bool \<Rightarrow> bool \<Rightarrow> u32 \<Rightarrow> u32 \<Rightarrow> serializer \<Rightarrow> serializer res"
where
  "dump (JObject m) pp ea step cur sz =
     (if m = [] then Inr (write_characters ''{}'' sz)
      else rbind (dump_members m pp ea step (deeper pp step cur)
                    (open_container (CHR ''{'') pp (deeper pp step cur) sz))
             (close_container (CHR ''}'') pp cur))"
| "dump (JArray xs) pp ea step cur sz =
     (if xs = [] then Inr (write_characters ''[]'' sz)
      else rbind (dump_elements xs pp ea step (deeper pp step cur)
                    (open_container (CHR ''['') pp (deeper pp step cur) sz))
             (close_container (CHR '']'') pp cur))"
| "dump (JString s) pp ea step cur sz = dump_string_value ea s sz"
| "dump (JBinary bs st) pp ea step cur sz = dump_binary pp step cur bs st sz"
| "dump (JBoolean b) pp ea step cur sz =
     Inr (write_characters (if b then ''true'' else ''false'') sz)"
| "dump (JNumber_integer n) pp ea step cur sz = Inr (write_characters (dump_signed n) sz)"
| "dump (JNumber_unsigned n) pp ea step cur sz = Inr (write_characters (dump_unsigned n) sz)"
| "dump (JNumber_float x) pp ea step cur sz =
     rbind (dump_float x) (\<lambda>t. Inr (write_characters t sz))"
| "dump JDiscarded pp ea step cur sz = Inr (write_characters ''<discarded>'' sz)"
| "dump JNull pp ea step cur sz = Inr (write_characters ''null'' sz)"
| "dump_members [] pp ea step cur sz = Inr sz"
| "dump_members (p # ps) pp ea step cur sz =
     rbind (begin_element pp cur sz) (\<lambda>sz.
     rbind (dump_key pp ea (fst p) sz) (\<lambda>sz.
     rbind (dump (snd p) pp ea step cur sz) (\<lambda>sz.
     if ps = [] then Inr sz else dump_members ps pp ea step cur (separate pp sz))))"
| "dump_elements [] pp ea step cur sz = Inr sz"
| "dump_elements (x # xs) pp ea step cur sz =
     rbind (begin_element pp cur sz) (\<lambda>sz.
     rbind (dump x pp ea step cur sz) (\<lambda>sz.
     if xs = [] then Inr sz else dump_elements xs pp ea step cur (separate pp sz)))"
  by pat_completeness auto
termination
  by (relation "measure (\<lambda>x. case x of
        Inl (v, _) \<Rightarrow> size v
      | Inr (Inl (ps, _)) \<Rightarrow> size_list (\<lambda>p. Suc (size (snd p))) ps
      | Inr (Inr (xs, _)) \<Rightarrow> size_list size xs)")
     (auto simp: size_prod_simp)

text \<open>\<open>basic_json::dump(indent, indent_char, ensure_ascii, error_handler)\<close>; a write outside
  the string buffer would be undefined behaviour.\<close>

definition serialized :: "serializer \<Rightarrow> string res" where
  "serialized sz = (if sz_overrun sz then Inl (Undefined_behaviour ''string_buffer overrun'')
     else Inr (sz_o sz))"

definition json_dump_with :: "int \<Rightarrow> char \<Rightarrow> bool \<Rightarrow> error_handler_t \<Rightarrow> json \<Rightarrow> string res" where
  "json_dump_with indent indent_char ensure_ascii error_handler j =
     rbind (if 0 \<le> indent
            then dump j True ensure_ascii (word_of_int indent) 0 (serializer_init indent_char error_handler)
            else dump j False ensure_ascii 0 0 (serializer_init indent_char error_handler))
       serialized"

definition json_dump :: "json \<Rightarrow> string res" where
  "json_dump = json_dump_with (- 1) (CHR '' '') False EH_strict"

definition json_dump_indent :: "int \<Rightarrow> json \<Rightarrow> string res" where
  "json_dump_indent indent = json_dump_with indent (CHR '' '') False EH_strict"

end
