(* ===== verification/Escaping.thy ===== *)
theory Escaping
  imports Serializer
begin

text \<open>
  \<open>dump_escaped\<close> meets its specification: for well-formed UTF-8 the loop over the 512-byte
  buffer writes the escaped text of each character and never leaves the buffer; in strict
  mode it throws exactly on ill-formed input.
\<close>

section \<open>Characters of a string\<close>

text \<open>The first byte fixes the length of a character, so a string splits in one way.\<close>

lemma utf8_char_prefix_free:
  assumes "utf8_char w" "utf8_char v" "w @ s = v @ t"
  shows "w = v \<and> s = t"
proof -
  obtain c cs ds where w: "w = c # cs" and v: "v = c # ds" and eq: "cs @ s = ds @ t"
    using assms by (cases w; cases v) auto
  have "length cs = length ds"
    using assms(1,2) w v by (auto simp: list_all2_lengthD split: if_splits dest: list_all2_lengthD)
  then show ?thesis using w v eq by simp
qed

lemma utf8_valid_Cons_char: "utf8_char w \<Longrightarrow> utf8_valid (w @ s) \<longleftrightarrow> utf8_valid s"
proof
  assume w: "utf8_char w" and "utf8_valid (w @ s)"
  then obtain ws where ws: "list_all utf8_char ws" "w @ s = concat ws" by (auto simp: utf8_valid_chars)
  then obtain v vs where "ws = v # vs" using w by (cases ws) (auto simp: utf8_char.simps(1))
  then have "w @ s = v @ concat vs" "utf8_char v" "list_all utf8_char vs" using ws by auto
  then show "utf8_valid s" using utf8_char_prefix_free [OF w] by (auto simp: utf8_valid_chars)
qed (auto intro: utf8_valid_append utf8_valid_char)

lemma utf8_valid_first:
  assumes "utf8_valid s" "s \<noteq> []"
  obtains w t where "s = w @ t" "utf8_char w" "utf8_valid t"
proof -
  obtain ws where ws: "list_all utf8_char ws" "s = concat ws" using assms by (auto simp: utf8_valid_chars)
  then obtain v vs where "ws = v # vs" using assms(2) by (cases ws) auto
  then show ?thesis using ws by (intro that [of v "concat vs"]) (auto simp: utf8_valid_chars)
qed

section \<open>What has been written\<close>

text \<open>The invariant of the buffer, and the text an operation has added to the output.\<close>

definition sz_ok :: "serializer \<Rightarrow> bool" where
  "sz_ok sz \<longleftrightarrow> length (sz_string_buffer sz) = 512 \<and> \<not> sz_overrun sz"

definition appends :: "string \<Rightarrow> serializer \<Rightarrow> serializer \<Rightarrow> bool" where
  "appends t sz sz' \<longleftrightarrow> sz_o sz' = sz_o sz @ t \<and> sz_indent_string sz' = sz_indent_string sz
     \<and> sz_error_handler sz' = sz_error_handler sz \<and> sz_indent_char sz' = sz_indent_char sz
     \<and> (sz_ok sz \<longrightarrow> sz_ok sz')"

lemma appends_refl [simp]: "appends [] sz sz"
  by (simp add: appends_def)

lemma appends_trans: "appends s a b \<Longrightarrow> appends t b c \<Longrightarrow> appends (s @ t) a c"
  by (simp add: appends_def)

lemma appends_write_characters [simp]: "appends t sz (write_characters t sz)"
  by (simp add: appends_def write_characters_def sz_ok_def)

lemma appends_write_character [simp]: "appends [c] sz (write_character c sz)"
  by (simp add: appends_def write_character_def sz_ok_def)

text \<open>The output with the used part of the buffer.\<close>

definition view :: "escape_state \<Rightarrow> string" where
  "view st = sz_o (fst st) @ take (ev_bytes (snd st)) (sz_string_buffer (fst st))"

definition buffered :: "nat \<Rightarrow> escape_state \<Rightarrow> escape_state \<Rightarrow> string \<Rightarrow> bool" where
  "buffered n st st' t \<longleftrightarrow> view st' = view st @ t \<and> ev_bytes (snd st') \<le> n \<and> sz_ok (fst st')
     \<and> sz_indent_string (fst st') = sz_indent_string (fst st)
     \<and> sz_error_handler (fst st') = sz_error_handler (fst st)
     \<and> sz_indent_char (fst st') = sz_indent_char (fst st)"

definition same_vars :: "escape_state \<Rightarrow> escape_state \<Rightarrow> bool" where
  "same_vars st st' \<longleftrightarrow> ev_state (snd st') = ev_state (snd st)
     \<and> ev_codepoint (snd st') = ev_codepoint (snd st)"

lemma buffered_trans: "buffered n a b s \<Longrightarrow> buffered m b c t \<Longrightarrow> buffered m a c (s @ t)"
  by (simp add: buffered_def)

lemma same_vars_trans: "same_vars a b \<Longrightarrow> same_vars b c \<Longrightarrow> same_vars a c"
  by (simp add: same_vars_def)

lemma buffer_put:
  assumes "sz_ok (fst st)" "ev_bytes (snd st) < 512"
  shows "buffered (ev_bytes (snd st) + 1) st (buffer_put c st) [c] \<and> same_vars st (buffer_put c st)
     \<and> ev_bytes (snd (buffer_put c st)) = ev_bytes (snd st) + 1"
  using assms
  by (auto simp: buffer_put_def buffered_def same_vars_def view_def sz_ok_def Let_def
      take_Suc_conv_app_nth)

lemma fold_buffer_put:
  "sz_ok (fst st) \<Longrightarrow> ev_bytes (snd st) + length s \<le> 512 \<Longrightarrow>
     buffered (ev_bytes (snd st) + length s) st (fold buffer_put s st) s
     \<and> same_vars st (fold buffer_put s st)
     \<and> ev_bytes (snd (fold buffer_put s st)) = ev_bytes (snd st) + length s"
proof (induction s arbitrary: st)
  case Nil
  then show ?case by (simp add: buffered_def same_vars_def)
next
  case (Cons c s)
  note put = buffer_put [of st c]
  have 1: "sz_ok (fst (buffer_put c st))" "ev_bytes (snd (buffer_put c st)) = ev_bytes (snd st) + 1"
    using put Cons.prems by (auto simp: buffered_def)
  then show ?case
    using Cons.IH [of "buffer_put c st"] Cons.prems put
    by (auto intro: same_vars_trans dest: buffered_trans)
qed

lemma buffer_print:
  assumes "sz_ok (fst st)" "ev_bytes (snd st) + length s < 512"
  shows "buffered (ev_bytes (snd st) + length s) st (buffer_print s st) s
     \<and> same_vars st (buffer_print s st)"
proof -
  let ?st = "fold buffer_put s st"
  have f: "buffered (ev_bytes (snd st) + length s) st ?st s \<and> same_vars st ?st
      \<and> ev_bytes (snd ?st) = ev_bytes (snd st) + length s"
    by (rule fold_buffer_put) (use assms in simp_all)
  then have "sz_ok (fst ?st)" by (simp add: buffered_def)
  then have p: "buffered (ev_bytes (snd ?st) + 1) ?st (buffer_put (chr 0) ?st) [chr 0]
      \<and> same_vars ?st (buffer_put (chr 0) ?st)
      \<and> ev_bytes (snd (buffer_put (chr 0) ?st)) = ev_bytes (snd ?st) + 1"
    by (rule buffer_put) (use f assms in simp)
  have n: "ev_bytes (snd ?st) < 512" "length (sz_string_buffer (fst (buffer_put (chr 0) ?st))) = 512"
    using f p assms by (auto simp: buffered_def sz_ok_def)
  have take: "take (ev_bytes (snd ?st)) (sz_string_buffer (fst (buffer_put (chr 0) ?st)))
      = take (ev_bytes (snd ?st)) (sz_string_buffer (fst ?st))"
    by (simp add: buffer_put_def Let_def)
  have o: "sz_o (fst (buffer_put (chr 0) ?st)) = sz_o (fst ?st)"
    by (simp add: buffer_put_def Let_def)
  show ?thesis
    using f p take o
    by (auto simp: buffer_print_def buffered_def same_vars_def view_def sz_ok_def split: prod.split)
qed

lemma flush_buffer:
  assumes "sz_ok (fst st)" "ev_bytes (snd st) \<le> 512"
  shows "buffered 499 st (flush_buffer st) [] \<and> same_vars st (flush_buffer st)"
  using assms
  by (auto simp: flush_buffer_def buffered_def same_vars_def view_def sz_ok_def write_characters_def Let_def)

section \<open>Escaping a code point\<close>

definition unicode_escape :: "nat \<Rightarrow> string" where
  "unicode_escape cp =
     (if cp \<le> 0xFFFF then [backslash, CHR ''u''] @ hex4 cp
      else [backslash, CHR ''u''] @ hex4 (0xD7C0 + cp div 1024)
         @ [backslash, CHR ''u''] @ hex4 (0xDC00 + cp mod 1024))"

text \<open>What is written for a code point whose bytes are \<open>w\<close>.\<close>

definition escape_text :: "bool \<Rightarrow> nat \<Rightarrow> string \<Rightarrow> string" where
  "escape_text ensure_ascii cp w =
     (if cp = 8 then [backslash, CHR ''b''] else if cp = 9 then [backslash, CHR ''t'']
      else if cp = 10 then [backslash, CHR ''n''] else if cp = 12 then [backslash, CHR ''f'']
      else if cp = 13 then [backslash, CHR ''r''] else if cp = 34 then [backslash, chr 34]
      else if cp = 92 then [backslash, backslash]
      else if cp \<le> 31 \<or> (ensure_ascii \<and> 127 \<le> cp) then unicode_escape cp else w)"

definition escape_char :: "bool \<Rightarrow> string \<Rightarrow> string" where
  "escape_char ensure_ascii w = escape_text ensure_ascii (utf8_code w) w"

lemma length_escape_text_wide: "127 \<le> cp \<Longrightarrow> length (escape_text ea cp [c]) \<le> (if ea then 12 else 1)"
  by (simp add: escape_text_def unicode_escape_def hex4_def)

lemma length_escape_text: "length (escape_text ea cp [c]) \<le> 12"
  by (simp add: escape_text_def unicode_escape_def hex4_def)

lemma length_unicode_escape: "length (unicode_escape cp) \<le> 12"
  by (simp add: unicode_escape_def hex4_def)

lemma u32_eqs:
  "x = 8 \<longleftrightarrow> unat x = 8" "x = 9 \<longleftrightarrow> unat x = 9" "x = 10 \<longleftrightarrow> unat x = 10" "x = 12 \<longleftrightarrow> unat x = 12"
  "x = 13 \<longleftrightarrow> unat x = 13" "x = 34 \<longleftrightarrow> unat x = 34" "x = 92 \<longleftrightarrow> unat x = 92" for x :: u32
  by (simp_all add: word_unat_eq_iff)

lemma unat_ucast_u16: "unat (x::u32) < 65536 \<Longrightarrow> unat (ucast x :: u16) = unat x"
  by (simp add: unsigned_ucast_eq take_bit_nat_eq_self)

lemma escape_unicode:
  assumes "unat cp < 0x110000"
  shows "escape_unicode cp = unicode_escape (unat cp)"
proof (cases "unat cp \<le> 0xFFFF")
  case True
  then show ?thesis
    by (simp add: escape_unicode_def unicode_escape_def word_le_nat_alt unat_ucast_u16)
next
  case False
  have hi: "unat (0xD7C0 + drop_bit 10 cp) = 0xD7C0 + unat cp div 1024"
    using assms by (simp add: unat_word_ariths unat_drop_bit_eq drop_bit_eq_div)
  have m: "(0x3FF::u32) = mask 10" by (simp add: mask_eq_exp_minus_1)
  have "unat (cp AND 0x3FF) = unat cp mod 1024"
    unfolding m by (simp add: take_bit_eq_mask [symmetric] unsigned_take_bit_eq
        take_bit_eq_mod [where 'a = nat] del: mask_numeral)
  then have lo: "unat (0xDC00 + (cp AND 0x3FF)) = 0xDC00 + unat cp mod 1024"
    by (simp add: unat_word_ariths)
  show ?thesis
    using False assms hi lo
    by (simp add: escape_unicode_def unicode_escape_def word_le_nat_alt unat_ucast_u16)
qed

lemma put_code_point:
  assumes ok: "sz_ok (fst st)"
    and room: "ev_bytes (snd st)
      + length (escape_text ensure_ascii (unat (ev_codepoint (snd st))) [c]) < 512"
    and cp: "unat (ev_codepoint (snd st)) < 0x110000"
  shows "buffered 512 st (put_code_point ensure_ascii c st)
           (escape_text ensure_ascii (unat (ev_codepoint (snd st))) [c])
     \<and> same_vars st (put_code_point ensure_ascii c st)"
proof -
  let ?cp = "unat (ev_codepoint (snd st))"
  have two: "buffered 512 st (buffer_put b (buffer_put a st)) [a, b]
      \<and> same_vars st (buffer_put b (buffer_put a st))" if "ev_bytes (snd st) + 2 < 512" for a b
  proof -
    have "buffered 512 st (fold buffer_put [a, b] st) [a, b] \<and> same_vars st (fold buffer_put [a, b] st)"
      using fold_buffer_put [of st "[a, b]"] ok that by (auto simp: buffered_def)
    then show ?thesis by simp
  qed
  have one: "buffered 512 st (buffer_put c st) [c] \<and> same_vars st (buffer_put c st)"
    if "ev_bytes (snd st) + 1 < 512"
    using buffer_put [of st c] ok that by (auto simp: buffered_def)
  have uni: "buffered 512 st (buffer_print (escape_unicode (ev_codepoint (snd st))) st) (unicode_escape ?cp)
      \<and> same_vars st (buffer_print (escape_unicode (ev_codepoint (snd st))) st)"
    if "ev_bytes (snd st) + length (unicode_escape ?cp) < 512"
    using buffer_print [of st "unicode_escape ?cp"] ok that escape_unicode [OF cp]
    by (auto simp: buffered_def)
  show ?thesis
    using two one uni room
    by (auto simp: put_code_point_def escape_text_def Let_def u32_eqs word_le_nat_alt split: if_splits)
qed

lemma on_accept:
  assumes "sz_ok (fst st)"
    "ev_bytes (snd st) + length (escape_text ensure_ascii (unat (ev_codepoint (snd st))) [c]) < 512"
    "unat (ev_codepoint (snd st)) < 0x110000"
  shows "buffered 499 st (on_accept ensure_ascii c st)
           (escape_text ensure_ascii (unat (ev_codepoint (snd st))) [c])
     \<and> same_vars st (on_accept ensure_ascii c st)
     \<and> ev_undumped_chars (snd (on_accept ensure_ascii c st)) = 0"
proof -
  let ?p = "put_code_point ensure_ascii c st"
  have p: "buffered 512 st ?p (escape_text ensure_ascii (unat (ev_codepoint (snd st))) [c])
      \<and> same_vars st ?p"
    by (rule put_code_point [OF assms])
  then have f: "buffered 499 ?p (flush_buffer ?p) [] \<and> same_vars ?p (flush_buffer ?p)"
    by (intro flush_buffer) (auto simp: buffered_def)
  show ?thesis
    using buffered_trans [of 512 st ?p _ 499 "flush_buffer ?p" "[]"]
      same_vars_trans [of st ?p "flush_buffer ?p"] p f
    by (auto simp: on_accept_def buffered_def view_def same_vars_def split: prod.split)
qed

lemma on_incomplete:
  assumes "sz_ok (fst st)" "ev_bytes (snd st) < 512"
  shows "buffered (ev_bytes (snd st) + (if ensure_ascii then 0 else 1)) st (on_incomplete ensure_ascii c st)
           (if ensure_ascii then [] else [c])
     \<and> same_vars st (on_incomplete ensure_ascii c st)"
  using buffer_put [OF assms, of c] assms
  by (auto simp: on_incomplete_def buffered_def view_def same_vars_def split: prod.split)
section \<open>The loop\<close>

lemma decode_vars_simps [simp]:
  "ev_state (decode_vars c ev) = fst (decode (ev_state ev) (ev_codepoint ev) (u8_of c))"
  "ev_codepoint (decode_vars c ev) = snd (decode (ev_state ev) (ev_codepoint ev) (u8_of c))"
  "ev_bytes (decode_vars c ev) = ev_bytes ev"
  "view (sz, decode_vars c ev) = view (sz, ev)"
  by (simp_all add: decode_vars_def view_def split: prod.split)

lemma buffered_decode [simp]: "buffered n (sz, decode_vars c ev) = buffered n (sz, ev)"
  by (simp add: buffered_def fun_eq_iff)

lemma foldl_next_code_ge: "n \<le> foldl next_code n cs"
proof (induction cs arbitrary: n)
  case (Cons c cs)
  have "n \<le> next_code n c" by (simp add: next_code_def)
  also have "\<dots> \<le> foldl next_code (next_code n c) cs" by (rule Cons.IH)
  finally show ?case by simp
qed simp

lemma loop_rest:
  assumes "cs \<noteq> []" "list_all2 in_range (state_ranges (ev_state (snd st))) cs"
    "ev_state (snd st) \<in> {2, 3, 4, 5, 6, 7, 8}"
    "foldl next_code (unat (ev_codepoint (snd st))) cs < 0x110000"
    "127 \<le> foldl next_code (unat (ev_codepoint (snd st))) cs"
    "sz_ok (fst st)" "ev_bytes (snd st) + (if ea then 12 else length cs) < 512"
    "s = pre @ cs @ post"
  shows "\<exists>st'. dump_escaped_loop ea s (length pre) st = dump_escaped_loop ea s (length pre + length cs) st'
     \<and> buffered 499 st st' ((if ea then [] else butlast cs)
         @ escape_text ea (foldl next_code (unat (ev_codepoint (snd st))) cs) [last cs])
     \<and> ev_state (snd st') = 0"
  using assms
proof (induction cs arbitrary: st pre)
  case (Cons c cs)
  obtain sz ev where st: "st = (sz, ev)" by (cases st)
  let ?st = "ev_state ev"
  obtain r rs where rs: "state_ranges ?st = r # rs" and c: "in_range r c" and cs: "list_all2 in_range rs cs"
    using Cons.prems(2) st by (auto simp: list_all2_Cons2)
  have mem: "?st \<in> {2, 3, 4, 5, 6, 7, 8}" and st0: "?st \<noteq> 0" using Cons.prems(3) st by auto
  have cont: "in_range cont c"
    using mem rs c by (auto simp: state_ranges_def split: if_splits)
  have "unat (ev_codepoint ev) \<le> foldl next_code (unat (ev_codepoint ev)) (c # cs)"
    by (rule foldl_next_code_ge)
  then have code: "unat (snd (decode ?st (ev_codepoint ev) (u8_of c))) = next_code (unat (ev_codepoint ev)) c"
    using next_code_decode [OF st0 _ cont] Cons.prems(4) st by simp
  have next_state: "state_ranges (fst (decode ?st (ev_codepoint ev) (u8_of c))) = rs
      \<and> fst (decode ?st (ev_codepoint ev) (u8_of c)) \<in> (if rs = [] then {0} else {2, 3, 4, 5, 6, 7, 8})"
    using decode_next [OF mem rs, of c "ev_codepoint ev"] c by simp
  have here: "s ! length pre = c" "length pre < length s" using Cons.prems(8) by (simp_all add: nth_append)
  let ?d = "(sz, decode_vars c ev)"
  show ?case
  proof (cases "cs = []")
    case True
    then have "rs = []" using cs by simp
    then have acc: "fst (decode ?st (ev_codepoint ev) (u8_of c)) = 0" using next_state by simp
    have loop: "dump_escaped_loop ea s (length pre) st = dump_escaped_loop ea s (length pre + 1) (on_accept ea c ?d)"
      using acc here st by (simp add: dump_escaped_loop.simps [of ea s "length pre"])
    have "buffered 499 ?d (on_accept ea c ?d) (escape_text ea (unat (ev_codepoint (snd ?d))) [c])
        \<and> same_vars ?d (on_accept ea c ?d) \<and> ev_undumped_chars (snd (on_accept ea c ?d)) = 0"
      by (rule on_accept)
       (use Cons.prems True st code length_escape_text_wide [of "next_code (unat (ev_codepoint ev)) c" ea c]
        in \<open>auto split: if_splits\<close>)
    then show ?thesis
      using loop True st code acc by (cases ea; intro exI [of _ "on_accept ea c ?d"]) (simp_all add: same_vars_def)
  next
    case False
    then have "rs \<noteq> []" using cs by auto
    then have inc: "fst (decode ?st (ev_codepoint ev) (u8_of c)) \<in> {2, 3, 4, 5, 6, 7, 8}" using next_state by simp
    let ?i = "on_incomplete ea c ?d"
    have loop: "dump_escaped_loop ea s (length pre) st = dump_escaped_loop ea s (length (pre @ [c])) ?i"
      using inc here st by (auto simp: dump_escaped_loop.simps [of ea s "length pre"])
    have i: "buffered (ev_bytes (snd ?d) + (if ea then 0 else 1)) ?d ?i (if ea then [] else [c])
        \<and> same_vars ?d ?i"
      by (rule on_incomplete) (use Cons.prems st in \<open>auto split: if_splits\<close>)
    have "\<exists>st'. dump_escaped_loop ea s (length (pre @ [c])) ?i
          = dump_escaped_loop ea s (length (pre @ [c]) + length cs) st'
       \<and> buffered 499 ?i st' ((if ea then [] else butlast cs)
           @ escape_text ea (foldl next_code (unat (ev_codepoint (snd ?i))) cs) [last cs])
       \<and> ev_state (snd st') = 0"
      by (rule Cons.IH)
       (use Cons.prems False i cs next_state inc code st
         in \<open>auto simp: same_vars_def buffered_def split: if_splits\<close>)
    then obtain st' where st': "dump_escaped_loop ea s (length (pre @ [c])) ?i
          = dump_escaped_loop ea s (length (pre @ [c]) + length cs) st'"
       "buffered 499 ?i st' ((if ea then [] else butlast cs)
           @ escape_text ea (foldl next_code (unat (ev_codepoint (snd ?i))) cs) [last cs])"
       "ev_state (snd st') = 0"
      by blast
    have i': "buffered (ev_bytes ev + (if ea then 0 else 1)) (sz, ev) ?i (if ea then [] else [c])" using i by simp
    have "ev_codepoint (snd ?i) = snd (decode ?st (ev_codepoint ev) (u8_of c))"
      using i by (simp add: same_vars_def)
    moreover have "(if ea then [] else butlast (c # cs)) = (if ea then [] else [c]) @ (if ea then [] else butlast cs)"
      using False by simp
    ultimately show ?thesis
      using loop False code st st' buffered_trans [OF i' st'(2)]
      by (intro exI [of _ st']) simp
  qed
qed simp

lemma escape_text_wide:
  "127 \<le> cp \<Longrightarrow> \<not> ea \<Longrightarrow> escape_text ea cp w = w"
  "127 \<le> cp \<Longrightarrow> ea \<Longrightarrow> escape_text ea cp w = unicode_escape cp"
  by (simp_all add: escape_text_def)

lemma utf8_code_wide:
  assumes "utf8_char (c # cs)" "cs \<noteq> []"
  shows "128 \<le> utf8_code (c # cs)"
proof (rule ccontr)
  assume "\<not> ?thesis"
  then have "utf8_encode (utf8_code (c # cs)) = [char_of (utf8_code (c # cs))]"
    by (simp add: utf8_encode_def)
  then show False using utf8_char_scalar [OF assms(1)] assms(2) by simp
qed

lemma utf8_code_small: "utf8_char w \<Longrightarrow> utf8_code w < 0x110000"
  using utf8_char_scalar by (auto simp: is_scalar_def)

lemma length_utf8_char: "utf8_char w \<Longrightarrow> length w \<le> 4"
  by (erule utf8_char_cases) auto

text \<open>Between characters: accepting, with room for one more.\<close>

definition between :: "escape_state \<Rightarrow> bool" where
  "between st \<longleftrightarrow> ev_state (snd st) = 0 \<and> ev_bytes (snd st) \<le> 499 \<and> sz_ok (fst st)"

lemma loop_char:
  assumes w: "utf8_char w" and st: "between st" and s: "s = pre @ w @ post"
  shows "\<exists>st'. dump_escaped_loop ea s (length pre) st = dump_escaped_loop ea s (length pre + length w) st'
     \<and> buffered 499 st st' (escape_char ea w) \<and> between st'"
proof -
  obtain c cs where wc: "w = c # cs" using w by (cases w) auto
  obtain sz ev where sv: "st = (sz, ev)" by (cases st)
  let ?d = "(sz, decode_vars c ev)"
  have here: "s ! length pre = c" "length pre < length s" using s wc by (simp_all add: nth_append)
  have ev0: "ev_state ev = 0" using st sv by (simp add: between_def)
  show ?thesis
  proof (cases "byte c < 128")
    case True
    then have cs: "cs = []" using w wc by simp
    have acc: "fst (decode 0 (ev_codepoint ev) (u8_of c)) = 0" using decode_first(1) [of c "ev_codepoint ev"] True by simp
    have code: "unat (snd (decode 0 (ev_codepoint ev) (u8_of c))) = utf8_code w"
      using lead_code_decode [of c "ev_codepoint ev"] True wc cs by (simp add: utf8_code_def)
    have loop: "dump_escaped_loop ea s (length pre) st = dump_escaped_loop ea s (length pre + 1) (on_accept ea c ?d)"
      using acc here sv ev0 by (simp add: dump_escaped_loop.simps [of ea s "length pre"])
    have "buffered 499 ?d (on_accept ea c ?d) (escape_text ea (unat (ev_codepoint (snd ?d))) [c])
        \<and> same_vars ?d (on_accept ea c ?d) \<and> ev_undumped_chars (snd (on_accept ea c ?d)) = 0"
      by (rule on_accept)
       (use st sv code utf8_code_small [OF w] ev0 length_escape_text [of ea "utf8_code w" c]
        in \<open>auto simp: between_def\<close>)
    then show ?thesis
      using loop wc cs sv code acc ev0
      by (intro exI [of _ "on_accept ea c ?d"])
         (simp add: same_vars_def between_def escape_char_def buffered_def)
  next
    case False
    then have ranges: "utf8_ranges (byte c) \<noteq> []" "list_all2 in_range (utf8_ranges (byte c)) cs"
      using w wc by auto
    then have cs: "cs \<noteq> []" by auto
    let ?s1 = "fst (decode 0 (ev_codepoint ev) (u8_of c))"
    have first: "?s1 \<in> {2, 3, 4, 5, 6, 7, 8}" "state_ranges ?s1 = utf8_ranges (byte c)"
      using decode_first(3) [of c "ev_codepoint ev"] False ranges state_2_8 [of ?s1] by auto
    have code: "unat (snd (decode 0 (ev_codepoint ev) (u8_of c))) = lead_code c"
      by (rule lead_code_decode) (use ranges in simp)
    let ?i = "on_incomplete ea c ?d"
    have loop: "dump_escaped_loop ea s (length pre) st = dump_escaped_loop ea s (length (pre @ [c])) ?i"
      using first here sv ev0 by (auto simp: dump_escaped_loop.simps [of ea s "length pre"])
    have i: "buffered (ev_bytes (snd ?d) + (if ea then 0 else 1)) ?d ?i (if ea then [] else [c])
        \<and> same_vars ?d ?i"
      by (rule on_incomplete) (use st sv in \<open>auto simp: between_def\<close>)
    have total: "foldl next_code (lead_code c) cs = utf8_code w" using wc by (simp add: utf8_code_def)
    have wide: "127 \<le> utf8_code w" using utf8_code_wide [OF w [unfolded wc] cs] wc by simp
    have "\<exists>st'. dump_escaped_loop ea s (length (pre @ [c])) ?i
          = dump_escaped_loop ea s (length (pre @ [c]) + length cs) st'
       \<and> buffered 499 ?i st' ((if ea then [] else butlast cs)
           @ escape_text ea (foldl next_code (unat (ev_codepoint (snd ?i))) cs) [last cs])
       \<and> ev_state (snd st') = 0"
      by (rule loop_rest)
       (use cs i ranges first code ev0 sv st s wc total utf8_code_small [OF w] length_utf8_char [OF w] wide
         in \<open>auto simp: same_vars_def buffered_def between_def split: if_splits\<close>)
    then obtain st' where st': "dump_escaped_loop ea s (length (pre @ [c])) ?i
          = dump_escaped_loop ea s (length (pre @ [c]) + length cs) st'"
       "buffered 499 ?i st' ((if ea then [] else butlast cs)
           @ escape_text ea (utf8_code w) [last cs])"
       "ev_state (snd st') = 0"
      using i code total ev0 by (auto simp: same_vars_def)
    have "(if ea then [] else [c]) @ (if ea then [] else butlast cs)
        @ escape_text ea (utf8_code w) [last cs] = escape_char ea w"
      using wide wc cs by (cases ea) (simp_all add: escape_char_def escape_text_wide)
    then have "buffered 499 st st' (escape_char ea w)"
      using buffered_trans [of "ev_bytes ev + (if ea then 0 else 1)" "(sz, ev)" ?i "if ea then [] else [c]", OF _ st'(2)] i sv
      by simp
    then show ?thesis
      using loop st' wc sv
      by (intro exI [of _ st']) (auto simp: between_def buffered_def)
  qed
qed

lemma loop_chars:
  assumes "list_all utf8_char ws" "between st" "s = pre @ concat ws @ post"
  shows "\<exists>st'. dump_escaped_loop ea s (length pre) st
       = dump_escaped_loop ea s (length pre + length (concat ws)) st'
     \<and> buffered 499 st st' (concat (map (escape_char ea) ws)) \<and> between st'"
  using assms
proof (induction ws arbitrary: st pre)
  case Nil
  then show ?case by (intro exI [of _ st]) (simp add: buffered_def between_def)
next
  case (Cons w ws)
  obtain st1 where 1: "dump_escaped_loop ea s (length pre) st = dump_escaped_loop ea s (length pre + length w) st1"
      "buffered 499 st st1 (escape_char ea w)" "between st1"
    using loop_char [of w st s pre "concat ws @ post" ea] Cons.prems by auto
  obtain st2 where 2: "dump_escaped_loop ea s (length (pre @ w)) st1
       = dump_escaped_loop ea s (length (pre @ w) + length (concat ws)) st2"
      "buffered 499 st1 st2 (concat (map (escape_char ea) ws))" "between st2"
    using Cons.IH [of st1 "pre @ w"] Cons.prems 1(3) by auto
  show ?case
    using 1 2 buffered_trans [OF 1(2) 2(2)] by (intro exI [of _ st2]) (simp add: add.assoc)
qed

section \<open>The specification\<close>

text \<open>The escaped text of a well-formed string.\<close>

fun utf8_chars :: "string \<Rightarrow> string list" where
  "utf8_chars [] = []"
| "utf8_chars (c # cs) =
     (let n = length (utf8_ranges (byte c)) in (c # take n cs) # utf8_chars (drop n cs))"

declare utf8_chars.simps(2) [simp del]

lemma utf8_ranges_ascii [simp]: "n < 128 \<Longrightarrow> utf8_ranges n = []"
  by (simp add: utf8_ranges_def)

lemma utf8_chars_append: "utf8_char w \<Longrightarrow> utf8_chars (w @ s) = w # utf8_chars s"
  by (cases w) (auto simp: utf8_chars.simps(2) Let_def dest: list_all2_lengthD split: if_splits)

lemma utf8_chars_concat: "list_all utf8_char ws \<Longrightarrow> utf8_chars (concat ws) = ws"
  by (induction ws) (simp_all add: utf8_chars_append)

definition escape :: "bool \<Rightarrow> string \<Rightarrow> string" where
  "escape ensure_ascii s = concat (map (escape_char ensure_ascii) (utf8_chars s))"

lemma dump_escaped_valid:
  assumes "utf8_valid s" "sz_ok sz"
  shows "\<exists>sz'. dump_escaped ea s sz = Inr sz' \<and> appends (escape ea s) sz sz'"
proof -
  obtain ws where ws: "list_all utf8_char ws" "s = concat ws" using assms(1) by (auto simp: utf8_valid_chars)
  let ?st = "(sz, escape_vars_init)"
  have "between ?st" using assms(2) by (simp add: between_def escape_vars_init_def)
  then obtain st' where st': "dump_escaped_loop ea s 0 ?st = dump_escaped_loop ea s (length s) st'"
      "buffered 499 ?st st' (escape ea s)" "between st'"
    using loop_chars [of ws ?st s "[]" "[]" ea] ws by (auto simp: escape_def utf8_chars_concat)
  then have loop: "dump_escaped_loop ea s 0 ?st = Inr st'"
    by (simp add: dump_escaped_loop.simps [of ea s "length s"])
  have "view ?st = sz_o sz" by (simp add: view_def escape_vars_init_def)
  then have "appends (escape ea s) sz (case dump_escaped_end ea s st' of Inr sz' \<Rightarrow> sz')
      \<and> (\<exists>sz'. dump_escaped_end ea s st' = Inr sz')"
    using st'(2,3)
    by (auto simp: dump_escaped_end_def between_def buffered_def view_def appends_def
        write_characters_def sz_ok_def split: prod.split)
  then show ?thesis using loop by (auto simp: dump_escaped_def)
qed
section \<open>Ill-formed strings are refused\<close>

definition is_type_error_316 :: "exn \<Rightarrow> bool" where
  "is_type_error_316 e \<longleftrightarrow> (\<exists>m. e = Json_type_error 316 m)"

lemma invalid_byte_error_316 [simp]: "is_type_error_316 (invalid_byte_error i b)"
  by (simp add: is_type_error_316_def invalid_byte_error_def type_error_create_def)

lemma incomplete_error_316 [simp]: "is_type_error_316 (incomplete_error b)"
  by (simp add: is_type_error_316_def incomplete_error_def type_error_create_def)

lemma handler_on_incomplete [simp]:
  "sz_error_handler (fst (on_incomplete ea c st)) = sz_error_handler (fst st)"
  by (simp add: on_incomplete_def buffer_put_def Let_def split: prod.split)

lemma state_on_incomplete [simp]: "ev_state (snd (on_incomplete ea c st)) = ev_state (snd st)"
  by (simp add: on_incomplete_def buffer_put_def Let_def split: prod.split)

text \<open>How a scan of ill-formed input ends: with the exception, or in the middle of a character.\<close>

definition refused :: "escape_state res \<Rightarrow> bool" where
  "refused r \<longleftrightarrow> (case r of Inl e \<Rightarrow> is_type_error_316 e
     | Inr st \<Rightarrow> ev_state (snd st) \<noteq> 0 \<and> sz_error_handler (fst st) = EH_strict)"

lemma loop_rest_refused:
  assumes "sz_error_handler (fst st) = EH_strict" "ev_state (snd st) \<in> {2, 3, 4, 5, 6, 7, 8}"
    "\<And>w u. t = w @ u \<Longrightarrow> \<not> list_all2 in_range (state_ranges (ev_state (snd st))) w"
    "s = pre @ t"
  shows "refused (dump_escaped_loop ea s (length pre) st)"
  using assms
proof (induction t arbitrary: st pre)
  case Nil
  have "dump_escaped_loop ea s (length pre) st = Inr st"
    using Nil.prems(4) by (subst dump_escaped_loop.simps) simp
  then show ?case using Nil.prems by (auto simp: refused_def)
next
  case (Cons c t)
  obtain sz ev where st: "st = (sz, ev)" by (cases st)
  let ?d = "(sz, decode_vars c ev)"
  have here: "s ! length pre = c" "length pre < length s" using Cons.prems(4) by (simp_all add: nth_append)
  have "state_ranges (ev_state ev) \<noteq> []"
    using Cons.prems(3) [of "[]" "c # t"] st by auto
  then obtain r rs where rs: "state_ranges (ev_state ev) = r # rs" by (cases "state_ranges (ev_state ev)") auto
  have mem: "ev_state ev \<in> {2, 3, 4, 5, 6, 7, 8}" using Cons.prems(2) st by simp
  note nxt = decode_next [OF mem rs, of c "ev_codepoint ev"]
  show ?case
  proof (cases "in_range r c")
    case True
    have no: "\<not> list_all2 in_range rs w" if "t = w @ u" for w u
      using Cons.prems(3) [of "c # w" u] that True rs st by simp
    have "rs \<noteq> []" using no [of "[]" t] by auto
    then have inc: "state_ranges (fst (decode (ev_state ev) (ev_codepoint ev) (u8_of c))) = rs"
      "fst (decode (ev_state ev) (ev_codepoint ev) (u8_of c)) \<in> {2, 3, 4, 5, 6, 7, 8}"
      using nxt True by simp_all
    have "dump_escaped_loop ea s (length pre) st = dump_escaped_loop ea s (length (pre @ [c])) (on_incomplete ea c ?d)"
      using inc(2) here st by (auto simp: dump_escaped_loop.simps [of ea s "length pre"])
    moreover have "refused (dump_escaped_loop ea s (length (pre @ [c])) (on_incomplete ea c ?d))"
      by (rule Cons.IH) (use Cons.prems st inc no in auto)
    ultimately show ?thesis by simp
  next
    case False
    then have "fst (decode (ev_state ev) (ev_codepoint ev) (u8_of c)) = 1" using nxt by simp
    then show ?thesis
      using here st Cons.prems(1)
      by (simp add: dump_escaped_loop.simps [of ea s "length pre"] refused_def)
  qed
qed

lemma loop_refused:
  assumes "between st" "sz_error_handler (fst st) = EH_strict" "\<not> utf8_valid t" "s = pre @ t"
  shows "refused (dump_escaped_loop ea s (length pre) st)"
  using assms
proof (induction "length t" arbitrary: st pre t rule: less_induct)
  case less
  obtain c t' where t: "t = c # t'" using less.prems(3) by (cases t) auto
  have split: "refused (dump_escaped_loop ea s (length pre) st)"
    if w: "utf8_char (c # w)" and t': "t' = w @ u" for w u
  proof -
    have "s = pre @ (c # w) @ u" using less.prems(4) t t' by simp
    then obtain st' where st': "dump_escaped_loop ea s (length pre) st
        = dump_escaped_loop ea s (length (pre @ c # w)) st'"
      "buffered 499 st st' (escape_char ea (c # w))" "between st'"
      using loop_char [OF w less.prems(1), of s pre u ea] by auto
    have "\<not> utf8_valid u" using less.prems(3) t t' utf8_valid_Cons_char [OF w, of u] by simp
    then have "refused (dump_escaped_loop ea s (length (pre @ c # w)) st')"
      using st' less.prems t t' by (intro less.hyps [of u]) (auto simp: buffered_def)
    then show ?thesis using st'(1) by simp
  qed
  obtain sz ev where st: "st = (sz, ev)" by (cases st)
  let ?d = "(sz, decode_vars c ev)"
  have here: "s ! length pre = c" "length pre < length s" using less.prems(4) t by (simp_all add: nth_append)
  have ev0: "ev_state ev = 0" using less.prems(1) st by (simp add: between_def)
  show ?case
  proof (cases "\<exists>w u. utf8_char (c # w) \<and> t' = w @ u")
    case True
    then show ?thesis using split by blast
  next
    case False
    then have big: "128 \<le> byte c" using utf8_char.simps(2) [of c "[]"] by fastforce
    show ?thesis
    proof (cases "utf8_ranges (byte c) = []")
      case True
      then have "fst (decode 0 (ev_codepoint ev) (u8_of c)) = 1" using decode_first(2) big by blast
      then show ?thesis
        using here st ev0 less.prems(2)
        by (simp add: dump_escaped_loop.simps [of ea s "length pre"] refused_def)
    next
      case ranges: False
      let ?s1 = "fst (decode 0 (ev_codepoint ev) (u8_of c))"
      have first: "?s1 \<in> {2, 3, 4, 5, 6, 7, 8}" "state_ranges ?s1 = utf8_ranges (byte c)"
        using decode_first(3) [OF big ranges, of "ev_codepoint ev"] state_2_8 [of ?s1] by auto
      have "dump_escaped_loop ea s (length pre) st
          = dump_escaped_loop ea s (length (pre @ [c])) (on_incomplete ea c ?d)"
        using first here st ev0 by (auto simp: dump_escaped_loop.simps [of ea s "length pre"])
      moreover have "refused (dump_escaped_loop ea s (length (pre @ [c])) (on_incomplete ea c ?d))"
        by (rule loop_rest_refused [of _ t'])
         (use less.prems st first ev0 False ranges big t in auto)
      ultimately show ?thesis by simp
    qed
  qed
qed

lemma dump_escaped_invalid:
  assumes "\<not> utf8_valid s" "sz_ok sz" "sz_error_handler sz = EH_strict"
  shows "\<exists>e. dump_escaped ea s sz = Inl e \<and> is_type_error_316 e"
proof -
  have "between (sz, escape_vars_init)" using assms(2) by (simp add: between_def escape_vars_init_def)
  then have "refused (dump_escaped_loop ea s (length ([] :: string)) (sz, escape_vars_init))"
    by (rule loop_refused) (use assms in auto)
  then show ?thesis
    by (auto simp: dump_escaped_def refused_def dump_escaped_end_def rbind_def split: sum.splits prod.splits)
qed

text \<open>The strict mode throws type error 316 exactly on strings that are not UTF-8.\<close>

lemma dump_escaped_strict:
  assumes "sz_ok sz" "sz_error_handler sz = EH_strict"
  shows "(case dump_escaped ea s sz of
       Inr sz' \<Rightarrow> utf8_valid s \<and> appends (escape ea s) sz sz'
     | Inl e \<Rightarrow> \<not> utf8_valid s \<and> is_type_error_316 e)"
  using dump_escaped_valid [OF _ assms(1), of s ea] dump_escaped_invalid [OF _ assms, of s ea]
  by (cases "utf8_valid s") auto
end
