(* ===== verification/Scanning.thy ===== *)
theory Scanning
  imports Escaping Lexer
begin

unbundle bit_operations_syntax

text \<open>
  What the lexer reads. Two views of its state, before and after a character has been read,
  carry all of these lemmas: \<open>unread l s\<close> (the input still to be read is \<open>s\<close>) and
  \<open>reading l c s\<close> (the current character is \<open>c\<close>, the rest is \<open>s\<close>).
\<close>

section \<open>Views of the lexer\<close>

lemma eof_le_byte [simp]: "eof \<le> byte c"
  using byte_lower [of c] by linarith

text \<open>The program leaves comments off and never calls \<open>setlocale\<close>.\<close>

definition plain :: "lexer \<Rightarrow> bool" where
  "plain l \<longleftrightarrow> \<not> lx_ignore_comments l \<and> lx_decimal_point_char l = 46"

definition starts :: "lexer \<Rightarrow> string \<Rightarrow> bool" where
  "starts l s \<longleftrightarrow> plain l \<and> lexer_wf l \<and> pending l = s"

definition unread :: "lexer \<Rightarrow> string \<Rightarrow> bool" where
  "unread l s \<longleftrightarrow> starts l s \<and> 0 < chars_read_total (lx_position l)"

definition reading :: "lexer \<Rightarrow> int \<Rightarrow> string \<Rightarrow> bool" where
  "reading l c s \<longleftrightarrow> plain l \<and> \<not> lx_next_unget l \<and> lx_current l = c \<and> lx_ia l = s
     \<and> 0 < chars_read_total (lx_position l)"

lemma reading_at: "reading l c s \<Longrightarrow> unread l s"
  by (simp add: reading_def unread_def starts_def lexer_wf_def pending_def)

lemma at_starts: "unread l s \<Longrightarrow> starts l s"
  by (simp add: unread_def)

lemma reading_current: "reading l c s \<Longrightarrow> lx_current l = c"
  by (simp add: reading_def)

lemma position_get: "0 < chars_read_total (lx_position (get l))"
  by (simp add: get_def get_account_def Let_def)

lemma token_buffer_get [simp]: "lx_token_buffer (get l) = lx_token_buffer l"
  by (simp add: get_def get_read_def Let_def split: prod.split)

lemma plain_get [simp]: "plain (get l) = plain l"
  by (simp add: plain_def get_def get_read_def Let_def split: prod.split)

lemma token_buffer_unget [simp]: "lx_token_buffer (unget l) = lx_token_buffer l"
  by (simp add: unget_def Let_def)

lemma get_Cons: "starts l (c # s) \<Longrightarrow> reading (get l) (byte c) s"
  using position_get [of l] plain_get [of l]
  by (auto simp: starts_def reading_def lexer_wf_def pending_def get_def get_read_def get_character_def
      Let_def split: if_splits list.splits)

lemma get_Nil: "starts l [] \<Longrightarrow> reading (get l) eof []"
  using position_get [of l] plain_get [of l]
  by (auto simp: starts_def reading_def lexer_wf_def pending_def get_def get_read_def get_character_def
      Let_def split: if_splits list.splits)

lemmas get_at_Cons = get_Cons [OF at_starts]
lemmas get_at_Nil = get_Nil [OF at_starts]

text \<open>The next character of a string, or the end.\<close>

definition next_code_of :: "string \<Rightarrow> int" where
  "next_code_of s = (case s of [] \<Rightarrow> eof | c # _ \<Rightarrow> byte c)"

lemma get_next: "starts l s \<Longrightarrow> reading (get l) (next_code_of s) (tl s)"
  by (cases s) (auto simp: next_code_of_def dest: get_Cons get_Nil)

lemma unget_get_starts: "starts l s \<Longrightarrow> starts (unget (get l)) s"
  using get_next [of l s]
  by (cases s)
     (auto simp: starts_def reading_def lexer_wf_def pending_def unget_def plain_def next_code_of_def
       Let_def)

lemma chars_read_unget_get:
  "chars_read_total (lx_position (unget (get l))) = chars_read_total (lx_position l)"
  by (simp add: get_def unget_def get_read_def get_account_def unget_account_def Let_def
      split: prod.split)

lemma unget_get_at: "unread l s \<Longrightarrow> unread (unget (get l)) s"
  by (simp add: unread_def unget_get_starts chars_read_unget_get)

text \<open>Writing the token buffer and the token's value leaves the views alone.\<close>

lemma view_add [view_simps, simp]:
  "unread (add c l) s = unread l s" "reading (add c l) d s = reading l d s" "plain (add c l) = plain l"
  by (simp_all add: unread_def starts_def reading_def plain_def lexer_wf_def pending_def add_def)

lemma view_reset [view_simps, simp]:
  "unread (reset_token l) s = unread l s" "reading (reset_token l) d s = reading l d s"
  by (simp_all add: unread_def starts_def reading_def plain_def lexer_wf_def pending_def reset_token_def)

lemma view_values [view_simps, simp]:
  "unread (l\<lparr>lx_value_unsigned := x\<rparr>) s = unread l s" "unread (l\<lparr>lx_value_integer := x\<rparr>) s = unread l s"
  "unread (l\<lparr>lx_value_float := x\<rparr>) s = unread l s"
  "unread (l\<lparr>lx_decimal_point_position := d\<rparr>) s = unread l s"
  by (simp_all add: unread_def starts_def plain_def lexer_wf_def pending_def)

lemma token_buffer_add [simp]: "lx_token_buffer (add c l) = lx_token_buffer l @ [chr c]"
  by (simp add: add_def)

lemma token_buffer_reset [simp]: "lx_token_buffer (reset_token l) = []"
  by (simp add: reset_token_def)

section \<open>Whitespace and the start of a token\<close>

definition white :: "string \<Rightarrow> bool" where
  "white ws \<longleftrightarrow> (\<forall>c \<in> set ws. is_whitespace (byte c))"

lemma white_Cons [simp]: "white (c # ws) \<longleftrightarrow> is_whitespace (byte c) \<and> white ws"
  by (simp add: white_def)

lemma white_Nil [simp]: "white []"
  by (simp add: white_def)

lemma white_append [simp]: "white (v @ w) \<longleftrightarrow> white v \<and> white w"
  by (auto simp: white_def)

lemma skip_whitespace_step:
  "skip_whitespace l = (if is_whitespace (lx_current (get l)) then skip_whitespace (get l) else get l)"
  by (subst skip_whitespace.simps) (simp add: Let_def)

lemma skip_whitespace_reads:
  "starts l (ws @ s) \<Longrightarrow> white ws \<Longrightarrow> \<not> is_whitespace (next_code_of s) \<Longrightarrow>
     reading (skip_whitespace l) (next_code_of s) (tl s)"
proof (induction ws arbitrary: l)
  case Nil
  then show ?case
    using get_next [of l s] by (simp add: skip_whitespace_step [of l] reading_def)
next
  case (Cons w ws)
  have r: "reading (get l) (byte w) (ws @ s)" using Cons.prems(1) by (simp add: get_Cons)
  then have "starts (get l) (ws @ s)" by (intro at_starts reading_at)
  then have "reading (skip_whitespace (get l)) (next_code_of s) (tl s)"
    by (rule Cons.IH) (use Cons.prems in simp_all)
  then show ?case
    using r Cons.prems(2) by (simp add: skip_whitespace_step [of l] reading_def)
qed

lemma skip_bom_absent:
  assumes "starts l s" "next_code_of s \<noteq> 239"
  shows "skip_bom l = (True, unget (get l))" "starts (unget (get l)) s"
  using assms get_next [OF assms(1)]
  by (simp_all add: skip_bom_def Let_def reading_def unget_get_starts)

lemma scan_reads:
  assumes "starts l (ws @ s)" "white ws" "\<not> is_whitespace (next_code_of s)"
    "chars_read_total (lx_position l) = 0 \<longrightarrow> next_code_of (ws @ s) \<noteq> 239"
  obtains l' where "scan l = scan_token l'" "reading l' (next_code_of s) (tl s)"
proof -
  obtain l1 where l1: "(if chars_read_total (lx_position l) = 0 then skip_bom l else (True, l)) = (True, l1)"
    and st: "starts l1 (ws @ s)"
    using assms(1,4) skip_bom_absent [OF assms(1)] by (cases "chars_read_total (lx_position l) = 0") auto
  have r: "reading (skip_whitespace l1) (next_code_of s) (tl s)"
    by (rule skip_whitespace_reads [OF st assms(2,3)])
  then have "skip_comments (skip_whitespace l1) = (True, skip_whitespace l1)"
    by (simp add: skip_comments.simps reading_def plain_def)
  with l1 have "scan l = scan_token (skip_whitespace l1)" by (simp add: scan_def)
  with r show ?thesis by (rule that [rotated])
qed

lemma starts_init: "starts (lexer_init s False) s"
  by (simp add: starts_def plain_def lexer_wf_def pending_def lexer_init_def get_decimal_point_def)

section \<open>Literals\<close>

lemma literal_loop_reads:
  "unread l (cs @ s) \<Longrightarrow> \<exists>l'. scan_literal_loop cs t l = (t, l') \<and> unread l' s"
proof (induction cs arbitrary: l)
  case (Cons c cs)
  have r: "reading (get l) (byte c) (cs @ s)" using Cons.prems by (simp add: get_at_Cons)
  then obtain l' where "scan_literal_loop cs t (get l) = (t, l')" "unread l' s"
    using Cons.IH [OF reading_at [OF r]] by auto
  then show ?case using r by (simp add: reading_def Let_def)
qed simp

lemma scan_literal_reads:
  assumes "reading l c (tl text @ s)"
  shows "\<exists>l'. scan_literal text t l = (t, l') \<and> unread l' s"
  unfolding scan_literal_def by (rule literal_loop_reads) (rule reading_at [OF assms])


section \<open>Numbers\<close>

lemma byte_codes:
  "byte c = 46 \<longleftrightarrow> c = CHR ''.''" "byte c = 101 \<longleftrightarrow> c = CHR ''e''" "byte c = 69 \<longleftrightarrow> c = CHR ''E''"
  "byte c = 48 \<longleftrightarrow> c = CHR ''0''"
  using byte_eq_iff [of c "CHR ''.''"] byte_eq_iff [of c "CHR ''e''"] byte_eq_iff [of c "CHR ''E''"]
    byte_eq_iff [of c "CHR ''0''"] by simp_all

text \<open>The end of an integer: a character that neither continues it nor makes it a double.\<close>

definition ends_integer :: "string \<Rightarrow> bool" where
  "ends_integer s \<longleftrightarrow> (case s of [] \<Rightarrow> True
     | c # _ \<Rightarrow> \<not> is_digit c \<and> c \<noteq> CHR ''.'' \<and> c \<noteq> CHR ''e'' \<and> c \<noteq> CHR ''E'')"

lemma ends_integer_next:
  assumes "ends_integer s"
  shows "\<not> is_digit_code (next_code_of s)" "next_code_of s \<noteq> 46" "next_code_of s \<noteq> 101"
    "next_code_of s \<noteq> 69"
  using assms
  by (auto simp: ends_integer_def next_code_of_def is_digit_def byte_codes split: list.splits)

lemma any1_done: "ends_integer s \<Longrightarrow> scan_number_any1 (next_code_of s) = Goto_done"
  using ends_integer_next [of s] by (simp add: scan_number_any1_def)

lemma zero_done: "ends_integer s \<Longrightarrow> scan_number_zero (next_code_of s) = Goto_done"
  using ends_integer_next [of s] by (simp add: scan_number_zero_def)

lemma number_done_reads:
  assumes "unread l s" "st = N_any1 \<or> st = N_zero" "ends_integer s"
  shows "scan_number_loop st t l = (t, unget (get l)) \<and> unread (unget (get l)) s"
  using assms get_next [OF at_starts [OF assms(1)]]
  by (auto simp: scan_number_loop.simps [of st] Let_def reading_def any1_done zero_done unget_get_at)

lemma add_number_char_digit: "is_digit_code (lx_current l) \<Longrightarrow> add_number_char l = add (lx_current l) l"
  by (simp add: add_number_char_def)

lemma is_digit_byte: "is_digit c \<longleftrightarrow> is_digit_code (byte c)"
  by (simp add: is_digit_def)

lemma number_loop_any1_reads:
  "unread l (ds @ s) \<Longrightarrow> list_all is_digit ds \<Longrightarrow> ends_integer s \<Longrightarrow>
     \<exists>l'. scan_number_loop N_any1 t l = (t, l') \<and> unread l' s
       \<and> lx_token_buffer l' = lx_token_buffer l @ ds"
proof (induction ds arbitrary: l)
  case Nil
  then show ?case using number_done_reads [of l s N_any1 t] by simp
next
  case (Cons d ds)
  have r: "reading (get l) (byte d) (ds @ s)" using Cons.prems(1) by (simp add: get_at_Cons)
  have d: "is_digit_code (byte d)" using Cons.prems(2) by (simp add: is_digit_byte)
  then have step: "scan_number_loop N_any1 t l = scan_number_loop N_any1 t (add (byte d) (get l))"
    using reading_current [OF r] by (simp add: scan_number_loop.simps [of N_any1 t l] Let_def
        scan_number_any1_def add_number_char_digit)
  have "unread (add (byte d) (get l)) (ds @ s)" using reading_at [OF r] by simp
  then obtain l' where "scan_number_loop N_any1 t (add (byte d) (get l)) = (t, l')" "unread l' s"
      "lx_token_buffer l' = lx_token_buffer (add (byte d) (get l)) @ ds"
    using Cons.IH [of "add (byte d) (get l)"] Cons.prems(2,3) by auto
  with step show ?case by simp
qed

text \<open>A numeral without leading zeros after its first digit.\<close>

lemma show_nat_shape:
  obtains d ds where "show_nat n = d # ds" "is_digit d" "list_all is_digit ds"
    "d = CHR ''0'' \<longrightarrow> ds = []"
proof -
  obtain d ds where s: "show_nat n = d # ds" by (cases "show_nat n") auto
  have "list_all is_digit (d # ds)"
    unfolding s [symmetric] list_all_iff by (blast intro: show_nat_digits)
  moreover have "d = CHR ''0'' \<longrightarrow> ds = []"
  proof
    assume "d = CHR ''0''"
    then have "n = 0" using s hd_show_nat [of n] by simp
    then show "ds = []" using s by simp
  qed
  ultimately show ?thesis using s that by auto
qed

lemma number_digits_reads:
  assumes r: "unread l (ds @ s)" and ds: "list_all is_digit ds" and s: "ends_integer s"
    and d: "is_digit d" "d = CHR ''0'' \<longrightarrow> ds = []"
  shows "\<exists>l'. scan_number_loop (if d = CHR ''0'' then N_zero else N_any1) t l = (t, l') \<and> unread l' s
       \<and> lx_token_buffer l' = lx_token_buffer l @ ds"
proof (cases "d = CHR ''0''")
  case True
  then show ?thesis using number_done_reads [of l s N_zero t] r s d(2) by simp
next
  case False
  then show ?thesis using number_loop_any1_reads [OF r ds s] by simp
qed

lemma scan_number_unsigned:
  assumes "reading l (byte d) (ds @ s)" "d # ds = dump_unsigned x" "ends_integer s"
  shows "\<exists>l'. scan_number l = (Tok_value_unsigned, l') \<and> unread l' s \<and> lx_value_unsigned l' = x"
proof -
  obtain d' ds' where "show_nat (unat x) = d' # ds'" "is_digit d'" "list_all is_digit ds'"
      "d' = CHR ''0'' \<longrightarrow> ds' = []"
    by (rule show_nat_shape [of "unat x"])
  then have d: "is_digit d" "list_all is_digit ds" "d = CHR ''0'' \<longrightarrow> ds = []"
    using assms(2) by (simp_all add: dump_unsigned_eq)
  have init: "scan_number_init (byte d) = (if d = CHR ''0'' then N_zero else N_any1)"
    using d(1) by (auto simp: scan_number_init_def is_digit_def simp flip: byte_codes(4))
  let ?l = "add (byte d) (reset_token l)"
  have "unread ?l (ds @ s)" using reading_at [OF assms(1)] by simp
  then obtain l' where l': "scan_number_loop (scan_number_init (byte d)) Tok_value_unsigned ?l
        = (Tok_value_unsigned, l')" "unread l' s" "lx_token_buffer l' = lx_token_buffer ?l @ ds"
    using number_digits_reads [of ?l ds s d Tok_value_unsigned] d assms(3) unfolding init by auto
  have "strtoull (lx_token_buffer l') = Some x"
    using l'(3) assms(2) strtoull_dump [of x] by simp
  then show ?thesis
    using l' reading_current [OF assms(1)]
    by (simp add: scan_number_def Let_def scan_number_done_def)
qed

lemma scan_number_negative:
  assumes "reading l 45 (ds @ s)" "CHR ''-'' # ds = dump_signed x" "sint x < 0" "ends_integer s"
  shows "\<exists>l'. scan_number l = (Tok_value_integer, l') \<and> unread l' s \<and> lx_value_integer l' = x"
proof -
  obtain e es where e: "show_nat (nat (- sint x)) = e # es" "is_digit e" "list_all is_digit es"
      "e = CHR ''0'' \<longrightarrow> es = []"
    by (rule show_nat_shape [of "nat (- sint x)"])
  have ds: "ds = e # es" using assms(2,3) e(1) by (simp add: dump_signed_eq)
  let ?start = "add 45 (reset_token l)"
  have at0: "unread ?start (e # es @ s)" using reading_at [OF assms(1)] ds by simp
  then have r: "reading (get ?start) (byte e) (es @ s)" by (rule get_at_Cons)
  let ?l = "add (byte e) (get ?start)"
  have e0: "byte e = 48 \<longleftrightarrow> e = CHR ''0''" by (rule byte_codes(4))
  have cur: "lx_current (get ?start) = byte e" by (rule reading_current [OF r])
  have next_state: "scan_number_next N_minus (byte e) = Goto (if e = CHR ''0'' then N_zero else N_any1)"
    using e(2) e0 by (auto simp: scan_number_minus_def is_digit_byte)
  have "add_number_char (get ?start) = ?l"
    using e(2) cur by (simp add: add_number_char_digit is_digit_byte)
  then have step: "scan_number_loop N_minus Tok_value_unsigned ?start
      = scan_number_loop (if e = CHR ''0'' then N_zero else N_any1) Tok_value_integer ?l"
    unfolding scan_number_loop.simps [of N_minus Tok_value_unsigned ?start] Let_def cur next_state by simp
  have "unread ?l (es @ s)" using reading_at [OF r] by simp
  then obtain l' where l': "scan_number_loop N_minus Tok_value_unsigned ?start = (Tok_value_integer, l')"
      "unread l' s" "lx_token_buffer l' = lx_token_buffer ?l @ es"
    using number_digits_reads [of ?l es s e Tok_value_integer] e(2-4) assms(4) unfolding step by auto
  have "chr 45 = CHR ''-''" by (simp flip: byte_eq_iff)
  then have "lx_token_buffer l' = dump_signed x" using l'(3) assms(2) ds by simp
  then have "strtoll (lx_token_buffer l') = Some x"
    using strtoll_dump_negative [OF assms(3)] by simp
  then show ?thesis
    using l' reading_current [OF assms(1)]
    by (simp add: scan_number_def Let_def scan_number_done_def scan_number_init_def)
qed


section \<open>Strings\<close>

lemma hex_digit_codes: "d < 16 \<Longrightarrow> byte (hex_digit d) = (if d < 10 then 48 + int d else 87 + int d)"
  by (simp add: hex_digit_def)

lemma codepoint_loop_reads:
  assumes "unread l (hex_digit d # s)" "d < 16"
  shows "get_codepoint_loop (f # fs) cp l = get_codepoint_loop fs (cp + push_bit f (int d)) (get l)"
    "unread (get l) s"
proof -
  have r: "reading (get l) (byte (hex_digit d)) s" using assms(1) by (rule get_at_Cons)
  then show "unread (get l) s" by (rule reading_at)
  show "get_codepoint_loop (f # fs) cp l = get_codepoint_loop fs (cp + push_bit f (int d)) (get l)"
    using reading_current [OF r] hex_digit_codes [OF assms(2)] assms(2) by (simp add: Let_def)
qed

lemma hex4_value:
  fixes n :: nat
  assumes "n < 65536"
  shows "n div 4096 mod 16 * 4096 + n div 256 mod 16 * 256 + n div 16 mod 16 * 16 + n mod 16 = n"
proof -
  have eqs: "n div 256 = n div 16 div 16" "n div 4096 = n div 16 div 16 div 16"
    by (simp_all add: div_mult2_eq [symmetric])
  have "n div 4096 mod 16 = n div 4096" using assms by simp
  then show ?thesis
    using div_mult_mod_eq [of n 16] div_mult_mod_eq [of "n div 16" 16]
      div_mult_mod_eq [of "n div 16 div 16" 16] unfolding eqs by linarith
qed

lemma get_codepoint_reads:
  assumes "unread l (hex4 n @ s)" "n < 65536"
  shows "\<exists>l'. get_codepoint l = (int n, l') \<and> unread l' s \<and> lx_token_buffer l' = lx_token_buffer l"
proof -
  let ?d = "\<lambda>k. n div k mod 16"
  have 0: "unread l (hex_digit (?d 4096) # hex_digit (?d 256) # hex_digit (?d 16) # hex_digit (n mod 16) # s)"
    using assms(1) by (simp add: hex4_def)
  note 1 = codepoint_loop_reads [OF 0]
  note 2 = codepoint_loop_reads [OF 1(2)]
  note 3 = codepoint_loop_reads [OF 2(2)]
  note 4 = codepoint_loop_reads [OF 3(2)]
  have "int n = int (?d 4096) * 4096 + int (?d 256) * 256 + int (?d 16) * 16 + int (n mod 16)"
    using arg_cong [OF hex4_value [OF assms(2)], of int] by (simp only: of_nat_add of_nat_mult of_nat_numeral)
  moreover have "get_codepoint l = (0 + push_bit 12 (int (?d 4096)) + push_bit 8 (int (?d 256))
      + push_bit 4 (int (?d 16)) + push_bit 0 (int (n mod 16)), get (get (get (get l))))"
    by (simp only: get_codepoint_def 1(1) 2(1) 3(1) 4(1) mod_less_divisor zero_less_numeral
        get_codepoint_loop.simps(1))
  ultimately have "get_codepoint l = (int n, get (get (get (get l))))"
    by (simp only: push_bit_eq_mult) simp
  then show ?thesis using 4(2) by simp
qed

text \<open>Joining bits that do not overlap.\<close>

lemma or_cont: "0 \<le> x \<Longrightarrow> x < 64 \<Longrightarrow> 128 OR x = 128 + (x::int)"
proof -
  have "\<forall>k \<in> set [0..<64]. 128 OR int k = 128 + int k" by code_simp
  moreover assume "0 \<le> x" "x < 64"
  ultimately show ?thesis by (auto simp: nat_less_iff dest: bspec [of _ _ "nat x"])
qed

lemma or_lead:
  "0 \<le> x \<Longrightarrow> x < 32 \<Longrightarrow> 192 OR x = 192 + (x::int)"
  "0 \<le> x \<Longrightarrow> x < 16 \<Longrightarrow> 224 OR x = 224 + (x::int)"
  "0 \<le> x \<Longrightarrow> x < 8 \<Longrightarrow> 240 OR x = 240 + (x::int)"
proof -
  have *: "\<forall>k \<in> set [0..<32]. 192 OR int k = 192 + int k"
    "\<forall>k \<in> set [0..<16]. 224 OR int k = 224 + int k"
    "\<forall>k \<in> set [0..<8]. 240 OR int k = 240 + int k" by code_simp+
  show "0 \<le> x \<Longrightarrow> x < 32 \<Longrightarrow> 192 OR x = 192 + x" using *(1) by (auto simp: nat_less_iff dest: bspec [of _ _ "nat x"])
  show "0 \<le> x \<Longrightarrow> x < 16 \<Longrightarrow> 224 OR x = 224 + x" using *(2) by (auto simp: nat_less_iff dest: bspec [of _ _ "nat x"])
  show "0 \<le> x \<Longrightarrow> x < 8 \<Longrightarrow> 240 OR x = 240 + x" using *(3) by (auto simp: nat_less_iff dest: bspec [of _ _ "nat x"])
qed

lemma and_63: "(x::int) AND 63 = x mod 64"
proof -
  have "x AND 63 = take_bit 6 x" by (simp add: take_bit_eq_mask mask_eq_exp_minus_1)
  then show ?thesis by (simp add: take_bit_eq_mod)
qed

lemma chr_int: "chr (int n) = char_of n"
  by (simp add: char_of_def bit_of_nat_iff_bit)

lemma add_codepoint_utf8:
  assumes "n < 0x110000"
  shows "lx_token_buffer (add_codepoint (int n) l) = lx_token_buffer l @ utf8_encode n"
proof -
  have m: "int n AND 63 = int (n mod 64)" "drop_bit k (int n) = int (n div 2 ^ k)"
    "int (n div 2 ^ k) AND 63 = int (n div 2 ^ k mod 64)" for k
    by (simp_all add: and_63 drop_bit_eq_div zmod_int zdiv_int)
  have c: "128 OR int (k mod 64) = int (128 + k mod 64)" for k
    using or_cont [of "int (k mod 64)"] by simp
  have l2: "192 OR int (n div 64) = int (192 + n div 64)" if "n < 2048"
    using or_lead(1) [of "int (n div 64)"] that by (simp add: zdiv_int [symmetric])
  have l3: "224 OR int (n div 4096) = int (224 + n div 4096)" if "n < 65536"
    using or_lead(2) [of "int (n div 4096)"] that by (simp add: zdiv_int [symmetric])
  have l4: "240 OR int (n div 262144) = int (240 + n div 262144)"
    using or_lead(3) [of "int (n div 262144)"] assms by (simp add: zdiv_int [symmetric])
  show ?thesis
    using m(2) [of 6] m(2) [of 12] m(2) [of 18] m(3) [of 6] m(3) [of 12] l2 l3 l4
    by (auto simp: add_codepoint_def utf8_encode_def m(1) c chr_int simp del: of_nat_add of_nat_mod of_nat_div)
qed


text \<open>The escapes of \<open>dump_escaped\<close> are read back as the character they stand for.\<close>

definition reads :: "lexer \<Rightarrow> string \<Rightarrow> string \<Rightarrow> token_type option \<times> lexer \<Rightarrow> bool" where
  "reads l w s r \<longleftrightarrow> (\<exists>l'. r = (None, l') \<and> unread l' s \<and> lx_token_buffer l' = lx_token_buffer l @ w)"

lemma readsI: "r = (None, l') \<Longrightarrow> unread l' s \<Longrightarrow> lx_token_buffer l' = lx_token_buffer l @ w \<Longrightarrow> reads l w s r"
  by (simp add: reads_def)

lemma at_add_codepoint [simp]: "unread (add_codepoint cp l) s = unread l s"
  by (simp add: add_codepoint_def)

lemma escape_u_reads:
  assumes "unread l (hex4 cp @ s)" "cp < 65536" "\<not> (0xD800 \<le> cp \<and> cp \<le> 0xDFFF)"
  shows "reads l (utf8_encode cp) s (scan_unicode_escape l)"
proof -
  obtain l' where l': "get_codepoint l = (int cp, l')" "unread l' s" "lx_token_buffer l' = lx_token_buffer l"
    using get_codepoint_reads [OF assms(1,2)] by auto
  have "scan_unicode_escape l = (None, add_codepoint (int cp) l')"
    using l'(1) assms(3) by (auto simp: scan_unicode_escape_def Let_def)
  then show ?thesis
    by (rule readsI) (use l' assms(2) in \<open>simp_all add: add_codepoint_utf8\<close>)
qed

lemma surrogates:
  assumes "0x10000 \<le> cp" "cp < 0x110000"
  shows "0xD7C0 + cp div 1024 < 65536" "0xDC00 + cp mod 1024 < 65536"
    "0xD800 \<le> 0xD7C0 + cp div 1024" "0xD7C0 + cp div 1024 \<le> 0xDBFF"
    "int (0xD7C0 + cp div 1024) * 1024 + int (0xDC00 + cp mod 1024) - 56613888 = int cp"
proof -
  have pair: "int (0xD7C0 + a) * 1024 + int (0xDC00 + b) - 56613888 = int (a * 1024 + b)" for a b :: nat
    by simp
  have d: "64 \<le> cp div 1024" using div_le_mono [OF assms(1), of 1024] by simp
  have "cp div 1024 < 1088" using assms(2) by simp
  then show "0xD7C0 + cp div 1024 < 65536" "0xD7C0 + cp div 1024 \<le> 0xDBFF" by simp_all
  show "0xD800 \<le> 0xD7C0 + cp div 1024" using d by simp
  show "0xDC00 + cp mod 1024 < 65536" using mod_less_divisor [of 1024 cp] by linarith
  show "int (0xD7C0 + cp div 1024) * 1024 + int (0xDC00 + cp mod 1024) - 56613888 = int cp"
    unfolding pair by simp
qed

lemma escape_u_pair_reads:
  assumes "unread l (hex4 (0xD7C0 + cp div 1024) @ [backslash, CHR ''u''] @ hex4 (0xDC00 + cp mod 1024) @ s)"
    "0x10000 \<le> cp" "cp < 0x110000"
  shows "reads l (utf8_encode cp) s (scan_unicode_escape l)"
proof -
  let ?hi = "0xD7C0 + cp div 1024" and ?lo = "0xDC00 + cp mod 1024"
  note sur = surrogates [OF assms(2,3)]
  obtain l1 where l1: "get_codepoint l = (int ?hi, l1)"
      "unread l1 ([backslash, CHR ''u''] @ hex4 ?lo @ s)" "lx_token_buffer l1 = lx_token_buffer l"
    using get_codepoint_reads [OF assms(1) sur(1)] by auto
  have r2: "reading (get l1) (byte backslash) (CHR ''u'' # hex4 ?lo @ s)"
    using get_at_Cons [of l1 backslash] l1(2) by simp
  have r3: "reading (get (get l1)) (byte (CHR ''u'')) (hex4 ?lo @ s)"
    by (rule get_at_Cons [OF reading_at [OF r2]])
  obtain l4 where l4: "get_codepoint (get (get l1)) = (int ?lo, l4)" "unread l4 s"
      "lx_token_buffer l4 = lx_token_buffer l"
    using get_codepoint_reads [OF reading_at [OF r3] sur(2)] l1(3) by auto
  have low: "56320 \<le> int ?lo \<and> int ?lo \<le> 57343" using mod_less_divisor [of 1024 cp] by linarith
  have codes: "lx_current (get l1) = 92" "lx_current (get (get l1)) = 117"
    using reading_current [OF r2] reading_current [OF r3] by (simp_all add: backslash_def)
  have "push_bit 10 (int ?hi) + int ?lo - 56613888 = int cp"
    using sur(5) by (simp only: push_bit_eq_mult) simp
  then have "scan_low_surrogate (int ?hi) l1 = (None, add_codepoint (int cp) l4)"
    using l4(1) codes low by (simp only: scan_low_surrogate_def Let_def) simp
  moreover have "55296 \<le> int ?hi \<and> int ?hi \<le> 56319" using sur(3,4) by linarith
  ultimately have "scan_unicode_escape l = (None, add_codepoint (int cp) l4)"
    using l1(1) by (simp only: scan_unicode_escape_def Let_def) simp
  then show ?thesis
    by (rule readsI) (use l4 assms(3) in \<open>simp_all add: add_codepoint_utf8\<close>)
qed


text \<open>Multi-byte characters.\<close>

lemma range_loop_reads:
  "list_all2 in_range rs cs \<Longrightarrow> unread l (cs @ s) \<Longrightarrow>
     \<exists>l'. next_byte_in_range_loop rs l = (True, l') \<and> unread l' s \<and> lx_token_buffer l' = lx_token_buffer l @ cs"
proof (induction rs arbitrary: cs l)
  case (Cons r rs)
  then obtain c cs' where cs: "cs = c # cs'" "in_range r c" "list_all2 in_range rs cs'"
    by (auto simp: list_all2_Cons1)
  have rd: "reading (get l) (byte c) (cs' @ s)" using Cons.prems(2) cs(1) by (simp add: get_at_Cons)
  then obtain l' where "next_byte_in_range_loop rs (add (byte c) (get l)) = (True, l')" "unread l' s"
      "lx_token_buffer l' = lx_token_buffer (add (byte c) (get l)) @ cs'"
    using Cons.IH [OF cs(3), of "add (byte c) (get l)"] reading_at [OF rd] by auto
  then show ?case
    using reading_current [OF rd] cs(1,2) by (simp add: Let_def in_range_def)
qed simp

lemma multibyte_reads:
  assumes "reading l (byte c) (cs @ s)" "utf8_ranges (byte c) \<noteq> []" "list_all2 in_range (utf8_ranges (byte c)) cs"
  shows "reads l (c # cs) s (scan_multibyte l)"
proof -
  have "unread (add (byte c) l) (cs @ s)" using reading_at [OF assms(1)] by simp
  then obtain l' where "next_byte_in_range_loop (utf8_ranges (byte c)) (add (byte c) l) = (True, l')"
      "unread l' s" "lx_token_buffer l' = lx_token_buffer (add (byte c) l) @ cs"
    using range_loop_reads [OF assms(3)] by blast
  then show ?thesis
    using assms(2) reading_current [OF assms(1)]
    by (intro readsI [of _ l']) (auto simp: scan_multibyte_def next_byte_in_range_def split: list.split)
qed

text \<open>One character of a string, escaped or not.\<close>

lemma string_step_escape:
  assumes "unread l (backslash # s)"
  shows "scan_string_step l = scan_escape (get l)" "unread (get l) s"
proof -
  have r: "reading (get l) (byte backslash) s" using assms by (rule get_at_Cons)
  then show "unread (get l) s" by (rule reading_at)
  show "scan_string_step l = scan_escape (get l)"
    using reading_current [OF r] by (simp add: scan_string_step_def Let_def backslash_def)
qed

lemma string_step_simple_escape:
  assumes "unread l (backslash # c # s)" "n < 128"
    "scan_escape (get l) = (None, add (int n) (get (get l)))"
  shows "reads l (utf8_encode n) s (scan_string_step l)"
proof -
  note e = string_step_escape [OF assms(1)]
  have "unread (add (int n) (get (get l))) s" using reading_at [OF get_at_Cons [OF e(2)]] by simp
  then show ?thesis
    unfolding e(1) by (intro readsI [OF assms(3)]) (use assms(2) in \<open>simp_all add: utf8_encode_def chr_int\<close>)
qed

lemma get_get_current: "unread l (b # c # s) \<Longrightarrow> lx_current (get (get l)) = byte c"
  by (rule reading_current) (rule get_at_Cons [OF reading_at [OF get_at_Cons]])

lemma string_step_unicode:
  assumes "unread l (backslash # CHR ''u'' # s)"
  shows "scan_string_step l = scan_unicode_escape (get (get l))" "unread (get (get l)) s"
    "lx_token_buffer (get (get l)) = lx_token_buffer l"
  using get_get_current [OF assms] string_step_escape [OF assms]
    reading_at [OF get_at_Cons [OF reading_at [OF get_at_Cons [OF assms]]]]
  by (simp_all add: scan_escape_def Let_def)

lemma reads_buffer: "reads l w s r \<Longrightarrow> lx_token_buffer l = lx_token_buffer k \<Longrightarrow> reads k w s r"
  by (simp add: reads_def)

lemma unicode_escape_reads:
  assumes "unread l (unicode_escape cp @ s)" "is_scalar cp"
  shows "reads l (utf8_encode cp) s (scan_string_step l)"
proof (cases "cp \<le> 0xFFFF")
  case True
  then have u: "unread l (backslash # CHR ''u'' # hex4 cp @ s)" using assms(1) by (simp add: unicode_escape_def)
  show ?thesis
    unfolding string_step_unicode(1) [OF u]
    by (rule reads_buffer [OF escape_u_reads [OF string_step_unicode(2) [OF u]] string_step_unicode(3) [OF u]])
      (use True assms(2) in \<open>auto simp: is_scalar_def\<close>)
next
  case False
  then have u: "unread l (backslash # CHR ''u'' # hex4 (0xD7C0 + cp div 1024) @ [backslash, CHR ''u'']
      @ hex4 (0xDC00 + cp mod 1024) @ s)" using assms(1) by (simp add: unicode_escape_def)
  show ?thesis
    unfolding string_step_unicode(1) [OF u]
    by (rule reads_buffer [OF escape_u_pair_reads [OF string_step_unicode(2) [OF u]] string_step_unicode(3) [OF u]])
      (use False assms(2) in \<open>auto simp: is_scalar_def\<close>)
qed

lemma plain_char_reads:
  assumes "unread l (w @ s)" "utf8_char w" "utf8_code w \<noteq> 34" "utf8_code w \<noteq> 92" "31 < utf8_code w"
  shows "reads l w s (scan_string_step l)"
proof -
  obtain c cs where w: "w = c # cs" using assms(2) by (cases w) auto
  have r: "reading (get l) (byte c) (cs @ s)" using assms(1) w by (simp add: get_at_Cons)
  note cur = reading_current [OF r]
  show ?thesis
  proof (cases "byte c < 128")
    case True
    then have cs: "cs = []" and code: "byte c = int (utf8_code w)"
      using assms(2) w by (simp_all add: utf8_code_def lead_code_def of_nat_of_char)
    have "scan_string_step l = (None, add (byte c) (get l))"
      using cur True assms(3-5) code by (simp add: scan_string_step_def Let_def)
    then show ?thesis by (rule readsI) (use reading_at [OF r] cs w in simp_all)
  next
    case False
    then have rg: "utf8_ranges (byte c) \<noteq> []" "list_all2 in_range (utf8_ranges (byte c)) cs"
      using assms(2) w by simp_all
    have "scan_string_step l = scan_multibyte (get l)"
      using cur False by (simp add: scan_string_step_def Let_def)
    then show ?thesis
      using reads_buffer [OF multibyte_reads [OF r rg], of l] w by simp
  qed
qed


lemma escape_char_reads:
  assumes "unread l (escape_char ea w @ s)" "utf8_char w"
  shows "reads l w s (scan_string_step l)"
proof -
  let ?cp = "utf8_code w"
  have scalar: "is_scalar ?cp" and enc: "utf8_encode ?cp = w" using utf8_char_scalar [OF assms(2)] by simp_all
  have simple: "reads l w s (scan_string_step l)"
    if "escape_char ea w = [backslash, c]" "?cp < 128"
      "\<And>k. lx_current (get k) = byte c \<Longrightarrow> scan_escape k = (None, add (int ?cp) (get k))" for c
  proof -
    have "unread l (backslash # c # s)" using assms(1) that(1) by simp
    then show ?thesis
      using string_step_simple_escape [of l c s ?cp] that(2,3) get_get_current [of l backslash c s] enc
      by simp
  qed
  have esc: "scan_escape k = (if lx_current (get k) = 34 then (None, add 34 (get k))
      else if lx_current (get k) = 92 then (None, add 92 (get k))
      else if lx_current (get k) = 98 then (None, add 8 (get k))
      else if lx_current (get k) = 102 then (None, add 12 (get k))
      else if lx_current (get k) = 110 then (None, add 10 (get k))
      else if lx_current (get k) = 114 then (None, add 13 (get k))
      else if lx_current (get k) = 116 then (None, add 9 (get k)) else scan_escape k)" for k
    by (simp add: scan_escape_def Let_def)
  consider (short) "?cp \<in> {8, 9, 10, 12, 13, 34, 92}"
    | (hex) "?cp \<notin> {8, 9, 10, 12, 13, 34, 92}" "?cp \<le> 31 \<or> (ea \<and> 127 \<le> ?cp)"
    | (none) "?cp \<notin> {8, 9, 10, 12, 13, 34, 92}" "\<not> (?cp \<le> 31 \<or> (ea \<and> 127 \<le> ?cp))" by blast
  then show ?thesis
  proof cases
    case short
    then show ?thesis
      by (elim insertE emptyE)
        (rule simple; simp add: escape_char_def escape_text_def; subst esc; simp add: backslash_def)+
  next
    case hex
    then have "escape_char ea w = unicode_escape ?cp" by (simp add: escape_char_def escape_text_def)
    then show ?thesis using unicode_escape_reads [of l ?cp s] assms(1) scalar enc by simp
  next
    case none
    then have "escape_char ea w = w" by (auto simp: escape_char_def escape_text_def)
    then show ?thesis using plain_char_reads [of l w s] assms none by auto
  qed
qed

lemma string_loop_reads:
  "unread l (concat (map (escape_char ea) ws) @ chr 34 # s) \<Longrightarrow> list_all utf8_char ws \<Longrightarrow>
     \<exists>l'. scan_string_loop l = (Tok_value_string, l') \<and> unread l' s
       \<and> lx_token_buffer l' = lx_token_buffer l @ concat ws"
proof (induction ws arbitrary: l)
  case Nil
  then have r: "reading (get l) 34 s" using get_at_Cons [of l "chr 34" s] by simp
  then show ?case
    using reading_at [OF r] reading_current [OF r]
    by (simp add: scan_string_loop.simps [of l] scan_string_step_def Let_def)
next
  case (Cons w ws)
  have "reads l w (concat (map (escape_char ea) ws) @ chr 34 # s) (scan_string_step l)"
    by (rule escape_char_reads) (use Cons.prems in simp_all)
  then obtain l1 where l1: "scan_string_step l = (None, l1)"
      "unread l1 (concat (map (escape_char ea) ws) @ chr 34 # s)" "lx_token_buffer l1 = lx_token_buffer l @ w"
    by (auto simp: reads_def)
  then show ?case
    using Cons.IH [OF l1(2)] Cons.prems(2) by (auto simp: scan_string_loop.simps [of l])
qed

lemma scan_string_reads:
  assumes "reading l c (escape ea v @ chr 34 # s)" "utf8_valid v"
  shows "\<exists>l'. scan_string l = (Tok_value_string, l') \<and> unread l' s \<and> lx_token_buffer l' = v"
proof -
  obtain ws where ws: "list_all utf8_char ws" "v = concat ws" using assms(2) by (auto simp: utf8_valid_chars)
  then have "unread (reset_token l) (concat (map (escape_char ea) ws) @ chr 34 # s)"
    using reading_at [OF assms(1)] by (simp add: escape_def utf8_chars_concat)
  from string_loop_reads [OF this ws(1)] show ?thesis by (simp add: scan_string_def ws(2))
qed

section \<open>Tokens\<close>

definition ready :: "lexer \<Rightarrow> string \<Rightarrow> bool" where
  "ready l s \<longleftrightarrow> starts l s \<and> (chars_read_total (lx_position l) = 0 \<longrightarrow> next_code_of s \<noteq> 239)"

lemma unread_ready: "unread l s \<Longrightarrow> ready l s"
  by (simp add: unread_def ready_def)

lemma ready_init: "next_code_of s \<noteq> 239 \<Longrightarrow> ready (lexer_init s False) s"
  by (simp add: ready_def starts_init)

lemma scan_ready:
  assumes "ready l (ws @ s)" "white ws" "\<not> is_whitespace (next_code_of s)"
  obtains l' where "scan l = scan_token l'" "reading l' (next_code_of s) (tl s)"
  by (rule scan_reads [of l ws s]) (use assms in \<open>auto simp: ready_def\<close>)

text \<open>\<open>token l t s P\<close>: the next token is \<open>t\<close>, then \<open>s\<close> is left and the lexer satisfies \<open>P\<close>.\<close>

definition token :: "lexer \<Rightarrow> token_type \<Rightarrow> string \<Rightarrow> (lexer \<Rightarrow> bool) \<Rightarrow> bool" where
  "token l t s P \<longleftrightarrow> (\<exists>l'. scan l = (t, l') \<and> unread l' s \<and> P l')"

lemma token_char:
  assumes "ready l (ws @ c # s)" "white ws"
    "(c, t) \<in> {(CHR ''['', Tok_begin_array), (CHR '']'', Tok_end_array), (CHR ''{'', Tok_begin_object),
       (CHR ''}'', Tok_end_object), (CHR '':'', Tok_name_separator), (CHR '','', Tok_value_separator)}"
  shows "token l t s (\<lambda>_. True)"
proof -
  obtain l' where l': "scan l = scan_token l'" "reading l' (byte c) s"
    by (rule scan_ready [OF assms(1,2)]) (use assms(3) in \<open>auto simp: next_code_of_def is_whitespace_def\<close>)
  then have "scan_token l' = (t, l')"
    using assms(3) reading_current [OF l'(2)] by (auto simp: scan_token_def)
  then show ?thesis using l' reading_at [OF l'(2)] by (auto simp: token_def)
qed

lemma token_end:
  assumes "ready l ws" "white ws"
  shows "fst (scan l) = Tok_end_of_input"
proof -
  have "ready l (ws @ [])" using assms(1) by simp
  then obtain l' where "scan l = scan_token l'" "reading l' (next_code_of []) (tl [])"
    by (rule scan_ready) (use assms(2) in \<open>simp_all add: next_code_of_def is_whitespace_def\<close>)
  then show ?thesis by (simp add: scan_token_eof reading_def next_code_of_def)
qed

lemma token_literal:
  assumes "ready l (ws @ lit @ s)" "white ws"
    "(lit, t) \<in> {(''true'', Tok_literal_true), (''false'', Tok_literal_false), (''null'', Tok_literal_null)}"
  shows "token l t s (\<lambda>_. True)"
proof -
  obtain c cs where lit: "lit = c # cs" "(c, t) \<in> {(CHR ''t'', Tok_literal_true),
      (CHR ''f'', Tok_literal_false), (CHR ''n'', Tok_literal_null)}" using assms(3) by auto
  obtain l' where l': "scan l = scan_token l'" "reading l' (byte c) (cs @ s)"
    by (rule scan_ready [OF assms(1,2)])
      (use lit in \<open>auto simp: next_code_of_def is_whitespace_def\<close>)
  have "scan_token l' = scan_literal lit t l'"
    using assms(3) lit(1) reading_current [OF l'(2)] by (auto simp: scan_token_def)
  then show ?thesis
    using scan_literal_reads [of l' "byte c" lit s t] l' lit(1) by (auto simp: token_def)
qed

lemma token_string:
  assumes "ready l (ws @ quote @ escape ea v @ quote @ s)" "white ws" "utf8_valid v"
  shows "token l Tok_value_string s (\<lambda>l'. lexer_get_string l' = v)"
proof -
  have q: "quote = [chr 34]" by (simp add: quote_def)
  obtain l' where l': "scan l = scan_token l'" "reading l' 34 (escape ea v @ chr 34 # s)"
    by (rule scan_ready [OF assms(1,2)]) (auto simp: next_code_of_def is_whitespace_def q)
  obtain l2 where l2: "scan_string l' = (Tok_value_string, l2)" "unread l2 s" "lx_token_buffer l2 = v"
    using scan_string_reads [OF l'(2) assms(3)] by auto
  have "lexer_get_string l2 = v"
    using l2(2,3) by (simp add: lexer_get_string_def unread_def starts_def plain_def split: option.split)
  then show ?thesis using l' l2 reading_current [OF l'(2)] by (auto simp: token_def scan_token_def)
qed

lemma token_unsigned:
  assumes "ready l (ws @ dump_unsigned x @ s)" "white ws" "ends_integer s"
  shows "token l Tok_value_unsigned s (\<lambda>l'. lx_value_unsigned l' = x)"
proof -
  obtain d ds where d: "dump_unsigned x = d # ds" "is_digit d"
    by (rule show_nat_shape [of "unat x"]) (simp add: dump_unsigned_eq)
  obtain l' where l': "scan l = scan_token l'" "reading l' (byte d) (ds @ s)"
    by (rule scan_ready [OF assms(1,2)]) (use d in \<open>auto simp: next_code_of_def is_whitespace_def is_digit_def\<close>)
  have "scan_token l' = scan_number l'"
    using d(2) reading_current [OF l'(2)] by (auto simp: scan_token_def is_digit_def)
  then show ?thesis
    using scan_number_unsigned [OF l'(2) d(1) [symmetric] assms(3)] l'(1) by (auto simp: token_def)
qed

lemma token_negative:
  assumes "ready l (ws @ dump_signed x @ s)" "white ws" "ends_integer s" "sint x < 0"
  shows "token l Tok_value_integer s (\<lambda>l'. lx_value_integer l' = x)"
proof -
  obtain ds where d: "dump_signed x = CHR ''-'' # ds" using assms(4) by (simp add: dump_signed_eq)
  obtain l' where l': "scan l = scan_token l'" "reading l' 45 (ds @ s)"
    by (rule scan_ready [OF assms(1,2)]) (use d in \<open>auto simp: next_code_of_def is_whitespace_def\<close>)
  have "scan_token l' = scan_number l'"
    using reading_current [OF l'(2)] by (auto simp: scan_token_def)
  then show ?thesis
    using scan_number_negative [OF l'(2) d [symmetric] assms(4,3)] l'(1) by (auto simp: token_def)
qed

end
