(* ===== verification/GrisuDigits.thy ===== *)
theory GrisuDigits
  imports Grisu Complex_Main
begin

unbundle bit_operations_syntax

text \<open>
  Generating digits: the loops of Grisu2 end with digits of a number in the interval they are given,
  at most seventeen of them and without a leading zero, and none of their assertions fails.
\<close>

section \<open>Digit strings\<close>

text \<open>A digit string that does not begin with a zero.\<close>

definition numeral_text :: "string \<Rightarrow> bool" where
  "numeral_text s \<longleftrightarrow> s \<noteq> [] \<and> list_all is_digit s \<and> hd s \<noteq> CHR ''0''"

lemma digit_value_less: "is_digit c \<Longrightarrow> digit_value c < 10"
  by (auto simp: is_digit_def digit_value_def nat_less_iff)

lemma digit_value_pos: "is_digit c \<Longrightarrow> c \<noteq> CHR ''0'' \<longleftrightarrow> 0 < digit_value c"
  using byte_eq_iff [of c "CHR ''0''"] by (auto simp: is_digit_def digit_value_def)

lemma digits_value_append: "digits_value (s @ t) = digits_value s * 10 ^ length t + digits_value t"
proof (induction t rule: rev_induct)
  case (snoc c t)
  then show ?case
    using digits_value_snoc [of "s @ t" c] digits_value_snoc [of t c] by (simp add: algebra_simps)
qed (simp add: digits_value_def)

lemma digits_value_less: "list_all is_digit s \<Longrightarrow> digits_value s < 10 ^ length s"
proof (induction s rule: rev_induct)
  case (snoc c s)
  then have "digits_value s + 1 \<le> 10 ^ length s" "digit_value c < 10"
    by (auto simp: digit_value_less)
  then show ?case by (simp add: digits_value_snoc)
qed (simp add: digits_value_def)

lemma digits_value_single [simp]: "digits_value [c] = digit_value c"
  by (simp add: digits_value_def)

lemma digits_value_Nil [simp]: "digits_value [] = 0"
  by (simp add: digits_value_def)

lemma numeral_text_value: "numeral_text s \<Longrightarrow> 10 ^ (length s - 1) \<le> digits_value s"
proof -
  assume n: "numeral_text s"
  then obtain c t where s: "s = c # t" by (cases s) (auto simp: numeral_text_def)
  then have "0 < digit_value c" using n digit_value_pos [of c] by (simp add: numeral_text_def)
  then have "10 ^ length t \<le> digit_value c * 10 ^ length t" by (simp add: Suc_le_eq)
  then have "10 ^ length t \<le> digits_value (c # t)"
    using digits_value_append [of "[c]" t] by (simp only: append.simps digits_value_single)
  then show ?thesis by (simp add: s)
qed

section \<open>Rounding the last digit\<close>

lemma decrement_last:
  assumes "buf \<noteq> []" "list_all is_digit buf" "1 < digit_value (last buf)"
  shows "list_all is_digit (decrement_last buf)" "length (decrement_last buf) = length buf"
    "digit_value (last (decrement_last buf)) = digit_value (last buf) - 1"
    "digits_value (decrement_last buf) = digits_value buf - 1"
    "numeral_text buf \<longrightarrow> numeral_text (decrement_last buf)"
proof -
  obtain s c where b: "buf = s @ [c]" using assms(1) by (metis append_butlast_last_id)
  have c: "is_digit c" "1 < digit_value c" using assms b by simp_all
  let ?d = "chr (byte c - 1)"
  have d: "byte ?d = byte c - 1" using c(1) by (simp add: is_digit_def)
  then have dd: "is_digit ?d" "digit_value ?d = digit_value c - 1"
    using c by (auto simp: is_digit_def digit_value_def)
  then have d0: "?d \<noteq> CHR ''0''" using digit_value_pos [of ?d] c by simp
  have e: "decrement_last buf = s @ [?d]" by (simp add: decrement_last_def b)
  show "list_all is_digit (decrement_last buf)" "length (decrement_last buf) = length buf"
    "digit_value (last (decrement_last buf)) = digit_value (last buf) - 1"
    using assms(2) dd unfolding e by (simp_all add: b)
  show "digits_value (decrement_last buf) = digits_value buf - 1"
    unfolding e using digits_value_snoc [of s c] digits_value_snoc [of s ?d] dd(2) c by (simp add: b)
  show "numeral_text buf \<longrightarrow> numeral_text (decrement_last buf)"
    using assms(2) dd d0 unfolding e by (cases s) (auto simp: b numeral_text_def)
qed

text \<open>
  The digits stand for \<open>digits_value buf * ten_k\<close>, which is \<open>rest\<close> below the upper bound; the
  loop goes down while the distance stays within \<open>delta\<close>. That the last digit is not a zero
  follows from what the caller knows: without the last digit the distance was too big.
\<close>

lemma round_loop:
  "rest \<le> delta \<Longrightarrow> 0 < ten_k \<Longrightarrow> numeral_text buf \<Longrightarrow>
     unat delta < digit_value (last buf) * unat ten_k + unat rest \<Longrightarrow>
   \<exists>buf' j. grisu2_round_loop buf dst delta rest ten_k = Inr buf' \<and> numeral_text buf'
     \<and> length buf' = length buf \<and> digits_value buf = digits_value buf' + j
     \<and> unat rest + j * unat ten_k \<le> unat delta"
proof (induction buf dst delta rest ten_k rule: grisu2_round_loop.induct)
  case (1 buf dst delta rest ten_k)
  let ?go = "rest < dst \<and> ten_k \<le> delta - rest \<and> (rest + ten_k < dst \<or> rest + ten_k - dst < dst - rest)"
  have ok: "rest \<le> delta \<and> 0 < ten_k" using 1(2,3) by simp
  show ?case
  proof (cases ?go)
    case True
    have s: "unat (rest + ten_k) = unat rest + unat ten_k" "unat rest + unat ten_k \<le> unat delta"
      using round_step_less [OF 1(2,3)] True by blast+
    have "unat ten_k < digit_value (last buf) * unat ten_k" using s(2) 1(5) by linarith
    then have d: "1 < digit_value (last buf)" by (cases "digit_value (last buf)" rule: nat.exhaust) (auto intro: gr0I)
    have b: "buf \<noteq> []" "list_all is_digit buf" using 1(4) by (auto simp: numeral_text_def)
    note dec = decrement_last [OF b d]
    have "is_digit (last buf)" using b by (simp add: list_all_iff)
    then have nz: "last buf \<noteq> CHR ''0''" using d digit_value_pos [of "last buf"] by simp
    have pos: "0 < digits_value buf" using numeral_text_value [OF 1(4)] by (meson less_le_trans zero_less_numeral zero_less_power)
    obtain buf' j where IH: "grisu2_round_loop (decrement_last buf) dst delta (rest + ten_k) ten_k = Inr buf'"
        "numeral_text buf'" "length buf' = length (decrement_last buf)"
        "digits_value (decrement_last buf) = digits_value buf' + j"
        "unat (rest + ten_k) + j * unat ten_k \<le> unat delta"
    proof (atomize_elim, rule 1(1) [OF ok True nz])
      show "rest + ten_k \<le> delta" using s by (simp add: word_le_nat_alt)
      show "numeral_text (decrement_last buf)" using dec(5) 1(4) by simp
      have "digit_value (last buf) * unat ten_k = unat ten_k + (digit_value (last buf) - 1) * unat ten_k"
        using d by (metis add.commute add_mult_distrib le_add_diff_inverse2 less_imp_le mult_1)
      then show "unat delta < digit_value (last (decrement_last buf)) * unat ten_k + unat (rest + ten_k)"
        using 1(5) s dec(3) by simp
    qed (fact 1(3))
    have "grisu2_round_loop buf dst delta rest ten_k = Inr buf'"
      using IH(1) nz ok True by (subst grisu2_round_loop.simps) simp
    moreover have "digits_value buf = digits_value buf' + Suc j" using IH(4) dec(4) pos by simp
    moreover have "unat rest + Suc j * unat ten_k \<le> unat delta" using IH(5) s by simp
    ultimately show ?thesis using IH(2,3) dec(2) by auto
  next
    case False
    then have "grisu2_round_loop buf dst delta rest ten_k = Inr buf"
      using ok by (subst grisu2_round_loop.simps) auto
    then show ?thesis using 1(2,4) by (intro exI [of _ buf] exI [of _ 0]) (simp add: word_le_nat_alt)
  qed
qed

lemma round_digits:
  assumes "dst \<le> delta" "rest \<le> delta" "0 < ten_k" "numeral_text buf"
    "unat delta < digit_value (last buf) * unat ten_k + unat rest"
  obtains buf' j where "grisu2_round buf dst delta rest ten_k = Inr buf'" "numeral_text buf'"
    "length buf' = length buf" "digits_value buf = digits_value buf' + j"
    "unat rest + j * unat ten_k \<le> unat delta"
  using round_loop [OF assms(2-5), of dst] assms(1,4) that by (auto simp: grisu2_round_def numeral_text_def)

section \<open>Generating digits\<close>

text \<open>
  \<open>X\<close> is the upper bound and \<open>delta\<close> the width of the interval, in units of \<open>2 ^ - s\<close>; digits
  \<open>buf\<close> with exponent \<open>kappa\<close> are a number in it.
\<close>

definition in_interval :: "nat \<Rightarrow> nat \<Rightarrow> nat \<Rightarrow> string \<Rightarrow> int \<Rightarrow> bool" where
  "in_interval s X delta buf kappa \<longleftrightarrow> numeral_text buf \<and> length buf \<le> 17
     \<and> real X - real delta \<le> real (digits_value buf) * 10 powi kappa * 2 ^ s
     \<and> real (digits_value buf) * 10 powi kappa * 2 ^ s \<le> real X"

lemma in_interval_nat:
  assumes "numeral_text buf" "length buf \<le> 17" "X = (digits_value buf + j) * 10 ^ n * 2 ^ s + rest"
    "rest + j * (10 ^ n * 2 ^ s) \<le> delta"
  shows "in_interval s X delta buf (int n)"
proof -
  have "X = digits_value buf * 10 ^ n * 2 ^ s + (rest + j * (10 ^ n * 2 ^ s))"
    using assms(3) by (simp add: algebra_simps)
  then have "digits_value buf * 10 ^ n * 2 ^ s \<le> X" "X \<le> digits_value buf * 10 ^ n * 2 ^ s + delta"
    using assms(4) by simp_all
  then have "real (digits_value buf * 10 ^ n * 2 ^ s) \<le> real X"
      "real X \<le> real (digits_value buf * 10 ^ n * 2 ^ s + delta)"
    by (simp_all only: of_nat_le_iff)
  then show ?thesis using assms(1,2) by (simp add: in_interval_def power_int_of_nat)
qed

lemma in_interval_scale:
  assumes "in_interval s (X * 10 ^ m) (delta * 10 ^ m) buf kappa"
  shows "in_interval s X delta buf (kappa - int m)"
proof -
  have p: "10 powi kappa = (10 powi (kappa - int m) * 10 ^ m :: real)"
    by (simp flip: power_int_of_nat power_int_add)
  have "(real X - real delta) * 10 ^ m \<le> (real (digits_value buf) * 10 powi (kappa - int m) * 2 ^ s) * 10 ^ m"
      "(real (digits_value buf) * 10 powi (kappa - int m) * 2 ^ s) * 10 ^ m \<le> real X * 10 ^ m"
    using assms by (simp_all add: in_interval_def p algebra_simps)
  then show ?thesis using assms by (simp add: in_interval_def)
qed

text \<open>Fewer than seventeen digits as long as the interval has not been reached.\<close>

lemma few_digits:
  assumes "numeral_text buf" "digits_value buf * u + p \<le> X" "X < 10 ^ 16 * delta" "delta < u"
  shows "length buf \<le> 16"
proof (rule ccontr)
  assume "\<not> length buf \<le> 16"
  then have "(10::nat) ^ 16 \<le> 10 ^ (length buf - 1)" by (intro power_increasing) auto
  also have "\<dots> \<le> digits_value buf" by (rule numeral_text_value [OF assms(1)])
  finally have "10 ^ 16 * u \<le> digits_value buf * u" by (rule mult_le_mono1)
  then have "10 ^ 16 * u \<le> X" using assms(2) by linarith
  moreover have "10 ^ 16 * delta \<le> 10 ^ 16 * u" using assms(4) by simp
  ultimately show False using assms(3) by linarith
qed

lemma fraction_words:
  fixes p2 delta dst :: u64
  assumes "s \<le> 60" "unat p2 < 2 ^ s" "unat delta < unat p2" "dst \<le> delta"
  shows "unat (p2 * 10) = unat p2 * 10" "unat (drop_bit s (p2 * 10)) = unat p2 * 10 div 2 ^ s"
    "unat p2 * 10 div 2 ^ s < 10"
    "unat (p2 * 10 AND (push_bit s 1 - 1)) = unat p2 * 10 mod 2 ^ s" "unat (delta * 10) = unat delta * 10"
    "dst * 10 \<le> delta * 10" "unat (push_bit s 1 :: u64) = 2 ^ s" "unat p2 \<le> (2 ^ 64 - 1) div 10"
proof -
  have "(2::nat) ^ s \<le> 2 ^ 60" using assms(1) by (rule power_increasing) simp
  then have b: "unat p2 < 2 ^ 60" using assms(2) by linarith
  show le: "unat p2 \<le> (2 ^ 64 - 1) div 10" using b by simp
  show p: "unat (p2 * 10) = unat p2 * 10" using b by (simp add: unat_word_ariths)
  show "unat (drop_bit s (p2 * 10)) = unat p2 * 10 div 2 ^ s" by (simp only: unat_drop_bit_eq p drop_bit_eq_div [where 'a = nat])
  show "unat p2 * 10 div 2 ^ s < 10" using assms(2) by (simp add: less_mult_imp_div_less)
  show "unat (p2 * 10 AND (push_bit s 1 - 1)) = unat p2 * 10 mod 2 ^ s" by (rule unat_fraction_step [OF le])
  show d: "unat (delta * 10) = unat delta * 10" using b assms(3) by (simp add: unat_word_ariths)
  have "unat dst \<le> unat delta" using assms(4) by (simp add: word_le_nat_alt)
  then have "unat (dst * 10) = unat dst * 10" using b assms(3) by (simp add: unat_word_ariths)
  then show "dst * 10 \<le> delta * 10" using d \<open>unat dst \<le> unat delta\<close> by (simp add: word_le_nat_alt)
  show "unat (push_bit s 1 :: u64) = 2 ^ s"
    unfolding unsigned_push_bit_eq using assms(1) by (simp add: take_bit_nat_eq_self push_bit_eq_mult)
qed

lemma chr_uint_digit: "unat (d::'a::len word) < 10 \<Longrightarrow> chr (48 + uint d) = digit_char (unat d)"
  using chr_digit [of "unat d"] by simp

lemma numeral_text_snoc: "d < 10 \<Longrightarrow> numeral_text buf \<or> buf = [] \<and> 0 < d \<Longrightarrow> numeral_text (buf @ [digit_char d])"
  using digit_value_pos [of "digit_char d"] by (cases buf) (auto simp: numeral_text_def)

lemma fraction_digits:
  "s \<le> 60 \<Longrightarrow> unat p2 < 2 ^ s \<Longrightarrow> unat delta < unat p2 \<Longrightarrow> dst \<le> delta \<Longrightarrow> numeral_text buf \<Longrightarrow>
     X = digits_value buf * 2 ^ s + unat p2 \<Longrightarrow> X < 10 ^ 16 * unat delta \<Longrightarrow>
   \<exists>buf' k. digit_gen_fraction s p2 delta dst dexp buf = Inr (buf', dexp + k) \<and> in_interval s X (unat delta) buf' k"
proof (induction s p2 delta dst dexp buf arbitrary: X rule: digit_gen_fraction.induct)
  case (1 s p2 delta dst dexp buf)
  let ?p = "unat p2 * 10" and ?d = "drop_bit s (p2 * 10)" and ?r = "p2 * 10 AND (push_bit s 1 - 1)"
  let ?buf = "buf @ [digit_char (?p div 2 ^ s)]"
  note w = fraction_words [OF 1(2-5)]
  have d9: "?d \<le> 9" using w(2,3) by (simp add: word_le_nat_alt)
  have buf: "buf @ [chr (48 + uint ?d)] = ?buf" using w(2,3) chr_uint_digit [of ?d] by simp
  have num: "numeral_text ?buf" using numeral_text_snoc [OF w(3)] 1(6) by blast
  have X: "X * 10 = digits_value ?buf * 2 ^ s + unat ?r"
    using w(3,4) 1(7) by (simp add: digits_value_snoc algebra_simps)
  have len: "length buf \<le> 16"
    by (rule few_digits [OF 1(6) _ 1(8), of "2 ^ s" "unat p2"]) (use 1(3,4,7) in auto)
  show ?case
  proof (cases "?r \<le> delta * 10")
    case True
    have "unat (delta * 10) < digit_value (last ?buf) * unat (push_bit s 1 :: u64) + unat ?r"
      using w(3,4,5,7) 1(4) div_mult_mod_eq [of ?p "2 ^ s"] by simp
    then obtain b j where b: "grisu2_round ?buf (dst * 10) (delta * 10) ?r (push_bit s 1) = Inr b" "numeral_text b"
        "length b = length ?buf" "digits_value ?buf = digits_value b + j"
        "unat ?r + j * unat (push_bit s 1 :: u64) \<le> unat (delta * 10)"
      using round_digits [OF w(6) True _ num] w(7) by (metis word_gt_0 unat_0 power_not_zero zero_neq_numeral)
    have "in_interval s (X * 10 ^ 1) (unat delta * 10 ^ 1) b (int 0)"
      by (rule in_interval_nat [of b "X * 10 ^ 1" j 0 s "unat ?r" "unat delta * 10 ^ 1"])
        (use b len X w(5,7) in simp_all)
    then have "in_interval s X (unat delta) b (int 0 - int 1)" by (rule in_interval_scale)
    moreover have "digit_gen_fraction s p2 delta dst dexp buf = Inr (b, dexp + (int 0 - int 1))"
      using w(8) d9 True b(1) buf by (subst digit_gen_fraction.simps) (simp add: Let_def)
    ultimately show ?thesis by blast
  next
    case False
    have "\<exists>buf' k. digit_gen_fraction s ?r (delta * 10) (dst * 10) (dexp - 1) (buf @ [chr (48 + uint ?d)])
        = Inr (buf', dexp - 1 + k) \<and> in_interval s (X * 10) (unat (delta * 10)) buf' k"
    proof (rule 1(1) [OF w(8) refl refl refl refl refl d9 refl False 1(2)])
      show "unat ?r < 2 ^ s" using w(4) by simp
      show "unat (delta * 10) < unat ?r" using False by (simp add: word_le_nat_alt)
      show "X * 10 < 10 ^ 16 * unat (delta * 10)" using 1(8) w(5) by simp
    qed (use w(6) num buf X in simp_all)
    then obtain buf' k where r: "digit_gen_fraction s ?r (delta * 10) (dst * 10) (dexp - 1) (buf @ [chr (48 + uint ?d)])
        = Inr (buf', dexp - 1 + k)" "in_interval s (X * 10) (unat (delta * 10)) buf' k"
      by blast
    have "in_interval s X (unat delta) buf' (k - int 1)"
      by (rule in_interval_scale) (use r(2) w(5) in simp)
    moreover have "digit_gen_fraction s p2 delta dst dexp buf = Inr (buf', dexp - 1 + k)"
      using w(8) d9 False r(1) by (subst digit_gen_fraction.simps) (simp only: Let_def json_assert_True if_False)
    moreover have "dexp - 1 + k = dexp + (k - int 1)" by simp
    ultimately show ?thesis by metis
  qed
qed

lemma len64: "LENGTH(64) = 64"
  by simp

text \<open>The same for the integer part, of which \<open>n\<close> digits remain.\<close>

lemma push_bit_words:
  assumes "unat (x::u32) * 2 ^ s < 2 ^ 64"
  shows "unat (push_bit s (ucast x) :: u64) = unat x * 2 ^ s"
proof -
  have "unat x < 2 ^ LENGTH(32)" by (rule unsigned_less)
  then have "unat (ucast x :: u64) = unat x" by (simp add: unsigned_ucast_eq take_bit_nat_eq_self)
  then show ?thesis
    unfolding unsigned_push_bit_eq using assms by (simp add: take_bit_nat_eq_self push_bit_eq_mult)
qed

lemma integer_digits:
  "s \<le> 60 \<Longrightarrow> unat p2 < 2 ^ s \<Longrightarrow> dst \<le> delta \<Longrightarrow> unat p1 < 10 ^ n \<Longrightarrow>
     (0 < n \<longrightarrow> unat pow10 = 10 ^ (n - 1)) \<Longrightarrow> unat delta < unat p1 * 2 ^ s + unat p2 \<Longrightarrow>
     numeral_text buf \<or> buf = [] \<and> 0 < n \<and> 10 ^ (n - 1) \<le> unat p1 \<Longrightarrow>
     X = digits_value buf * 10 ^ n * 2 ^ s + unat p1 * 2 ^ s + unat p2 \<Longrightarrow> X < 2 ^ 64 \<Longrightarrow>
     X < 10 ^ 16 * unat delta \<Longrightarrow>
   \<exists>buf' k. digit_gen_integer n s p1 p2 pow10 delta dst dexp buf = Inr (buf', dexp + k)
     \<and> in_interval s X (unat delta) buf' k"
proof (induction n s p1 p2 pow10 delta dst dexp buf rule: digit_gen_integer.induct)
  case (1 s p1 p2 pow10 delta dst dexp buf)
  then have "unat p1 = 0" by simp
  then have "unat delta < unat p2" using 1 by simp
  then show ?case
    using fraction_digits [of s p2 delta dst buf X dexp] 1 \<open>unat p1 = 0\<close> by (simp add: word_less_nat_alt)
next
  case (2 n s p1 p2 pow10 delta dst dexp buf)
  let ?d = "p1 div pow10" and ?r = "p1 mod pow10" and ?v = "digits_value buf"
  have pow: "unat pow10 = 10 ^ n" using 2(6) by simp
  have d: "unat ?d = unat p1 div 10 ^ n" "unat ?r = unat p1 mod 10 ^ n"
    by (simp_all add: unat_div unat_mod pow)
  have d10: "unat ?d < 10" using 2(5) d(1) by (simp add: less_mult_imp_div_less)
  then have d9: "?d \<le> 9" by (simp add: word_le_nat_alt)
  let ?buf = "buf @ [digit_char (unat ?d)]"
  have buf: "buf @ [chr (48 + uint ?d)] = ?buf" using chr_uint_digit [OF d10] by simp
  have num: "numeral_text ?buf"
    by (rule numeral_text_snoc [OF d10]) (use 2(8) d(1) in \<open>auto simp: div_greater_zero_iff\<close>)
  have split: "unat p1 = unat ?d * 10 ^ n + unat ?r" using d by (simp add: div_mult_mod_eq)
  have X: "X = digits_value ?buf * 10 ^ n * 2 ^ s + (unat ?r * 2 ^ s + unat p2)"
    unfolding 2(9) using d10 by (simp add: digits_value_snoc split algebra_simps)
  have v: "1 \<le> digits_value ?buf" using numeral_text_value [OF num] by (metis le_trans one_le_power one_le_numeral)
  then have "10 ^ n * 2 ^ s \<le> digits_value ?buf * (10 ^ n * 2 ^ s)" by simp
  then have u: "10 ^ n * 2 ^ s \<le> X - (unat ?r * 2 ^ s + unat p2)" using X by (simp add: algebra_simps)
  have rest: "unat ?r * 2 ^ s + unat p2 < 10 ^ n * 2 ^ s"
  proof -
    have "unat ?r + 1 \<le> 10 ^ n" using d(2) by (simp add: Suc_le_eq)
    then have "(unat ?r + 1) * 2 ^ s \<le> 10 ^ n * 2 ^ s" by (rule mult_le_mono1)
    then show ?thesis using 2(3) by simp
  qed
  have w: "unat (push_bit s (ucast ?r) :: u64) = unat ?r * 2 ^ s"
      "unat (push_bit s (ucast pow10) :: u64) = 10 ^ n * 2 ^ s"
    using push_bit_words [of ?r s] push_bit_words [of pow10 s] u rest 2(10) pow by auto
  have rw: "unat (push_bit s (ucast ?r) + p2) = unat ?r * 2 ^ s + unat p2"
  proof -
    have "unat ?r * 2 ^ s + unat p2 < 2 ^ 64" using rest u 2(10) by linarith
    then show ?thesis
      using unat_add_lem [of "push_bit s (ucast ?r)" p2] by (simp only: w(1) len64)
  qed
  show ?case
  proof (cases "push_bit s (ucast ?r) + p2 \<le> delta")
    case True
    have "unat ?d * (10 ^ n * 2 ^ s) + unat (push_bit s (ucast ?r) + p2) = unat p1 * 2 ^ s + unat p2"
      unfolding rw by (simp add: split algebra_simps)
    then have "unat delta < digit_value (last ?buf) * unat (push_bit s (ucast pow10) :: u64)
        + unat (push_bit s (ucast ?r) + p2)"
      using 2(7) d10 w(2) by simp
    moreover have "0 < (push_bit s (ucast pow10) :: u64)"
      using w(2) by (metis word_gt_0 unat_0 mult_eq_0_iff power_not_zero zero_neq_numeral)
    ultimately obtain b j where b: "grisu2_round ?buf dst delta (push_bit s (ucast ?r) + p2) (push_bit s (ucast pow10)) = Inr b"
        "numeral_text b" "length b = length ?buf" "digits_value ?buf = digits_value b + j"
        "unat (push_bit s (ucast ?r) + p2) + j * unat (push_bit s (ucast pow10) :: u64) \<le> unat delta"
      using round_digits [OF 2(4) True _ num] by metis
    have "length buf \<le> 16"
    proof (cases "buf = []")
      case False
      then have n: "numeral_text buf" using 2(8) by simp
      have "unat p1 * 2 ^ s + unat p2 < 10 ^ Suc n * 2 ^ s"
      proof -
        have "(unat p1 + 1) * 2 ^ s \<le> 10 ^ Suc n * 2 ^ s" by (rule mult_le_mono1) (use 2(5) in simp)
        then show ?thesis using 2(3) by simp
      qed
      then have "unat delta < 10 ^ Suc n * 2 ^ s" using 2(7) by linarith
      moreover have "?v * (10 ^ Suc n * 2 ^ s) + 0 \<le> X" using 2(9) by (simp add: algebra_simps)
      ultimately show ?thesis by (intro few_digits [OF n _ 2(11)])
    qed simp
    then have "in_interval s X (unat delta) b (int n)"
      by (intro in_interval_nat [of b X j n s "unat ?r * 2 ^ s + unat p2"]) (use b X w(2) rw in simp_all)
    moreover have "digit_gen_integer (Suc n) s p1 p2 pow10 delta dst dexp buf = Inr (b, dexp + int n)"
      using d9 True b(1) buf by (simp only: digit_gen_integer.simps Let_def json_assert_True if_True rbind_Inr prod.case)
    ultimately show ?thesis by blast
  next
    case False
    have "\<exists>buf' k. digit_gen_integer n s ?r p2 (pow10 div 10) delta dst dexp (buf @ [chr (48 + uint ?d)])
        = Inr (buf', dexp + k) \<and> in_interval s X (unat delta) buf' k"
    proof (rule 2(1) [OF refl refl d9 refl refl False 2(2,3,4)])
      show "unat ?r < 10 ^ n" using d(2) by simp
      show "0 < n \<longrightarrow> unat (pow10 div 10) = 10 ^ (n - 1)"
        by (cases n) (simp_all add: unat_div pow)
      show "unat delta < unat ?r * 2 ^ s + unat p2" using False rw by (simp add: word_le_nat_alt)
      show "X = digits_value (buf @ [chr (48 + uint ?d)]) * 10 ^ n * 2 ^ s + unat ?r * 2 ^ s + unat p2"
        unfolding buf using X by simp
    qed (use num buf 2(10,11) in simp_all)
    then show ?thesis
      using d9 False by (simp only: digit_gen_integer.simps Let_def json_assert_True if_False)
  qed
qed

lemma find_largest_pow10:
  assumes "0 < n" "find_largest_pow10 n = (k, pow10)"
  shows "0 < k \<and> unat pow10 = 10 ^ (k - 1) \<and> 10 ^ (k - 1) \<le> unat n \<and> unat n < 10 ^ k"
proof -
  have "unat n < 2 ^ LENGTH(32)" by (rule unsigned_less)
  then show ?thesis
    using assms by (auto simp: find_largest_pow10_def word_le_nat_alt word_less_nat_alt split: if_splits)
qed

text \<open>
  The digits that \<open>grisu2_digit_gen\<close> produces are a number between the bounds. What it needs:
  an upper bound of more than 60 bits, and an interval that is not too small.
\<close>

lemma digit_gen:
  assumes e: "kAlpha \<le> fp_e Mp" "fp_e Mp \<le> kGamma" "fp_e Mm = fp_e Mp" "fp_e w = fp_e Mp"
    and f: "fp_f Mm \<le> fp_f w" "fp_f w \<le> fp_f Mp" "fp_f Mm \<noteq> 0"
    and big: "2 ^ 60 \<le> unat (fp_f Mp)"
    and wide: "unat (fp_f Mp) < 10 ^ 16 * (unat (fp_f Mp) - unat (fp_f Mm))"
  shows "\<exists>buf k. grisu2_digit_gen dexp Mm w Mp = Inr (buf, dexp + k)
    \<and> in_interval (nat (- fp_e Mp)) (unat (fp_f Mp)) (unat (fp_f Mp) - unat (fp_f Mm)) buf k"
proof -
  let ?s = "nat (- fp_e Mp)" and ?X = "fp_f Mp"
  let ?p1 = "ucast (drop_bit ?s ?X) :: u32" and ?p2 = "?X AND (push_bit ?s 1 - 1)"
  have s: "32 \<le> ?s" "?s \<le> 60" using e(1,2) by (simp_all add: kAlpha_def kGamma_def)
  have X64: "unat ?X < 2 ^ LENGTH(64)" by (rule unsigned_less)
  have "unat (drop_bit ?s ?X) = unat ?X div 2 ^ ?s" by (simp only: unat_drop_bit_eq drop_bit_eq_div [where 'a = nat])
  moreover have "unat ?X div 2 ^ ?s < 2 ^ 32"
  proof -
    have "(2::nat) ^ 32 \<le> 2 ^ ?s" using s(1) by (rule power_increasing) simp
    then have "(2::nat) ^ 32 * 2 ^ 32 \<le> 2 ^ 32 * 2 ^ ?s" by simp
    then show ?thesis using X64 by (simp add: less_mult_imp_div_less)
  qed
  ultimately have p1: "unat ?p1 = unat ?X div 2 ^ ?s" by (simp add: unsigned_ucast_eq take_bit_nat_eq_self)
  have "push_bit ?s (1::u64) - 1 = mask ?s" by (simp add: mask_eq_exp_minus_1 push_bit_eq_mult)
  then have "unat ?p2 = unat (take_bit ?s ?X)" by (simp add: take_bit_eq_mask)
  also have "\<dots> = unat ?X mod 2 ^ ?s" by (simp only: unsigned_take_bit_eq take_bit_eq_mod [where 'a = nat])
  finally have p2: "unat ?p2 = unat ?X mod 2 ^ ?s" .
  have sum: "unat ?p1 * 2 ^ ?s + unat ?p2 = unat ?X" unfolding p1 p2 by (rule div_mult_mod_eq)
  have "(2::nat) ^ ?s \<le> 2 ^ 60" using s(2) by (rule power_increasing) simp
  then have "2 ^ ?s \<le> unat ?X" using big by (rule le_trans)
  then have "0 < unat ?p1" unfolding p1 by (simp add: div_greater_zero_iff)
  then have pos: "0 < ?p1" by (simp add: word_less_nat_alt)
  obtain k pow10 where k: "find_largest_pow10 ?p1 = (k, pow10)" by (cases "find_largest_pow10 ?p1")
  note pow = find_largest_pow10 [OF pos k]
  let ?delta = "?X - fp_f Mm" and ?dst = "?X - fp_f w"
  have le: "fp_f Mm \<le> ?X" using f by (simp add: word_le_nat_alt)
  have delta: "unat ?delta = unat ?X - unat (fp_f Mm)" by (rule unat_sub [OF le])
  have dst: "?dst \<le> ?delta" using f(1,2) le by (simp add: word_le_nat_alt unat_sub)
  have "0 < unat (fp_f Mm)" using f(3) by (simp add: unat_gt_0)
  then have "unat ?delta < unat ?p1 * 2 ^ ?s + unat ?p2" using le unfolding sum delta
    by (simp add: word_le_nat_alt)
  then have "\<exists>buf j. digit_gen_integer k ?s ?p1 ?p2 pow10 ?delta ?dst dexp [] = Inr (buf, dexp + j)
      \<and> in_interval ?s (unat ?X) (unat ?delta) buf j"
  proof (intro integer_digits [OF s(2) _ dst])
    show "unat ?p2 < 2 ^ ?s" unfolding p2 by simp
    show "unat ?X = digits_value [] * 10 ^ k * 2 ^ ?s + unat ?p1 * 2 ^ ?s + unat ?p2" by (simp only: digits_value_Nil mult_zero_left add_0 sum)
    show "unat ?X < 2 ^ 64" using X64 by simp
    show "unat ?X < 10 ^ 16 * unat ?delta" using wide unfolding delta .
  qed (use pow in blast)+
  then obtain buf j where r: "digit_gen_integer k ?s ?p1 ?p2 pow10 ?delta ?dst dexp [] = Inr (buf, dexp + j)"
      "in_interval ?s (unat ?X) (unat ?delta) buf j" by blast
  have "grisu2_digit_gen dexp Mm w Mp = Inr (buf, dexp + j)"
    unfolding grisu2_digit_gen_def diyfp_sub_def Let_def using e le f(2) pos k r(1) by simp
  then show ?thesis using r(2) unfolding delta by blast
qed

end
