(* ===== verification/GrisuBounds.thy ===== *)
theory GrisuBounds
  imports GrisuDigits
begin

unbundle bit_operations_syntax

text \<open>
  The precision of Grisu2: its products are rounded to the nearest, the cached powers are accurate to
  half a unit and the one chosen is in range, the boundaries of a double are exact. Together: the
  decimal that \<open>grisu2\<close> finds for a positive finite double lies strictly between the points
  half-way to its neighbours.
\<close>

section \<open>The product is rounded to the nearest\<close>

lemma unat_u64: "unat (x::u64) < 2 ^ 64"
proof -
  have "unat x < 2 ^ LENGTH(64)" by (rule unsigned_less)
  then show ?thesis by simp
qed

lemma word_halves:
  fixes x :: u64
  shows "unat (x AND 0xFFFFFFFF) = unat x mod 2 ^ 32" "unat (drop_bit 32 x) = unat x div 2 ^ 32"
    "unat x div 2 ^ 32 < 2 ^ 32" "unat x mod 2 ^ 32 < 2 ^ 32"
proof -
  have "x AND 0xFFFFFFFF = take_bit 32 x" by (simp add: take_bit_eq_mask mask_eq_exp_minus_1)
  then show "unat (x AND 0xFFFFFFFF) = unat x mod 2 ^ 32"
    by (simp only: unsigned_take_bit_eq take_bit_eq_mod [where 'a = nat])
  show "unat (drop_bit 32 x) = unat x div 2 ^ 32" by (simp only: unat_drop_bit_eq drop_bit_eq_div [where 'a = nat])
  have "unat x < 2 ^ LENGTH(64)" by (rule unsigned_less)
  then show "unat x div 2 ^ 32 < 2 ^ 32" by (simp add: less_mult_imp_div_less)
  show "unat x mod 2 ^ 32 < 2 ^ 32" by simp
qed

lemma unat_mult_halves:
  fixes x y :: u64
  assumes "unat x < 2 ^ 32" "unat y < 2 ^ 32"
  shows "unat (x * y) = unat x * unat y" "unat x * unat y \<le> (2 ^ 32 - 1) * (2 ^ 32 - 1)"
proof -
  show le: "unat x * unat y \<le> (2 ^ 32 - 1) * (2 ^ 32 - 1)" by (rule mult_le_mono) (use assms in simp_all)
  then show "unat (x * y) = unat x * unat y" using unat_mult_lem [of x y] by simp
qed

text \<open>The schoolbook product in halves, over the natural numbers.\<close>

lemma product_halves:
  fixes a b c d :: nat
  defines "B \<equiv> 2 ^ 32"
  shows "((a * B + b) * (c * B + d) + 2 ^ 63) div 2 ^ 64
    = a * c + a * d div B + b * c div B + (b * d div B + b * c mod B + a * d mod B + 2 ^ 31) div B"
proof -
  have BB: "(2::nat) ^ 64 = B * B" "(2::nat) ^ 63 = 2 ^ 31 * B" by (simp_all add: B_def)
  let ?q = "b * d div B + b * c mod B + a * d mod B + 2 ^ 31"
  have m: "x div B * B + x mod B = x" for x :: nat by (rule div_mult_mod_eq)
  have eq: "(a * B + b) * (c * B + d) = a * c * (B * B) + (a * d) * B + (b * c) * B + b * d"
    by (simp add: algebra_simps)
  have "a * d * B = a * d div B * (B * B) + a * d mod B * B" using m [of "a * d"]
    by (metis add_mult_distrib mult.assoc)
  moreover have "b * c * B = b * c div B * (B * B) + b * c mod B * B" using m [of "b * c"]
    by (metis add_mult_distrib mult.assoc)
  moreover have "b * d = b * d div B * B + b * d mod B" using m [of "b * d"] by simp
  ultimately have "(a * B + b) * (c * B + d) + 2 ^ 63
      = (a * c + a * d div B + b * c div B) * (B * B) + (?q * B + b * d mod B)"
    unfolding eq BB(2) by (simp only: add_mult_distrib add.assoc add.commute add.left_commute)
  moreover have "(x * (B * B) + y) div (B * B) = x + y div (B * B)" for x y by (simp add: B_def)
  ultimately have "((a * B + b) * (c * B + d) + 2 ^ 63) div (B * B)
      = a * c + a * d div B + b * c div B + (?q * B + b * d mod B) div (B * B)" by simp
  also have "(?q * B + b * d mod B) div (B * B) = ?q div B"
  proof -
    have "(?q * B + b * d mod B) div B = ?q" by (simp add: B_def)
    then show ?thesis by (simp only: div_mult2_eq)
  qed
  finally show ?thesis by (simp only: BB(1))
qed

lemma diyfp_mul_exponent [simp]: "fp_e (diyfp_mul x y) = fp_e x + fp_e y + 64"
  by (simp add: diyfp_mul_def Let_def)

lemma diyfp_mul_round: "unat (fp_f (diyfp_mul x y)) = (unat (fp_f x) * unat (fp_f y) + 2 ^ 63) div 2 ^ 64"
proof -
  let ?B = "2 ^ 32 :: nat"
  define a b c d where abcd: "a = unat (fp_f x) div ?B" "b = unat (fp_f x) mod ?B"
    "c = unat (fp_f y) div ?B" "d = unat (fp_f y) mod ?B"
  have lt: "a < ?B" "b < ?B" "c < ?B" "d < ?B" unfolding abcd using word_halves(3,4) by blast+
  let ?ul = "fp_f x AND 0xFFFFFFFF" and ?uh = "drop_bit 32 (fp_f x)"
  let ?vl = "fp_f y AND 0xFFFFFFFF" and ?vh = "drop_bit 32 (fp_f y)"
  have h: "unat ?ul = b" "unat ?uh = a" "unat ?vl = d" "unat ?vh = c"
    unfolding abcd word_halves by simp_all
  have p: "unat (?ul * ?vl) = b * d" "unat (?ul * ?vh) = b * c" "unat (?uh * ?vl) = a * d" "unat (?uh * ?vh) = a * c"
    using unat_mult_halves(1) lt h by (metis (no_types))+
  have bd: "b * d div ?B < ?B" "b * c div ?B < ?B" "a * d div ?B < ?B"
    using lt by (auto intro!: less_mult_imp_div_less mult_strict_mono)
  let ?Q = "drop_bit 32 (?ul * ?vl) + (?ul * ?vh AND 0xFFFFFFFF) + (?uh * ?vl AND 0xFFFFFFFF) + push_bit (64 - 32 - 1) 1"
  let ?q = "b * d div ?B + b * c mod ?B + a * d mod ?B + 2 ^ 31"
  have sum: "unat (u + v) = unat u + unat v" if "unat u + unat v < 2 ^ 64" for u v :: u64
    using that unat_add_lem [of u v] by simp
  have t: "b * c mod ?B < ?B" "a * d mod ?B < ?B" by simp_all
  have Q: "unat ?Q = ?q"
  proof -
    have 1: "unat (drop_bit 32 (?ul * ?vl) + (?ul * ?vh AND 0xFFFFFFFF)) = b * d div ?B + b * c mod ?B"
      using bd(1) t(1) by (subst sum) (simp_all add: word_halves p)
    have 2: "unat (drop_bit 32 (?ul * ?vl) + (?ul * ?vh AND 0xFFFFFFFF) + (?uh * ?vl AND 0xFFFFFFFF))
        = b * d div ?B + b * c mod ?B + a * d mod ?B"
      using bd(1) t by (subst sum) (simp_all add: 1 word_halves p)
    show ?thesis using bd(1) t by (subst sum) (simp_all add: 2)
  qed
  have fx: "unat (fp_f x) = a * ?B + b" "unat (fp_f y) = c * ?B + d" by (simp_all add: abcd div_mult_mod_eq)
  let ?r = "a * c + a * d div ?B + b * c div ?B + ?q div ?B"
  have r: "(unat (fp_f x) * unat (fp_f y) + 2 ^ 63) div 2 ^ 64 = ?r" unfolding fx by (rule product_halves)
  have small: "?r < 2 ^ 64"
  proof -
    have "unat (fp_f x) \<le> 2 ^ 64 - 1" "unat (fp_f y) \<le> 2 ^ 64 - 1"
      using unat_u64 [of "fp_f x"] unat_u64 [of "fp_f y"] by simp_all
    then have "unat (fp_f x) * unat (fp_f y) \<le> (2 ^ 64 - 1) * (2 ^ 64 - 1)" by (rule mult_le_mono)
    then show ?thesis unfolding r [symmetric] by (simp add: less_mult_imp_div_less)
  qed
  have "unat (?uh * ?vh + drop_bit 32 (?uh * ?vl)) = a * c + a * d div ?B"
    using small by (subst sum) (simp_all add: word_halves p)
  then have "unat (?uh * ?vh + drop_bit 32 (?uh * ?vl) + drop_bit 32 (?ul * ?vh)) = a * c + a * d div ?B + b * c div ?B"
    using small by (subst sum) (simp_all add: word_halves p)
  then have "unat (?uh * ?vh + drop_bit 32 (?uh * ?vl) + drop_bit 32 (?ul * ?vh) + drop_bit 32 ?Q) = ?r"
    using small by (subst sum) (simp_all only: word_halves Q)
  then show ?thesis unfolding r by (simp add: diyfp_mul_def Let_def)
qed

section \<open>The cached powers\<close>

text \<open>Each row is a 64-bit significand and its value is the power of ten to half a unit.\<close>

definition row_accurate :: "u64 \<times> int \<times> int \<Rightarrow> bool" where
  "row_accurate r = (case r of (f, e, k) \<Rightarrow> 2 ^ 63 \<le> unat f
     \<and> \<bar>2 * uint f * 2 ^ nat e * 10 ^ nat (- k) - 2 * 10 ^ nat k * 2 ^ nat (- e)\<bar> \<le> 2 ^ nat e * 10 ^ nat (- k))"

text \<open>The rows are checked upwards and downwards from the middle, with the power of ten carried along.\<close>

fun rows_up :: "nat \<Rightarrow> int \<Rightarrow> (u64 \<times> int \<times> int) list \<Rightarrow> bool" where
  "rows_up k p [] \<longleftrightarrow> True"
| "rows_up k p ((f, e, k') # rs) \<longleftrightarrow> k' = int k \<and> 2 ^ 63 \<le> uint f
     \<and> \<bar>2 * uint f * 2 ^ nat e - 2 * p * 2 ^ nat (- e)\<bar> \<le> 2 ^ nat e \<and> rows_up (k + 8) (p * 100000000) rs"

fun rows_down :: "nat \<Rightarrow> int \<Rightarrow> (u64 \<times> int \<times> int) list \<Rightarrow> bool" where
  "rows_down k p [] \<longleftrightarrow> True"
| "rows_down k p ((f, e, k') # rs) \<longleftrightarrow> k' = - int k \<and> e < 0 \<and> 2 ^ 63 \<le> uint f
     \<and> \<bar>2 * uint f * p - 2 * 2 ^ nat (- e)\<bar> \<le> p \<and> rows_down (k + 8) (p * 100000000) rs"

lemma uint_large: "2 ^ 63 \<le> uint f \<Longrightarrow> 2 ^ 63 \<le> unat f" for f :: u64
  using nat_mono [of "2 ^ 63" "uint f"] by simp

lemma rows_up: "rows_up k p rs \<Longrightarrow> p = 10 ^ k \<Longrightarrow> list_all row_accurate rs"
proof (induction k p rs rule: rows_up.induct)
  case (2 k p f e k' rs)
  have "p * 100000000 = 10 ^ (k + 8)" using 2(3) by (simp add: power_add)
  then show ?case using 2 uint_large by (simp add: row_accurate_def)
qed simp

lemma rows_down: "rows_down k p rs \<Longrightarrow> p = 10 ^ k \<Longrightarrow> list_all row_accurate rs"
proof (induction k p rs rule: rows_down.induct)
  case (2 k p f e k' rs)
  have "p * 100000000 = 10 ^ (k + 8)" using 2(3) by (simp add: power_add)
  then show ?case using 2 uint_large by (simp add: row_accurate_def)
qed simp

text \<open>The table in parts of which each is checked in a few seconds.\<close>

lemma rows_1: "rows_down 252 (10 ^ 252) (rev (take 7 kCachedPowers))"
  unfolding kCachedPowers_def by simp

lemma rows_2: "rows_down 188 (10 ^ 188) (rev (drop 7 (take 15 kCachedPowers)))"
  unfolding kCachedPowers_def by simp

lemma rows_3: "rows_down 108 (10 ^ 108) (rev (drop 15 (take 25 kCachedPowers)))"
  unfolding kCachedPowers_def by simp

lemma rows_4: "rows_down 4 (10 ^ 4) (rev (drop 25 (take 38 kCachedPowers)))"
  unfolding kCachedPowers_def by simp

lemma rows_5: "rows_up 4 (10 ^ 4) (drop 38 (take 62 kCachedPowers))"
  unfolding kCachedPowers_def by simp

lemma rows_6: "rows_up 196 (10 ^ 196) (drop 62 kCachedPowers)"
  unfolding kCachedPowers_def by simp

lemma rows_accurate: "list_all row_accurate kCachedPowers"
proof -
  let ?K = kCachedPowers
  have app: "list_all P (take a xs) \<Longrightarrow> list_all P (drop a (take b xs)) \<Longrightarrow> a \<le> b \<Longrightarrow> list_all P (take b xs)" for P a b and xs :: "'a list"
    by (metis append_take_drop_id list_all_append min.absorb1 take_take)
  have 1: "list_all row_accurate (take 7 ?K)" "list_all row_accurate (drop 7 (take 15 ?K))"
    "list_all row_accurate (drop 15 (take 25 ?K))" "list_all row_accurate (drop 25 (take 38 ?K))"
    using rows_down [OF rows_1 refl] rows_down [OF rows_2 refl] rows_down [OF rows_3 refl] rows_down [OF rows_4 refl]
    by (simp_all only: list_all_rev)
  note 2 = rows_up [OF rows_5 refl] rows_up [OF rows_6 refl]
  have "list_all row_accurate (take 62 ?K)"
    by (rule app [OF app [OF app [OF app [OF 1(1,2)] 1(3)] 1(4)] 2(1)]) simp_all
  then have "list_all row_accurate (take 62 ?K @ drop 62 ?K)" using 2(2) by (simp only: list_all_append)
  then show ?thesis by (simp only: append_take_drop_id)
qed

text \<open>The choice of the row: the index falls with the exponent, so two values of it fix each row.\<close>

lemma cdiv_mono: "0 < b \<Longrightarrow> x \<le> y \<Longrightarrow> cdiv x b \<le> cdiv y b"
proof -
  assume b: "0 < b" and xy: "x \<le> y"
  have "\<bar>y\<bar> div b \<le> \<bar>x\<bar> div b" if "y < 0"
    by (rule zdiv_mono1) (use that xy b in auto)
  moreover have "\<bar>x\<bar> div b \<le> \<bar>y\<bar> div b" if "0 \<le> x"
    by (rule zdiv_mono1) (use that xy b in auto)
  moreover have "0 \<le> \<bar>x\<bar> div b" "0 \<le> \<bar>y\<bar> div b" using b by (simp_all add: pos_imp_zdiv_nonneg_iff)
  ultimately show ?thesis using b xy by (auto simp: cdiv_def)
qed

lemma cached_power_index_anti: "e \<le> e' \<Longrightarrow> cached_power_index e' \<le> cached_power_index e"
proof -
  assume "e \<le> e'"
  then have "cdiv ((kAlpha - e' - 1) * 78913) (2 ^ 18) \<le> cdiv ((kAlpha - e - 1) * 78913) (2 ^ 18)"
    by (intro cdiv_mono) simp_all
  then show ?thesis
    using \<open>e \<le> e'\<close> unfolding cached_power_index_def Let_def by (intro cdiv_mono) auto
qed

definition row_in_place :: "nat \<times> u64 \<times> int \<times> int \<Rightarrow> bool" where
  "row_in_place r = (case r of (i, _, ce, _) \<Rightarrow>
     int i < cached_power_index (kAlpha - 64 - ce - 1) \<and> (kGamma - 64 - ce < 960 \<longrightarrow> cached_power_index (kGamma - 64 - ce + 1) < int i))"

lemma rows_in_place: "list_all row_in_place (enumerate 0 kCachedPowers)"
  unfolding kCachedPowers_def
  by (simp add: row_in_place_def cached_power_index_def kAlpha_def kGamma_def cdiv_def Let_def)

lemma cached_power:
  assumes "- 1137 \<le> e" "e \<le> 960"
  obtains f ce k where "get_cached_power_for_binary_exponent e = Inr (f, ce, k)"
    "row_accurate (f, ce, k)" "kAlpha \<le> ce + e + 64" "ce + e + 64 \<le> kGamma"
proof -
  define i where "i = nat (cached_power_index e)"
  have "cached_power_index 960 \<le> cached_power_index e" "cached_power_index e \<le> cached_power_index (- 1137)"
    using assms by (simp_all add: cached_power_index_anti)
  moreover have "cached_power_index 960 = 0" "cached_power_index (- 1137) = 78"
    by (simp_all add: cached_power_index_def Let_def kAlpha_def cdiv_def)
  ultimately have i: "cached_power_index e = int i" "i < 79" by (auto simp: i_def)
  obtain f ce k where row: "kCachedPowers ! i = (f, ce, k)" using prod_cases3 by blast
  have len: "length kCachedPowers = 79" by (simp add: kCachedPowers_def)
  have "(i, kCachedPowers ! i) \<in> set (enumerate 0 kCachedPowers)" using i(2) len by (simp add: in_set_enumerate_eq)
  then have "row_in_place (i, f, ce, k)" using rows_in_place row by (simp add: list_all_iff)
  then have "int i < cached_power_index (kAlpha - 64 - ce - 1)" "kGamma - 64 - ce < 960 \<longrightarrow> cached_power_index (kGamma - 64 - ce + 1) < int i"
    by (simp_all add: row_in_place_def)
  then have "\<not> e \<le> kAlpha - 64 - ce - 1" "\<not> kGamma - 64 - ce + 1 \<le> e"
    using cached_power_index_anti [of e "kAlpha - 64 - ce - 1"]
      cached_power_index_anti [of "kGamma - 64 - ce + 1" e] i(1) assms(2) by linarith+
  then have r: "kAlpha \<le> ce + e + 64" "ce + e + 64 \<le> kGamma" by linarith+
  have "row_accurate (f, ce, k)" using rows_accurate i(2) len row by (metis list_all_length)
  moreover have "get_cached_power_for_binary_exponent e = Inr (f, ce, k)"
    using assms i row r len by (simp add: get_cached_power_for_binary_exponent_def Let_def)
  ultimately show ?thesis using r that by blast
qed

text \<open>The accuracy of a row as a statement about its value.\<close>

lemma powi_split: "(x::real) \<noteq> 0 \<Longrightarrow> x powi e = x ^ nat e / x ^ nat (- e)"
  by (cases "0 \<le> e") (simp_all add: power_int_def field_simps)

lemma abs_scaled: "0 \<le> y \<Longrightarrow> \<bar>2 * x * y\<bar> = 2 * \<bar>x\<bar> * y" for x y :: real
  by (simp add: abs_mult)

lemma row_value:
  assumes "row_accurate (f, e, k)"
  shows "\<bar>real (unat f) * 2 powi e - 10 powi k\<bar> \<le> 2 powi e / 2" "2 ^ 63 \<le> unat f"
proof -
  show "2 ^ 63 \<le> unat f" using assms by (simp add: row_accurate_def)
  let ?a = "2 ^ nat e :: real" and ?b = "2 ^ nat (- e) :: real" and ?c = "10 ^ nat k :: real" and ?d = "10 ^ nat (- k) :: real"
  have "real_of_int \<bar>2 * uint f * 2 ^ nat e * 10 ^ nat (- k) - 2 * 10 ^ nat k * 2 ^ nat (- e)\<bar>
      \<le> real_of_int (2 ^ nat e * 10 ^ nat (- k))"
    using assms by (simp only: row_accurate_def prod.case of_int_le_iff)
  then have "\<bar>2 * real (unat f) * ?a * ?d - 2 * ?c * ?b\<bar> \<le> ?a * ?d" by simp
  also have "2 * real (unat f) * ?a * ?d - 2 * ?c * ?b = 2 * (real (unat f) * (?a / ?b) - ?c / ?d) * (?b * ?d)"
    by (simp add: field_simps)
  also have "\<bar>\<dots>\<bar> = 2 * \<bar>real (unat f) * (?a / ?b) - ?c / ?d\<bar> * (?b * ?d)"
    by (rule abs_scaled) simp
  also have "?a * ?d = ?a / ?b * (?b * ?d)" by simp
  finally have "2 * \<bar>real (unat f) * (?a / ?b) - ?c / ?d\<bar> \<le> ?a / ?b" by (rule mult_right_le_imp_le) simp
  then show "\<bar>real (unat f) * 2 powi e - 10 powi k\<bar> \<le> 2 powi e / 2" by (simp add: powi_split)
qed

section \<open>The boundaries of a double\<close>

text \<open>The value of a double without its sign is \<open>dbl_mant x * 2 powi dbl_exp x\<close>.\<close>

definition dbl_mant :: "dbl \<Rightarrow> nat" where
  "dbl_mant x = (if dbl_exponent x = 0 then dbl_fraction x else dbl_fraction x + 2 ^ 52)"

definition dbl_exp :: "dbl \<Rightarrow> int" where
  "dbl_exp x = int (max 1 (dbl_exponent x)) - 1075"

definition lower_closer :: "dbl \<Rightarrow> bool" where
  "lower_closer x \<longleftrightarrow> dbl_fraction x = 0 \<and> 1 < dbl_exponent x"

lemma dbl_mant_less: "dbl_mant x < 2 ^ 53"
proof -
  have "dbl_fraction x < 2 ^ 52" by (simp add: dbl_fraction_def)
  then show ?thesis by (simp add: dbl_mant_def)
qed

lemma normalize_loop:
  "f \<noteq> 0 \<Longrightarrow> \<exists>n. fp_e (normalize_loop f e) = e - int n \<and> unat (fp_f (normalize_loop f e)) = unat f * 2 ^ n
     \<and> 2 ^ 63 \<le> unat f * 2 ^ n"
proof (induction f e rule: normalize_loop.induct)
  case (1 f e)
  show ?case
  proof (cases "drop_bit 63 f = 0")
    case True
    have u: "unat (push_bit 1 f) = 2 * unat f" by (rule unat_push_bit_1 [OF drop_bit_63_zero [OF True]])
    have "push_bit 1 f \<noteq> 0"
    proof
      assume "push_bit 1 f = 0"
      then have "2 * unat f = 0" using u by (simp only: unat_0)
      then show False using 1(2) by (simp add: unat_eq_zero)
    qed
    then obtain n where n: "fp_e (normalize_loop (push_bit 1 f) (e - 1)) = e - 1 - int n"
        "unat (fp_f (normalize_loop (push_bit 1 f) (e - 1))) = unat (push_bit 1 f) * 2 ^ n"
        "2 ^ 63 \<le> unat (push_bit 1 f) * 2 ^ n"
      using 1(1) 1(2) True by blast
    have "normalize_loop f e = normalize_loop (push_bit 1 f) (e - 1)"
      using 1(2) True by (subst normalize_loop.simps) simp
    then show ?thesis using n unfolding u by (intro exI [of _ "Suc n"]) simp
  next
    case False
    have "unat (drop_bit 63 f) = unat f div 2 ^ 63" by (simp only: unat_drop_bit_eq drop_bit_eq_div [where 'a = nat])
    then have "unat f div 2 ^ 63 \<noteq> 0" using False unat_eq_zero [of "drop_bit 63 f"] by metis
    then have "2 ^ 63 \<le> unat f" by (simp add: div_eq_0_iff)
    moreover have "normalize_loop f e = diyfp f e" using False by (subst normalize_loop.simps) simp
    ultimately show ?thesis by (intro exI [of _ 0]) simp
  qed
qed

lemma diyfp_normalize:
  assumes "unat f \<noteq> 0"
  obtains n r where "diyfp_normalize (diyfp f e) = Inr (diyfp r (e - int n))" "unat r = unat f * 2 ^ n" "2 ^ 63 \<le> unat r"
proof -
  have f: "f \<noteq> 0" using assms by (simp add: unat_eq_zero)
  obtain n where n: "fp_e (normalize_loop f e) = e - int n" "unat (fp_f (normalize_loop f e)) = unat f * 2 ^ n"
      "2 ^ 63 \<le> unat f * 2 ^ n"
    using normalize_loop [OF f] by blast
  then have "diyfp_normalize (diyfp f e) = Inr (diyfp (fp_f (normalize_loop f e)) (e - int n))"
    using f by (cases "normalize_loop f e") (simp add: diyfp_normalize_def)
  then show ?thesis using that n by metis
qed

lemma normal_unique:
  assumes "2 ^ 63 \<le> x * 2 ^ m" "x * 2 ^ m < 2 ^ 64" "2 ^ 63 \<le> x * 2 ^ n" "x * 2 ^ n < (2 ^ 64 :: nat)"
  shows "m = n"
proof (rule ccontr)
  have step: False if "i < j" "2 ^ 63 \<le> x * 2 ^ i" "x * 2 ^ j < 2 ^ 64" for i j
  proof -
    have "x * 2 ^ Suc i \<le> x * 2 ^ j" using that(1) by (intro mult_le_mono2 power_increasing) auto
    moreover have "x * 2 ^ Suc i = 2 * (x * 2 ^ i)" "(2::nat) ^ 64 = 2 * 2 ^ 63" by simp_all
    ultimately show False using that(2,3) by linarith
  qed
  assume "m \<noteq> n"
  then show False using step [of m n] step [of n m] assms by (auto simp: neq_iff)
qed

lemma diyfp_normalize_to:
  assumes "unat f * 2 ^ n < 2 ^ 64" "target = e - int n" "n < 64"
  shows "\<exists>r. diyfp_normalize_to (diyfp f e) target = Inr (diyfp r target) \<and> unat r = unat f * 2 ^ n"
proof -
  have u: "unat (push_bit n f) = unat f * 2 ^ n"
    unfolding unsigned_push_bit_eq using assms by (simp add: take_bit_nat_eq_self push_bit_eq_mult)
  then have "unat (drop_bit n (push_bit n f)) = unat f"
    by (simp only: unat_drop_bit_eq u drop_bit_eq_div [where 'a = nat]) simp
  then have "drop_bit n (push_bit n f) = f" by (rule word_unat_eq_iff [THEN iffD2])
  then show ?thesis using u assms by (intro exI [of _ "push_bit n f"]) (simp add: diyfp_normalize_to_def)
qed


text \<open>
  The three bounds in the unit of the upper one: \<open>f\<close> is the significand and \<open>2 ^ n\<close> half of the
  unit in the last place, so the bounds are half-way to the neighbours.
\<close>

definition half_gap :: "dbl \<Rightarrow> nat \<Rightarrow> nat" where
  "half_gap x n = (if lower_closer x then 2 ^ (n - 1) else 2 ^ n)"

lemma dbl_fields:
  assumes "\<not> dbl_sign x"
  shows "unat (drop_bit 52 x) = dbl_exponent x" "unat (x AND (push_bit 52 1 - 1)) = dbl_fraction x"
    "unat x = dbl_exponent x * 2 ^ 52 + dbl_fraction x"
proof -
  have "\<not> bit x 63" using assms by (simp add: dbl_sign_def)
  then have "\<not> bit x (63 + i)" for i by (cases i) (auto dest: bit_imp_le_length)
  then have "drop_bit 63 x = 0" by (intro bit_eqI) (simp add: bit_drop_bit_eq)
  then have x: "unat x < 2 ^ 63" by (rule drop_bit_63_zero)
  then have e: "unat x div 2 ^ 52 = dbl_exponent x" by (simp add: dbl_exponent_def less_mult_imp_div_less)
  show "unat (drop_bit 52 x) = dbl_exponent x"
    unfolding e [symmetric] by (simp only: unat_drop_bit_eq drop_bit_eq_div [where 'a = nat])
  have "push_bit 52 (1::u64) - 1 = mask 52" by (simp add: mask_eq_exp_minus_1 push_bit_eq_mult)
  then have "unat (x AND (push_bit 52 1 - 1)) = unat (take_bit 52 x)" by (simp add: take_bit_eq_mask)
  then show "unat (x AND (push_bit 52 1 - 1)) = dbl_fraction x"
    by (simp only: unsigned_take_bit_eq take_bit_eq_mod [where 'a = nat] dbl_fraction_def)
  show "unat x = dbl_exponent x * 2 ^ 52 + dbl_fraction x"
    unfolding e [symmetric] dbl_fraction_def by (rule div_mult_mod_eq [symmetric])
qed

lemma dbl_exponent_less: "dbl_exponent x < 2048"
  by (simp add: dbl_exponent_def)

lemma dbl_mant_pos:
  assumes "\<not> dbl_sign x" "x \<noteq> 0"
  shows "0 < dbl_mant x"
proof -
  have "unat x \<noteq> 0" using assms(2) by (simp add: unat_eq_zero)
  then show ?thesis using dbl_fields(3) [OF assms(1)] by (auto simp: dbl_mant_def)
qed

lemma compute_boundaries:
  assumes x: "\<not> dbl_sign x" "x \<noteq> 0" "dbl_isfinite x"
  obtains w m p n where
    "compute_boundaries x = Inr \<lparr>bd_w = diyfp w (dbl_exp x - 1 - int n), bd_minus = diyfp m (dbl_exp x - 1 - int n),
        bd_plus = diyfp p (dbl_exp x - 1 - int n)\<rparr>"
    "unat w = dbl_mant x * 2 * 2 ^ n" "unat p = dbl_mant x * 2 * 2 ^ n + 2 ^ n"
    "unat m = dbl_mant x * 2 * 2 ^ n - half_gap x n" "2 ^ 63 \<le> unat p" "10 \<le> n"
    "- 1137 \<le> dbl_exp x - 1 - int n" "dbl_exp x - 1 - int n \<le> 960"
proof -
  let ?M = "dbl_mant x" and ?q = "dbl_exp x"
  have M: "0 < ?M" "?M < 2 ^ 53" using dbl_mant_pos [OF x(1,2)] dbl_mant_less by auto
  note fields = dbl_fields(1,2) [OF x(1)]
  let ?E = "drop_bit 52 x" and ?F = "x AND (push_bit 52 1 - 1)"
  define v where "v = (if ?E = 0 then diyfp ?F (- 1074) else diyfp (?F + push_bit 52 1) (uint ?E - 1075))"
  have E0: "?E = 0 \<longleftrightarrow> dbl_exponent x = 0" using fields(1) by (metis unat_eq_zero)
  have F: "unat ?F < 2 ^ 52" unfolding fields by (simp add: dbl_fraction_def)
  have "unat (push_bit 52 1 :: u64) = 2 ^ 52" by simp
  then have "unat (?F + push_bit 52 1) = unat ?F + 2 ^ 52"
    using F unat_add_lem [of ?F "push_bit 52 1"] by simp
  moreover have "uint ?E = int (dbl_exponent x)" unfolding fields(1) [symmetric] by simp
  ultimately have v: "unat (fp_f v) = ?M" "fp_e v = ?q"
    using E0 fields(2) by (auto simp: v_def dbl_mant_def dbl_exp_def max_def)
  have two: "unat (2 * fp_f v + 1) = 2 * ?M + 1" "unat (2 * fp_f v - 1) = 2 * ?M - 1" "unat (4 * fp_f v - 1) = 4 * ?M - 1"
  proof -
    have a: "unat (2 * fp_f v) = 2 * ?M" "unat (4 * fp_f v) = 4 * ?M"
      using M(2) unat_mult_lem [of 2 "fp_f v"] unat_mult_lem [of 4 "fp_f v"] by (simp_all add: v(1))
    show "unat (2 * fp_f v + 1) = 2 * ?M + 1"
      using M(2) a(1) unat_add_lem [of "2 * fp_f v" 1] by simp
    show "unat (2 * fp_f v - 1) = 2 * ?M - 1" "unat (4 * fp_f v - 1) = 4 * ?M - 1"
      using M(1) a by (simp_all add: unat_sub word_le_nat_alt)
  qed
  have closer: "(?F = 0 \<and> 1 < ?E) = lower_closer x"
    unfolding lower_closer_def fields [symmetric] by (simp add: unat_eq_zero word_less_nat_alt)
  have cb: "compute_boundaries x = rbind (diyfp_normalize (diyfp (2 * fp_f v + 1) (?q - 1))) (\<lambda>w_plus.
      rbind (diyfp_normalize_to (if lower_closer x then diyfp (4 * fp_f v - 1) (?q - 2) else diyfp (2 * fp_f v - 1) (?q - 1))
        (fp_e w_plus)) (\<lambda>w_minus. rbind (diyfp_normalize v) (\<lambda>w. Inr \<lparr>bd_w = w, bd_minus = w_minus, bd_plus = w_plus\<rparr>)))"
    unfolding compute_boundaries_def Let_def closer [symmetric] v(2) [symmetric] v_def
    by (simp cong: if_cong)
  have "unat (2 * fp_f v + 1) \<noteq> 0" "unat (fp_f v) \<noteq> 0" using M two(1) v(1) by simp_all
  from diyfp_normalize [OF this(1), of "?q - 1"] diyfp_normalize [OF this(2), of ?q]
  obtain n p n' w where p: "diyfp_normalize (diyfp (2 * fp_f v + 1) (?q - 1)) = Inr (diyfp p (?q - 1 - int n))"
      "unat p = (2 * ?M + 1) * 2 ^ n" "2 ^ 63 \<le> unat p"
    and w: "diyfp_normalize (diyfp (fp_f v) ?q) = Inr (diyfp w (?q - int n'))" "unat w = ?M * 2 ^ n'" "2 ^ 63 \<le> unat w"
    unfolding two(1) v(1) by metis
  have p64: "(2 * ?M + 1) * 2 ^ n < 2 ^ 64" using unat_u64 [of p] p(2) by simp
  have n62: "n \<le> 62"
  proof (rule ccontr)
    assume "\<not> n \<le> 62"
    then have "(2::nat) ^ 63 \<le> 2 ^ n" by (intro power_increasing) auto
    then have "3 * 2 ^ 63 \<le> (2 * ?M + 1) * 2 ^ n" by (intro mult_le_mono) (use M(1) in auto)
    then show False using p64 by simp
  qed
  have n10: "10 \<le> n"
  proof (rule ccontr)
    assume "\<not> 10 \<le> n"
    then have "(2::nat) ^ n \<le> 2 ^ 9" by (intro power_increasing) auto
    moreover have "2 * ?M + 1 \<le> 2 ^ 54 - 1" using M(2) by simp
    ultimately have "(2 * ?M + 1) * 2 ^ n \<le> (2 ^ 54 - 1) * 2 ^ 9" by (intro mult_le_mono)
    then show False using p(2,3) by simp
  qed
  have n': "n' = Suc n"
  proof (rule normal_unique)
    show "2 ^ 63 \<le> ?M * 2 ^ n'" "?M * 2 ^ n' < 2 ^ 64" using w(2,3) unat_u64 [of w] by simp_all
    show "?M * 2 ^ Suc n < 2 ^ 64" using p64 by simp
    have eq63: "(2::nat) ^ 63 = 2 * 2 ^ (62 - n) * 2 ^ n" using n62 by (simp flip: power_Suc power_add)
    have "2 * 2 ^ (62 - n) * 2 ^ n \<le> (2 * ?M + 1) * 2 ^ n" using p(3) unfolding p(2) eq63 .
    then have "2 * 2 ^ (62 - n) \<le> 2 * ?M + 1" by (rule mult_right_le_imp_le) simp
    then have "2 ^ (62 - n) \<le> ?M" by linarith
    then have "2 ^ (62 - n) * 2 ^ Suc n \<le> ?M * 2 ^ Suc n" by (rule mult_le_mono1)
    then show "2 ^ 63 \<le> ?M * 2 ^ Suc n" using n62 by (simp flip: power_Suc power_add)
  qed
  have minus: "\<exists>m. diyfp_normalize_to (if lower_closer x then diyfp (4 * fp_f v - 1) (?q - 2) else diyfp (2 * fp_f v - 1) (?q - 1))
        (?q - 1 - int n) = Inr (diyfp m (?q - 1 - int n)) \<and> unat m = ?M * 2 * 2 ^ n - half_gap x n"
  proof (cases "lower_closer x")
    case True
    have "(4 * ?M - 1) * 2 ^ (n - 1) = ?M * 2 * 2 ^ n - 2 ^ (n - 1)"
      using n10 by (cases n) (simp_all add: diff_mult_distrib)
    moreover have "?M * 2 * 2 ^ n - 2 ^ (n - 1) < 2 ^ 64" using p64 by (simp add: less_imp_diff_less)
    ultimately show ?thesis
      using diyfp_normalize_to [of "4 * fp_f v - 1" "n - 1" "?q - 1 - int n" "?q - 2"] n10 n62 two(3) True
      by (simp add: half_gap_def)
  next
    case False
    have "(2 * ?M - 1) * 2 ^ n = ?M * 2 * 2 ^ n - 2 ^ n" by (simp add: diff_mult_distrib)
    moreover have "?M * 2 * 2 ^ n - 2 ^ n < 2 ^ 64" using p64 by (simp add: less_imp_diff_less)
    ultimately show ?thesis
      using diyfp_normalize_to [of "2 * fp_f v - 1" n "?q - 1 - int n" "?q - 1"] n62 two(2) False
      by (simp add: half_gap_def)
  qed
  then obtain m where m: "diyfp_normalize_to (if lower_closer x then diyfp (4 * fp_f v - 1) (?q - 2) else diyfp (2 * fp_f v - 1) (?q - 1))
        (?q - 1 - int n) = Inr (diyfp m (?q - 1 - int n))" "unat m = ?M * 2 * 2 ^ n - half_gap x n" by blast
  have "v = diyfp (fp_f v) ?q" using v(2) by (cases v) simp
  then have nv: "diyfp_normalize v = Inr (diyfp w (?q - 1 - int n))" using w(1) n' by simp
  have "dbl_exponent x \<le> 2046"
    using x(3) dbl_exponent_less [of x] by (simp add: dbl_isfinite_def)
  then have q: "- 1074 \<le> ?q" "?q \<le> 971" by (simp_all add: dbl_exp_def)
  show ?thesis
  proof (rule that)
    show "compute_boundaries x = Inr \<lparr>bd_w = diyfp w (?q - 1 - int n), bd_minus = diyfp m (?q - 1 - int n),
        bd_plus = diyfp p (?q - 1 - int n)\<rparr>"
      unfolding cb p(1) rbind_Inr diyfp.simps m(1) nv ..
  qed (use w p m n' n10 n62 q in \<open>simp_all add: algebra_simps\<close>)
qed

section \<open>Between the boundaries\<close>

lemma diyfp_mul_real:
  "\<bar>real (unat (fp_f (diyfp_mul x y))) - real (unat (fp_f x)) * (real (unat (fp_f y)) / 2 ^ 64)\<bar> \<le> 1 / 2"
proof -
  let ?z = "unat (fp_f x) * unat (fp_f y)"
  let ?h = "(?z + 2 ^ 63) div 2 ^ 64"
  have "?h * 2 ^ 64 \<le> ?z + 2 ^ 63" by (rule div_times_less_eq_dividend)
  moreover have "?z + 2 ^ 63 < (?h + 1) * 2 ^ 64" using dividend_less_div_times [of "2 ^ 64" "?z + 2 ^ 63"] by simp
  ultimately have "real (?h * 2 ^ 64) \<le> real (?z + 2 ^ 63)" "real (?z + 2 ^ 63) < real ((?h + 1) * 2 ^ 64)"
    by (simp_all only: of_nat_le_iff of_nat_less_iff)
  then have "\<bar>real ?h - real ?z / 2 ^ 64\<bar> \<le> 1 / 2" by (simp add: abs_le_iff field_simps)
  then show ?thesis unfolding diyfp_mul_round by simp
qed

lemma abs_scale:
  fixes s :: real
  assumes "\<bar>a - b\<bar> \<le> d" "0 \<le> s"
  shows "\<bar>a * s - b * s\<bar> \<le> d * s"
proof -
  have "\<bar>a * s - b * s\<bar> = \<bar>a - b\<bar> * s" using assms(2) by (simp add: abs_mult flip: left_diff_distrib)
  then show ?thesis using assms by (simp add: mult_right_mono)
qed

text \<open>The value of a scaled bound is off by less than a unit.\<close>

lemma scaled_bound:
  assumes row: "row_accurate (cf, ce, ck)"
  shows "\<bar>real (unat (fp_f (diyfp_mul (diyfp f e) (diyfp cf ce)))) * 2 powi (e + ce + 64)
      - real (unat f) * 2 powi e * 10 powi ck\<bar> < 2 powi (e + ce + 64)"
proof -
  let ?W = "real (unat (fp_f (diyfp_mul (diyfp f e) (diyfp cf ce))))"
  let ?u = "2 powi (e + ce) :: real" and ?f = "real (unat f)" and ?c = "real (unat cf)"
  have u: "2 powi (e + ce + 64) = ?u * 2 ^ 64" "2 powi e * 2 powi ce = ?u" "0 < ?u"
    by (simp_all add: power_int_add)
  have "\<bar>?W - ?f * (?c / 2 ^ 64)\<bar> \<le> 1 / 2" using diyfp_mul_real [of "diyfp f e" "diyfp cf ce"] by simp
  from abs_scale [OF this, of "?u * 2 ^ 64"] u(3)
  have 1: "\<bar>?W * (?u * 2 ^ 64) - ?f * ?c * ?u\<bar> \<le> ?u * 2 ^ 63" by (simp add: mult_ac)
  have "0 \<le> ?f * 2 powi e" by (rule mult_nonneg_nonneg [OF of_nat_0_le_iff]) simp
  from abs_scale [OF row_value(1) [OF row] this]
  have "\<bar>?c * 2 powi ce * (?f * 2 powi e) - 10 powi ck * (?f * 2 powi e)\<bar> \<le> 2 powi ce / 2 * (?f * 2 powi e)" .
  moreover have "?c * 2 powi ce * (?f * 2 powi e) = ?f * ?c * ?u" "2 powi ce / 2 * (?f * 2 powi e) = ?f * ?u / 2"
      "10 powi ck * (?f * 2 powi e) = ?f * 2 powi e * 10 powi ck"
    unfolding u(2) [symmetric] by simp_all
  ultimately have 2: "\<bar>?f * ?c * ?u - ?f * 2 powi e * 10 powi ck\<bar> \<le> ?f * ?u / 2" by (simp only:)
  have "?f < 2 ^ 64" using unat_u64 [of f] by (metis of_nat_less_iff of_nat_numeral of_nat_power)
  then have 3: "?f * ?u / 2 < ?u * 2 ^ 63" using u(3) by simp
  have "?u * 2 ^ 64 = 2 * (?u * 2 ^ 63)" by simp
  then show ?thesis unfolding u(1) using 1 2 3 by linarith
qed

section \<open>The digits of a double\<close>

definition dbl_abs :: "dbl \<Rightarrow> real" where
  "dbl_abs x = real (dbl_mant x) * 2 powi dbl_exp x"

text \<open>Half-way to the neighbours; below a power of two the gap is half as wide.\<close>

definition dbl_upper :: "dbl \<Rightarrow> real" where
  "dbl_upper x = (real (dbl_mant x) + 1 / 2) * 2 powi dbl_exp x"

definition dbl_lower :: "dbl \<Rightarrow> real" where
  "dbl_lower x = (real (dbl_mant x) - (if lower_closer x then 1 / 4 else 1 / 2)) * 2 powi dbl_exp x"

lemma boundary_values:
  assumes "unat p = dbl_mant x * 2 * 2 ^ n + 2 ^ n" "unat m = dbl_mant x * 2 * 2 ^ n - half_gap x n"
    "10 \<le> n" "0 < dbl_mant x"
  shows "real (unat p) * 2 powi (dbl_exp x - 1 - int n) = dbl_upper x"
    "real (unat m) * 2 powi (dbl_exp x - 1 - int n) = dbl_lower x"
proof -
  let ?q = "2 powi dbl_exp x :: real" and ?M = "real (dbl_mant x)"
  have q: "2 powi (dbl_exp x - 1 - int n) = ?q / 2 / 2 ^ n" by (simp add: power_int_diff)
  show "real (unat p) * 2 powi (dbl_exp x - 1 - int n) = dbl_upper x"
    unfolding q assms(1) dbl_upper_def by (simp add: field_simps)
  have n: "2 ^ n = 2 * (2 ^ (n - 1) :: real)" using assms(3) by (cases n) simp_all
  have "half_gap x n \<le> 2 ^ n" by (auto simp: half_gap_def intro: power_increasing)
  also have "\<dots> \<le> dbl_mant x * 2 * 2 ^ n" using assms(4) by simp
  finally have "real (unat m) = ?M * 2 * 2 ^ n - real (half_gap x n)" by (simp add: assms(2) of_nat_diff)
  also have "\<dots> = (?M * 2 - (if lower_closer x then 1 / 2 else 1)) * 2 ^ n"
    by (simp add: half_gap_def n left_diff_distrib)
  finally have mm: "real (unat m) = (?M * 2 - (if lower_closer x then 1 / 2 else 1)) * 2 ^ n" .
  show "real (unat m) * 2 powi (dbl_exp x - 1 - int n) = dbl_lower x"
    unfolding q mm dbl_lower_def by (cases "lower_closer x") (simp_all add: field_simps)
qed

text \<open>
  The words after scaling: in order, large enough, and with an interval wide enough for
  seventeen digits. All of it follows from the rounding of the three products.
\<close>

lemma scaled_words:
  fixes w p m cf :: u64 and ce e :: int
  defines "W \<equiv> \<lambda>f. fp_f (diyfp_mul (diyfp f e) (diyfp cf ce))"
  assumes w: "unat w = M * 2 * 2 ^ n" and p: "unat p = M * 2 * 2 ^ n + 2 ^ n"
    and m: "unat m = M * 2 * 2 ^ n - h" and h: "h = 2 ^ n \<or> h = 2 ^ (n - 1) \<and> M = 2 ^ 52"
    and n: "10 \<le> n" and M: "0 < M" "M < 2 ^ 53" and p63: "2 ^ 63 \<le> unat p" and cf: "2 ^ 63 \<le> unat cf"
  shows "unat (W m + 1) = unat (W m) + 1" "unat (W p - 1) = unat (W p) - 1"
    "unat (W m) + 1 \<le> unat (W w)" "unat (W w) \<le> unat (W p) - 1" "2 ^ 60 \<le> unat (W p) - 1"
    "unat (W p) - 1 < 10 ^ 16 * ((unat (W p) - 1) - (unat (W m) + 1))"
proof -
  define c where "c = real (unat cf) / 2 ^ 64"
  define t where "t = c * 2 ^ n"
  have "2 ^ 63 \<le> real (unat cf)" using cf by (metis of_nat_le_iff of_nat_numeral of_nat_power)
  then have c: "1 / 2 \<le> c" by (simp add: c_def)
  have "(2::real) ^ 10 \<le> 2 ^ n" using n by (rule power_increasing) simp
  then have "1 / 2 * 2 ^ 10 \<le> t" unfolding t_def using c by (intro mult_mono) auto
  then have t: "512 \<le> t" by simp
  have round: "\<bar>real (unat (W f)) - real (unat f) * c\<bar> \<le> 1 / 2" for f
    using diyfp_mul_real [of "diyfp f e" "diyfp cf ce"] by (simp add: W_def c_def)
  have nn: "2 * 2 ^ (n - 1) = (2 ^ n :: real)" using n by (cases n) simp_all
  have hn: "h \<le> 2 ^ n" using h by (auto intro: power_increasing)
  also have "\<dots> \<le> M * 2 * 2 ^ n" using M(1) by simp
  finally have m': "real (unat m) = real M * 2 * 2 ^ n - real h" by (simp add: m of_nat_diff)
  define g where "g = c * real h"
  have g: "g = t \<or> g = t / 2 \<and> M = 2 ^ 52"
    using h nn by (auto simp: g_def t_def field_simps)
  have wc: "real (unat w) * c = real M * 2 * t" "real (unat p) * c = real M * 2 * t + t"
      "real (unat m) * c = real M * 2 * t - g"
    unfolding w p m' g_def t_def by (simp_all add: algebra_simps)
  have g2: "t / 2 \<le> g" using g t by auto
  note r = round [of w] round [of p] round [of m]
  have "real (unat (W m)) + 1 \<le> real (unat (W w))" using r wc g2 t by linarith
  then show mw: "unat (W m) + 1 \<le> unat (W w)" by linarith
  have "real (unat (W w)) + 1 \<le> real (unat (W p))" using r wc t by linarith
  then have wp: "unat (W w) + 1 \<le> unat (W p)" by linarith
  then show "unat (W w) \<le> unat (W p) - 1" by linarith
  show "unat (W m + 1) = unat (W m) + 1"
    using mw unat_u64 [of "W w"] unat_add_lem [of "W m" 1] by simp
  show "unat (W p - 1) = unat (W p) - 1" using wp by (simp add: unat_sub word_le_nat_alt)
  have "2 ^ 63 * (1 / 2) \<le> real (unat p) * c"
  proof (rule mult_mono)
    show "2 ^ 63 \<le> real (unat p)" using p63 by (metis of_nat_le_iff of_nat_numeral of_nat_power)
    show "0 \<le> real (unat p)" by (rule of_nat_0_le_iff)
  qed (use c in auto)
  moreover have "(2::real) ^ 63 * (1 / 2) = 4611686018427387904" by simp
  ultimately have "4611686018427387903 \<le> real (unat (W p))" using r(2) by linarith
  then have "4611686018427387903 \<le> unat (W p)" by linarith
  then show "2 ^ 60 \<le> unat (W p) - 1" by simp
  have le: "unat (W m) + 1 \<le> unat (W p) - 1" using mw wp by linarith
  have Wp: "real (unat (W p) - 1) \<le> real M * 2 * t + t - 1 / 2" using r(2) wc(2) wp by linarith
  have gap: "t + g - 3 \<le> real ((unat (W p) - 1) - (unat (W m) + 1))"
    using r(2,3) wc(2,3) wp le by linarith
  have bound: "real M * 2 * t + t < 10 ^ 16 * (t + g - 3)"
  proof -
    consider "g = t" | "g = t / 2" "M = 2 ^ 52" using g by blast
    then show ?thesis
    proof cases
      case 1
      have "real M + 1 \<le> 9007199254740992" using M(2) by simp
      then have "(real M + 1) * t \<le> 9007199254740992 * t" using t by (intro mult_right_mono) simp_all
      then have a: "real M * t + t \<le> 9007199254740992 * t" by (simp only: distrib_right mult_1)
      have "real M * 2 * t + t = 2 * (real M * t) + t" "(10::real) ^ 16 * (t + g - 3) = 20000000000000000 * t - 30000000000000000"
        unfolding 1 by (simp_all add: algebra_simps)
      then show ?thesis using a t by linarith
    next
      case 2
      show ?thesis unfolding 2 using t by simp
    qed
  qed
  have "10 ^ 16 * (t + g - 3) \<le> 10 ^ 16 * real ((unat (W p) - 1) - (unat (W m) + 1))"
    by (rule mult_left_mono [OF gap]) simp
  with Wp bound have "real (unat (W p) - 1) < 10 ^ 16 * real ((unat (W p) - 1) - (unat (W m) + 1))" by linarith
  then have "real (unat (W p) - 1) < real (10 ^ 16 * ((unat (W p) - 1) - (unat (W m) + 1)))"
    by (simp only: of_nat_mult of_nat_power of_nat_numeral)
  then show "unat (W p) - 1 < 10 ^ 16 * ((unat (W p) - 1) - (unat (W m) + 1))" by (simp only: of_nat_less_iff)
qed


text \<open>
  \<open>grisu2\<close> succeeds on every positive finite double, and the decimal number it finds lies strictly
  between the half-way points. None of the assertions on the way fails.
\<close>

lemma in_units:
  fixes D U s :: real
  assumes "a \<le> D * s" "D * s \<le> b" "U * s = 1" "0 < U"
  shows "a * U \<le> D" "D \<le> b * U"
proof -
  have "D * s * U = D * (U * s)" by (simp only: mult_ac)
  then have eq: "D * s * U = D" by (simp only: assms(3) mult_1_right)
  have "a * U \<le> D * s * U" "D * s * U \<le> b * U" using assms(1,2,4) by (simp_all add: mult_right_mono)
  then show "a * U \<le> D" "D \<le> b * U" by (simp_all only: eq)
qed

theorem grisu2_between:
  assumes x: "\<not> dbl_sign x" "x \<noteq> 0" "dbl_isfinite x"
  obtains buf d where "grisu2 x = Inr (buf, d)" "numeral_text buf" "length buf \<le> 17"
    "dbl_lower x < real (digits_value buf) * 10 powi d" "real (digits_value buf) * 10 powi d < dbl_upper x"
proof -
  let ?M = "dbl_mant x"
  have M: "0 < ?M" "?M < 2 ^ 53" using dbl_mant_pos [OF x(1,2)] dbl_mant_less by auto
  obtain w m p n where cb: "compute_boundaries x = Inr \<lparr>bd_w = diyfp w (dbl_exp x - 1 - int n),
        bd_minus = diyfp m (dbl_exp x - 1 - int n), bd_plus = diyfp p (dbl_exp x - 1 - int n)\<rparr>"
    and words: "unat w = ?M * 2 * 2 ^ n" "unat p = ?M * 2 * 2 ^ n + 2 ^ n" "unat m = ?M * 2 * 2 ^ n - half_gap x n"
    and n: "2 ^ 63 \<le> unat p" "10 \<le> n" and e: "- 1137 \<le> dbl_exp x - 1 - int n" "dbl_exp x - 1 - int n \<le> 960"
    by (rule compute_boundaries [OF x])
  let ?e = "dbl_exp x - 1 - int n"
  obtain cf ce ck where c: "get_cached_power_for_binary_exponent ?e = Inr (cf, ce, ck)" "row_accurate (cf, ce, ck)"
      "kAlpha \<le> ce + ?e + 64" "ce + ?e + 64 \<le> kGamma"
    by (rule cached_power [OF e])
  let ?W = "\<lambda>f. fp_f (diyfp_mul (diyfp f ?e) (diyfp cf ce))" and ?u = "?e + ce + 64"
  have h: "half_gap x n = 2 ^ n \<or> half_gap x n = 2 ^ (n - 1) \<and> ?M = 2 ^ 52"
    by (auto simp: half_gap_def lower_closer_def dbl_mant_def)
  note ok = scaled_words [where e = ?e and ce = ce and cf = cf, OF words h n(2) M n(1) row_value(2) [OF c(2)]]
  let ?Mm = "diyfp (?W m + 1) ?u" and ?Mp = "diyfp (?W p - 1) ?u" and ?w = "diyfp (?W w) ?u"
  have mul: "diyfp (?W f) ?u = diyfp_mul (diyfp f ?e) (diyfp cf ce)" for f
    by (cases "diyfp_mul (diyfp f ?e) (diyfp cf ce)") (use diyfp_mul_exponent [of "diyfp f ?e" "diyfp cf ce"] in simp)
  have "\<exists>buf k. grisu2_digit_gen (- ck) ?Mm ?w ?Mp = Inr (buf, - ck + k)
      \<and> in_interval (nat (- fp_e ?Mp)) (unat (fp_f ?Mp)) (unat (fp_f ?Mp) - unat (fp_f ?Mm)) buf k"
  proof (rule digit_gen)
    show "fp_f ?Mm \<le> fp_f ?w" "fp_f ?w \<le> fp_f ?Mp" using ok by (simp_all add: word_le_nat_alt)
    have "unat (fp_f ?Mm) \<noteq> 0" using ok(1) by simp
    then show "fp_f ?Mm \<noteq> 0" by (metis unat_0)
    show "2 ^ 60 \<le> unat (fp_f ?Mp)" "unat (fp_f ?Mp) < 10 ^ 16 * (unat (fp_f ?Mp) - unat (fp_f ?Mm))"
      by (simp_all only: diyfp.select_convs ok)
  qed (use c(3,4) in simp_all)
  then obtain buf k where dg: "grisu2_digit_gen (- ck) ?Mm ?w ?Mp = Inr (buf, - ck + k)"
      "in_interval (nat (- ?u)) (unat (?W p - 1)) (unat (?W p - 1) - unat (?W m + 1)) buf k" by auto
  have "grisu2 x = Inr (buf, - ck + k)"
    using dg(1) unfolding mul
    by (simp add: grisu2_def cb grisu2_scaled_def c(1) Let_def)
  moreover have "numeral_text buf" "length buf \<le> 17" using dg(2) by (simp_all add: in_interval_def)
  moreover have "dbl_lower x < real (digits_value buf) * 10 powi (- ck + k)
      \<and> real (digits_value buf) * 10 powi (- ck + k) < dbl_upper x"
  proof -
    let ?D = "real (digits_value buf) * 10 powi k" and ?U = "2 powi ?u :: real"
    have U: "?U * 2 ^ nat (- ?u) = 1" "0 < ?U"
      using c(4) by (simp_all add: powi_split kGamma_def)
    have le: "unat (?W m + 1) \<le> unat (?W p - 1)" using ok by simp
    have "real (unat (?W m) + 1) \<le> ?D * 2 ^ nat (- ?u)" "?D * 2 ^ nat (- ?u) \<le> real (unat (?W p) - 1)"
      using dg(2) le ok(1,2) by (simp_all add: in_interval_def of_nat_diff)
    then have D: "real (unat (?W m) + 1) * ?U \<le> ?D" "?D \<le> real (unat (?W p) - 1) * ?U"
      using in_units [OF _ _ U] by blast+
    note b = boundary_values [OF words(2,3) n(2) M(1)]
    have p1: "1 \<le> unat (?W p)" using ok(5) one_le_power [of "2::nat" 60] by linarith
    have "\<bar>real (unat (?W p)) * ?U - dbl_upper x * 10 powi ck\<bar> < ?U" "\<bar>real (unat (?W m)) * ?U - dbl_lower x * 10 powi ck\<bar> < ?U"
      using scaled_bound [OF c(2), of p ?e] scaled_bound [OF c(2), of m ?e] unfolding b by blast+
    moreover have "real (unat (?W m) + 1) * ?U = real (unat (?W m)) * ?U + ?U"
        "real (unat (?W p) - 1) * ?U = real (unat (?W p)) * ?U - ?U"
      using p1 by (simp_all add: of_nat_diff algebra_simps)
    ultimately have "dbl_lower x * 10 powi ck < ?D" "?D < dbl_upper x * 10 powi ck" using D by linarith+
    moreover have "10 powi (- ck + k) * 10 powi ck = (10 powi k :: real)"
      using power_int_add [of "10::real" "- ck + k" ck] by simp
    then have "?D = real (digits_value buf) * 10 powi (- ck + k) * 10 powi ck" by (simp only: mult.assoc)
    ultimately show ?thesis by simp
  qed
  ultimately show ?thesis using that by blast
qed

end
