(* ===== verification/GrisuText.thy ===== *)
theory GrisuText
  imports GrisuBounds
begin

unbundle bit_operations_syntax

text \<open>
  The decimal text of a double: \<open>strtod\<close> rounds to the nearest, so a decimal between the half-way
  points is read as the double it was made from; the four layouts of \<open>format_buffer\<close> keep the value.
  Every finite double is written, and read back as itself, its sign and that of zero included.
\<close>

section \<open>Reading a decimal back\<close>

lemma ilog2_bounds: "0 < n \<Longrightarrow> 2 ^ ilog2 n \<le> n \<and> n < 2 ^ Suc (ilog2 n)"
proof (induction n rule: ilog2.induct)
  case (1 n)
  show ?case
  proof (cases "n < 2")
    case True
    then show ?thesis using 1(2) by (subst (1 2) ilog2.simps) auto
  next
    case False
    then have "2 ^ ilog2 (n div 2) \<le> n div 2 \<and> n div 2 < 2 ^ Suc (ilog2 (n div 2))" using 1 by simp
    then have "2 * 2 ^ ilog2 (n div 2) \<le> n \<and> n < 2 * 2 ^ Suc (ilog2 (n div 2))" by auto
    then show ?thesis using False by (subst (1 2) ilog2.simps) simp
  qed
qed

text \<open>The quotient in the middle of \<open>dbl_of_ratio\<close>, rounded: the nearest integer.\<close>

lemma rounded_quotient:
  fixes num den N :: nat
  assumes "\<bar>real num / real den - real N\<bar> < 1 / 2" "0 < den"
  defines "m \<equiv> num div den" and "r \<equiv> num mod den"
  shows "(if den < 2 * r \<or> (den = 2 * r \<and> odd m) then m + 1 else m) = N"
proof -
  have eq: "num = m * den + r" "r < den" using assms(2) by (simp_all add: m_def r_def)
  have "\<bar>real num - real N * real den\<bar> < real den / 2"
    using assms(1,2) by (simp add: abs_less_iff field_simps)
  then have "2 * real num < 2 * (real N * real den) + real den" "2 * (real N * real den) < 2 * real num + real den"
    by linarith+
  then have "real (2 * num) < real (2 * (N * den) + den)" "real (2 * (N * den)) < real (2 * num + den)" by simp_all
  then have b: "2 * num < 2 * (N * den) + den" "2 * (N * den) < 2 * num + den" by (simp_all only: of_nat_less_iff)
  consider "m = N" | "m + 1 = N"
  proof -
    have "m * den < (N + 1) * den" "(N - 1) * den < (m + 1) * den"
      using b eq by (simp_all add: add_mult_distrib diff_mult_distrib)
    then have "m < N + 1" "N - 1 < m + 1" by (simp_all only: mult_less_cancel2)
    then show thesis using that by linarith
  qed
  then show ?thesis
  proof cases
    case 1
    then show ?thesis using b eq by auto
  next
    case 2
    then have "N * den = m * den + den" by (simp flip: 2)
    then show ?thesis using b eq 2 by auto
  qed
qed

text \<open>The binary exponent the code computes.\<close>

lemma real_ilog2: "0 < n \<Longrightarrow> 2 ^ ilog2 n \<le> real n \<and> real n < 2 * 2 ^ ilog2 n"
proof -
  assume "0 < n"
  from ilog2_bounds [OF this] have "real (2 ^ ilog2 n) \<le> real n \<and> real n < real (2 ^ Suc (ilog2 n))"
    by (simp only: of_nat_le_iff of_nat_less_iff)
  then show ?thesis by simp
qed

lemma ratio_exponent:
  assumes "0 < p" "0 < q"
  defines "e0 \<equiv> int (ilog2 p) - int (ilog2 q)"
  defines "e1 \<equiv> (if q * 2 ^ nat e0 \<le> p * 2 ^ nat (- e0) then e0 else e0 - 1)"
  shows "2 powi e1 \<le> real p / real q" "real p / real q < 2 powi (e1 + 1)"
proof -
  have P: "2 ^ ilog2 p \<le> real p" "real p < 2 * 2 ^ ilog2 p" and Q: "2 ^ ilog2 q \<le> real q" "real q < 2 * 2 ^ ilog2 q"
    using real_ilog2 [OF assms(1)] real_ilog2 [OF assms(2)] by blast+
  have e0: "2 powi e0 = (2 ^ ilog2 p / 2 ^ ilog2 q :: real)" by (simp add: e0_def power_int_diff)
  have "real p / real q < 2 * 2 ^ ilog2 p / 2 ^ ilog2 q" by (rule frac_less) (use P Q assms(1) in auto)
  then have up: "real p / real q < 2 powi (e0 + 1)" by (simp add: power_int_add e0 mult.commute)
  have "2 ^ ilog2 p / (2 * 2 ^ ilog2 q) < real p / real q" by (rule frac_less2) (use P Q assms(1,2) in auto)
  then have low: "2 powi (e0 - 1) < real p / real q" by (simp add: power_int_diff e0)
  have "(q * 2 ^ nat e0 \<le> p * 2 ^ nat (- e0)) = (real (q * 2 ^ nat e0) \<le> real (p * 2 ^ nat (- e0)))"
    by (simp only: of_nat_le_iff)
  also have "\<dots> = (2 powi e0 \<le> real p / real q)" using assms(2) by (simp add: powi_split field_simps)
  finally have test: "(q * 2 ^ nat e0 \<le> p * 2 ^ nat (- e0)) = (2 powi e0 \<le> real p / real q)" .
  show "2 powi e1 \<le> real p / real q" "real p / real q < 2 powi (e1 + 1)"
    using up low test by (auto simp: e1_def)
qed

lemma powi_less_imp: "(2::real) powi a < 2 powi b \<Longrightarrow> a < b"
  by (rule ccontr) (simp add: not_less power_int_increasing leD)

text \<open>Two half-open binary intervals with a common point are the same.\<close>

lemma binade_unique:
  assumes "2 powi a \<le> r" "r < 2 powi (a + 1)" "2 powi b \<le> r" "r < (2 powi (b + 1) :: real)"
  shows "a = b"
  using powi_less_imp [of a "b + 1"] powi_less_imp [of b "a + 1"] assms by linarith

lemma ratio_result:
  fixes p q N :: nat and e :: int
  assumes pq: "0 < p" "0 < q" and e: "2 powi e \<le> real p / real q \<or> e = - 1022" "real p / real q < 2 powi (e + 1)" "- 1022 \<le> e"
    and N: "\<bar>real p / real q * 2 powi (52 - e) - real N\<bar> < 1 / 2"
    and small: "nat (e + 1022) * 2 ^ 52 + N \<le> 2047 * 2 ^ 52"
  shows "dbl_of_ratio p q = nat (e + 1022) * 2 ^ 52 + N"
proof -
  define e1 where "e1 = (let e0 = int (ilog2 p) - int (ilog2 q)
    in if q * 2 ^ nat e0 \<le> p * 2 ^ nat (- e0) then e0 else e0 - 1)"
  have e1: "2 powi e1 \<le> real p / real q" "real p / real q < 2 powi (e1 + 1)"
    using ratio_exponent [OF pq] by (simp_all add: e1_def Let_def)
  have max: "max e1 (- 1022) = e"
  proof (cases "2 powi e \<le> real p / real q")
    case True
    then show ?thesis using binade_unique [OF e1 True e(2)] e(3) by simp
  next
    case False
    then have "2 powi e1 < (2 powi e :: real)" using e1(1) by linarith
    then show ?thesis using powi_less_imp False e(1) by force
  qed
  let ?num = "p * 2 ^ nat (52 - e)" and ?den = "q * 2 ^ nat (e - 52)"
  have "real ?num / real ?den = real p / real q * 2 powi (52 - e)"
    by (simp add: powi_split field_simps)
  then have "(if ?den < 2 * (?num mod ?den) \<or> (?den = 2 * (?num mod ?den) \<and> odd (?num div ?den))
      then ?num div ?den + 1 else ?num div ?den) = N"
    using N pq by (intro rounded_quotient) simp_all
  moreover have "dbl_of_ratio p q = min (nat (max e1 (- 1022) + 1022) * 2 ^ 52
      + (let num = p * 2 ^ nat (52 - max e1 (- 1022)); den = q * 2 ^ nat (max e1 (- 1022) - 52)
         in if den < 2 * (num mod den) \<or> (den = 2 * (num mod den) \<and> odd (num div den)) then num div den + 1 else num div den))
      (2047 * 2 ^ 52)"
    unfolding dbl_of_ratio_def e1_def Let_def by (rule if_not_P) (use pq in simp)
  ultimately show ?thesis unfolding max Let_def by (simp only: min_absorb1 [OF small])
qed

text \<open>
  A decimal strictly between the half-way points of a double is read back as that double.
\<close>

lemma unat_dbl:
  assumes "\<not> dbl_sign x"
  shows "unat x = nat (dbl_exp x + 1074) * 2 ^ 52 + dbl_mant x"
  using dbl_fields(3) [OF assms] by (cases "dbl_exponent x") (auto simp: dbl_exp_def dbl_mant_def max_def nat_add_distrib)

theorem dbl_of_ratio_nearest:
  assumes x: "\<not> dbl_sign x" "x \<noteq> 0" "dbl_isfinite x" and q: "0 < q"
    and r: "dbl_lower x < real p / real q" "real p / real q < dbl_upper x"
  shows "dbl_of_ratio p q = unat x"
proof -
  let ?M = "dbl_mant x" and ?e = "dbl_exp x + 52" and ?r = "real p / real q"
  let ?u = "2 powi dbl_exp x :: real"
  have M: "0 < ?M" "?M < 2 ^ 53" using dbl_mant_pos [OF x(1,2)] dbl_mant_less by auto
  have M1: "1 \<le> real ?M" "real ?M \<le> 9007199254740991" using M by simp_all
  have u: "0 < ?u" "2 powi ?e = ?u * 2 ^ 52" "2 powi (?e + 1) = ?u * 2 ^ 53" by (simp_all add: power_int_add)
  have "0 \<le> dbl_lower x" unfolding dbl_lower_def using M1(1) u(1) by (intro mult_nonneg_nonneg) auto
  then have pos: "0 < p" using r(1) by (cases p) auto
  have "(real ?M + 1 / 2) * ?u < 2 ^ 53 * ?u" using u(1) M1(2) by (intro mult_strict_right_mono) simp_all
  then have top: "?r < 2 powi (?e + 1)" using r(2) unfolding dbl_upper_def u(3) by (simp only: mult.commute [of ?u]) 
  have e: "- 1022 \<le> ?e" by (simp add: dbl_exp_def)
  have fin: "dbl_exponent x \<le> 2046" using x(3) dbl_exponent_less [of x] by (simp add: dbl_isfinite_def)
  have E: "dbl_exp x = (if dbl_exponent x = 0 then 1 else int (dbl_exponent x)) - 1075" by (simp add: dbl_exp_def)
  have lw: "(real ?M - 1 / 2) * ?u \<le> dbl_lower x"
    unfolding dbl_lower_def using u(1) by (intro mult_right_mono) auto
  have nat_e: "nat (?e + 1022) = nat (dbl_exp x + 1074)" by simp
  have le: "nat (dbl_exp x + 1074) * 2 ^ 52 + ?M \<le> 2047 * 2 ^ 52"
  proof -
    have "nat (dbl_exp x + 1074) \<le> 2045" using fin E by (auto split: if_splits)
    then have "nat (dbl_exp x + 1074) * 2 ^ 52 \<le> 2045 * 2 ^ 52" by (rule mult_le_mono1)
    then show ?thesis using M(2) by simp
  qed
  show ?thesis
  proof (cases "2 powi ?e \<le> ?r \<or> ?e = - 1022")
    case True
    have "\<bar>?r * 2 powi (52 - ?e) - real ?M\<bar> < 1 / 2"
    proof -
      have "2 powi (52 - ?e) = 1 / ?u" by (simp add: power_int_minus_divide)
      moreover have "(real ?M - 1 / 2) * ?u < ?r" "?r < (real ?M + 1 / 2) * ?u"
        using r lw unfolding dbl_upper_def by linarith+
      then have "real ?M - 1 / 2 < ?r / ?u" "?r / ?u < real ?M + 1 / 2"
        by (simp_all only: pos_less_divide_eq [OF u(1)] pos_divide_less_eq [OF u(1)])
      moreover have "?r * (1 / ?u) = ?r / ?u" by simp
      ultimately show ?thesis by (simp only: abs_less_iff) linarith
    qed
    then have "dbl_of_ratio p q = nat (?e + 1022) * 2 ^ 52 + ?M"
      by (rule ratio_result [OF pos q True top e _ le [folded nat_e]])
    then show ?thesis unfolding unat_dbl [OF x(1)] nat_e .
  next
    case False
    then have low: "?r < ?u * 2 ^ 52" "?e \<noteq> - 1022" unfolding u(2) by simp_all
    then have E1: "1 < dbl_exponent x" by (auto simp: E split: if_splits)
    have "?M = 2 ^ 52 + dbl_fraction x" using E1 by (simp add: dbl_mant_def)
    moreover have "(real ?M - 1 / 2) * ?u < 2 ^ 52 * ?u" using r(1) low(1) lw by (simp only: mult.commute [of ?u])
    then have "real ?M - 1 / 2 < 2 ^ 52" using u(1) by (simp only: mult_less_cancel_right_pos)
    ultimately have F: "dbl_fraction x = 0" "?M = 2 ^ 52" by auto
    then have closer: "lower_closer x" using E1 by (simp add: lower_closer_def)
    have l: "(2 ^ 52 - 1 / 4) * ?u < ?r" using r(1) closer F(2) by (simp add: dbl_lower_def)
    have h: "2 powi (?e - 1) = ?u * 2 ^ 51" "2 powi (52 - (?e - 1)) = 2 / ?u"
      by (simp_all add: power_int_add power_int_diff power_int_minus_divide)
    have "?u * 2 ^ 51 \<le> (2 ^ 52 - 1 / 4) * ?u" using u(1) by simp
    then have 1: "2 powi (?e - 1) \<le> ?r" "?r < 2 powi (?e - 1 + 1)"
      using l low(1) u(2) unfolding h by (simp_all only: diff_add_cancel mult.commute [of ?u])
    have "2 ^ 52 - 1 / 4 < ?r / ?u" using l by (simp only: pos_less_divide_eq [OF u(1)])
    moreover have "?r / ?u < 2 ^ 52" using low(1) by (simp only: pos_divide_less_eq [OF u(1)] mult.commute [of ?u])
    moreover have "?r * (2 / ?u) = 2 * (?r / ?u)" "real (2 ^ 53) = 2 * 2 ^ 52" by simp_all
    ultimately have 2: "\<bar>?r * 2 powi (52 - (?e - 1)) - real (2 ^ 53)\<bar> < 1 / 2"
      unfolding h abs_less_iff by linarith
    have n: "nat (?e - 1 + 1022) * 2 ^ 52 + 2 ^ 53 = nat (dbl_exp x + 1074) * 2 ^ 52 + ?M"
      using E1 F(2) by (simp add: E nat_diff_distrib)
    have "- 1022 \<le> ?e - 1" using e low(2) by linarith
    then have "dbl_of_ratio p q = nat (?e - 1 + 1022) * 2 ^ 52 + 2 ^ 53"
      by (rule ratio_result [OF pos q disjI1 [OF 1(1)] 1(2) _ 2 le [folded n]])
    then show ?thesis unfolding unat_dbl [OF x(1)] n .
  qed
qed
section \<open>The text of a decimal\<close>

text \<open>Digits, a fraction when there are digits for one, an exponent likewise.\<close>

definition exponent_text :: "bool \<Rightarrow> string \<Rightarrow> string" where
  "exponent_text neg es = (if es = [] then [] else [CHR ''e'', if neg then CHR ''-'' else CHR ''+''] @ es)"

definition decimal_text :: "string \<Rightarrow> string \<Rightarrow> bool \<Rightarrow> string \<Rightarrow> string" where
  "decimal_text ip fp neg es = ip @ (if fp = [] then [] else ''.'' @ fp) @ exponent_text neg es"

definition all_digits :: "string \<Rightarrow> bool" where
  "all_digits s \<longleftrightarrow> list_all is_digit s"

lemma not_digit [simp]: "\<not> is_digit (CHR ''.'')" "\<not> is_digit (CHR ''e'')" "\<not> is_digit (CHR ''E'')" "\<not> is_digit (CHR ''+'')"
  by (simp_all add: is_digit_def)

lemma takeWhile_all_digits:
  assumes "all_digits s" "t = [] \<or> \<not> is_digit (hd t)"
  shows "takeWhile is_digit (s @ t) = s" "dropWhile is_digit (s @ t) = t"
proof -
  have "\<forall>x \<in> set s. is_digit x" using assms(1) by (simp add: all_digits_def list_all_iff)
  moreover have "takeWhile is_digit t = []" "dropWhile is_digit t = t" using assms(2) by (cases t; simp)+
  ultimately show "takeWhile is_digit (s @ t) = s" "dropWhile is_digit (s @ t) = t" by simp_all
qed

lemma all_digits_hd: "all_digits s \<Longrightarrow> s \<noteq> [] \<Longrightarrow> is_digit (hd s)"
  by (cases s) (simp_all add: all_digits_def)

text \<open>The value that \<open>strtod\<close> gives such a text.\<close>

definition decimal_exponent :: "string \<Rightarrow> bool \<Rightarrow> string \<Rightarrow> int" where
  "decimal_exponent fp neg es = (if neg then - int (digits_value es) else int (digits_value es)) - int (length fp)"

definition decimal_value :: "string \<Rightarrow> string \<Rightarrow> bool \<Rightarrow> string \<Rightarrow> nat" where
  "decimal_value ip fp neg es = (let e = decimal_exponent fp neg es in
     dbl_of_ratio (digits_value (ip @ fp) * 10 ^ nat e) (10 ^ nat (- e)))"

text \<open>\<open>strtod\<close> part by part.\<close>

definition strtod_exponent :: "string \<Rightarrow> int" where
  "strtod_exponent s3 = (let has_exp = (s3 \<noteq> [] \<and> (hd s3 = CHR ''e'' \<or> hd s3 = CHR ''E''));
      s4 = (if has_exp then tl s3 else []);
      s5 = (if s4 \<noteq> [] \<and> (hd s4 = CHR ''-'' \<or> hd s4 = CHR ''+'') then tl s4 else s4);
      ev = int (digits_value (takeWhile is_digit s5))
    in if s4 \<noteq> [] \<and> hd s4 = CHR ''-'' then - ev else ev)"

definition strtod_fraction :: "string \<Rightarrow> string \<Rightarrow> nat" where
  "strtod_fraction ip s2 = (let has_frac = (s2 \<noteq> [] \<and> hd s2 = CHR ''.'');
      fp = (if has_frac then takeWhile is_digit (tl s2) else []);
      s3 = (if has_frac then dropWhile is_digit (tl s2) else s2);
      e10 = strtod_exponent s3 - int (length fp)
    in dbl_of_ratio (digits_value (ip @ fp) * 10 ^ nat e10) (10 ^ nat (- e10)))"

lemma strtod_eq:
  "strtod s = (let negative = (s \<noteq> [] \<and> hd s = CHR ''-''); s1 = (if negative then tl s else s)
     in word_of_nat ((if negative then 2 ^ 63 else 0) + strtod_fraction (takeWhile is_digit s1) (dropWhile is_digit s1)))"
  unfolding strtod_def strtod_fraction_def strtod_exponent_def Let_def ..

lemma strtod_parts:
  "strtod (CHR ''-'' # s) = word_of_nat (2 ^ 63 + strtod_fraction (takeWhile is_digit s) (dropWhile is_digit s))"
  "s = [] \<or> hd s \<noteq> CHR ''-'' \<Longrightarrow>
     strtod s = word_of_nat (strtod_fraction (takeWhile is_digit s) (dropWhile is_digit s))"
  by (auto simp: strtod_eq Let_def)

lemma strtod_exponent_text:
  assumes "all_digits es"
  shows "strtod_exponent (exponent_text neg es) = (if neg then - int (digits_value es) else int (digits_value es))"
proof -
  have "takeWhile is_digit es = es" using takeWhile_all_digits(1) [OF assms, of "[]"] by simp
  then have "digits_value (takeWhile is_digit es) = digits_value es" by (simp only:)
  then show ?thesis by (simp add: strtod_exponent_def exponent_text_def Let_def)
qed

lemma exponent_text_hd: "exponent_text neg es = [] \<or> \<not> is_digit (hd (exponent_text neg es)) \<and> hd (exponent_text neg es) \<noteq> CHR ''.''"
  by (simp add: exponent_text_def)

lemma strtod_fraction_text:
  assumes "all_digits fp" "all_digits es"
  shows "strtod_fraction ip ((if fp = [] then [] else ''.'' @ fp) @ exponent_text neg es) = decimal_value ip fp neg es"
proof -
  let ?x = "exponent_text neg es"
  have fp: "takeWhile is_digit (fp @ ?x) = fp" "dropWhile is_digit (fp @ ?x) = ?x"
    using takeWhile_all_digits [OF assms(1), of ?x] exponent_text_hd [of neg es] by auto
  show ?thesis
  proof (cases "fp = []")
    case True
    have "(?x \<noteq> [] \<and> hd ?x = CHR ''.'') = False" using exponent_text_hd [of neg es] by auto
    then show ?thesis unfolding True
      by (simp only: strtod_fraction_def Let_def append_Nil if_True if_False simp_thms strtod_exponent_text [OF assms(2)]
          decimal_value_def decimal_exponent_def)
  next
    case False
    have "(''.'' @ fp) @ ?x = CHR ''.'' # (fp @ ?x)" by simp
    with False show ?thesis
      by (simp only: strtod_fraction_def Let_def if_True if_False list.sel list.distinct simp_thms fp
          strtod_exponent_text [OF assms(2)] decimal_value_def decimal_exponent_def)
  qed
qed

lemma strtod_decimal:
  assumes "all_digits ip" "ip \<noteq> []" "all_digits fp" "all_digits es"
  shows "strtod ((if sg then ''-'' else []) @ decimal_text ip fp neg es)
    = word_of_nat ((if sg then 2 ^ 63 else 0) + decimal_value ip fp neg es)"
proof -
  let ?s2 = "(if fp = [] then [] else ''.'' @ fp) @ exponent_text neg es"
  have "?s2 = [] \<or> \<not> is_digit (hd ?s2)" using exponent_text_hd [of neg es] by auto
  note ip = takeWhile_all_digits [OF assms(1) this]
  have "is_digit (hd (ip @ ?s2))" using all_digits_hd [OF assms(1,2)] assms(2) by simp
  then have hd: "ip @ ?s2 = [] \<or> hd (ip @ ?s2) \<noteq> CHR ''-''" by auto
  have "strtod (CHR ''-'' # ip @ ?s2) = word_of_nat (2 ^ 63 + decimal_value ip fp neg es)"
    unfolding strtod_parts(1) ip strtod_fraction_text [OF assms(3,4)] ..
  moreover have "strtod (ip @ ?s2) = word_of_nat (decimal_value ip fp neg es)"
    unfolding strtod_parts(2) [OF hd] ip strtod_fraction_text [OF assms(3,4)] ..
  ultimately show ?thesis
    unfolding decimal_text_def by (cases sg) (simp_all only: if_True if_False append_Nil append.simps(2) [of "CHR ''-''" "[]"] add_0)
qed

text \<open>What the layout has to be for the lexer to read a double.\<close>

definition float_text :: "string \<Rightarrow> string \<Rightarrow> bool \<Rightarrow> string \<Rightarrow> bool" where
  "float_text ip fp neg es \<longleftrightarrow> all_digits ip \<and> ip \<noteq> [] \<and> (hd ip = CHR ''0'' \<longrightarrow> ip = ''0'')
     \<and> all_digits fp \<and> all_digits es \<and> (fp \<noteq> [] \<or> es \<noteq> [])"

lemma digits_value_zeros [simp]: "digits_value (replicate n (CHR ''0'')) = 0"
proof (induction n)
  case (Suc n)
  then show ?case
    using digits_value_append [of "''0''" "replicate n (CHR ''0'')"] by (simp add: digit_value_def)
qed simp

lemma all_digits_simps [simp]:
  "all_digits []" "all_digits (c # s) \<longleftrightarrow> is_digit c \<and> all_digits s" "all_digits (s @ t) \<longleftrightarrow> all_digits s \<and> all_digits t"
  "is_digit (CHR ''0'')" "all_digits (replicate n (CHR ''0''))"
  by (auto simp: all_digits_def is_digit_def list_all_iff)

lemma numeral_text_all_digits: "numeral_text s \<Longrightarrow> all_digits s"
  by (simp add: numeral_text_def all_digits_def)

lemma all_digits_take_drop: "all_digits s \<Longrightarrow> all_digits (take n s) \<and> all_digits (drop n s)"
  by (auto simp: all_digits_def list_all_iff dest: in_set_takeD in_set_dropD)

lemma append_exponent:
  assumes "- 1000 < e" "e < 1000"
  obtains es where "append_exponent e = Inr ([if e < 0 then CHR ''-'' else CHR ''+''] @ es)" "all_digits es"
    "es \<noteq> []" "digits_value es = nat \<bar>e\<bar>" "length es \<le> 3"
proof -
  let ?k = "nat \<bar>e\<bar>"
  define es where "es = (if ?k < 10 then [CHR ''0'', digit_char ?k]
    else if ?k < 100 then [digit_char (?k div 10), digit_char (?k mod 10)]
    else [digit_char (?k div 100), digit_char (?k mod 100 div 10), digit_char (?k mod 100 mod 10)])"
  have k: "?k < 1000" using assms by linarith
  then have d: "?k div 100 < 10" "?k mod 100 div 10 < 10" by simp_all
  have dv: "digits_value (a # b # c) = digit_value a * 10 ^ Suc (length c) + digits_value (b # c)" for a b c
    using digits_value_append [of "[a]" "b # c"] by simp
  have sum: "?k div 100 * 100 + (?k mod 100 div 10 * 10 + ?k mod 100 mod 10) = ?k"
    by (simp only: div_mult_mod_eq)
  have z: "digit_value (CHR ''0'') = 0" by (simp add: digit_value_def)
  have small: "?k div 10 < 10" "?k div 10 * 10 + ?k mod 10 = ?k" if "?k < 100" using that by simp_all
  have "all_digits es" "es \<noteq> []" "length es \<le> 3" using k d by (auto simp: es_def)
  moreover have "digits_value es = ?k"
  proof -
    consider "?k < 10" | "\<not> ?k < 10" "?k < 100" | "\<not> ?k < 10" "\<not> ?k < 100" by blast
    then show ?thesis
    proof cases
      case 1
      then show ?thesis by (simp add: es_def dv z)
    next
      case 2
      then show ?thesis using small by (simp add: es_def dv)
    next
      case 3
      then show ?thesis using d sum by (simp add: es_def dv)
    qed
  qed
  moreover have "append_exponent e = Inr ([if e < 0 then CHR ''-'' else CHR ''+''] @ es)"
    using assms by (simp add: append_exponent_def Let_def es_def)
  ultimately show ?thesis using that by blast
qed

lemma shift_value: "m = n * 10 ^ j \<Longrightarrow> d = e + int j \<Longrightarrow> real m * 10 powi e = real n * 10 powi d"
  by (simp add: power_int_add power_int_of_nat)

lemma format_buffer:
  assumes buf: "numeral_text buf" "length buf \<le> 17" and n: "- 1000 < int (length buf) + d - 1" "int (length buf) + d - 1 < 1000"
  obtains ip fp neg es where "format_buffer buf d (- 4) 15 = Inr (decimal_text ip fp neg es)" "float_text ip fp neg es"
    "length (decimal_text ip fp neg es) \<le> 23"
    "real (digits_value (ip @ fp)) * 10 powi decimal_exponent fp neg es = real (digits_value buf) * 10 powi d"
proof -
  let ?k = "int (length buf)" and ?n = "int (length buf) + d"
  have ad: "all_digits buf" "buf \<noteq> []" "hd buf \<noteq> CHR ''0''"
    using numeral_text_all_digits [OF buf(1)] buf(1) by (simp_all add: numeral_text_def)
  have k0: "0 < ?k" using ad(2) by simp
  consider (zeros) "?k \<le> ?n" "?n \<le> 15" | (point) "0 < ?n" "?n < ?k" "?n \<le> 15" | (small) "- 4 < ?n" "?n \<le> 0"
    | (expo) "?n \<le> - 4 \<or> 15 < ?n" by linarith
  then show ?thesis
  proof cases
    case zeros
    let ?ip = "buf @ replicate (nat d) (CHR ''0'')"
    have "float_text ?ip ''0'' False []" using ad by (simp add: float_text_def)
    moreover have "format_buffer buf d (- 4) 15 = Inr (decimal_text ?ip ''0'' False [])"
      using zeros by (simp add: format_buffer_def Let_def decimal_text_def exponent_text_def)
    moreover have "length (decimal_text ?ip ''0'' False []) \<le> 23"
      using zeros by (simp add: decimal_text_def exponent_text_def)
    moreover have "digits_value (?ip @ ''0'') = digits_value buf * 10 ^ (nat d + 1)"
      using digits_value_append [of buf "replicate (nat d + 1) (CHR ''0'')"] digits_value_zeros [of "nat d + 1"]
      by (simp add: replicate_append_same)
    then have "real (digits_value (?ip @ ''0'')) * 10 powi decimal_exponent ''0'' False [] = real (digits_value buf) * 10 powi d"
      by (rule shift_value) (use zeros in \<open>simp add: decimal_exponent_def\<close>)
    ultimately show ?thesis using that by blast
  next
    case point
    let ?ip = "take (nat ?n) buf" and ?fp = "drop (nat ?n) buf"
    have "hd ?ip = hd buf" "?ip \<noteq> []" "?fp \<noteq> []" using point ad(2) by (simp_all add: hd_take)
    then have "float_text ?ip ?fp False []" using ad all_digits_take_drop [OF ad(1)] by (simp add: float_text_def)
    moreover have "format_buffer buf d (- 4) 15 = Inr (decimal_text ?ip ?fp False [])"
      using point \<open>?fp \<noteq> []\<close> by (simp add: format_buffer_def Let_def decimal_text_def exponent_text_def)
    moreover have "length (decimal_text ?ip ?fp False []) \<le> 23"
      using buf(2) point by (simp add: decimal_text_def exponent_text_def)
    moreover have "real (digits_value (?ip @ ?fp)) * 10 powi decimal_exponent ?fp False [] = real (digits_value buf) * 10 powi d"
      using point by (simp add: decimal_exponent_def)
    ultimately show ?thesis using that by blast
  next
    case small
    let ?fp = "replicate (nat (- ?n)) (CHR ''0'') @ buf"
    have "d < 0" using small k0 by linarith
    have "float_text ''0'' ?fp False []" using ad by (simp add: float_text_def)
    moreover have "format_buffer buf d (- 4) 15 = Inr (decimal_text ''0'' ?fp False [])"
      using small k0 ad(2) \<open>d < 0\<close> by (simp add: format_buffer_def Let_def decimal_text_def exponent_text_def)
    moreover have "length (decimal_text ''0'' ?fp False []) \<le> 23"
    proof -
      have "nat (- ?n) \<le> 3" using small by linarith
      then have "length ?fp \<le> 20" unfolding length_append length_replicate using buf(2) by linarith
      then show ?thesis unfolding decimal_text_def exponent_text_def by (simp del: length_replicate)
    qed
    moreover have "digits_value (''0'' @ ?fp) = digits_value buf"
      using digits_value_append [of "replicate (Suc (nat (- ?n))) (CHR ''0'')" buf] digits_value_zeros [of "Suc (nat (- ?n))"]
      by simp
    then have "real (digits_value (''0'' @ ?fp)) * 10 powi decimal_exponent ?fp False [] = real (digits_value buf) * 10 powi d"
      using small by (simp add: decimal_exponent_def)
    ultimately show ?thesis using that by blast
  next
    case expo
    obtain es where es: "append_exponent (?n - 1) = Inr ([if ?n - 1 < 0 then CHR ''-'' else CHR ''+''] @ es)" "all_digits es"
        "es \<noteq> []" "digits_value es = nat \<bar>?n - 1\<bar>" "length es \<le> 3"
      by (rule append_exponent [OF n])
    let ?ip = "take 1 buf" and ?fp = "drop 1 buf" and ?neg = "?n - 1 < 0"
    have hd: "hd ?ip = hd buf" "?ip \<noteq> []" using ad(2) by (cases buf; simp)+
    then have "float_text ?ip ?fp ?neg es" using ad all_digits_take_drop [OF ad(1)] es by (simp add: float_text_def)
    moreover have "format_buffer buf d (- 4) 15 = Inr (decimal_text ?ip ?fp ?neg es)"
    proof -
      have g: "\<not> (?k \<le> ?n \<and> ?n \<le> 15)" "\<not> (0 < ?n \<and> ?n \<le> 15)" "\<not> (- 4 < ?n \<and> ?n \<le> 0)"
        using expo k0 by linarith+
      have "(if ?k = 1 then buf else take 1 buf @ ''.'' @ drop 1 buf) = ?ip @ (if ?fp = [] then [] else ''.'' @ ?fp)"
        using ad(2) by (cases buf) auto
      then show ?thesis
        using es(3) by (simp only: format_buffer_def Let_def if_not_P [OF g(1)] if_not_P [OF g(2)] if_not_P [OF g(3)] es(1)
            rbind_Inr decimal_text_def exponent_text_def if_False append_assoc append_Cons append_Nil)
    qed
    moreover have "length (decimal_text ?ip ?fp ?neg es) \<le> 23"
      using buf(2) es(5) unfolding decimal_text_def exponent_text_def by auto
    moreover have "decimal_exponent ?fp ?neg es = d"
      using k0 by (simp add: decimal_exponent_def es(4) of_nat_diff Suc_le_eq)
    then have "real (digits_value (?ip @ ?fp)) * 10 powi decimal_exponent ?fp ?neg es = real (digits_value buf) * 10 powi d"
      by simp
    ultimately show ?thesis using that by blast
  qed
qed
section \<open>A double is written and read whole\<close>

lemma pow2_below_pow10: "(2::real) ^ (3 * n) \<le> 10 ^ n"
  unfolding power_mult by (rule power_mono) simp_all

text \<open>The place of the decimal point stays far below a thousand.\<close>

lemma point_bounds:
  assumes x: "\<not> dbl_sign x" "x \<noteq> 0" "dbl_isfinite x" and buf: "numeral_text buf"
    and b: "dbl_lower x < real (digits_value buf) * 10 powi d" "real (digits_value buf) * 10 powi d < dbl_upper x"
  shows "- 1000 < int (length buf) + d - 1" "int (length buf) + d - 1 < 1000"
proof -
  let ?D = "real (digits_value buf) * 10 powi d" and ?u = "2 powi dbl_exp x :: real" and ?M = "real (dbl_mant x)"
  have M: "1 \<le> ?M" "?M + 1 \<le> 2 ^ 53" using dbl_mant_pos [OF x(1,2)] dbl_mant_less [of x] by simp_all
  have "dbl_exponent x \<le> 2046" using x(3) dbl_exponent_less [of x] by (simp add: dbl_isfinite_def)
  then have q: "- 1074 \<le> dbl_exp x" "dbl_exp x \<le> 971" by (simp_all add: dbl_exp_def)
  have u: "0 < ?u" "?u \<le> 2 powi 971" "2 powi (- 1074) \<le> ?u"
    using power_int_increasing [OF q(1), of "2::real"] power_int_increasing [OF q(2), of "2::real"] by simp_all
  have p: "(10::real) powi d = 10 powi (int (length buf) + d) / 10 ^ length buf"
    by (simp add: power_int_add power_int_of_nat)
  have len: "0 < length buf" using buf by (simp add: numeral_text_def)
  have up: "real (digits_value buf) < 10 ^ length buf"
    using digits_value_less [of buf] buf by (simp add: numeral_text_def)
  have low: "10 ^ (length buf - 1) \<le> real (digits_value buf)"
    using numeral_text_value [OF buf] by (metis of_nat_le_iff of_nat_numeral of_nat_power)
  show "int (length buf) + d - 1 < 1000"
  proof (rule ccontr)
    assume "\<not> ?thesis"
    then have "(10::real) powi 342 \<le> 10 powi (int (length buf - 1) + d)" using len by (intro power_int_increasing) auto
    also have "\<dots> = 10 ^ (length buf - 1) * 10 powi d" by (simp add: power_int_add power_int_of_nat)
    also have "\<dots> \<le> ?D" using low by (intro mult_right_mono) auto
    also have "\<dots> < (?M + 1) * ?u" using b(2) u(1) unfolding dbl_upper_def distrib_right by linarith
    also have "\<dots> \<le> 2 ^ 53 * 2 powi 971" using M u by (intro mult_mono) auto
    also have "\<dots> \<le> 2 ^ (3 * 342)" by simp
    also have "\<dots> \<le> 10 ^ 342" by (rule pow2_below_pow10)
    finally show False by simp
  qed
  show "- 1000 < int (length buf) + d - 1"
  proof (rule ccontr)
    assume "\<not> ?thesis"
    then have "int (length buf) + d \<le> - 359" by simp
    then have "(10::real) powi (int (length buf) + d) \<le> 10 powi (- 359)" by (rule power_int_increasing) simp
    moreover have "?D < 10 powi (int (length buf) + d)"
      using up unfolding p by (simp add: field_simps)
    moreover have "(2::real) powi (- 1077) \<le> ?D"
    proof -
      have "(2::real) powi (- 1077) \<le> 1 / 2 * 2 powi (- 1074)" by (simp add: power_int_minus)
      also have "\<dots> \<le> 1 / 2 * ?u" using u(3) by simp
      also have "\<dots> \<le> (?M - (if lower_closer x then 1 / 4 else 1 / 2)) * ?u"
        using M(1) u(1) by (intro mult_right_mono) auto
      finally show ?thesis using b(1) by (simp add: dbl_lower_def)
    qed
    moreover have "(10::real) powi (- 359) \<le> 2 powi (- 1077)"
      using pow2_below_pow10 [of 359] by (simp add: power_int_minus le_imp_inverse_le)
    ultimately show False by linarith
  qed
qed

text \<open>The sign bit and the rest.\<close>

lemma odd_less_2: "n < 2 \<Longrightarrow> odd n \<longleftrightarrow> n = 1" for n :: nat
  by (auto dest: less_2_cases)

lemma dbl_sign_split:
  defines "v x \<equiv> if dbl_sign x then x AND (push_bit 63 1 - 1) else x"
  shows "\<not> dbl_sign (v x)" "unat x = (if dbl_sign x then 2 ^ 63 else 0) + unat (v x)"
proof -
  have sg: "dbl_sign y \<longleftrightarrow> 2 ^ 63 \<le> unat y" for y
  proof -
    have "unat y div 2 ^ 63 < 2" using unat_u64 [of y] by (simp add: less_mult_imp_div_less)
    moreover have "dbl_sign y \<longleftrightarrow> odd (unat y div 2 ^ 63)"
      using bit_unsigned_iff [of y 63, where 'a = nat] by (simp add: dbl_sign_def bit_iff_odd [of "unat y"])
    ultimately have "dbl_sign y \<longleftrightarrow> unat y div 2 ^ 63 = 1" by (simp only: odd_less_2)
    also have "\<dots> \<longleftrightarrow> 2 ^ 63 \<le> unat y" using unat_u64 [of y] by (auto simp: div_nat_eqI)
    finally show ?thesis .
  qed
  have "push_bit 63 (1::u64) - 1 = mask 63" by (simp add: mask_eq_exp_minus_1 push_bit_eq_mult)
  then have "unat (x AND (push_bit 63 1 - 1)) = unat (take_bit 63 x)" by (simp add: take_bit_eq_mask)
  then have m: "unat (x AND (push_bit 63 1 - 1)) = unat x mod 2 ^ 63"
    by (simp only: unsigned_take_bit_eq take_bit_eq_mod [where 'a = nat])
  then show "\<not> dbl_sign (v x)" unfolding sg [of "v x"] by (auto simp: v_def sg)
  have "unat x = 2 ^ 63 + unat x mod 2 ^ 63" if "2 ^ 63 \<le> unat x"
    using that unat_u64 [of x] le_mod_geq [of "2 ^ 63" "unat x"] by simp
  then show "unat x = (if dbl_sign x then 2 ^ 63 else 0) + unat (v x)" using m by (auto simp: v_def sg)
qed

text \<open>Every finite double has a decimal text, which \<open>strtod\<close> reads as the same double.\<close>

lemma dbl_of_ratio_decimal:
  assumes x: "\<not> dbl_sign x" "x \<noteq> 0" "dbl_isfinite x"
    and r: "dbl_lower x < real m * 10 powi e" "real m * 10 powi e < dbl_upper x"
  shows "dbl_of_ratio (m * 10 ^ nat e) (10 ^ nat (- e)) = unat x"
  by (rule dbl_of_ratio_nearest [OF x]) (use r in \<open>simp_all add: powi_split\<close>)

theorem to_chars_reads:
  assumes fin: "dbl_isfinite x"
  obtains ip fp neg es where "to_chars x = Inr ((if dbl_sign x then ''-'' else []) @ decimal_text ip fp neg es)"
    "float_text ip fp neg es" "length (decimal_text ip fp neg es) \<le> 23" "strtod ((if dbl_sign x then ''-'' else []) @ decimal_text ip fp neg es) = x"
proof -
  define v where "v = (if dbl_sign x then x AND (push_bit 63 1 - 1) else x)"
  note v = dbl_sign_split [of x, folded v_def]
  have finv: "dbl_isfinite v"
  proof -
    have "(2 ^ 63 + n) div 2 ^ 52 mod 2 ^ 11 = n div 2 ^ 52 mod 2 ^ 11" for n :: nat
    proof -
      have "(2 ^ 63 + n) div 2 ^ 52 = (2 ^ 11 * 2 ^ 52 + n) div 2 ^ 52" by (simp only: power_add [symmetric]) simp
      also have "\<dots> = 2 ^ 11 + n div 2 ^ 52" by (rule div_mult_self3) simp
      finally show ?thesis by simp
    qed
    then show ?thesis
      using fin unfolding dbl_isfinite_def dbl_exponent_def v(2) by (cases "dbl_sign x") simp_all
  qed
  have whole: "x = word_of_nat ((if dbl_sign x then 2 ^ 63 else 0) + unat v)"
    unfolding v(2) [symmetric] by simp
  have "\<exists>ip fp neg es. (if v = 0 then Inr ''0.0'' else rbind (grisu2 v) (\<lambda>(buf, d). json_assert (length buf \<le> 17) ''len <= max_digits10''
      (format_buffer buf d (- 4) 15))) = Inr (decimal_text ip fp neg es) \<and> float_text ip fp neg es
      \<and> length (decimal_text ip fp neg es) \<le> 23 \<and> decimal_value ip fp neg es = unat v"
  proof (cases "v = 0")
    case True
    then show ?thesis
      by (intro exI [of _ "''0''"] exI [of _ "''0''"] exI [of _ False] exI [of _ "[]"])
        (simp add: decimal_text_def exponent_text_def float_text_def decimal_value_def Let_def dbl_of_ratio_def
          digits_value_def digit_value_def)
  next
    case False
    obtain buf d where g: "grisu2 v = Inr (buf, d)" "numeral_text buf" "length buf \<le> 17"
        "dbl_lower v < real (digits_value buf) * 10 powi d" "real (digits_value buf) * 10 powi d < dbl_upper v"
      by (rule grisu2_between [OF v(1) False finv])
    obtain ip fp neg es where f: "format_buffer buf d (- 4) 15 = Inr (decimal_text ip fp neg es)" "float_text ip fp neg es"
        "length (decimal_text ip fp neg es) \<le> 23" "real (digits_value (ip @ fp)) * 10 powi decimal_exponent fp neg es = real (digits_value buf) * 10 powi d"
      by (rule format_buffer [OF g(2,3) point_bounds [OF v(1) False finv g(2,4,5)]])
    have "decimal_value ip fp neg es = unat v"
      unfolding decimal_value_def Let_def
      by (rule dbl_of_ratio_decimal [OF v(1) False finv]) (use f(4) g(4,5) in simp_all)
    then show ?thesis using False g f by auto
  qed
  then obtain ip fp neg es where t: "(if v = 0 then Inr ''0.0'' else rbind (grisu2 v) (\<lambda>(buf, d).
        json_assert (length buf \<le> 17) ''len <= max_digits10'' (format_buffer buf d (- 4) 15))) = Inr (decimal_text ip fp neg es)"
      "float_text ip fp neg es" "length (decimal_text ip fp neg es) \<le> 23" "decimal_value ip fp neg es = unat v" by blast
  have "to_chars x = Inr ((if dbl_sign x then ''-'' else []) @ decimal_text ip fp neg es)"
    using t(1) unfolding to_chars_def Let_def v_def [symmetric]
    by (auto simp: rbind_iffs json_assert_eq_Inr split: if_splits prod.splits)
  moreover have "strtod ((if dbl_sign x then ''-'' else []) @ decimal_text ip fp neg es) = x"
    using strtod_decimal [of ip fp es "dbl_sign x" neg] t(2,4) whole by (simp add: float_text_def)
  ultimately show ?thesis using that t(2,3) by blast
qed

text \<open>Writing a double never fails.\<close>

lemma to_chars_finite:
  assumes "dbl_isfinite x"
  obtains t where "to_chars x = Inr t"
  using to_chars_reads [OF assms] by metis

lemma dump_float_text: "\<exists>t. dump_float x = Inr t"
  by (cases "dbl_isfinite x") (auto simp: dump_float_def elim: to_chars_finite)

text \<open>The text fits the serializer's buffer of 64 characters with room to spare.\<close>

lemma dump_float_reads:
  assumes "dbl_isfinite x"
  shows "\<exists>t. dump_float x = Inr t \<and> strtod t = x \<and> length t \<le> 24"
proof -
  obtain ip fp neg es where t: "to_chars x = Inr ((if dbl_sign x then ''-'' else []) @ decimal_text ip fp neg es)"
      "length (decimal_text ip fp neg es) \<le> 23" "strtod ((if dbl_sign x then ''-'' else []) @ decimal_text ip fp neg es) = x"
    by (rule to_chars_reads [OF assms])
  then have "length ((if dbl_sign x then ''-'' else []) @ decimal_text ip fp neg es) \<le> 24" by simp
  then show ?thesis using t assms unfolding dump_float_def by metis
qed

end
