(* ===== verification/FloatScan.thy ===== *)
theory FloatScan
  imports Scanning GrisuText
begin

unbundle bit_operations_syntax

text \<open>
  The lexer on the text of a double: the states of the number machine are passed one part of the
  text after the other, and the token is the double the text was made from.
\<close>

section \<open>From state to state\<close>

definition moves :: "num_state \<Rightarrow> token_type \<Rightarrow> string \<Rightarrow> num_state \<Rightarrow> token_type \<Rightarrow> bool" where
  "moves st t w st' t' \<longleftrightarrow> (\<forall>l s. unread l (w @ s) \<longrightarrow>
     (\<exists>l'. scan_number_loop st t l = scan_number_loop st' t' l' \<and> unread l' s
        \<and> lx_token_buffer l' = lx_token_buffer l @ w))"

lemma movesD:
  assumes "moves st t w st' t'" "unread l (w @ s)"
  obtains l' where "scan_number_loop st t l = scan_number_loop st' t' l'" "unread l' s"
    "lx_token_buffer l' = lx_token_buffer l @ w"
  using assms unfolding moves_def by blast

lemma moves_Nil [simp]: "moves st t [] st t"
  by (auto simp: moves_def)

lemma moves_append: "moves st t v st1 t1 \<Longrightarrow> moves st1 t1 w st2 t2 \<Longrightarrow> moves st t (v @ w) st2 t2"
  unfolding moves_def by (metis append.assoc)

lemma view_add_number_char [simp]:
  "unread (add_number_char l) s = unread l s"
  by (simp add: add_number_char_def)

lemma buffer_add_number_char:
  "plain l \<Longrightarrow> lx_token_buffer (add_number_char l) = lx_token_buffer l @ [chr (lx_current l)]"
  by (simp add: add_number_char_def plain_def)

lemma moves_char:
  assumes "scan_number_next st (byte c) = Goto st'"
  shows "moves st t [c] st' (number_type_at st t)"
  unfolding moves_def
proof (intro allI impI)
  fix l s assume "unread l ([c] @ s)"
  then have r: "reading (get l) (byte c) s" by (simp add: get_at_Cons)
  then have cur: "lx_current (get l) = byte c" and p: "plain (get l)" by (simp_all add: reading_def)
  have "scan_number_loop st t l = scan_number_loop st' (number_type_at st t) (add_number_char (get l))"
    by (subst scan_number_loop.simps) (simp add: Let_def cur assms)
  then show "\<exists>l'. scan_number_loop st t l = scan_number_loop st' (number_type_at st t) l' \<and> unread l' s
      \<and> lx_token_buffer l' = lx_token_buffer l @ [c]"
    using reading_at [OF r] buffer_add_number_char [OF p] cur by auto
qed

text \<open>Three states stay where they are on a digit.\<close>

lemma moves_digits:
  assumes "st = N_any1 \<or> st = N_decimal2 \<or> st = N_any2"
  shows "all_digits ds \<Longrightarrow> moves st t ds st t"
proof (induction ds)
  case (Cons d ds)
  then have d: "is_digit_code (byte d)" by (simp add: is_digit_byte)
  then have "scan_number_next st (byte d) = Goto st"
    using assms by (auto simp: scan_number_any1_def scan_number_decimal2_def scan_number_any2_def)
  from moves_char [OF this, of t] have "moves st t [d] st t" using assms by auto
  from moves_append [OF this] Cons show ?case by simp
qed simp

definition first_state :: "char \<Rightarrow> num_state" where
  "first_state d = (if d = CHR ''0'' then N_zero else N_any1)"

lemma moves_point: "is_digit f \<Longrightarrow> all_digits fs \<Longrightarrow> moves (first_state d) t (''.'' @ f # fs) N_decimal2 Tok_value_float"
proof -
  assume f: "is_digit f" "all_digits fs"
  have "scan_number_next (first_state d) (byte (CHR ''.'')) = Goto N_decimal1"
    by (simp add: first_state_def scan_number_zero_def scan_number_any1_def)
  from moves_char [OF this, of t] have 1: "moves (first_state d) t ''.'' N_decimal1 t"
    by (cases "d = CHR ''0''") (simp_all add: first_state_def)
  have "scan_number_next N_decimal1 (byte f) = Goto N_decimal2"
    using f(1) by (simp add: scan_number_decimal1_def is_digit_byte)
  from moves_char [OF this, of t] have 2: "moves N_decimal1 t [f] N_decimal2 Tok_value_float" by simp
  show ?thesis
    using moves_append [OF 1 moves_append [OF 2 moves_digits [OF _ f(2), of N_decimal2]]] by simp
qed

lemma moves_exponent:
  assumes st: "st = first_state d \<or> st = N_decimal2" and es: "all_digits es" "es \<noteq> []"
  shows "moves st t (exponent_text neg es) N_any2 Tok_value_float"
proof -
  obtain e es' where e: "es = e # es'" using es(2) by (cases es) auto
  let ?c = "if neg then CHR ''-'' else CHR ''+''"
  have "scan_number_next st (byte (CHR ''e'')) = Goto N_exponent"
    using st by (auto simp: first_state_def scan_number_zero_def scan_number_any1_def scan_number_decimal2_def)
  moreover have "number_type_at st t = t" using st by (auto simp: first_state_def)
  ultimately have 1: "moves st t ''e'' N_exponent t" using moves_char [of st "CHR ''e''" N_exponent t] by simp
  have "scan_number_next N_exponent (byte ?c) = Goto N_sign" by (simp add: scan_number_exponent_def)
  from moves_char [OF this, of t] have 2: "moves N_exponent t [?c] N_sign Tok_value_float" by simp
  have "scan_number_next N_sign (byte e) = Goto N_any2" using es(1) e by (simp add: scan_number_sign_def is_digit_byte)
  from moves_char [OF this, of Tok_value_float] have 3: "moves N_sign Tok_value_float [e] N_any2 Tok_value_float" by simp
  have 4: "moves N_any2 Tok_value_float es' N_any2 Tok_value_float" using moves_digits [of N_any2 es'] es(1) e by simp
  show ?thesis
    using moves_append [OF 1 moves_append [OF 2 moves_append [OF 3 4]]] by (simp add: exponent_text_def e)
qed

lemma moves_decimal:
  assumes "float_text (d # ds) fp neg es"
  obtains st where "st = N_decimal2 \<or> st = N_any2"
    "moves (first_state d) t (ds @ (if fp = [] then [] else ''.'' @ fp) @ exponent_text neg es) st Tok_value_float"
proof -
  have f: "all_digits ds" "d = CHR ''0'' \<longrightarrow> ds = []" "all_digits fp" "all_digits es" "fp \<noteq> [] \<or> es \<noteq> []"
    using assms by (auto simp: float_text_def)
  have 1: "moves (first_state d) t ds (first_state d) t"
    using f(1,2) moves_digits [of N_any1 ds t] by (auto simp: first_state_def)
  show ?thesis
  proof (cases fp)
    case Nil
    then have "moves (first_state d) t (exponent_text neg es) N_any2 Tok_value_float"
      using f by (intro moves_exponent) auto
    from moves_append [OF 1 this] Nil that show ?thesis by auto
  next
    case (Cons c cs)
    then have 2: "moves (first_state d) t (''.'' @ fp) N_decimal2 Tok_value_float"
      using f(3) moves_point [of c cs] by simp
    show ?thesis
    proof (cases "es = []")
      case True
      then have "moves (first_state d) t (ds @ (if fp = [] then [] else ''.'' @ fp) @ exponent_text neg es) N_decimal2 Tok_value_float"
        using moves_append [OF 1 2] Cons by (simp add: exponent_text_def)
      then show ?thesis using that by blast
    next
      case False
      have "moves N_decimal2 Tok_value_float (exponent_text neg es) N_any2 Tok_value_float"
        using f(4) False by (intro moves_exponent) auto
      from moves_append [OF 1 moves_append [OF 2 this]] Cons that show ?thesis by auto
    qed
  qed
qed

lemma float_loop_ends:
  assumes "unread l s" "st = N_decimal2 \<or> st = N_any2" "ends_integer s"
  shows "scan_number_loop st Tok_value_float l = (Tok_value_float, unget (get l))" "unread (unget (get l)) s"
proof -
  have "lx_current (get l) = next_code_of s" by (rule reading_current [OF get_next [OF at_starts [OF assms(1)]]])
  then show "scan_number_loop st Tok_value_float l = (Tok_value_float, unget (get l))"
    using assms(2) ends_integer_next [OF assms(3)]
    by (auto simp: scan_number_loop.simps [of st] Let_def scan_number_decimal2_def scan_number_any2_def)
qed (rule unget_get_at [OF assms(1)])

lemma decimal_reads:
  assumes "float_text (d # ds) fp neg es" "ends_integer s"
    "unread l (ds @ (if fp = [] then [] else ''.'' @ fp) @ exponent_text neg es @ s)"
  shows "\<exists>l'. scan_number_loop (first_state d) t l = (Tok_value_float, l') \<and> unread l' s
    \<and> lx_token_buffer l' = lx_token_buffer l @ ds @ (if fp = [] then [] else ''.'' @ fp) @ exponent_text neg es"
proof -
  obtain st where st: "st = N_decimal2 \<or> st = N_any2"
      "moves (first_state d) t (ds @ (if fp = [] then [] else ''.'' @ fp) @ exponent_text neg es) st Tok_value_float"
    by (rule moves_decimal [OF assms(1)])
  obtain l' where l': "scan_number_loop (first_state d) t l = scan_number_loop st Tok_value_float l'" "unread l' s"
      "lx_token_buffer l' = lx_token_buffer l @ ds @ (if fp = [] then [] else ''.'' @ fp) @ exponent_text neg es"
    by (rule movesD [OF st(2), of l s]) (use assms(3) in simp_all)
  show ?thesis using l' float_loop_ends [OF l'(2) st(1) assms(2)] by auto
qed

section \<open>The token\<close>

lemma lexer_get_string_plain: "unread l s \<Longrightarrow> lexer_get_string l = lx_token_buffer l"
  by (simp add: lexer_get_string_def unread_def starts_def plain_def split: option.split)

text \<open>The first character has been read, the loop goes on with the rest.\<close>

lemma scan_number_float:
  assumes "reading l (byte c) (cs @ s)" "c # cs = (if sg then ''-'' else []) @ decimal_text ip fp neg es"
    "float_text ip fp neg es" "ends_integer s"
  shows "\<exists>l'. scan_number l = (Tok_value_float, l') \<and> unread l' s \<and> lx_token_buffer l' = c # cs
    \<and> lx_value_float l' = strtod (c # cs)"
proof -
  obtain d ds where ip: "ip = d # ds" using assms(3) by (cases ip) (auto simp: float_text_def)
  let ?rest = "ds @ (if fp = [] then [] else ''.'' @ fp) @ exponent_text neg es"
  have d: "is_digit d" using assms(3) ip by (simp add: float_text_def)
  have first: "scan_number_init (byte d) = first_state d" "scan_number_next N_minus (byte d) = Goto (first_state d)"
    using d byte_codes(4) [of d] by (auto simp: scan_number_init_def scan_number_minus_def first_state_def is_digit_byte)
  let ?l = "add (byte c) (reset_token l)"
  have u: "unread ?l (cs @ s)" using reading_at [OF assms(1)] by simp
  have "\<exists>l'. scan_number_loop (scan_number_init (byte c)) Tok_value_unsigned ?l = (Tok_value_float, l') \<and> unread l' s
      \<and> lx_token_buffer l' = c # cs"
  proof (cases sg)
    case False
    then have c: "c = d" "cs = ?rest" using assms(2) ip by (simp_all add: decimal_text_def)
    show ?thesis
      using decimal_reads [OF assms(3) [unfolded ip] assms(4), of ?l Tok_value_unsigned] u
      by (simp add: c first(1))
  next
    case True
    then have c: "c = CHR ''-''" "cs = d # ?rest" using assms(2) ip by (simp_all add: decimal_text_def)
    have m: "moves N_minus Tok_value_unsigned [d] (first_state d) Tok_value_integer"
      using moves_char [OF first(2), of Tok_value_unsigned] by simp
    obtain l1 where l1: "scan_number_loop N_minus Tok_value_unsigned ?l = scan_number_loop (first_state d) Tok_value_integer l1"
        "unread l1 (?rest @ s)" "lx_token_buffer l1 = lx_token_buffer ?l @ [d]"
      by (rule movesD [OF m, of ?l "?rest @ s"]) (use u c in simp_all)
    have "scan_number_init (byte c) = N_minus" by (simp add: c scan_number_init_def)
    moreover have "chr 45 = CHR ''-''" by (simp flip: byte_eq_iff)
    ultimately show ?thesis
      using decimal_reads [OF assms(3) [unfolded ip] assms(4), of l1 Tok_value_integer] l1 by (simp add: c)
  qed
  then show ?thesis
    using reading_current [OF assms(1)] by (auto simp: scan_number_def Let_def scan_number_done_def)
qed

lemma to_chars_start:
  assumes "dbl_isfinite x" "to_chars x = Inr t"
  obtains c cs where "t = c # cs" "c = CHR ''-'' \<or> is_digit c"
proof -
  obtain ip fp neg es where t: "t = (if dbl_sign x then ''-'' else []) @ decimal_text ip fp neg es" "float_text ip fp neg es"
    by (rule to_chars_reads [OF assms(1)]) (use assms(2) in auto)
  then obtain d ds where "ip = d # ds" "is_digit d" by (cases ip) (auto simp: float_text_def)
  then show ?thesis using t that by (cases "dbl_sign x") (auto simp: decimal_text_def)
qed

theorem token_float:
  assumes "ready l (ws @ t @ s)" "white ws" "ends_integer s" "dbl_isfinite x" "to_chars x = Inr t"
  shows "token l Tok_value_float s (\<lambda>l'. lx_value_float l' = x \<and> lexer_get_string l' = t)"
proof -
  obtain ip fp neg es where t: "t = (if dbl_sign x then ''-'' else []) @ decimal_text ip fp neg es"
      "float_text ip fp neg es" "strtod t = x"
    by (rule to_chars_reads [OF assms(4)]) (use assms(5) in auto)
  obtain c cs where c: "t = c # cs" "c = CHR ''-'' \<or> is_digit c"
    by (rule to_chars_start [OF assms(4,5)])
  obtain l' where l': "scan l = scan_token l'" "reading l' (byte c) (cs @ s)"
    by (rule scan_ready [OF assms(1,2)])
      (use c in \<open>auto simp: next_code_of_def is_whitespace_def is_digit_def\<close>)
  have "scan_token l' = scan_number l'"
    using c(2) reading_current [OF l'(2)] by (auto simp: scan_token_def is_digit_def)
  then show ?thesis
    using scan_number_float [OF l'(2) _ t(2) assms(3), of "dbl_sign x"] l'(1) c(1) t(1,3)
    by (fastforce simp: token_def lexer_get_string_plain)
qed

end
