(* ===== verification/Dumping.thy ===== *)
theory Dumping
  imports Escaping GrisuText
begin

text \<open>
  \<open>dump\<close> refines a function from values to text: compact or indented, it appends exactly that
  text, or throws type error 316 where a string is not UTF-8. Indentation never reads outside
  the indentation string as long as a step is at most 512.
\<close>

section \<open>Which values can be dumped, and to what\<close>

function (sequential) dump_text :: "json \<Rightarrow> bool \<Rightarrow> bool \<Rightarrow> u32 \<Rightarrow> u32 \<Rightarrow> string"
  and members_text :: "(string \<times> json) list \<Rightarrow> bool \<Rightarrow> bool \<Rightarrow> u32 \<Rightarrow> u32 \<Rightarrow> string"
  and elements_text :: "json list \<Rightarrow> bool \<Rightarrow> bool \<Rightarrow> u32 \<Rightarrow> u32 \<Rightarrow> string"
where
  "dump_text (JObject m) pp ea step cur =
     (if m = [] then ''{}''
      else ''{'' @ (if pp then newline else []) @ members_text m pp ea step (deeper pp step cur)
         @ (if pp then newline @ replicate (unat cur) (CHR '' '') else []) @ ''}'')"
| "dump_text (JArray xs) pp ea step cur =
     (if xs = [] then ''[]''
      else ''['' @ (if pp then newline else []) @ elements_text xs pp ea step (deeper pp step cur)
         @ (if pp then newline @ replicate (unat cur) (CHR '' '') else []) @ '']'')"
| "dump_text (JString s) pp ea step cur = quote @ escape ea s @ quote"
| "dump_text (JBinary bs st) pp ea step cur =
     (if pp
      then ''{'' @ newline @ replicate (unat (cur + step)) (CHR '' '')
         @ quote @ ''bytes'' @ quote @ '': ['' @ dump_bytes '', '' bs @ ''],'' @ newline
         @ replicate (unat (cur + step)) (CHR '' '')
         @ quote @ ''subtype'' @ quote @ '': '' @ dump_subtype st @ newline
         @ replicate (unat cur) (CHR '' '') @ ''}''
      else ''{'' @ quote @ ''bytes'' @ quote @ '':['' @ dump_bytes '','' bs
             @ ''],'' @ quote @ ''subtype'' @ quote @ '':'' @ dump_subtype st @ ''}'')"
| "dump_text (JBoolean b) pp ea step cur = (if b then ''true'' else ''false'')"
| "dump_text (JNumber_integer n) pp ea step cur = dump_signed n"
| "dump_text (JNumber_unsigned n) pp ea step cur = dump_unsigned n"
| "dump_text (JNumber_float x) pp ea step cur = (case dump_float x of Inr t \<Rightarrow> t | Inl _ \<Rightarrow> [])"
| "dump_text JDiscarded pp ea step cur = ''<discarded>''"
| "dump_text JNull pp ea step cur = ''null''"
| "members_text [] pp ea step cur = []"
| "members_text (p # ps) pp ea step cur =
     (if pp then replicate (unat cur) (CHR '' '') else []) @ quote @ escape ea (fst p) @ quote
       @ (if pp then '': '' else '':'') @ dump_text (snd p) pp ea step cur
       @ (if ps = [] then [] else '','' @ (if pp then newline else []) @ members_text ps pp ea step cur)"
| "elements_text [] pp ea step cur = []"
| "elements_text (x # xs) pp ea step cur =
     (if pp then replicate (unat cur) (CHR '' '') else []) @ dump_text x pp ea step cur
       @ (if xs = [] then [] else '','' @ (if pp then newline else []) @ elements_text xs pp ea step cur)"
  by pat_completeness auto
termination
  by (relation "measure (\<lambda>x. case x of
        Inl (v, _) \<Rightarrow> size v
      | Inr (Inl (ps, _)) \<Rightarrow> size_list (\<lambda>p. Suc (size (snd p))) ps
      | Inr (Inr (xs, _)) \<Rightarrow> size_list size xs)")
     (auto simp: size_prod_simp)

text \<open>Every string and key is UTF-8.\<close>

lemma size_member [termination_simp]: "p \<in> set m \<Longrightarrow> size (snd p) < size (JObject m)"
  using size_list_estimation' [of p m "Suc (size (snd p))" "\<lambda>x. Suc (size (snd x))"]
  by (simp add: size_prod_simp)

lemma size_element [termination_simp]: "x \<in> set xs \<Longrightarrow> size x < size (JArray xs)"
  using size_list_estimation' [of x xs "size x" size] by simp

fun utf8_json :: "json \<Rightarrow> bool" where
  "utf8_json (JObject m) \<longleftrightarrow> (\<forall>p \<in> set m. utf8_valid (fst p) \<and> utf8_json (snd p))"
| "utf8_json (JArray xs) \<longleftrightarrow> (\<forall>x \<in> set xs. utf8_json x)"
| "utf8_json (JString s) \<longleftrightarrow> utf8_valid s"
| "utf8_json _ \<longleftrightarrow> True"

section \<open>What \<open>dump\<close> does to the serializer\<close>

definition blanks :: "string \<Rightarrow> bool" where
  "blanks s \<longleftrightarrow> (\<exists>k. s = replicate k (CHR '' ''))"

definition sz_good :: "serializer \<Rightarrow> bool" where
  "sz_good sz \<longleftrightarrow> sz_ok sz \<and> sz_error_handler sz = EH_strict
     \<and> blanks (sz_indent_string sz) \<and> 512 \<le> length (sz_indent_string sz)"

definition prints :: "string \<Rightarrow> serializer \<Rightarrow> serializer \<Rightarrow> bool" where
  "prints t sz sz' \<longleftrightarrow> sz_o sz' = sz_o sz @ t \<and> sz_good sz'
     \<and> length (sz_indent_string sz) \<le> length (sz_indent_string sz')"

text \<open>A result is the text where \<open>ok\<close> holds, type error 316 elsewhere.\<close>

definition printed :: "bool \<Rightarrow> string \<Rightarrow> serializer \<Rightarrow> serializer res \<Rightarrow> bool" where
  "printed ok t sz r \<longleftrightarrow> (case r of
     Inr sz' \<Rightarrow> ok \<and> prints t sz sz' | Inl e \<Rightarrow> \<not> ok \<and> is_type_error_316 e)"

lemma prints_trans: "prints s a b \<Longrightarrow> prints t b c \<Longrightarrow> prints (s @ t) a c"
  by (simp add: prints_def)

lemma appends_prints: "sz_good sz \<Longrightarrow> appends t sz sz' \<Longrightarrow> prints t sz sz'"
  by (auto simp: appends_def prints_def sz_good_def)

lemma prints_write_characters: "sz_good sz \<Longrightarrow> prints t sz (write_characters t sz)"
  by (simp add: appends_prints)

lemma prints_write_character: "sz_good sz \<Longrightarrow> prints [c] sz (write_character c sz)"
  by (simp add: appends_prints)

lemma prints_good: "prints t sz sz' \<Longrightarrow> sz_good sz'"
  by (simp add: prints_def)

lemma printed_Inr: "printed ok t sz (Inr sz') \<longleftrightarrow> ok \<and> prints t sz sz'"
  by (simp add: printed_def)

lemma printed_bind:
  assumes "printed ok s sz r"
    and "\<And>sz'. r = Inr sz' \<Longrightarrow> ok \<Longrightarrow> prints s sz sz' \<Longrightarrow> printed ok' t sz' (f sz')"
  shows "printed (ok \<and> ok') (s @ t) sz (rbind r f)"
proof (cases r)
  case (Inr sz')
  with assms(1) have "ok" "prints s sz sz'" by (auto simp: printed_def)
  with assms(2) [of sz'] Inr show ?thesis
    using prints_trans by (auto simp: printed_def split: sum.splits)
qed (use assms(1) in \<open>simp add: printed_def\<close>)

text \<open>Prefixing and suffixing with plain output.\<close>

lemma printed_after:
  assumes "prints s sz sz'" "printed ok t sz' r"
  shows "printed ok (s @ t) sz r"
  using assms prints_trans by (auto simp: printed_def split: sum.splits)

lemma printed_dump_escaped:
  assumes "sz_good sz"
  shows "printed (utf8_valid s) (escape ea s) sz (dump_escaped ea s sz)"
proof -
  have "sz_ok sz" "sz_error_handler sz = EH_strict" using assms by (auto simp: sz_good_def)
  from dump_escaped_strict [OF this, of s ea] show ?thesis
    by (auto simp: printed_def appends_prints [OF assms] split: sum.splits)
qed

lemma grow_indent:
  assumes "sz_good sz" "unat cur \<le> length (sz_indent_string sz)" "unat step \<le> 512"
  shows "prints [] sz (grow_indent (cur + step) sz)
     \<and> unat (cur + step) \<le> length (sz_indent_string (grow_indent (cur + step) sz))"
proof -
  have "unat (cur + step) \<le> unat cur + unat step" by (simp add: unat_word_ariths)
  then show ?thesis
    using assms
    by (auto simp: grow_indent_def prints_def sz_good_def sz_ok_def blanks_def Let_def
        replicate_add [symmetric])
qed

lemma write_indent:
  assumes "sz_good sz" "unat n \<le> length (sz_indent_string sz)"
  shows "printed True (replicate (unat n) (CHR '' '')) sz (write_indent n sz)"
proof -
  have "take (unat n) (sz_indent_string sz @ [chr 0]) = replicate (unat n) (CHR '' '')"
    using assms by (auto simp: blanks_def sz_good_def)
  then show ?thesis
    using assms by (simp add: write_indent_def printed_Inr prints_write_characters)
qed

lemma prints_chain [trans]: "prints s a b \<Longrightarrow> prints t b c \<Longrightarrow> prints (s @ t) a c"
  by (rule prints_trans)

lemma prints_indent: "prints t sz sz' \<Longrightarrow> n \<le> length (sz_indent_string sz) \<Longrightarrow> n \<le> length (sz_indent_string sz')"
  by (simp add: prints_def)

lemma printed_write [simp]: "sz_good sz \<Longrightarrow> printed True t sz (Inr (write_characters t sz))"
  by (simp add: printed_Inr prints_write_characters)

lemma printed_write_character: "sz_good sz \<Longrightarrow> printed True [c] sz (Inr (write_character c sz))"
  by (simp add: printed_Inr prints_write_character)

lemma printed_then:
  assumes "printed ok s sz r" "\<And>sz'. prints s sz sz' \<Longrightarrow> prints t sz' (f sz')"
  shows "printed ok (s @ t) sz (rbind r (\<lambda>sz'. Inr (f sz')))"
  using printed_bind [OF assms(1), of True t "\<lambda>sz'. Inr (f sz')"] assms(2)
  by (simp add: printed_Inr)

lemma printed_dump_key:
  assumes "sz_good sz"
  shows "printed (utf8_valid k) (quote @ escape ea k @ quote @ (if pp then '': '' else '':''))
           sz (dump_key pp ea k sz)"
proof -
  have "prints quote sz (write_characters quote sz)" by (rule prints_write_characters [OF assms])
  moreover have "printed (utf8_valid k) (escape ea k @ quote @ (if pp then '': '' else '':''))
      (write_characters quote sz) (dump_key pp ea k sz)"
    unfolding dump_key_def
    by (rule printed_then [OF printed_dump_escaped])
       (use assms in \<open>auto intro: prints_good prints_write_characters\<close>)
  ultimately show ?thesis by (rule printed_after)
qed

lemma printed_dump_string_value:
  assumes "sz_good sz"
  shows "printed (utf8_valid s) (quote @ escape ea s @ quote) sz (dump_string_value ea s sz)"
proof -
  have "prints quote sz (write_characters quote sz)" by (rule prints_write_characters [OF assms])
  moreover have "printed (utf8_valid s) (escape ea s @ quote) (write_characters quote sz)
      (dump_string_value ea s sz)"
    unfolding dump_string_value_def
    by (rule printed_then [OF printed_dump_escaped])
       (use assms in \<open>auto intro: prints_good prints_write_characters\<close>)
  ultimately show ?thesis by (rule printed_after)
qed

lemma printed_begin_element:
  assumes "sz_good sz" "unat n \<le> length (sz_indent_string sz)"
  shows "printed True (if pp then replicate (unat n) (CHR '' '') else []) sz (begin_element pp n sz)"
  using assms write_indent [OF assms]
  by (auto simp: begin_element_def printed_Inr prints_def)

lemma prints_separate:
  "sz_good sz \<Longrightarrow> prints ('','' @ (if pp then newline else [])) sz (separate pp sz)"
  using prints_write_characters [of sz "'','' @ newline"] prints_write_character [of sz "CHR '',''"]
  by (simp add: separate_def)

lemma printed_close:
  assumes "sz_good sz" "unat cur \<le> length (sz_indent_string sz)"
  shows "printed True ((if pp then newline @ replicate (unat cur) (CHR '' '') else []) @ [c]) sz
           (close_container c pp cur sz)"
proof (cases pp)
  case True
  have n: "prints newline sz (write_characters newline sz)" by (rule prints_write_characters [OF assms(1)])
  have "printed True (replicate (unat cur) (CHR '' '') @ [c]) (write_characters newline sz)
      (close_container c pp cur sz)"
    unfolding close_container_def if_P [OF True]
    by (rule printed_then [OF write_indent])
       (use n assms in \<open>auto intro: prints_good prints_write_character prints_indent\<close>)
  then show ?thesis using printed_after [OF n] True by simp
qed (use assms in \<open>simp add: close_container_def printed_write_character\<close>)

lemma prints_open:
  assumes "sz_good sz" "unat cur \<le> length (sz_indent_string sz)" "unat step \<le> 512"
  shows "prints ([c] @ (if pp then newline else [])) sz (open_container c pp (deeper pp step cur) sz)
     \<and> unat (deeper pp step cur) \<le> length (sz_indent_string (open_container c pp (deeper pp step cur) sz))"
proof (cases pp)
  case True
  have w: "prints ([c] @ newline) sz (write_characters ([c] @ newline) sz)"
    by (rule prints_write_characters [OF assms(1)])
  have g: "prints [] (write_characters ([c] @ newline) sz)
        (grow_indent (cur + step) (write_characters ([c] @ newline) sz))
      \<and> unat (cur + step) \<le> length (sz_indent_string
            (grow_indent (cur + step) (write_characters ([c] @ newline) sz)))"
    by (rule grow_indent) (use w assms in \<open>auto intro: prints_good prints_indent\<close>)
  then show ?thesis
    using True prints_trans [OF w] by (fastforce simp: open_container_def)
next
  case False
  then show ?thesis
    using assms prints_write_character [OF assms(1), of c]
    by (auto simp: open_container_def intro: prints_indent)
qed

lemma printed_bind_write:
  assumes "printed True s sz r"
    and "\<And>sz'. prints s sz sz' \<Longrightarrow> printed True t (write_characters u sz') (f sz')"
  shows "printed True (s @ u @ t) sz (rbind r f)"
proof -
  have "printed True (u @ t) sz' (f sz')" if "prints s sz sz'" for sz'
    by (rule printed_after [OF prints_write_characters]) (use assms(2) that prints_good in auto)
  then show ?thesis using printed_bind [OF assms(1), of True "u @ t" f] by simp
qed

lemma printed_two_lines:
  assumes "sz_good sz" "unat new \<le> length (sz_indent_string sz)" "unat cur \<le> length (sz_indent_string sz)"
  shows "printed True (replicate (unat new) (CHR '' '') @ A @ replicate (unat new) (CHR '' '') @ B
       @ replicate (unat cur) (CHR '' '') @ [c]) sz
      (rbind (write_indent new sz) (\<lambda>sz2. rbind (write_indent new (write_characters A sz2))
         (\<lambda>sz3. rbind (write_indent cur (write_characters B sz3))
         (\<lambda>sz4. Inr (write_character c sz4)))))"
proof -
  have 3: "printed True (replicate (unat cur) (CHR '' '') @ [c]) sz3
      (rbind (write_indent cur sz3) (\<lambda>sz4. Inr (write_character c sz4)))"
    if "sz_good sz3" "unat cur \<le> length (sz_indent_string sz3)" for sz3
    by (rule printed_then [OF write_indent [OF that]]) (auto intro: prints_good prints_write_character)
  have 2: "printed True (replicate (unat new) (CHR '' '') @ B @ replicate (unat cur) (CHR '' '') @ [c]) sz2
      (rbind (write_indent new sz2) (\<lambda>sz3. rbind (write_indent cur (write_characters B sz3))
         (\<lambda>sz4. Inr (write_character c sz4))))"
    if that: "sz_good sz2" "unat new \<le> length (sz_indent_string sz2)" "unat cur \<le> length (sz_indent_string sz2)"
    for sz2
    by (rule printed_bind_write [OF write_indent [OF that(1,2)]], rule 3)
       (use that(3) in \<open>auto intro: prints_good prints_write_characters prints_indent\<close>)
  show ?thesis
    by (rule printed_bind_write [OF write_indent [OF assms(1,2)]], rule 2)
       (use assms in \<open>auto intro: prints_good prints_write_characters prints_indent\<close>)
qed

lemma printed_binary:
  assumes "sz_good sz" "unat cur \<le> length (sz_indent_string sz)" "unat step \<le> 512"
  shows "printed True (dump_text (JBinary bs st) pp ea step cur) sz (dump_binary pp step cur bs st sz)"
proof (cases pp)
  case True
  let ?o = "open_container (CHR ''{'') True (cur + step) sz"
  have o: "prints (''{'' @ newline) sz ?o" "unat (cur + step) \<le> length (sz_indent_string ?o)"
    using prints_open [OF assms, of "CHR ''{''" True] by auto
  have "unat cur \<le> length (sz_indent_string ?o)" using o(1) assms(2) by (rule prints_indent)
  from printed_after [OF o(1) printed_two_lines [OF prints_good [OF o(1)] o(2) this,
      of "quote @ ''bytes'' @ quote @ '': ['' @ dump_bytes '', '' bs @ ''],'' @ newline"
         "quote @ ''subtype'' @ quote @ '': '' @ dump_subtype st @ newline" "CHR ''}''"]]
  show ?thesis using True by (simp add: dump_binary_def open_container_def Let_def)
qed (use assms in \<open>simp add: dump_binary_def\<close>)

section \<open>The whole value\<close>

lemma printed_dump:
  "sz_good sz \<Longrightarrow> unat cur \<le> length (sz_indent_string sz) \<Longrightarrow> unat step \<le> 512 \<Longrightarrow>
     printed (utf8_json v) (dump_text v pp ea step cur) sz (dump v pp ea step cur sz)"
  "sz_good sz \<Longrightarrow> unat cur \<le> length (sz_indent_string sz) \<Longrightarrow> unat step \<le> 512 \<Longrightarrow>
     printed (utf8_json (JObject m)) (members_text m pp ea step cur) sz (dump_members m pp ea step cur sz)"
  "sz_good sz \<Longrightarrow> unat cur \<le> length (sz_indent_string sz) \<Longrightarrow> unat step \<le> 512 \<Longrightarrow>
     printed (utf8_json (JArray xs)) (elements_text xs pp ea step cur) sz (dump_elements xs pp ea step cur sz)"
proof (induction v pp ea step cur sz and m pp ea step cur sz and xs pp ea step cur sz
    rule: dump_dump_members_dump_elements.induct)
  case (1 m pp ea step cur sz)
  let ?o = "open_container (CHR ''{'') pp (deeper pp step cur) sz"
  have o: "prints (''{'' @ (if pp then newline else [])) sz ?o"
      "unat (deeper pp step cur) \<le> length (sz_indent_string ?o)"
    using prints_open [OF 1(2,3,4), of "CHR ''{''" pp] by auto
  show ?case
  proof (cases "m = []")
    case False
    have "printed (utf8_json (JObject m)) (members_text m pp ea step (deeper pp step cur)) ?o
        (dump_members m pp ea step (deeper pp step cur) ?o)"
      by (rule 1(1)) (use False o 1 prints_good in auto)
    then have "printed (utf8_json (JObject m) \<and> True) (members_text m pp ea step (deeper pp step cur)
          @ (if pp then newline @ replicate (unat cur) (CHR '' '') else []) @ ''}'') ?o
        (rbind (dump_members m pp ea step (deeper pp step cur) ?o) (close_container (CHR ''}'') pp cur))"
      by (rule printed_bind [OF _ printed_close])
         (use 1(3) o(1) in \<open>auto intro: prints_good prints_indent\<close>)
    from printed_after [OF o(1) this] show ?thesis using False by (simp del: utf8_json.simps)
  qed (use 1 in simp)
next
  case (2 xs pp ea step cur sz)
  let ?o = "open_container (CHR ''['') pp (deeper pp step cur) sz"
  have o: "prints (''['' @ (if pp then newline else [])) sz ?o"
      "unat (deeper pp step cur) \<le> length (sz_indent_string ?o)"
    using prints_open [OF 2(2,3,4), of "CHR ''[''" pp] by auto
  show ?case
  proof (cases "xs = []")
    case False
    have "printed (utf8_json (JArray xs)) (elements_text xs pp ea step (deeper pp step cur)) ?o
        (dump_elements xs pp ea step (deeper pp step cur) ?o)"
      by (rule 2(1)) (use False o 2 prints_good in auto)
    then have "printed (utf8_json (JArray xs) \<and> True) (elements_text xs pp ea step (deeper pp step cur)
          @ (if pp then newline @ replicate (unat cur) (CHR '' '') else []) @ '']'') ?o
        (rbind (dump_elements xs pp ea step (deeper pp step cur) ?o) (close_container (CHR '']'') pp cur))"
      by (rule printed_bind [OF _ printed_close])
         (use 2(3) o(1) in \<open>auto intro: prints_good prints_indent\<close>)
    from printed_after [OF o(1) this] show ?thesis using False by (simp del: utf8_json.simps)
  qed (use 2 in simp)
next
  case (3 s pp ea step cur sz)
  then show ?case using printed_dump_string_value by simp
next
  case (4 bs st pp ea step cur sz)
  have "printed True (dump_text (JBinary bs st) pp ea step cur) sz (dump_binary pp step cur bs st sz)"
    by (rule printed_binary [OF 4(1,2,3)])
  then show ?case by simp
next
  case (8 x pp ea step cur sz)
  obtain t where "dump_float x = Inr t" using dump_float_text by blast
  then show ?case using 8(1) by simp
next
  case (12 p ps pp ea step cur sz)
  let ?rest = "if ps = [] then [] else '','' @ (if pp then newline else []) @ members_text ps pp ea step cur"
  let ?last = "\<lambda>sz. if ps = [] then Inr sz else dump_members ps pp ea step cur (separate pp sz)"
  have beg: "printed True (if pp then replicate (unat cur) (CHR '' '') else []) sz (begin_element pp cur sz)"
    by (rule printed_begin_element [OF 12(3,4)])
  have last: "printed (utf8_json (JObject ps)) ?rest sz3 (?last sz3)"
    if r: "begin_element pp cur sz = Inr sz1" "dump_key pp ea (fst p) sz1 = Inr sz2"
        "dump (snd p) pp ea step cur sz2 = Inr sz3"
      and g: "sz_good sz3" "unat cur \<le> length (sz_indent_string sz3)" for sz1 sz2 sz3
  proof (cases "ps = []")
    case False
    have s: "prints ('','' @ (if pp then newline else [])) sz3 (separate pp sz3)" by (rule prints_separate [OF g(1)])
    have "printed (utf8_json (JObject ps)) (members_text ps pp ea step cur) (separate pp sz3)
        (dump_members ps pp ea step cur (separate pp sz3))"
      by (rule 12(2) [OF r False]) (use s g 12(5) in \<open>auto intro: prints_good prints_indent\<close>)
    from printed_after [OF s this] show ?thesis using False by (simp del: utf8_json.simps)
  qed (use g in \<open>simp add: printed_Inr prints_def\<close>)
  have val: "printed (utf8_json (snd p) \<and> utf8_json (JObject ps)) (dump_text (snd p) pp ea step cur @ ?rest) sz2
      (rbind (dump (snd p) pp ea step cur sz2) ?last)"
    if r: "begin_element pp cur sz = Inr sz1" "dump_key pp ea (fst p) sz1 = Inr sz2"
      and g: "sz_good sz2" "unat cur \<le> length (sz_indent_string sz2)" for sz1 sz2
  proof (rule printed_bind)
    show v: "printed (utf8_json (snd p)) (dump_text (snd p) pp ea step cur) sz2 (dump (snd p) pp ea step cur sz2)"
      by (rule 12(1) [OF r g 12(5)])
  next
    fix sz3 assume d: "dump (snd p) pp ea step cur sz2 = Inr sz3"
      and p: "prints (dump_text (snd p) pp ea step cur) sz2 sz3"
    show "printed (utf8_json (JObject ps)) ?rest sz3 (?last sz3)"
      by (rule last [OF r d prints_good [OF p] prints_indent [OF p g(2)]])
  qed
  have key: "printed (utf8_valid (fst p) \<and> utf8_json (snd p) \<and> utf8_json (JObject ps))
      ((quote @ escape ea (fst p) @ quote @ (if pp then '': '' else '':''))
         @ dump_text (snd p) pp ea step cur @ ?rest) sz1
      (rbind (dump_key pp ea (fst p) sz1) (\<lambda>sz2. rbind (dump (snd p) pp ea step cur sz2) ?last))"
    if r: "begin_element pp cur sz = Inr sz1" and g: "sz_good sz1" "unat cur \<le> length (sz_indent_string sz1)" for sz1
  proof (rule printed_bind [OF printed_dump_key [OF g(1)]])
    fix sz2 assume d: "dump_key pp ea (fst p) sz1 = Inr sz2"
      and p: "prints (quote @ escape ea (fst p) @ quote @ (if pp then '': '' else '':'')) sz1 sz2"
    show "printed (utf8_json (snd p) \<and> utf8_json (JObject ps)) (dump_text (snd p) pp ea step cur @ ?rest)
        sz2 (rbind (dump (snd p) pp ea step cur sz2) ?last)"
      by (rule val [OF r d prints_good [OF p] prints_indent [OF p g(2)]])
  qed
  have all: "printed (True \<and> utf8_valid (fst p) \<and> utf8_json (snd p) \<and> utf8_json (JObject ps))
      ((if pp then replicate (unat cur) (CHR '' '') else [])
         @ (quote @ escape ea (fst p) @ quote @ (if pp then '': '' else '':''))
         @ dump_text (snd p) pp ea step cur @ ?rest) sz
      (dump_members (p # ps) pp ea step cur sz)"
    unfolding dump_members.simps
    by (rule printed_bind [OF beg], rule key) (use 12(4) in \<open>auto intro: prints_good prints_indent\<close>)
  moreover have "(True \<and> utf8_valid (fst p) \<and> utf8_json (snd p) \<and> utf8_json (JObject ps))
      = utf8_json (JObject (p # ps))" by auto
  ultimately show ?case by (simp only: members_text.simps append_assoc)
next
  case (14 x xs pp ea step cur sz)
  let ?rest = "if xs = [] then [] else '','' @ (if pp then newline else []) @ elements_text xs pp ea step cur"
  let ?last = "\<lambda>sz. if xs = [] then Inr sz else dump_elements xs pp ea step cur (separate pp sz)"
  have beg: "printed True (if pp then replicate (unat cur) (CHR '' '') else []) sz (begin_element pp cur sz)"
    by (rule printed_begin_element [OF 14(3,4)])
  have last: "printed (utf8_json (JArray xs)) ?rest sz3 (?last sz3)"
    if r: "begin_element pp cur sz = Inr sz2" "dump x pp ea step cur sz2 = Inr sz3"
      and g: "sz_good sz3" "unat cur \<le> length (sz_indent_string sz3)" for sz2 sz3
  proof (cases "xs = []")
    case False
    have s: "prints ('','' @ (if pp then newline else [])) sz3 (separate pp sz3)" by (rule prints_separate [OF g(1)])
    have "printed (utf8_json (JArray xs)) (elements_text xs pp ea step cur) (separate pp sz3)
        (dump_elements xs pp ea step cur (separate pp sz3))"
      by (rule 14(2) [OF r False]) (use s g 14(5) in \<open>auto intro: prints_good prints_indent\<close>)
    from printed_after [OF s this] show ?thesis using False by (simp del: utf8_json.simps)
  qed (use g in \<open>simp add: printed_Inr prints_def\<close>)
  have val: "printed (utf8_json x \<and> utf8_json (JArray xs)) (dump_text x pp ea step cur @ ?rest) sz2
      (rbind (dump x pp ea step cur sz2) ?last)"
    if r: "begin_element pp cur sz = Inr sz2"
      and g: "sz_good sz2" "unat cur \<le> length (sz_indent_string sz2)" for sz2
  proof (rule printed_bind)
    show v: "printed (utf8_json x) (dump_text x pp ea step cur) sz2 (dump x pp ea step cur sz2)"
      by (rule 14(1) [OF r g 14(5)])
  next
    fix sz3 assume d: "dump x pp ea step cur sz2 = Inr sz3"
      and p: "prints (dump_text x pp ea step cur) sz2 sz3"
    show "printed (utf8_json (JArray xs)) ?rest sz3 (?last sz3)"
      by (rule last [OF r d prints_good [OF p] prints_indent [OF p g(2)]])
  qed
  have all: "printed (True \<and> utf8_json x \<and> utf8_json (JArray xs))
      ((if pp then replicate (unat cur) (CHR '' '') else []) @ dump_text x pp ea step cur @ ?rest) sz
      (dump_elements (x # xs) pp ea step cur sz)"
    unfolding dump_elements.simps
    by (rule printed_bind [OF beg], rule val) (use 14(4) in \<open>auto intro: prints_good prints_indent\<close>)
  moreover have "(True \<and> utf8_json x \<and> utf8_json (JArray xs)) = utf8_json (JArray (x # xs))" by auto
  ultimately show ?case by (simp only: elements_text.simps append_assoc)
qed (simp_all add: printed_Inr prints_write_characters, simp_all add: prints_def)

section \<open>The entry\<close>

lemma sz_good_init: "sz_good (serializer_init (CHR '' '') EH_strict)"
  by (auto simp: sz_good_def sz_ok_def serializer_init_def blanks_def)

lemma json_dump_text:
  "(case json_dump j of
       Inr t \<Rightarrow> utf8_json j \<and> t = dump_text j False False 0 0
     | Inl e \<Rightarrow> \<not> utf8_json j \<and> is_type_error_316 e)"
proof -
  have "printed (utf8_json j) (dump_text j False False 0 0) (serializer_init (CHR '' '') EH_strict)
      (dump j False False 0 0 (serializer_init (CHR '' '') EH_strict))"
    by (rule printed_dump) (use sz_good_init in auto)
  then show ?thesis
    by (auto simp: json_dump_def json_dump_with_def printed_def prints_def sz_good_def sz_ok_def
        serialized_def serializer_init_def rbind_def split: sum.splits)
qed

lemma json_dump_indent_text:
  assumes "0 \<le> n" "n \<le> 512"
  shows "(case json_dump_indent n j of
       Inr t \<Rightarrow> utf8_json j \<and> t = dump_text j True False (word_of_int n) 0
     | Inl e \<Rightarrow> \<not> utf8_json j \<and> is_type_error_316 e)"
proof -
  have "unat (word_of_int n :: u32) = nat n"
    using assms by (simp add: unsigned_of_int take_bit_int_eq_self nat_take_bit_eq)
  then have "printed (utf8_json j) (dump_text j True False (word_of_int n) 0) (serializer_init (CHR '' '') EH_strict)
      (dump j True False (word_of_int n) 0 (serializer_init (CHR '' '') EH_strict))"
    by (intro printed_dump) (use assms sz_good_init in auto)
  then show ?thesis
    using assms(1)
    by (auto simp: json_dump_indent_def json_dump_with_def printed_def prints_def sz_good_def sz_ok_def
        serialized_def serializer_init_def rbind_def split: sum.splits)
qed
end
