(* ===== verification/Sax.thy ===== *)
theory Sax
  imports JsonValue
begin

text \<open>
  The SAX interface of \<open>common/json.hpp\<close> and the two handlers the library parses with:
  \<open>json_sax_dom_parser\<close>, which builds a value, and \<open>json_sax_acceptor\<close>, which only says
  yes. A handler is a record of operations on a state of type \<open>'s\<close>; each returns whether
  to go on, or an exception. Pointers into the value under construction are paths.
\<close>

record 's json_sax =
  sax_null :: "'s \<Rightarrow> (bool \<times> 's) res"
  sax_boolean :: "bool \<Rightarrow> 's \<Rightarrow> (bool \<times> 's) res"
  sax_number_integer :: "u64 \<Rightarrow> 's \<Rightarrow> (bool \<times> 's) res"
  sax_number_unsigned :: "u64 \<Rightarrow> 's \<Rightarrow> (bool \<times> 's) res"
  sax_number_float :: "dbl \<Rightarrow> string \<Rightarrow> 's \<Rightarrow> (bool \<times> 's) res"
  sax_string :: "string \<Rightarrow> 's \<Rightarrow> (bool \<times> 's) res"
  sax_binary :: "string \<Rightarrow> u64 option \<Rightarrow> 's \<Rightarrow> (bool \<times> 's) res"
  sax_start_object :: "u64 \<Rightarrow> 's \<Rightarrow> (bool \<times> 's) res"
  sax_key :: "string \<Rightarrow> 's \<Rightarrow> (bool \<times> 's) res"
  sax_end_object :: "'s \<Rightarrow> (bool \<times> 's) res"
  sax_start_array :: "u64 \<Rightarrow> 's \<Rightarrow> (bool \<times> 's) res"
  sax_end_array :: "'s \<Rightarrow> (bool \<times> 's) res"
  sax_parse_error :: "nat \<Rightarrow> string \<Rightarrow> exn \<Rightarrow> 's \<Rightarrow> (bool \<times> 's) res"

definition unknown_size :: u64 where
  "unknown_size = - 1"

section \<open>Paths into a value\<close>

datatype path_step = Key string | Idx nat

type_synonym path = "path_step list"

fun json_lookup :: "path \<Rightarrow> json \<Rightarrow> json option" where
  "json_lookup [] j = Some j"
| "json_lookup (Key k # p) (JObject m) =
     (case map_of m k of Some v \<Rightarrow> json_lookup p v | None \<Rightarrow> None)"
| "json_lookup (Idx i # p) (JArray xs) = (if i < length xs then json_lookup p (xs ! i) else None)"
| "json_lookup (_ # _) _ = None"

fun json_update :: "path \<Rightarrow> (json \<Rightarrow> json) \<Rightarrow> json \<Rightarrow> json" where
  "json_update [] f j = f j"
| "json_update (Key k # p) f (JObject m) =
     JObject (map (\<lambda>(k', v). (k', if k' = k then json_update p f v else v)) m)"
| "json_update (Idx i # p) f (JArray xs) =
     (if i < length xs then JArray (xs[i := json_update p f (xs ! i)]) else JArray xs)"
| "json_update (_ # _) _ j = j"

section \<open>Building a value\<close>

record dom_parser =
  dom_root :: json
  dom_ref_stack :: "path list"
  dom_object_element :: "path option"
  dom_errored :: bool
  dom_allow_exceptions :: bool
  dom_max_size :: nat

definition dom_init :: "nat \<Rightarrow> bool \<Rightarrow> json \<Rightarrow> dom_parser" where
  "dom_init max_size allow_exceptions r =
     \<lparr>dom_root = r, dom_ref_stack = [], dom_object_element = None, dom_errored = False,
      dom_allow_exceptions = allow_exceptions, dom_max_size = max_size\<rparr>"

text \<open>\<open>*ref_stack.back()\<close>\<close>

definition dom_back :: "dom_parser \<Rightarrow> json option" where
  "dom_back d = (if dom_ref_stack d = [] then None else json_lookup (last (dom_ref_stack d)) (dom_root d))"

definition dom_assertion_failed :: "'a res" where
  "dom_assertion_failed = Inl (Undefined_behaviour ''assertion failed in json_sax_dom_parser'')"

text \<open>The value goes to the root, to the end of the array, or to the member whose key was
  read last; the result is where it went.\<close>

definition handle_value :: "json \<Rightarrow> dom_parser \<Rightarrow> (path \<times> dom_parser) res" where
  "handle_value v d =
     (if dom_ref_stack d = [] then Inr ([], d\<lparr>dom_root := v\<rparr>)
      else (case dom_back d of
         Some (JArray xs) \<Rightarrow>
           (let p = last (dom_ref_stack d)
            in Inr (p @ [Idx (length xs)],
                    d\<lparr>dom_root := json_update p (\<lambda>_. JArray (xs @ [v])) (dom_root d)\<rparr>))
       | Some (JObject m) \<Rightarrow>
           (case dom_object_element d of
              Some p \<Rightarrow> Inr (p, d\<lparr>dom_root := json_update p (\<lambda>_. v) (dom_root d)\<rparr>)
            | None \<Rightarrow> dom_assertion_failed)
       | _ \<Rightarrow> dom_assertion_failed))"

definition dom_value :: "json \<Rightarrow> dom_parser \<Rightarrow> (bool \<times> dom_parser) res" where
  "dom_value v d = rbind (handle_value v d) (\<lambda>(p, d). Inr (True, d))"

definition dom_start :: "string \<Rightarrow> json \<Rightarrow> u64 \<Rightarrow> dom_parser \<Rightarrow> (bool \<times> dom_parser) res" where
  "dom_start what v len d =
     rbind (handle_value v d) (\<lambda>(p, d).
       let d = d\<lparr>dom_ref_stack := dom_ref_stack d @ [p]\<rparr>
       in if len \<noteq> unknown_size \<and> dom_max_size d < unat len
          then Inl (out_of_range_create 408 (''excessive '' @ what @ '' size: '' @ show_nat (unat len)))
          else Inr (True, d))"

definition dom_start_object :: "u64 \<Rightarrow> dom_parser \<Rightarrow> (bool \<times> dom_parser) res" where
  "dom_start_object = dom_start ''object'' (JObject [])"

definition dom_start_array :: "u64 \<Rightarrow> dom_parser \<Rightarrow> (bool \<times> dom_parser) res" where
  "dom_start_array = dom_start ''array'' (JArray [])"

text \<open>\<open>operator[](val)\<close> adds a null member for a new key; its address is kept.\<close>

definition dom_key :: "string \<Rightarrow> dom_parser \<Rightarrow> (bool \<times> dom_parser) res" where
  "dom_key val d =
     (case dom_back d of
        Some (JObject m) \<Rightarrow>
          (let p = last (dom_ref_stack d)
           in Inr (True, d\<lparr>dom_root := json_update p (\<lambda>_. JObject (smap_emplace val JNull m)) (dom_root d),
                           dom_object_element := Some (p @ [Key val])\<rparr>))
      | _ \<Rightarrow> dom_assertion_failed)"

definition dom_end_object :: "dom_parser \<Rightarrow> (bool \<times> dom_parser) res" where
  "dom_end_object d =
     (case dom_back d of
        Some (JObject m) \<Rightarrow> Inr (True, d\<lparr>dom_ref_stack := butlast (dom_ref_stack d)\<rparr>)
      | _ \<Rightarrow> dom_assertion_failed)"

definition dom_end_array :: "dom_parser \<Rightarrow> (bool \<times> dom_parser) res" where
  "dom_end_array d =
     (case dom_back d of
        Some (JArray xs) \<Rightarrow> Inr (True, d\<lparr>dom_ref_stack := butlast (dom_ref_stack d)\<rparr>)
      | _ \<Rightarrow> dom_assertion_failed)"

definition dom_parse_error :: "nat \<Rightarrow> string \<Rightarrow> exn \<Rightarrow> dom_parser \<Rightarrow> (bool \<times> dom_parser) res" where
  "dom_parse_error pos token ex d =
     (let d = d\<lparr>dom_errored := True\<rparr>
      in if dom_allow_exceptions d then Inl ex else Inr (False, d))"

definition dom_sax :: "dom_parser json_sax" where
  "dom_sax =
     \<lparr>sax_null = dom_value JNull,
      sax_boolean = (\<lambda>b. dom_value (JBoolean b)),
      sax_number_integer = (\<lambda>n. dom_value (JNumber_integer n)),
      sax_number_unsigned = (\<lambda>n. dom_value (JNumber_unsigned n)),
      sax_number_float = (\<lambda>x _. dom_value (JNumber_float x)),
      sax_string = (\<lambda>s. dom_value (JString s)),
      sax_binary = (\<lambda>bs subtype. dom_value (JBinary bs subtype)),
      sax_start_object = dom_start_object,
      sax_key = dom_key,
      sax_end_object = dom_end_object,
      sax_start_array = dom_start_array,
      sax_end_array = dom_end_array,
      sax_parse_error = dom_parse_error\<rparr>"

section \<open>Accepting\<close>

definition acceptor_yes :: "unit \<Rightarrow> (bool \<times> unit) res" where
  "acceptor_yes s = Inr (True, s)"

definition acceptor_sax :: "unit json_sax" where
  "acceptor_sax =
     \<lparr>sax_null = acceptor_yes, sax_boolean = (\<lambda>_. acceptor_yes),
      sax_number_integer = (\<lambda>_. acceptor_yes), sax_number_unsigned = (\<lambda>_. acceptor_yes),
      sax_number_float = (\<lambda>_ _. acceptor_yes), sax_string = (\<lambda>_. acceptor_yes), sax_binary = (\<lambda>_ _. acceptor_yes),
      sax_start_object = (\<lambda>_. acceptor_yes), sax_key = (\<lambda>_. acceptor_yes),
      sax_end_object = acceptor_yes, sax_start_array = (\<lambda>_. acceptor_yes),
      sax_end_array = acceptor_yes, sax_parse_error = (\<lambda>_ _ _ s. Inr (False, s))\<rparr>"

end
