(* ===== verification/Parser.thy ===== *)
theory Parser
  imports Lexer Sax
begin

text \<open>
  Class \<open>parser\<close> of \<open>common/json.hpp\<close>: the iterative loop \<open>sax_parse_internal\<close> over a
  stack of open containers, and the entries \<open>parse\<close>, \<open>accept\<close>, \<open>sax_parse\<close>. One turn
  of the loop is \<open>sax_step\<close>; every turn that goes on has consumed input, which is what
  makes the loop a total function whatever the handler does.
\<close>

record parser =
  ps_last_token :: token_type
  ps_lexer :: lexer
  ps_allow_exceptions :: bool
  ps_ignore_trailing_commas :: bool

definition get_token :: "parser \<Rightarrow> parser" where
  "get_token p =
     (let (t, l) = scan (ps_lexer p) in p\<lparr>ps_last_token := t, ps_lexer := l\<rparr>)"

definition parser_init :: "string \<Rightarrow> bool \<Rightarrow> bool \<Rightarrow> bool \<Rightarrow> parser" where
  "parser_init adapter allow_exceptions ignore_comments ignore_trailing_commas =
     get_token \<lparr>ps_last_token = Tok_uninitialized, ps_lexer = lexer_init adapter ignore_comments,
       ps_allow_exceptions = allow_exceptions,
       ps_ignore_trailing_commas = ignore_trailing_commas\<rparr>"

definition exception_message :: "token_type \<Rightarrow> string \<Rightarrow> parser \<Rightarrow> string" where
  "exception_message expected ctx p =
     ''syntax error '' @ (if ctx \<noteq> [] then ''while parsing '' @ ctx @ '' '' else []) @ ''- ''
     @ (if ps_last_token p = Tok_parse_error
        then lx_error_message (ps_lexer p) @ ''; last read: '' @ [chr 39]
             @ get_token_string (ps_lexer p) @ [chr 39]
        else ''unexpected '' @ token_type_name (ps_last_token p))
     @ (if expected \<noteq> Tok_uninitialized then ''; expected '' @ token_type_name expected else [])"

section \<open>One turn of the loop\<close>

text \<open>
  The stack \<open>states\<close> has its top first; \<open>True\<close> stands for an array. A turn returns, or
  goes on with a stack and the flag \<open>skip_to_state_evaluation\<close>.
\<close>

datatype loop_next = Return bool | Continue "bool list" bool

text \<open>\<open>return sax->parse_error(...)\<close>\<close>

definition report :: "'s json_sax \<Rightarrow> exn \<Rightarrow> parser \<Rightarrow> 's \<Rightarrow> (bool \<times> parser \<times> 's) res" where
  "report sax ex p s =
     rbind (sax_parse_error sax (chars_read_total (lx_position (ps_lexer p)))
              (get_token_string (ps_lexer p)) ex s) (\<lambda>(b, s). Inr (b, p, s))"

definition syntax_error :: "token_type \<Rightarrow> string \<Rightarrow> parser \<Rightarrow> exn" where
  "syntax_error expected ctx p =
     parse_error_create 101 (lx_position (ps_lexer p)) (exception_message expected ctx p)"

definition fail_with :: "'s json_sax \<Rightarrow> exn \<Rightarrow> parser \<Rightarrow> 's \<Rightarrow> (loop_next \<times> parser \<times> 's) res" where
  "fail_with sax ex p s = rbind (report sax ex p s) (\<lambda>(b, p, s). Inr (Return b, p, s))"

text \<open>\<open>if (!sax->event()) return false;\<close> and on with \<open>k\<close>\<close>

definition sax_event ::
  "('s \<Rightarrow> (bool \<times> 's) res) \<Rightarrow> ('s \<Rightarrow> (loop_next \<times> parser \<times> 's) res) \<Rightarrow> parser \<Rightarrow> 's
     \<Rightarrow> (loop_next \<times> parser \<times> 's) res" where
  "sax_event ev k p s = rbind (ev s) (\<lambda>(ok, s). if ok then k s else Inr (Return False, p, s))"

text \<open>An object key in \<open>last_token\<close>, the colon and the first token of the value.\<close>

definition parse_key ::
  "'s json_sax \<Rightarrow> bool list \<Rightarrow> parser \<Rightarrow> 's \<Rightarrow> (loop_next \<times> parser \<times> 's) res" where
  "parse_key sax states p s =
     (if ps_last_token p \<noteq> Tok_value_string
      then fail_with sax (syntax_error Tok_value_string ''object key'' p) p s
      else sax_event (sax_key sax (lexer_get_string (ps_lexer p))) (\<lambda>s.
        let p1 = get_token p
        in if ps_last_token p1 \<noteq> Tok_name_separator
           then fail_with sax (syntax_error Tok_name_separator ''object separator'' p1) p1 s
           else Inr (Continue states False, get_token p1, s)) p s)"

text \<open>We reached the end of a value: what follows depends on the container.\<close>

definition eval_array ::
  "'s json_sax \<Rightarrow> bool list \<Rightarrow> parser \<Rightarrow> 's \<Rightarrow> (loop_next \<times> parser \<times> 's) res" where
  "eval_array sax states p0 s =
     (let p1 = get_token p0;
          comma = (ps_last_token p1 = Tok_value_separator);
          p = (if comma then get_token p1 else p1)
      in if comma \<and> \<not> (ps_ignore_trailing_commas p \<and> ps_last_token p = Tok_end_array)
         then Inr (Continue states False, p, s)
         else if ps_last_token p = Tok_end_array
         then sax_event (sax_end_array sax) (\<lambda>s. Inr (Continue (tl states) True, p, s)) p s
         else fail_with sax (syntax_error Tok_end_array ''array'' p) p s)"

definition eval_object ::
  "'s json_sax \<Rightarrow> bool list \<Rightarrow> parser \<Rightarrow> 's \<Rightarrow> (loop_next \<times> parser \<times> 's) res" where
  "eval_object sax states p0 s =
     (let p1 = get_token p0;
          comma = (ps_last_token p1 = Tok_value_separator);
          p = (if comma then get_token p1 else p1)
      in if comma \<and> \<not> (ps_ignore_trailing_commas p \<and> ps_last_token p = Tok_end_object)
         then parse_key sax states p s
         else if ps_last_token p = Tok_end_object
         then sax_event (sax_end_object sax) (\<lambda>s. Inr (Continue (tl states) True, p, s)) p s
         else fail_with sax (syntax_error Tok_end_object ''object'' p) p s)"

definition state_evaluation ::
  "'s json_sax \<Rightarrow> bool list \<Rightarrow> parser \<Rightarrow> 's \<Rightarrow> (loop_next \<times> parser \<times> 's) res" where
  "state_evaluation sax states p s =
     (case states of
        [] \<Rightarrow> Inr (Return True, p, s)
      | is_arr # _ \<Rightarrow> (if is_arr then eval_array sax states p s else eval_object sax states p s))"

text \<open>The \<open>switch (last_token)\<close>; a scalar value falls through to the state evaluation.\<close>

definition begin_object ::
  "'s json_sax \<Rightarrow> bool list \<Rightarrow> parser \<Rightarrow> 's \<Rightarrow> (loop_next \<times> parser \<times> 's) res" where
  "begin_object sax states p0 s =
     sax_event (sax_start_object sax unknown_size) (\<lambda>s.
       let p = get_token p0
       in if ps_last_token p = Tok_end_object
          then sax_event (sax_end_object sax) (\<lambda>s. state_evaluation sax states p s) p s
          else parse_key sax (False # states) p s) p0 s"

definition begin_array ::
  "'s json_sax \<Rightarrow> bool list \<Rightarrow> parser \<Rightarrow> 's \<Rightarrow> (loop_next \<times> parser \<times> 's) res" where
  "begin_array sax states p0 s =
     sax_event (sax_start_array sax unknown_size) (\<lambda>s.
       let p = get_token p0
       in if ps_last_token p = Tok_end_array
          then sax_event (sax_end_array sax) (\<lambda>s. state_evaluation sax states p s) p s
          else Inr (Continue (True # states) False, p, s)) p0 s"

definition overflow_error :: "parser \<Rightarrow> exn" where
  "overflow_error p = out_of_range_create 406
     (''number overflow parsing '' @ [chr 39] @ get_token_string (ps_lexer p) @ [chr 39])"

definition parse_value ::
  "'s json_sax \<Rightarrow> bool list \<Rightarrow> parser \<Rightarrow> 's \<Rightarrow> (loop_next \<times> parser \<times> 's) res" where
  "parse_value sax states p s =
     (let l = ps_lexer p;
          scalar = (\<lambda>ev. sax_event ev (\<lambda>s. state_evaluation sax states p s) p s)
      in case ps_last_token p of
        Tok_begin_object \<Rightarrow> begin_object sax states p s
      | Tok_begin_array \<Rightarrow> begin_array sax states p s
      | Tok_value_float \<Rightarrow>
          (if \<not> dbl_isfinite (lx_value_float l) then fail_with sax (overflow_error p) p s
           else scalar (sax_number_float sax (lx_value_float l) (lexer_get_string l)))
      | Tok_literal_false \<Rightarrow> scalar (sax_boolean sax False)
      | Tok_literal_null \<Rightarrow> scalar (sax_null sax)
      | Tok_literal_true \<Rightarrow> scalar (sax_boolean sax True)
      | Tok_value_integer \<Rightarrow> scalar (sax_number_integer sax (lx_value_integer l))
      | Tok_value_string \<Rightarrow> scalar (sax_string sax (lexer_get_string l))
      | Tok_value_unsigned \<Rightarrow> scalar (sax_number_unsigned sax (lx_value_unsigned l))
      | Tok_parse_error \<Rightarrow> fail_with sax (syntax_error Tok_uninitialized ''value'' p) p s
      | Tok_end_of_input \<Rightarrow>
          (if chars_read_total (lx_position l) = 1
           then fail_with sax (parse_error_create 101 (lx_position l)
                  (''attempting to parse an empty input; check that your input string or ''
                   @ ''stream contains the expected JSON'')) p s
           else fail_with sax (syntax_error Tok_literal_or_value ''value'' p) p s)
      | _ \<Rightarrow> fail_with sax (syntax_error Tok_literal_or_value ''value'' p) p s)"

definition sax_step ::
  "'s json_sax \<Rightarrow> bool list \<Rightarrow> bool \<Rightarrow> parser \<Rightarrow> 's \<Rightarrow> (loop_next \<times> parser \<times> 's) res" where
  "sax_step sax states skip p s =
     (if skip then state_evaluation sax states p s else parse_value sax states p s)"


text \<open>
  What the loop has left: the characters not yet scanned, and whether the token in hand can
  start anything.
\<close>

definition budget :: "parser \<Rightarrow> nat" where
  "budget p = 2 * length (pending (ps_lexer p))"

definition parser_size :: "parser \<Rightarrow> nat" where
  "parser_size p = budget p
     + (if ps_last_token p = Tok_end_of_input \<or> ps_last_token p = Tok_parse_error then 0 else 1)"

lemma budget_get_token: "budget (get_token p) \<le> budget p"
  using scan_consumes [of "ps_lexer p"] by (auto simp: budget_def get_token_def split: prod.splits)

lemma budget_get_token_less:
  "ps_last_token (get_token p) \<noteq> Tok_end_of_input \<Longrightarrow> ps_last_token (get_token p) \<noteq> Tok_parse_error \<Longrightarrow>
     budget (get_token p) + 1 < budget p"
  using scan_consumes [of "ps_lexer p"] by (auto simp: budget_def get_token_def split: prod.splits)

lemma parser_size_get_token: "parser_size (get_token p) \<le> budget p"
  using budget_get_token_less [of p] budget_get_token [of p] by (auto simp: parser_size_def)

lemma budget_le_parser_size: "budget p \<le> parser_size p"
  by (simp add: parser_size_def)

lemma fail_with_not_continue: "fail_with sax ex p s \<noteq> Inr (Continue states skip, q)"
  by (auto simp: fail_with_def rbind_eq_Inr)

lemma sax_event_Continue:
  "sax_event ev k p s = Inr (Continue states skip, q) \<longleftrightarrow>
     (\<exists>s'. ev s = Inr (True, s') \<and> k s' = Inr (Continue states skip, q))"
  by (auto simp: sax_event_def rbind_eq_Inr split: if_splits)

lemma parse_key_Continue:
  "parse_key sax st p s = Inr (Continue states skip, p', s') \<Longrightarrow> parser_size p' + 1 < budget p"
  using budget_get_token_less [of p] parser_size_get_token [of "get_token p"]
  by (auto simp: parse_key_def sax_event_Continue fail_with_not_continue Let_def split: if_splits)

lemma eval_array_Continue:
  "eval_array sax st p s = Inr (Continue states skip, p', s') \<Longrightarrow> parser_size p' < budget p"
  using budget_get_token_less [of p] parser_size_get_token [of "get_token p"]
  by (auto simp: eval_array_def sax_event_Continue fail_with_not_continue Let_def parser_size_def
      split: if_splits)

lemma eval_object_Continue:
  "eval_object sax st p s = Inr (Continue states skip, p', s') \<Longrightarrow> parser_size p' < budget p"
  using budget_get_token_less [of p] parser_size_get_token [of "get_token p"]
    budget_get_token [of "get_token p"]
  by (auto simp: eval_object_def sax_event_Continue fail_with_not_continue Let_def parser_size_def
      dest: parse_key_Continue split: if_splits)

lemma state_evaluation_Continue:
  "state_evaluation sax st p s = Inr (Continue states skip, p', s') \<Longrightarrow> parser_size p' < budget p"
  by (auto simp: state_evaluation_def dest: eval_array_Continue eval_object_Continue
      split: list.splits if_splits)

lemma begin_object_Continue:
  assumes "begin_object sax st p s = Inr (Continue states skip, p', s')"
  shows "parser_size p' < budget p"
  using assms budget_get_token [of p]
  by (auto simp: begin_object_def sax_event_Continue Let_def
      dest!: parse_key_Continue state_evaluation_Continue split: if_splits)

lemma begin_array_Continue:
  assumes "begin_array sax st p s = Inr (Continue states skip, p', s')"
  shows "parser_size p' \<le> budget p"
  using assms budget_get_token [of p] parser_size_get_token [of p]
  by (auto simp: begin_array_def sax_event_Continue Let_def
      dest!: state_evaluation_Continue split: if_splits)

lemma parse_value_Continue:
  assumes "parse_value sax st p s = Inr (Continue states skip, p', s')"
  shows "parser_size p' < parser_size p"
  using assms budget_le_parser_size [of p]
  by (cases "ps_last_token p")
     (auto simp: parse_value_def sax_event_Continue fail_with_not_continue Let_def
      parser_size_def [of p] dest!: begin_object_Continue begin_array_Continue state_evaluation_Continue
      split: if_splits)

lemma sax_step_Continue:
  "sax_step sax st sk p s = Inr (Continue states skip, p', s') \<Longrightarrow> parser_size p' < parser_size p"
  using budget_le_parser_size [of p]
  by (auto simp: sax_step_def dest!: state_evaluation_Continue parse_value_Continue split: if_splits)

section \<open>The loop and the entries\<close>

function sax_parse_loop ::
  "'s json_sax \<Rightarrow> bool list \<Rightarrow> bool \<Rightarrow> parser \<Rightarrow> 's \<Rightarrow> (bool \<times> parser \<times> 's) res" where
  "sax_parse_loop sax states skip p s =
     (case sax_step sax states skip p s of
        Inl e \<Rightarrow> Inl e
      | Inr (Return b, p', s') \<Rightarrow> Inr (b, p', s')
      | Inr (Continue states' skip', p', s') \<Rightarrow> sax_parse_loop sax states' skip' p' s')"
  by pat_completeness auto
termination
  by (relation "measure (\<lambda>(sax, states, skip, p, s). parser_size p)") (auto dest: sax_step_Continue)

declare sax_parse_loop.simps [simp del]

definition sax_parse_internal :: "'s json_sax \<Rightarrow> parser \<Rightarrow> 's \<Rightarrow> (bool \<times> parser \<times> 's) res" where
  "sax_parse_internal sax = sax_parse_loop sax [] False"

text \<open>In strict mode the input must end after the value.\<close>

definition strict_end :: "'s json_sax \<Rightarrow> bool \<Rightarrow> bool \<Rightarrow> parser \<Rightarrow> 's \<Rightarrow> (bool \<times> parser \<times> 's) res" where
  "strict_end sax strict result p s =
     (if strict
      then (let p = get_token p
            in if ps_last_token p \<noteq> Tok_end_of_input
               then report sax (syntax_error Tok_end_of_input ''value'' p) p s
               else Inr (result, p, s))
      else Inr (result, p, s))"

definition sax_parse :: "'s json_sax \<Rightarrow> bool \<Rightarrow> parser \<Rightarrow> 's \<Rightarrow> (bool \<times> parser \<times> 's) res" where
  "sax_parse sax strict p s =
     rbind (sax_parse_internal sax p s) (\<lambda>(result, p, s).
       if result then strict_end sax strict True p s else Inr (result, p, s))"

text \<open>\<open>parser::parse\<close> without a callback: \<open>result\<close> is the variable written to.\<close>

definition parser_parse :: "nat \<Rightarrow> bool \<Rightarrow> json \<Rightarrow> parser \<Rightarrow> (json \<times> parser) res" where
  "parser_parse max_size strict result p =
     rbind (sax_parse_internal dom_sax p (dom_init max_size (ps_allow_exceptions p) result)) (\<lambda>(b, p, d).
     rbind (strict_end dom_sax strict b p d) (\<lambda>(b, p, d).
       Inr (if dom_errored d then JDiscarded else dom_root d, p)))"

definition parser_accept :: "bool \<Rightarrow> parser \<Rightarrow> bool" where
  "parser_accept strict p =
     (case sax_parse acceptor_sax strict p () of Inl _ \<Rightarrow> False | Inr (b, _) \<Rightarrow> b)"

text \<open>
  \<open>basic_json::parse\<close>, \<open>accept\<close> and \<open>operator>>\<close> with their default arguments. No
  container size is ever announced by this parser, so the bound on it does not matter.
\<close>

definition json_parse :: "string \<Rightarrow> json res" where
  "json_parse s = rbind (parser_parse 0 True JNull (parser_init s True False False)) (\<lambda>(j, p). Inr j)"

definition json_accept :: "string \<Rightarrow> bool" where
  "json_accept s = parser_accept True (parser_init s False False False)"

definition json_read_stream :: "string \<Rightarrow> json res" where
  "json_read_stream s = rbind (parser_parse 0 False JNull (parser_init s True False False)) (\<lambda>(j, p). Inr j)"

end
