(* ===== verification/Parsing.thy ===== *)
theory Parsing
  imports FloatScan Dumping Parser
begin

unbundle bit_operations_syntax

text \<open>
  The parser on the text that \<open>dump\<close> writes, for any SAX handler: it reports the events of
  the value, in order, and stops where the text ends. The handler is a parameter, so the DOM
  builder and the acceptor are two instances.
\<close>

section \<open>Events of a value\<close>

datatype parse_event =
    Ev_null | Ev_boolean bool | Ev_integer u64 | Ev_unsigned u64 | Ev_float dbl string | Ev_string string | Ev_binary string "u64 option"
  | Ev_start_object u64 | Ev_key string | Ev_end_object | Ev_start_array u64 | Ev_end_array

fun emit :: "'s json_sax \<Rightarrow> parse_event \<Rightarrow> 's \<Rightarrow> (bool \<times> 's) res" where
  "emit sax Ev_null = sax_null sax"
| "emit sax (Ev_boolean b) = sax_boolean sax b"
| "emit sax (Ev_integer n) = sax_number_integer sax n"
| "emit sax (Ev_unsigned n) = sax_number_unsigned sax n"
| "emit sax (Ev_float x t) = sax_number_float sax x t"
| "emit sax (Ev_string s) = sax_string sax s"
| "emit sax (Ev_binary bs subtype) = sax_binary sax bs subtype"
| "emit sax (Ev_start_object len) = sax_start_object sax len"
| "emit sax (Ev_key k) = sax_key sax k"
| "emit sax Ev_end_object = sax_end_object sax"
| "emit sax (Ev_start_array len) = sax_start_array sax len"
| "emit sax Ev_end_array = sax_end_array sax"

text \<open>The handler takes all the events and asks to go on after each.\<close>

fun accepts :: "'s json_sax \<Rightarrow> parse_event list \<Rightarrow> 's \<Rightarrow> 's \<Rightarrow> bool" where
  "accepts sax [] s t \<longleftrightarrow> s = t"
| "accepts sax (e # es) s t \<longleftrightarrow> (\<exists>u. emit sax e s = Inr (True, u) \<and> accepts sax es u t)"

lemma accepts_append: "accepts sax (es @ fs) s t \<longleftrightarrow> (\<exists>u. accepts sax es s u \<and> accepts sax fs u t)"
  by (induction es arbitrary: s) auto

fun events :: "json \<Rightarrow> parse_event list" where
  "events (JObject m) = Ev_start_object unknown_size # concat (map (\<lambda>p. Ev_key (fst p) # events (snd p)) m) @ [Ev_end_object]"
| "events (JArray xs) = Ev_start_array unknown_size # concat (map events xs) @ [Ev_end_array]"
| "events (JString s) = [Ev_string s]"
| "events (JBoolean b) = [Ev_boolean b]"
| "events (JNumber_integer n) = (if sint n < 0 then [Ev_integer n] else [Ev_unsigned n])"
| "events (JNumber_unsigned n) = [Ev_unsigned n]"
| "events (JNumber_float x) =
     (if dbl_isfinite x then [Ev_float x (case to_chars x of Inr t \<Rightarrow> t | Inl _ \<Rightarrow> [])] else [Ev_null])"
| "events _ = [Ev_null]"

definition member_events :: "(string \<times> json) list \<Rightarrow> parse_event list" where
  "member_events m = concat (map (\<lambda>p. Ev_key (fst p) # events (snd p)) m)"

text \<open>Values whose text the parser reads back: no binary or discarded values.\<close>

fun textual :: "json \<Rightarrow> bool" where
  "textual (JObject m) \<longleftrightarrow> (\<forall>p \<in> set m. utf8_valid (fst p) \<and> textual (snd p))"
| "textual (JArray xs) \<longleftrightarrow> (\<forall>x \<in> set xs. textual x)"
| "textual (JString s) \<longleftrightarrow> utf8_valid s"
| "textual (JBinary _ _) \<longleftrightarrow> False"
| "textual JDiscarded \<longleftrightarrow> False"
| "textual _ \<longleftrightarrow> True"

section \<open>The parser before and after a token\<close>

definition ahead :: "parser \<Rightarrow> string \<Rightarrow> bool" where
  "ahead p s \<longleftrightarrow> ready (ps_lexer p) s \<and> \<not> ps_ignore_trailing_commas p"

definition past :: "parser \<Rightarrow> string \<Rightarrow> bool" where
  "past p s \<longleftrightarrow> unread (ps_lexer p) s \<and> \<not> ps_ignore_trailing_commas p"

lemma past_ahead: "past p s \<Longrightarrow> ahead p s"
  by (simp add: past_def ahead_def unread_ready)

lemma token_past:
  assumes "ahead p k" "token (ps_lexer p) t s P"
  shows "ps_last_token (get_token p) = t \<and> past (get_token p) s \<and> P (ps_lexer (get_token p))"
  using assms by (auto simp: token_def get_token_def past_def ahead_def)

lemmas char_token = token_past [OF _ token_char]
lemmas literal_token = token_past [OF _ token_literal]
lemmas string_token = token_past [OF _ token_string]
lemmas unsigned_token = token_past [OF _ token_unsigned]
lemmas negative_token = token_past [OF _ token_negative]
lemmas float_token = token_past [OF _ token_float]

lemma ahead_ready: "ahead p s \<Longrightarrow> ready (ps_lexer p) s"
  by (simp add: ahead_def)

section \<open>The loop resumed\<close>

definition resume ::
  "'s json_sax \<Rightarrow> (loop_next \<times> parser \<times> 's) res \<Rightarrow> (bool \<times> parser \<times> 's) res" where
  "resume sax r = (case r of Inl e \<Rightarrow> Inl e | Inr (Return b, p, s) \<Rightarrow> Inr (b, p, s)
     | Inr (Continue states skip, p, s) \<Rightarrow> sax_parse_loop sax states skip p s)"

lemma sax_parse_loop: "sax_parse_loop sax states skip p s = resume sax (sax_step sax states skip p s)"
  by (subst sax_parse_loop.simps) (simp add: resume_def)

lemma loop_evaluates: "sax_parse_loop sax states True p s = resume sax (state_evaluation sax states p s)"
  by (simp add: sax_parse_loop sax_step_def)

lemma loop_value: "sax_parse_loop sax states False p s = resume sax (parse_value sax states p s)"
  by (simp add: sax_parse_loop sax_step_def)

text \<open>The key, the colon and the first token of the value.\<close>

lemma parse_key_reads:
  assumes "ahead p (ws @ quote @ escape ea k @ quote @ '':'' @ s)" "white ws" "utf8_valid k"
    "emit sax (Ev_key k) h = Inr (True, h')"
  shows "\<exists>p'. past p' s \<and> resume sax (parse_key sax states (get_token p) h)
     = sax_parse_loop sax states False (get_token p') h'"
proof -
  let ?p = "get_token p"
  have p: "ps_last_token ?p = Tok_value_string" "past ?p ('':'' @ s)" "lexer_get_string (ps_lexer ?p) = k"
    using string_token [OF assms(1) ahead_ready [OF assms(1)] assms(2,3)] by simp_all
  have "ahead ?p ([] @ CHR '':'' # s)" using past_ahead [OF p(2)] by simp
  note q = char_token [OF this ahead_ready [OF this], of Tok_name_separator]
  show ?thesis
    using p q assms(4)
    by (intro exI [of _ "get_token ?p"]) (simp add: parse_key_def sax_event_def resume_def Let_def)
qed


section \<open>The text of containers\<close>

definition indent :: "bool \<Rightarrow> u32 \<Rightarrow> string" where
  "indent pp cur = (if pp then replicate (unat cur) (CHR '' '') else [])"

definition space :: "bool \<Rightarrow> string" where
  "space pp = (if pp then '' '' else [])"

definition eol :: "bool \<Rightarrow> string" where
  "eol pp = (if pp then newline else [])"

lemma white_layout [simp]: "white (indent pp cur)" "white (space pp)" "white (eol pp)"
  by (auto simp: white_def indent_def space_def eol_def newline_def is_whitespace_def)

lemma object_text:
  "m \<noteq> [] \<Longrightarrow> dump_text (JObject m) pp ea step cur
     = CHR ''{'' # eol pp @ members_text m pp ea step (deeper pp step cur) @ (eol pp @ indent pp cur) @ ''}''"
  by (simp add: eol_def indent_def)

lemma array_text:
  "xs \<noteq> [] \<Longrightarrow> dump_text (JArray xs) pp ea step cur
     = CHR ''['' # eol pp @ elements_text xs pp ea step (deeper pp step cur) @ (eol pp @ indent pp cur) @ '']''"
  by (simp add: eol_def indent_def)

lemma object_text_start: "\<exists>b. dump_text (JObject m) pp ea step cur = CHR ''{'' # b"
  by (cases "m = []") (simp_all only: object_text, simp_all)

lemma array_text_start: "\<exists>b. dump_text (JArray xs) pp ea step cur = CHR ''['' # b"
  by (cases "xs = []") (simp_all only: array_text, simp_all)

lemma members_text:
  "members_text (p # ps) pp ea step cur = indent pp cur @ quote @ escape ea (fst p) @ quote @ '':''
     @ space pp @ dump_text (snd p) pp ea step cur
     @ (if ps = [] then [] else CHR '','' # eol pp @ members_text ps pp ea step cur)"
  by (simp add: indent_def space_def eol_def)

lemma elements_text:
  "elements_text (x # xs) pp ea step cur = indent pp cur @ dump_text x pp ea step cur
     @ (if xs = [] then [] else CHR '','' # eol pp @ elements_text xs pp ea step cur)"
  by (simp add: indent_def eol_def)

lemma ends_integer_delimiter:
  "white ws \<Longrightarrow> c \<in> {CHR '','', CHR '']'', CHR ''}''} \<Longrightarrow> ends_integer (ws @ c # s)"
  by (cases ws) (auto simp: ends_integer_def is_whitespace_def is_digit_def)

lemma ends_integer_white: "white ws \<Longrightarrow> ends_integer ws"
  by (cases ws) (auto simp: ends_integer_def is_whitespace_def is_digit_def)

section \<open>Reading a value\<close>

text \<open>
  \<open>value_read sax ea v\<close>: on the text of \<open>v\<close>, at any depth, the loop reports the events of
  \<open>v\<close> and goes on behind the text with the evaluation of the enclosing container.
\<close>

definition value_read :: "'s json_sax \<Rightarrow> bool \<Rightarrow> json \<Rightarrow> bool" where
  "value_read sax ea v \<longleftrightarrow> (\<forall>pp step cur p ws s h h' states.
     ahead p (ws @ dump_text v pp ea step cur @ s) \<longrightarrow> white ws \<longrightarrow> ends_integer s \<longrightarrow>
     accepts sax (events v) h h' \<longrightarrow>
     (\<exists>p'. past p' s \<and> sax_parse_loop sax states False (get_token p) h
        = sax_parse_loop sax states True p' h'))"

lemma value_readD:
  assumes "value_read sax ea v" "ahead p (ws @ dump_text v pp ea step cur @ s)" "white ws"
    "ends_integer s" "accepts sax (events v) h h'"
  obtains p' where "past p' s"
    "sax_parse_loop sax states False (get_token p) h = sax_parse_loop sax states True p' h'"
  using assms unfolding value_read_def by blast

lemma state_evaluation_simps [simp]:
  "state_evaluation sax (False # states) p s = eval_object sax (False # states) p s"
  "state_evaluation sax (True # states) p s = eval_array sax (True # states) p s"
  "state_evaluation sax [] p s = Inr (Return True, p, s)"
  by (simp_all add: state_evaluation_def)

text \<open>Behind a value inside a container: a comma or the closing bracket.\<close>

lemma eval_object_end:
  assumes "past p (ws @ CHR ''}'' # s)" "white ws" "emit sax Ev_end_object h = Inr (True, h')"
  shows "past (get_token p) s \<and> sax_parse_loop sax (False # states) True p h
     = sax_parse_loop sax states True (get_token p) h'"
  using char_token [OF past_ahead [OF assms(1)] ahead_ready [OF past_ahead [OF assms(1)]] assms(2), of Tok_end_object]
    assms(3)
  by (simp add: loop_evaluates eval_object_def sax_event_def Let_def) (simp add: resume_def loop_evaluates)

lemma eval_object_comma:
  assumes "past p (CHR '','' # s)"
  shows "past (get_token p) s \<and> sax_parse_loop sax (False # states) True p h
     = resume sax (parse_key sax (False # states) (get_token (get_token p)) h)"
proof -
  have a: "ahead p ([] @ CHR '','' # s)" using past_ahead [OF assms] by simp
  then have "ps_last_token (get_token p) = Tok_value_separator \<and> past (get_token p) s"
    using char_token [OF a ahead_ready [OF a], of Tok_value_separator] by simp
  moreover have "ps_ignore_trailing_commas (get_token q) = ps_ignore_trailing_commas q" for q
    by (simp add: get_token_def split: prod.split)
  ultimately show ?thesis
    by (simp add: loop_evaluates eval_object_def Let_def past_def)
qed

lemma eval_array_end:
  assumes "past p (ws @ CHR '']'' # s)" "white ws" "emit sax Ev_end_array h = Inr (True, h')"
  shows "past (get_token p) s \<and> sax_parse_loop sax (True # states) True p h
     = sax_parse_loop sax states True (get_token p) h'"
  using char_token [OF past_ahead [OF assms(1)] ahead_ready [OF past_ahead [OF assms(1)]] assms(2), of Tok_end_array]
    assms(3)
  by (simp add: loop_evaluates eval_array_def sax_event_def Let_def) (simp add: resume_def loop_evaluates)

lemma eval_array_comma:
  assumes "past p (CHR '','' # s)"
  shows "past (get_token p) s \<and> sax_parse_loop sax (True # states) True p h
     = sax_parse_loop sax (True # states) False (get_token (get_token p)) h"
proof -
  have a: "ahead p ([] @ CHR '','' # s)" using past_ahead [OF assms] by simp
  then have "ps_last_token (get_token p) = Tok_value_separator \<and> past (get_token p) s"
    using char_token [OF a ahead_ready [OF a], of Tok_value_separator] by simp
  moreover have "ps_ignore_trailing_commas (get_token q) = ps_ignore_trailing_commas q" for q
    by (simp add: get_token_def split: prod.split)
  ultimately show ?thesis
    by (simp add: loop_evaluates eval_array_def Let_def past_def resume_def)
qed

lemma members_read:
  assumes "\<And>m. m \<in> set ps \<Longrightarrow> value_read sax ea (snd m) \<and> utf8_valid (fst m)"
    "ps \<noteq> []" "ahead p (ws @ members_text ps pp ea step cur @ ws' @ CHR ''}'' # s)" "white ws" "white ws'"
    "accepts sax (member_events ps @ [Ev_end_object]) h h'"
  shows "\<exists>p'. past p' s \<and> resume sax (parse_key sax (False # states) (get_token p) h)
     = sax_parse_loop sax states True p' h'"
  using assms
proof (induction ps arbitrary: p ws h)
  case (Cons m ps)
  let ?rest = "(if ps = [] then [] else CHR '','' # eol pp @ members_text ps pp ea step cur) @ ws' @ CHR ''}'' # s"
  obtain h1 h2 where h: "emit sax (Ev_key (fst m)) h = Inr (True, h1)" "accepts sax (events (snd m)) h1 h2"
      "accepts sax (member_events ps @ [Ev_end_object]) h2 h'"
    using Cons.prems(6) by (auto simp: member_events_def accepts_append)
  have m: "value_read sax ea (snd m)" "utf8_valid (fst m)" using Cons.prems(1) [of m] by simp_all
  have "ahead p ((ws @ indent pp cur) @ quote @ escape ea (fst m) @ quote @ '':''
      @ (space pp @ dump_text (snd m) pp ea step cur @ ?rest))"
    using Cons.prems(3) by (simp only: members_text append.assoc)
  then obtain p1 where p1: "past p1 (space pp @ dump_text (snd m) pp ea step cur @ ?rest)"
      "resume sax (parse_key sax (False # states) (get_token p) h)
       = sax_parse_loop sax (False # states) False (get_token p1) h1"
    using parse_key_reads [of p "ws @ indent pp cur" ea "fst m" _ sax h h1] m(2) h(1) Cons.prems(4) by auto
  have "ends_integer ?rest"
    using ends_integer_delimiter [of ws' "CHR ''}''"] ends_integer_delimiter [of "[]" "CHR '',''"] Cons.prems(5)
    by auto
  then obtain p2 where p2: "past p2 ?rest" "sax_parse_loop sax (False # states) False (get_token p1) h1
      = sax_parse_loop sax (False # states) True p2 h2"
    by (rule value_readD [OF m(1) past_ahead [OF p1(1)] white_layout(2) _ h(2)])
  show ?case
  proof (cases "ps = []")
    case True
    then show ?thesis
      using eval_object_end [of p2 ws' s sax h2 h' states] p1(2) p2 h(3) Cons.prems(5)
      by (auto simp: member_events_def)
  next
    case False
    then have p3: "past (get_token p2) (eol pp @ members_text ps pp ea step cur @ ws' @ CHR ''}'' # s)"
      "sax_parse_loop sax (False # states) True p2 h2
       = resume sax (parse_key sax (False # states) (get_token (get_token p2)) h2)"
      using eval_object_comma [of p2 "eol pp @ members_text ps pp ea step cur @ ws' @ CHR ''}'' # s" sax states h2] p2(1) by auto
    show ?thesis
      using Cons.IH [OF _ False past_ahead [OF p3(1)] white_layout(3) Cons.prems(5) h(3)]
        Cons.prems(1) p1(2) p2(2) p3(2) by auto
  qed
qed simp

lemma elements_read:
  assumes "\<And>x. x \<in> set xs \<Longrightarrow> value_read sax ea x"
    "xs \<noteq> []" "ahead p (ws @ elements_text xs pp ea step cur @ ws' @ CHR '']'' # s)" "white ws" "white ws'"
    "accepts sax (concat (map events xs) @ [Ev_end_array]) h h'"
  shows "\<exists>p'. past p' s \<and> sax_parse_loop sax (True # states) False (get_token p) h
     = sax_parse_loop sax states True p' h'"
  using assms
proof (induction xs arbitrary: p ws h)
  case (Cons x xs)
  let ?rest = "(if xs = [] then [] else CHR '','' # eol pp @ elements_text xs pp ea step cur) @ ws' @ CHR '']'' # s"
  obtain h2 where h: "accepts sax (events x) h h2"
      "accepts sax (concat (map events xs) @ [Ev_end_array]) h2 h'"
    using Cons.prems(6) by (auto simp: accepts_append)
  have x: "value_read sax ea x" using Cons.prems(1) [of x] by simp
  have a: "ahead p ((ws @ indent pp cur) @ dump_text x pp ea step cur @ ?rest)"
    using Cons.prems(3) by (simp only: elements_text append.assoc)
  have w: "white (ws @ indent pp cur)" using Cons.prems(4) by simp
  have "ends_integer ?rest"
    using ends_integer_delimiter [of ws' "CHR '']''"] ends_integer_delimiter [of "[]" "CHR '',''"] Cons.prems(5)
    by auto
  then obtain p2 where p2: "past p2 ?rest" "sax_parse_loop sax (True # states) False (get_token p) h
      = sax_parse_loop sax (True # states) True p2 h2"
    by (rule value_readD [OF x a w _ h(1)])
  show ?case
  proof (cases "xs = []")
    case True
    then show ?thesis
      using eval_array_end [of p2 ws' s sax h2 h' states] p2 h(2) Cons.prems(5) by auto
  next
    case False
    then have p3: "past (get_token p2) (eol pp @ elements_text xs pp ea step cur @ ws' @ CHR '']'' # s)"
      "sax_parse_loop sax (True # states) True p2 h2
       = sax_parse_loop sax (True # states) False (get_token (get_token p2)) h2"
      using eval_array_comma [of p2 "eol pp @ elements_text xs pp ea step cur @ ws' @ CHR '']'' # s" sax states h2] p2(1) by auto
    show ?thesis
      using Cons.IH [OF _ False past_ahead [OF p3(1)] white_layout(3) Cons.prems(5) h(2)]
        Cons.prems(1) p2(2) p3(2) by auto
  qed
qed simp


lemma loop_scalar:
  assumes "parse_value sax states p h = state_evaluation sax states p h'"
  shows "sax_parse_loop sax states False p h = sax_parse_loop sax states True p h'"
  by (simp add: loop_value loop_evaluates assms)

lemma object_read:
  assumes "\<And>p. p \<in> set m \<Longrightarrow> value_read sax ea (snd p) \<and> utf8_valid (fst p)"
  shows "value_read sax ea (JObject m)"
  unfolding value_read_def
proof (intro allI impI)
  fix pp step cur p ws s h h' states
  assume a: "ahead p (ws @ dump_text (JObject m) pp ea step cur @ s)" and ws: "white ws"
    and acc: "accepts sax (events (JObject m)) h h'"
  obtain h1 where h1: "sax_start_object sax unknown_size h = Inr (True, h1)"
      "accepts sax (member_events m @ [Ev_end_object]) h1 h'"
    using acc by (auto simp: member_events_def)
  let ?p = "get_token p"
  obtain body where body: "dump_text (JObject m) pp ea step cur = CHR ''{'' # body"
    using object_text_start by blast
  have a': "ahead p (ws @ CHR ''{'' # body @ s)" using a body by simp
  have p: "ps_last_token ?p = Tok_begin_object" "past ?p (body @ s)"
    using char_token [OF a' ahead_ready [OF a'] ws, of Tok_begin_object] by simp_all
  have start: "sax_parse_loop sax states False ?p h = resume sax (begin_object sax states ?p h)"
    by (simp add: loop_value parse_value_def p(1) Let_def)
  show "\<exists>p'. past p' s \<and> sax_parse_loop sax states False ?p h = sax_parse_loop sax states True p' h'"
  proof (cases "m = []")
    case True
    have "body = ''}''" using body True by simp
    then have a2: "ahead ?p ([] @ CHR ''}'' # s)" using past_ahead [OF p(2)] by simp
    have "ps_last_token (get_token ?p) = Tok_end_object \<and> past (get_token ?p) s"
      using char_token [OF a2 ahead_ready [OF a2], of Tok_end_object] by simp
    then show ?thesis
      using h1 True start
      by (intro exI [of _ "get_token ?p"])
         (simp add: begin_object_def sax_event_def loop_evaluates Let_def member_events_def)
  next
    case False
    let ?members = "members_text m pp ea step (deeper pp step cur)"
    have tx: "body @ s = eol pp @ ?members @ (eol pp @ indent pp cur) @ CHR ''}'' # s"
      using body unfolding object_text [OF False] by simp
    obtain k ms where m: "m = k # ms" using False by (cases m) auto
    have "ahead ?p ((eol pp @ indent pp (deeper pp step cur)) @ quote @ escape ea (fst k) @ quote
        @ ('':'' @ space pp @ dump_text (snd k) pp ea step (deeper pp step cur)
        @ (if ms = [] then [] else CHR '','' # eol pp @ members_text ms pp ea step (deeper pp step cur))
        @ (eol pp @ indent pp cur) @ CHR ''}'' # s))"
      using past_ahead [OF p(2)] unfolding tx m by (simp only: members_text append.assoc)
    note key = string_token [OF this ahead_ready [OF this]]
    have "ps_last_token (get_token ?p) \<noteq> Tok_end_object" using key assms [of k] m by simp
    then have "begin_object sax states ?p h = parse_key sax (False # states) (get_token ?p) h1"
      using h1(1) by (simp add: begin_object_def sax_event_def Let_def)
    moreover have "\<exists>p'. past p' s \<and> resume sax (parse_key sax (False # states) (get_token ?p) h1)
        = sax_parse_loop sax states True p' h'"
      by (rule members_read [where ws' = "eol pp @ indent pp cur", OF assms False _ white_layout(3) _ h1(2)])
        (use past_ahead [OF p(2)] tx in auto)
    ultimately show ?thesis using start by simp
  qed
qed


text \<open>The scalars.\<close>

lemma scalar_token:
  assumes "ahead p (ws @ dump_text v pp ea step cur @ s)" "white ws" "ends_integer s" "textual v"
    "\<not> is_structured v"
  shows "past (get_token p) s \<and> ps_last_token (get_token p) \<noteq> Tok_end_array
    \<and> (accepts sax (events v) h h' \<longrightarrow>
         parse_value sax states (get_token p) h = state_evaluation sax states (get_token p) h')"
proof (cases v)
  case JNull
  then show ?thesis
    using literal_token [OF _ ahead_ready assms(2), where p = p and lit = "''null''" and s = s and t = Tok_literal_null] assms(1)
    by (simp add: parse_value_def sax_event_def Let_def)
next
  case (JBoolean b)
  then show ?thesis
    using literal_token [OF _ ahead_ready assms(2), where p = p and lit = "''true''" and s = s and t = Tok_literal_true]
      literal_token [OF _ ahead_ready assms(2), where p = p and lit = "''false''" and s = s and t = Tok_literal_false] assms(1)
    by (cases b) (simp_all add: parse_value_def sax_event_def Let_def)
next
  case (JString x)
  then show ?thesis
    using string_token [OF _ ahead_ready assms(2), where p = p and ea = ea and v = x and s = s] assms(1,4)
    by (simp add: parse_value_def sax_event_def Let_def)
next
  case (JNumber_unsigned n)
  then show ?thesis
    using unsigned_token [OF _ ahead_ready assms(2,3), where p = p and x = n] assms(1)
    by (simp add: parse_value_def sax_event_def Let_def)
next
  case (JNumber_integer n)
  show ?thesis
  proof (cases "sint n < 0")
    case True
    then show ?thesis
      using negative_token [OF _ ahead_ready assms(2,3) True, where p = p] assms(1) JNumber_integer
      by (simp add: parse_value_def sax_event_def Let_def)
  next
    case False
    then have "dump_signed n = dump_unsigned n"
      by (simp add: dump_signed_eq dump_unsigned_eq unat_nonneg_u64)
    then show ?thesis
      using unsigned_token [OF _ ahead_ready assms(2,3), where p = p and x = n] assms(1) JNumber_integer False
      by (simp add: parse_value_def sax_event_def Let_def)
  qed
next
  case (JNumber_float x)
  show ?thesis
  proof (cases "dbl_isfinite x")
    case True
    then obtain t where t: "to_chars x = Inr t" by (rule to_chars_finite)
    then have d: "dump_text v pp ea step cur = t" using True JNumber_float by (simp add: dump_float_def)
    show ?thesis
      using float_token [OF _ ahead_ready assms(2,3) True t, where p = p] assms(1) JNumber_float True t unfolding d
      by (simp add: parse_value_def sax_event_def Let_def)
  next
    case False
    then show ?thesis
      using literal_token [OF _ ahead_ready assms(2), where p = p and lit = "''null''" and s = s and t = Tok_literal_null]
        assms(1) JNumber_float
      by (simp add: parse_value_def sax_event_def Let_def dump_float_def)
  qed
qed (use assms(4,5) in \<open>simp_all add: is_structured_def\<close>)

lemma scalar_read:
  assumes "textual v" "\<not> is_structured v"
  shows "value_read sax ea v"
  unfolding value_read_def
proof (intro allI impI)
  fix pp step cur p ws s h h' states
  assume a: "ahead p (ws @ dump_text v pp ea step cur @ s)" "white ws" "ends_integer s"
    and acc: "accepts sax (events v) h h'"
  have "sax_parse_loop sax states False (get_token p) h = sax_parse_loop sax states True (get_token p) h'"
    using scalar_token [OF a assms, of sax h h' states] acc by (simp add: loop_scalar)
  then show "\<exists>p'. past p' s \<and> sax_parse_loop sax states False (get_token p) h = sax_parse_loop sax states True p' h'"
    using scalar_token [OF a assms, of sax h h' states] by blast
qed

lemma first_token:
  assumes "ahead p (ws @ dump_text v pp ea step cur @ s)" "white ws" "ends_integer s" "textual v"
  shows "ps_last_token (get_token p) \<noteq> Tok_end_array"
proof (cases "is_structured v")
  case False
  then show ?thesis using scalar_token [OF assms, of acceptor_sax] by simp
next
  case True
  then consider m where "v = JObject m" | xs where "v = JArray xs" by (auto simp: is_structured_def)
  then show ?thesis
  proof cases
    case 1
    obtain b where "dump_text v pp ea step cur = CHR ''{'' # b" using object_text_start 1 by blast
    then have "ahead p (ws @ CHR ''{'' # b @ s)" using assms(1) by simp
    from char_token [OF this ahead_ready [OF this] assms(2), of Tok_begin_object] show ?thesis by simp
  next
    case 2
    obtain b where "dump_text v pp ea step cur = CHR ''['' # b" using array_text_start 2 by blast
    then have "ahead p (ws @ CHR ''['' # b @ s)" using assms(1) by simp
    from char_token [OF this ahead_ready [OF this] assms(2), of Tok_begin_array] show ?thesis by simp
  qed
qed

lemma array_read:
  assumes "\<And>x. x \<in> set xs \<Longrightarrow> value_read sax ea x \<and> textual x"
  shows "value_read sax ea (JArray xs)"
  unfolding value_read_def
proof (intro allI impI)
  fix pp step cur p ws s h h' states
  assume a: "ahead p (ws @ dump_text (JArray xs) pp ea step cur @ s)" and ws: "white ws"
    and acc: "accepts sax (events (JArray xs)) h h'"
  obtain h1 where h1: "sax_start_array sax unknown_size h = Inr (True, h1)"
      "accepts sax (concat (map events xs) @ [Ev_end_array]) h1 h'"
    using acc by auto
  let ?p = "get_token p"
  obtain body where body: "dump_text (JArray xs) pp ea step cur = CHR ''['' # body"
    using array_text_start by blast
  have a': "ahead p (ws @ CHR ''['' # body @ s)" using a body by simp
  have p: "ps_last_token ?p = Tok_begin_array" "past ?p (body @ s)"
    using char_token [OF a' ahead_ready [OF a'] ws, of Tok_begin_array] by simp_all
  have start: "sax_parse_loop sax states False ?p h = resume sax (begin_array sax states ?p h)"
    by (simp add: loop_value parse_value_def p(1) Let_def)
  show "\<exists>p'. past p' s \<and> sax_parse_loop sax states False ?p h = sax_parse_loop sax states True p' h'"
  proof (cases "xs = []")
    case True
    have "body = '']''" using body True by simp
    then have a2: "ahead ?p ([] @ CHR '']'' # s)" using past_ahead [OF p(2)] by simp
    have "ps_last_token (get_token ?p) = Tok_end_array \<and> past (get_token ?p) s"
      using char_token [OF a2 ahead_ready [OF a2], of Tok_end_array] by simp
    then show ?thesis
      using h1 True start
      by (intro exI [of _ "get_token ?p"]) (simp add: begin_array_def sax_event_def loop_evaluates Let_def)
  next
    case False
    let ?elements = "elements_text xs pp ea step (deeper pp step cur)"
    have tx: "body @ s = eol pp @ ?elements @ (eol pp @ indent pp cur) @ CHR '']'' # s"
      using body unfolding array_text [OF False] by simp
    obtain x ys where x: "xs = x # ys" using False by (cases xs) auto
    let ?rest = "(if ys = [] then [] else CHR '','' # eol pp @ elements_text ys pp ea step (deeper pp step cur))
        @ (eol pp @ indent pp cur) @ CHR '']'' # s"
    have a3: "ahead ?p ((eol pp @ indent pp (deeper pp step cur)) @ dump_text x pp ea step (deeper pp step cur) @ ?rest)"
      using past_ahead [OF p(2)] unfolding tx x by (simp only: elements_text append.assoc)
    have e3: "ends_integer ?rest"
      using ends_integer_delimiter [of "eol pp @ indent pp cur" "CHR '']''" s]
        ends_integer_delimiter [of "[]" "CHR '',''"] by simp
    have "ps_last_token (get_token ?p) \<noteq> Tok_end_array"
      by (rule first_token [OF a3 _ e3]) (use assms [of x] x in simp_all)
    then have "begin_array sax states ?p h = Inr (Continue (True # states) False, get_token ?p, h1)"
      using h1(1) by (simp add: begin_array_def sax_event_def Let_def)
    moreover have "\<exists>p'. past p' s \<and> sax_parse_loop sax (True # states) False (get_token ?p) h1
        = sax_parse_loop sax states True p' h'"
      by (rule elements_read [where ws' = "eol pp @ indent pp cur", OF _ False _ white_layout(3) _ h1(2)])
        (use past_ahead [OF p(2)] tx assms in auto)
    ultimately show ?thesis using start by (simp add: resume_def)
  qed
qed

theorem textual_read: "textual v \<Longrightarrow> value_read sax ea v"
proof (induction v)
  case (JObject m)
  then show ?case by (intro object_read) (auto simp: snds.simps)
next
  case (JArray xs)
  then show ?case by (intro array_read) auto
qed (auto intro: scalar_read simp: is_structured_def)


section \<open>Whole inputs\<close>

lemma text_start: "textual v \<Longrightarrow> white ws \<Longrightarrow> next_code_of (ws @ dump_text v pp ea step cur @ s) \<noteq> 239"
proof (cases ws)
  case Nil
  assume "textual v"
  have d: "is_digit c \<Longrightarrow> byte c \<noteq> 239" for c by (simp add: is_digit_def)
  have s: "next_code_of (show_nat n @ r) \<noteq> 239" for n r
    by (rule show_nat_shape [of n]) (use d in \<open>auto simp: next_code_of_def\<close>)
  have f: "next_code_of (t @ r) \<noteq> 239" if x: "dbl_isfinite x" "to_chars x = Inr t" for x t r
  proof -
    obtain c cs where "t = c # cs" "c = CHR ''-'' \<or> is_digit c"
      by (rule to_chars_start [OF x])
    then show ?thesis using d [of c] by (auto simp: next_code_of_def)
  qed
  show ?thesis
  proof (cases v)
    case (JNumber_float x)
    show ?thesis
    proof (cases "dbl_isfinite x")
      case True
      then obtain t where "to_chars x = Inr t" by (rule to_chars_finite)
      then show ?thesis using f [OF True] True JNumber_float Nil by (simp add: dump_float_def)
    next
      case False
      then show ?thesis using JNumber_float Nil by (simp add: dump_float_def next_code_of_def)
    qed
  next
    case (JObject m)
    then show ?thesis using object_text_start [of m pp ea step cur] Nil by (auto simp: next_code_of_def)
  next
    case (JArray xs)
    then show ?thesis using array_text_start [of xs pp ea step cur] Nil by (auto simp: next_code_of_def)
  qed (use \<open>textual v\<close> s Nil in \<open>auto simp: next_code_of_def dump_unsigned_eq dump_signed_eq quote_def\<close>)
qed (auto simp: next_code_of_def is_whitespace_def)

definition parser_start :: "string \<Rightarrow> bool \<Rightarrow> parser" where
  "parser_start s allow_exceptions = \<lparr>ps_last_token = Tok_uninitialized, ps_lexer = lexer_init s False,
     ps_allow_exceptions = allow_exceptions, ps_ignore_trailing_commas = False\<rparr>"

lemma parser_init_start: "parser_init s ae False False = get_token (parser_start s ae)"
  by (simp add: parser_init_def parser_start_def)

lemma parse_internal_text:
  assumes "textual v" "white ws" "ends_integer s" "accepts sax (events v) h h'"
  obtains p' where "past p' s"
    "sax_parse_internal sax (parser_init (ws @ dump_text v pp ea step cur @ s) ae False False) h
       = Inr (True, p', h')"
proof -
  let ?p = "parser_start (ws @ dump_text v pp ea step cur @ s) ae"
  have "ahead ?p (ws @ dump_text v pp ea step cur @ s)"
    using ready_init [OF text_start [OF assms(1,2)]] by (simp add: ahead_def parser_start_def)
  then obtain p' where p': "past p' s"
      "sax_parse_loop sax [] False (get_token ?p) h = sax_parse_loop sax [] True p' h'"
    by (rule value_readD [OF textual_read [OF assms(1)] _ assms(2,3,4)])
  have "sax_parse_loop sax [] True p' h' = Inr (True, p', h')"
    by (simp add: loop_evaluates resume_def)
  then show ?thesis
    using p' that by (simp add: sax_parse_internal_def parser_init_start)
qed

lemma strict_end_white: "past p ws \<Longrightarrow> white ws \<Longrightarrow> strict_end sax True b p h = Inr (b, get_token p, h)"
  using token_end [of "ps_lexer p" ws]
  by (auto simp: strict_end_def Let_def past_def unread_ready get_token_def split: prod.split)

end
