(* ===== verification/Roundtrip.thy ===== *)
theory Roundtrip
  imports Parsing
begin

text \<open>
  The DOM builder on the events of a value: it puts the value the events describe where the
  builder's stack points. A slot is that place: the path of \<open>handle_value\<close> together with the
  way the root looks when something is put there.
\<close>

section \<open>Paths\<close>

lemma json_lookup_append:
  "json_lookup (p @ q) j = (case json_lookup p j of Some v \<Rightarrow> json_lookup q v | None \<Rightarrow> None)"
  by (induction p j rule: json_lookup.induct) (auto split: option.split)

lemma json_update_append: "json_update (p @ q) f j = json_update p (json_update q f) j"
  by (induction p f j rule: json_update.induct) auto

lemma json_update_Nil: "json_update [] f = f"
  by (rule ext) simp

section \<open>Slots\<close>

definition slot :: "dom_parser \<Rightarrow> path \<Rightarrow> (json \<Rightarrow> json) \<Rightarrow> bool" where
  "slot d q put \<longleftrightarrow> (\<forall>v. handle_value v d = Inr (q, d\<lparr>dom_root := put v\<rparr>))
     \<and> (\<forall>v. json_lookup q (put v) = Some v) \<and> (\<forall>f v. json_update q f (put v) = put (f v))"

lemma slot_root: "dom_ref_stack d = [] \<Longrightarrow> slot d [] (\<lambda>v. v)"
  by (simp add: slot_def handle_value_def)

lemma slot_value: "slot d q put \<Longrightarrow> dom_value v d = Inr (True, d\<lparr>dom_root := put v\<rparr>)"
  by (simp add: slot_def dom_value_def)

text \<open>A container may come with its size, which is checked against the largest possible one.\<close>

definition sized :: "u64 \<Rightarrow> nat \<Rightarrow> bool" where
  "sized len n \<longleftrightarrow> len = unknown_size \<or> unat len \<le> n"

lemma slot_start_sized:
  assumes "slot d q put" "sized len (dom_max_size d)"
  shows "dom_start what v len d
     = Inr (True, d\<lparr>dom_root := put v, dom_ref_stack := dom_ref_stack d @ [q]\<rparr>)"
  using assms by (auto simp: slot_def dom_start_def sized_def)

lemmas slot_start = slot_start_sized [where len = unknown_size, unfolded sized_def, OF _ disjI1, OF _ refl]

text \<open>Inside the container that has been opened at a slot.\<close>

definition inside :: "path \<Rightarrow> (json \<Rightarrow> json) \<Rightarrow> json \<Rightarrow> dom_parser \<Rightarrow> bool" where
  "inside q put c d \<longleftrightarrow> dom_ref_stack d \<noteq> [] \<and> last (dom_ref_stack d) = q \<and> dom_root d = put c
     \<and> (\<forall>v. json_lookup q (put v) = Some v) \<and> (\<forall>f v. json_update q f (put v) = put (f v))"

lemma inside_back: "inside q put c d \<Longrightarrow> dom_back d = Some c"
  by (simp add: inside_def dom_back_def)

lemma inside_element:
  assumes "inside q put (JArray xs) d"
  shows "slot d (q @ [Idx (length xs)]) (\<lambda>v. put (JArray (xs @ [v])))"
  using assms inside_back [OF assms]
  by (auto simp: slot_def handle_value_def inside_def json_lookup_append json_update_append Let_def)

text \<open>A key opens the member's slot.\<close>

abbreviation change_at :: "'k \<Rightarrow> ('v \<Rightarrow> 'v) \<Rightarrow> ('k \<times> 'v) list \<Rightarrow> ('k \<times> 'v) list" where
  "change_at k f \<equiv> map (\<lambda>(k', v'). (k', if k' = k then f v' else v'))"

lemma map_of_change_at:
  "map_of (change_at k f m) k' = (if k' = k then map_option f (map_of m k) else map_of m k')"
  by (induction m) auto

lemma smap_inv_change_at: "smap_inv (change_at k f m) = smap_inv m"
proof -
  have "map fst (change_at k f m) = map fst m" by (induction m) auto
  then show ?thesis by (simp only: smap_inv_def)
qed

lemma change_emplaced:
  assumes "smap_inv m"
  shows "change_at k (\<lambda>_. v) (smap_emplace k u m) = smap_set k v m"
  by (rule smap_eqI)
    (use assms in \<open>auto simp: smap_inv_change_at fun_eq_iff map_of_change_at map_of_smap_emplace
      map_of_smap_set split: option.split\<close>)

lemma change_set:
  assumes "smap_inv m"
  shows "change_at k f (smap_set k v m) = smap_set k (f v) m"
  by (rule smap_eqI)
    (use assms in \<open>auto simp: smap_inv_change_at fun_eq_iff map_of_change_at map_of_smap_set\<close>)

lemma map_of_set_same: "smap_inv m \<Longrightarrow> map_of (smap_set k v m) k = Some v"
  by (simp add: map_of_smap_set)

lemma inside_key:
  assumes "inside q put (JObject m) d" "smap_inv m"
  obtains r oe where "dom_key k d = Inr (True, d\<lparr>dom_root := r, dom_object_element := oe\<rparr>)"
    "slot (d\<lparr>dom_root := r, dom_object_element := oe\<rparr>) (q @ [Key k]) (\<lambda>v. put (JObject (smap_set k v m)))"
proof -
  let ?d = "d\<lparr>dom_root := put (JObject (smap_emplace k JNull m)), dom_object_element := Some (q @ [Key k])\<rparr>"
  have key: "dom_key k d = Inr (True, ?d)"
    using assms(1) inside_back [OF assms(1)] by (simp add: dom_key_def inside_def)
  have "dom_back ?d = Some (JObject (smap_emplace k JNull m))"
    using assms(1) by (simp add: inside_def dom_back_def)
  then have "slot ?d (q @ [Key k]) (\<lambda>v. put (JObject (smap_set k v m)))"
    using assms(1) assms(2)
    by (auto simp: slot_def handle_value_def inside_def json_lookup_append json_update_append
        change_emplaced change_set map_of_set_same json_update_Nil cong: if_cong)
  then show ?thesis by (rule that [OF key])
qed

section \<open>Building a value\<close>

text \<open>The value that comes out: integers that are not negative are unsigned, infinities and NaNs are
  null, a key that comes again replaces the member it had.\<close>

fun parsed :: "json \<Rightarrow> json" where
  "parsed (JObject m) = JObject (fold (\<lambda>(k, v). smap_set k v) (map (\<lambda>p. (fst p, parsed (snd p))) m) [])"
| "parsed (JArray xs) = JArray (map parsed xs)"
| "parsed (JNumber_integer n) = (if sint n < 0 then JNumber_integer n else JNumber_unsigned n)"
| "parsed (JNumber_float x) = (if dbl_isfinite x then JNumber_float x else JNull)"
| "parsed v = v"

text \<open>The members and elements are described by their events and the values these build.\<close>

definition set_members :: "(string \<times> json) list \<Rightarrow> (string \<times> json) list \<Rightarrow> (string \<times> json) list" where
  "set_members ps m = fold (\<lambda>(k, v). smap_set k v) ps m"

definition builds :: "nat \<Rightarrow> parse_event list \<Rightarrow> json \<Rightarrow> bool" where
  "builds n es v \<longleftrightarrow> (\<forall>d q put. slot d q put \<and> dom_max_size d = n \<longrightarrow>
     (\<exists>oe. accepts dom_sax es d (d\<lparr>dom_root := put v, dom_object_element := oe\<rparr>)))"

lemma buildsD:
  assumes "builds n es v" "slot d q put" "dom_max_size d = n"
  obtains oe where "accepts dom_sax es d (d\<lparr>dom_root := put v, dom_object_element := oe\<rparr>)"
  using assms unfolding builds_def by blast

lemma members_build:
  assumes "\<And>p. p \<in> set ps \<Longrightarrow> builds n (f p) (g p)" "inside q put (JObject m) d" "smap_inv m" "dom_max_size d = n"
  shows "\<exists>oe. accepts dom_sax (concat (map (\<lambda>p. Ev_key (fst p) # f p) ps)) d
           (d\<lparr>dom_root := put (JObject (set_members (map (\<lambda>p. (fst p, g p)) ps) m)), dom_object_element := oe\<rparr>)"
  using assms
proof (induction ps arbitrary: m d)
  case Nil
  then show ?case
    by (intro exI [of _ "dom_object_element d"]) (simp add: set_members_def inside_def)
next
  case (Cons p ps)
  obtain r1 oe1 where d1: "dom_key (fst p) d = Inr (True, d\<lparr>dom_root := r1, dom_object_element := oe1\<rparr>)"
      "slot (d\<lparr>dom_root := r1, dom_object_element := oe1\<rparr>) (q @ [Key (fst p)])
        (\<lambda>v. put (JObject (smap_set (fst p) v m)))"
    by (rule inside_key [OF Cons.prems(2,3)])
  let ?d1 = "d\<lparr>dom_root := r1, dom_object_element := oe1\<rparr>"
  have p: "builds n (f p) (g p)" "dom_max_size ?d1 = n" using Cons.prems by simp_all
  obtain oe where oe: "accepts dom_sax (f p) ?d1
      (?d1\<lparr>dom_root := put (JObject (smap_set (fst p) (g p) m)), dom_object_element := oe\<rparr>)"
    by (rule buildsD [OF p(1) d1(2) p(2)])
  let ?d2 = "?d1\<lparr>dom_root := put (JObject (smap_set (fst p) (g p) m)), dom_object_element := oe\<rparr>"
  have "inside q put (JObject (smap_set (fst p) (g p) m)) ?d2"
    using Cons.prems(2) by (simp add: inside_def)
  then obtain oe' where "accepts dom_sax (concat (map (\<lambda>p. Ev_key (fst p) # f p) ps)) ?d2
      (?d2\<lparr>dom_root := put (JObject (set_members (map (\<lambda>p. (fst p, g p)) ps) (smap_set (fst p) (g p) m))),
           dom_object_element := oe'\<rparr>)"
    using Cons.IH [of "smap_set (fst p) (g p) m" ?d2] Cons.prems(1,3,4) by auto
  then have "accepts dom_sax (concat (map (\<lambda>p. Ev_key (fst p) # f p) (p # ps))) d
      (?d2\<lparr>dom_root := put (JObject (set_members (map (\<lambda>p. (fst p, g p)) (p # ps)) m)), dom_object_element := oe'\<rparr>)"
    using d1(1) oe by (auto simp: set_members_def accepts_append dom_sax_def)
  then show ?case by (intro exI [of _ oe']) simp
qed

lemma elements_build:
  assumes "\<And>x. x \<in> set xs \<Longrightarrow> builds n (f x) (g x)" "inside q put (JArray ys) d" "dom_max_size d = n"
  shows "\<exists>oe. accepts dom_sax (concat (map f xs)) d
           (d\<lparr>dom_root := put (JArray (ys @ map g xs)), dom_object_element := oe\<rparr>)"
  using assms
proof (induction xs arbitrary: ys d)
  case Nil
  then show ?case by (intro exI [of _ "dom_object_element d"]) (simp add: inside_def)
next
  case (Cons x xs)
  have x: "builds n (f x) (g x)" using Cons.prems(1) [of x] by simp
  obtain oe where oe: "accepts dom_sax (f x) d
      (d\<lparr>dom_root := put (JArray (ys @ [g x])), dom_object_element := oe\<rparr>)"
    by (rule buildsD [OF x inside_element [OF Cons.prems(2)] Cons.prems(3)])
  let ?d = "d\<lparr>dom_root := put (JArray (ys @ [g x])), dom_object_element := oe\<rparr>"
  have "inside q put (JArray (ys @ [g x])) ?d" using Cons.prems(2) by (simp add: inside_def)
  then obtain oe' where "accepts dom_sax (concat (map f xs)) ?d
      (?d\<lparr>dom_root := put (JArray ((ys @ [g x]) @ map g xs)), dom_object_element := oe'\<rparr>)"
    using Cons.IH [of "ys @ [g x]" ?d] Cons.prems(1,3) by auto
  then show ?case using oe by (intro exI [of _ oe']) (auto simp: accepts_append)
qed

lemma slot_inside:
  "slot d q put \<Longrightarrow> inside q put c (d\<lparr>dom_root := put c, dom_ref_stack := dom_ref_stack d @ [q]\<rparr>)"
  by (simp add: slot_def inside_def)

lemma object_builds:
  assumes "\<And>p. p \<in> set m \<Longrightarrow> builds n (f p) (g p)" "sized len n"
  shows "builds n (Ev_start_object len # concat (map (\<lambda>p. Ev_key (fst p) # f p) m) @ [Ev_end_object])
    (JObject (set_members (map (\<lambda>p. (fst p, g p)) m) []))"
  unfolding builds_def
proof (intro allI impI, elim conjE)
  fix d q put assume s: "slot d q put" and n: "dom_max_size d = n"
  let ?m = "set_members (map (\<lambda>p. (fst p, g p)) m) []"
  let ?d = "d\<lparr>dom_root := put (JObject []), dom_ref_stack := dom_ref_stack d @ [q]\<rparr>"
  obtain oe where oe: "accepts dom_sax (concat (map (\<lambda>p. Ev_key (fst p) # f p) m)) ?d
      (?d\<lparr>dom_root := put (JObject ?m), dom_object_element := oe\<rparr>)"
    using members_build [of m n f g q put "[]" ?d, OF assms(1) slot_inside [OF s]] n by auto
  let ?e = "?d\<lparr>dom_root := put (JObject ?m), dom_object_element := oe\<rparr>"
  have "dom_back ?e = Some (JObject ?m)"
    using s by (simp add: dom_back_def slot_def)
  then have "dom_end_object ?e = Inr (True, d\<lparr>dom_root := put (JObject ?m), dom_object_element := oe\<rparr>)"
    by (simp add: dom_end_object_def)
  moreover have "dom_start_object len d = Inr (True, ?d)"
    using slot_start_sized [OF s] assms(2) n by (simp add: dom_start_object_def)
  ultimately show "\<exists>oe. accepts dom_sax (Ev_start_object len # concat (map (\<lambda>p. Ev_key (fst p) # f p) m) @ [Ev_end_object]) d
      (d\<lparr>dom_root := put (JObject ?m), dom_object_element := oe\<rparr>)"
    using oe by (intro exI [of _ oe]) (auto simp: accepts_append dom_sax_def)
qed

lemma array_builds:
  assumes "\<And>x. x \<in> set xs \<Longrightarrow> builds n (f x) (g x)" "sized len n"
  shows "builds n (Ev_start_array len # concat (map f xs) @ [Ev_end_array]) (JArray (map g xs))"
  unfolding builds_def
proof (intro allI impI, elim conjE)
  fix d q put assume s: "slot d q put" and n: "dom_max_size d = n"
  let ?d = "d\<lparr>dom_root := put (JArray []), dom_ref_stack := dom_ref_stack d @ [q]\<rparr>"
  obtain oe where oe: "accepts dom_sax (concat (map f xs)) ?d
      (?d\<lparr>dom_root := put (JArray (map g xs)), dom_object_element := oe\<rparr>)"
    using elements_build [of xs n f g q put "[]" ?d, OF assms(1) slot_inside [OF s]] n by auto
  let ?e = "?d\<lparr>dom_root := put (JArray (map g xs)), dom_object_element := oe\<rparr>"
  have "dom_back ?e = Some (JArray (map g xs))"
    using s by (simp add: dom_back_def slot_def)
  then have "dom_end_array ?e = Inr (True, d\<lparr>dom_root := put (JArray (map g xs)), dom_object_element := oe\<rparr>)"
    by (simp add: dom_end_array_def)
  moreover have "dom_start_array len d = Inr (True, ?d)"
    using slot_start_sized [OF s] assms(2) n by (simp add: dom_start_array_def)
  ultimately show "\<exists>oe. accepts dom_sax (Ev_start_array len # concat (map f xs) @ [Ev_end_array]) d
      (d\<lparr>dom_root := put (JArray (map g xs)), dom_object_element := oe\<rparr>)"
    using oe by (intro exI [of _ oe]) (auto simp: accepts_append dom_sax_def)
qed

lemma value_builds:
  assumes "\<And>d. emit dom_sax e d = dom_value v d"
  shows "builds n [e] v"
proof -
  have "accepts dom_sax [e] d (d\<lparr>dom_root := put v, dom_object_element := dom_object_element d\<rparr>)"
    if "slot d q put" for d q put
    using assms slot_value [OF that] by simp
  then show ?thesis unfolding builds_def by blast
qed

lemma textual_builds: "textual v \<Longrightarrow> builds n (events v) (parsed v)"
proof (induction v)
  case (JObject m)
  then have "builds n (events (JObject m)) (JObject (set_members (map (\<lambda>p. (fst p, parsed (snd p))) m) []))"
    unfolding events.simps by (intro object_builds) (auto simp: snds.simps sized_def)
  then show ?case by (simp add: set_members_def)
next
  case (JArray xs)
  then have "builds n (events (JArray xs)) (JArray (map parsed xs))"
    unfolding events.simps by (intro array_builds) (auto simp: sized_def)
  then show ?case by simp
qed (auto intro: value_builds simp: dom_sax_def)


section \<open>Reading back what was written\<close>

theorem parser_parse_text:
  assumes "textual v" "white ws" "ends_integer s" "strict \<Longrightarrow> white s"
  shows "\<exists>p. parser_parse n strict JNull (parser_init (ws @ dump_text v pp ea step cur @ s) ae False False)
    = Inr (parsed v, p)"
proof -
  let ?d = "dom_init n ae JNull"
  have slot: "slot ?d [] (\<lambda>v. v)" by (rule slot_root) (simp add: dom_init_def)
  obtain oe where acc: "accepts dom_sax (events v) ?d (?d\<lparr>dom_root := parsed v, dom_object_element := oe\<rparr>)"
    by (rule buildsD [OF textual_builds [OF assms(1)] slot refl])
  let ?e = "?d\<lparr>dom_root := parsed v, dom_object_element := oe\<rparr>"
  let ?p = "parser_init (ws @ dump_text v pp ea step cur @ s) ae False False"
  obtain p' where p': "past p' s" "sax_parse_internal dom_sax ?p ?d = Inr (True, p', ?e)"
    by (rule parse_internal_text [OF assms(1,2,3) acc])
  have "ps_allow_exceptions ?p = ae" by (simp add: parser_init_def get_token_def split: prod.split)
  moreover have "\<exists>q. strict_end dom_sax strict True p' ?e = Inr (True, q, ?e)"
    using strict_end_white [OF p'(1), of dom_sax True ?e] assms(4)
    by (cases strict) (simp_all, simp add: strict_end_def)
  ultimately show ?thesis using p'(2) by (auto simp: parser_parse_def dom_init_def)
qed

lemma json_parse_text:
  assumes "textual v" "white ws" "white ws'"
  shows "json_parse (ws @ dump_text v pp ea step cur @ ws') = Inr (parsed v)"
  using parser_parse_text [OF assms(1,2) ends_integer_white [OF assms(3)], where strict = True and n = 0
    and pp = pp and ea = ea and step = step and cur = cur and ae = True] assms(3)
  by (auto simp: json_parse_def)

text \<open>Reading from a stream stops behind the value.\<close>

lemma json_read_stream_text:
  assumes "textual v" "white ws" "ends_integer s"
  shows "json_read_stream (ws @ dump_text v pp ea step cur @ s) = Inr (parsed v)"
  using parser_parse_text [OF assms, where strict = False and n = 0
    and pp = pp and ea = ea and step = step and cur = cur and ae = True] by (auto simp: json_read_stream_def)

lemma acceptor_accepts: "accepts acceptor_sax es () ()"
proof -
  have "emit acceptor_sax e () = Inr (True, ())" for e
    by (cases e) (simp_all add: acceptor_sax_def acceptor_yes_def)
  then show ?thesis by (induction es) simp_all
qed

lemma json_accept_text:
  assumes "textual v" "white ws" "white ws'"
  shows "json_accept (ws @ dump_text v pp ea step cur @ ws')"
proof -
  let ?p = "parser_init (ws @ dump_text v pp ea step cur @ ws') False False False"
  obtain p' where p': "past p' ws'" "sax_parse_internal acceptor_sax ?p () = Inr (True, p', ())"
    by (rule parse_internal_text [OF assms(1,2) ends_integer_white [OF assms(3)] acceptor_accepts])
  then show ?thesis
    using strict_end_white [OF p'(1) assms(3), of acceptor_sax]
    by (simp add: json_accept_def parser_accept_def sax_parse_def)
qed

text \<open>On values that satisfy the invariant only the number type changes, and the text does not.\<close>

lemma fold_smap_set: "smap_inv (m @ ps) \<Longrightarrow> fold (\<lambda>(k, v). smap_set k v) ps m = m @ ps"
proof (induction ps arbitrary: m)
  case (Cons p ps)
  have "smap_set (fst p) (snd p) m = m @ [p]"
    using smap_set_above [of m "fst p" "snd p"] Cons.prems
    by (auto simp: smap_inv_def sorted_wrt_append)
  then show ?case using Cons.IH [of "m @ [p]"] Cons.prems by (simp add: case_prod_beta)
qed simp

lemma smap_inv_map: "smap_inv (map (\<lambda>p. (fst p, f (snd p))) m) = smap_inv m"
  by (simp add: smap_inv_def comp_def)

lemma parsed_object:
  "smap_inv m \<Longrightarrow> parsed (JObject m) = JObject (map (\<lambda>p. (fst p, parsed (snd p))) m)"
  using fold_smap_set [of "[]" "map (\<lambda>p. (fst p, parsed (snd p))) m"] by (simp add: smap_inv_map)

lemma parsed_inv: "json_inv v \<Longrightarrow> json_inv (parsed v)"
proof (induction v)
  case (JObject m)
  then show ?case by (auto simp: parsed_object smap_inv_map snds.simps simp del: parsed.simps)
qed auto

lemma parsed_textual: "json_inv v \<Longrightarrow> textual v \<Longrightarrow> textual (parsed v)"
proof (induction v)
  case (JObject m)
  then show ?case by (auto simp: parsed_object snds.simps simp del: parsed.simps)
qed auto

lemma parsed_parsed: "json_inv v \<Longrightarrow> parsed (parsed v) = parsed v"
proof (induction v)
  case (JObject m)
  then show ?case
    by (auto simp: parsed_object smap_inv_map snds.simps comp_def simp del: parsed.simps)
qed auto

lemma members_text_map:
  "(\<And>p cur. p \<in> set m \<Longrightarrow> dump_text (f (snd p)) pp ea step cur = dump_text (snd p) pp ea step cur) \<Longrightarrow>
     members_text (map (\<lambda>p. (fst p, f (snd p))) m) pp ea step cur = members_text m pp ea step cur"
  by (induction m) (simp_all add: members_text)

lemma elements_text_map:
  "(\<And>x cur. x \<in> set xs \<Longrightarrow> dump_text (f x) pp ea step cur = dump_text x pp ea step cur) \<Longrightarrow>
     elements_text (map f xs) pp ea step cur = elements_text xs pp ea step cur"
  by (induction xs) (simp_all add: elements_text)

lemma dump_text_parsed: "json_inv v \<Longrightarrow> dump_text (parsed v) pp ea step cur = dump_text v pp ea step cur"
proof (induction v arbitrary: cur)
  case (JObject m)
  have members: "members_text (map (\<lambda>p. (fst p, parsed (snd p))) m) pp ea step c = members_text m pp ea step c" for c
    by (rule members_text_map) (use JObject in \<open>auto simp: snds.simps\<close>)
  have eq: "parsed (JObject m) = JObject (map (\<lambda>p. (fst p, parsed (snd p))) m)"
    by (rule parsed_object) (use JObject.prems in simp)
  show ?case unfolding eq by (simp add: members)
next
  case (JArray xs)
  have "elements_text (map parsed xs) pp ea step c = elements_text xs pp ea step c" for c
    by (rule elements_text_map) (use JArray in auto)
  then show ?case by simp
qed (auto simp: dump_signed_eq dump_unsigned_eq unat_nonneg_u64 dump_float_def)

lemma textual_utf8: "textual v \<Longrightarrow> utf8_json v"
  by (induction v) (auto simp: snds.simps)

lemma json_dump_textual: "textual v \<Longrightarrow> json_dump v = Inr (dump_text v False False 0 0)"
  using json_dump_text [of v] textual_utf8 [of v] by (auto split: sum.splits)

lemma json_dump_indent_textual:
  "textual v \<Longrightarrow> 0 \<le> n \<Longrightarrow> n \<le> 512 \<Longrightarrow> json_dump_indent n v = Inr (dump_text v True False (word_of_int n) 0)"
  using json_dump_indent_text [of n v] textual_utf8 [of v] by (auto split: sum.splits)

end
