(* ===== verification/Protocol.thy ===== *)
theory Protocol
  imports Parser Serializer
begin

text \<open>
  What client and server share: \<open>common/Protocol.hpp\<close> (messages as one line of JSON),
  \<open>common/Resource.hpp\<close>, \<open>common/Logger.hpp\<close>, and the reading of lines both ends do on
  their input buffer.
\<close>

section \<open>Messages\<close>

definition MSG_ASSIGN_CLIENT_ID :: string where
  "MSG_ASSIGN_CLIENT_ID = ''AssignClientId''"

definition MSG_RESOURCE_UPDATE :: string where
  "MSG_RESOURCE_UPDATE = ''ResourceUpdate''"

definition MSG_LOGIN_REQUEST :: string where
  "MSG_LOGIN_REQUEST = ''LoginRequest''"

definition MSG_LOGIN_RESULT :: string where
  "MSG_LOGIN_RESULT = ''LoginResult''"

record message =
  msg_type :: string
  msg_sequence :: u32
  msg_payload :: json

text \<open>An unsigned value of any width becomes a \<open>number_unsigned\<close>, an \<open>int\<close> a
  \<open>number_integer\<close>.\<close>

definition json_unsigned :: "'a::len word \<Rightarrow> json" where
  "json_unsigned n = JNumber_unsigned (ucast n)"

definition json_int :: "u32 \<Rightarrow> json" where
  "json_int n = JNumber_integer (scast n)"

text \<open>\<open>{{key, value}, ...}\<close>\<close>

definition json_braces :: "(string \<times> json) list \<Rightarrow> json" where
  "json_braces kvs = json_init (map (\<lambda>(k, v). json_init [JString k, v]) kvs)"

definition message_json :: "message \<Rightarrow> json" where
  "message_json m = json_braces
     [(''type'', JString (msg_type m)),
      (''sequence'', json_unsigned (msg_sequence m)),
      (''payload'', msg_payload m)]"

definition message_serialize :: "message \<Rightarrow> string res" where
  "message_serialize m = rbind (json_dump (message_json m)) (\<lambda>t. Inr (t @ newline))"

definition message_parse :: "string \<Rightarrow> message res" where
  "message_parse raw =
     rbind (json_parse raw) (\<lambda>j.
     rbind (rbind (json_at j ''type'') get_string) (\<lambda>type.
     rbind (rbind (json_at j ''sequence'') get_uint32) (\<lambda>sequence.
     rbind (json_at j ''payload'') (\<lambda>payload.
     Inr \<lparr>msg_type = type, msg_sequence = sequence, msg_payload = payload\<rparr>))))"

section \<open>Lines\<close>

text \<open>
  \<open>read_until(..., '\n')\<close> waits for a line; \<open>getline\<close> takes it out of the buffer without
  its end. \<open>None\<close>: no complete line yet.
\<close>

fun take_line :: "string \<Rightarrow> (string \<times> string) option" where
  "take_line [] = None"
| "take_line (c # cs) =
     (if c = chr 10 then Some ([], cs)
      else map_option (\<lambda>(l, r). (c # l, r)) (take_line cs))"

definition strip_cr :: "string \<Rightarrow> string" where
  "strip_cr line = (if line \<noteq> [] \<and> last line = chr 13 then butlast line else line)"

lemma take_line_length: "take_line b = Some (l, r) \<Longrightarrow> length r < length b"
  by (induction b arbitrary: l r) (auto split: if_splits)

text \<open>Every complete line of a buffer, and what is left.\<close>

function take_lines :: "string \<Rightarrow> string list \<times> string" where
  "take_lines b =
     (case take_line b of
        None \<Rightarrow> ([], b)
      | Some (l, r) \<Rightarrow> (let (ls, rest) = take_lines r in (strip_cr l # ls, rest)))"
  by pat_completeness auto
termination
  by (relation "measure length") (auto simp: take_line_length)

declare take_lines.simps [simp del]

section \<open>Resources and the logger\<close>

record resources =
  wood :: u64
  food :: u64
  iron :: u64

definition resources_init :: resources where
  "resources_init = \<lparr>wood = 0, food = 0, iron = 0\<rparr>"

record login_info =
  li_id :: string
  li_password :: string

text \<open>\<open>strrchr\<close>: the position of the last occurrence.\<close>

definition strrchr :: "string \<Rightarrow> char \<Rightarrow> nat option" where
  "strrchr s c = (if c \<in> set s then Some (length s - 1 - length (takeWhile (\<lambda>d. d \<noteq> c) (rev s))) else None)"

text \<open>\<open>(slash > back ? slash : back)\<close> with the null pointer below every other.\<close>

definition later :: "nat option \<Rightarrow> nat option \<Rightarrow> nat option" where
  "later a b = (case (a, b) of
     (None, _) \<Rightarrow> b | (Some i, None) \<Rightarrow> Some i | (Some i, Some j) \<Rightarrow> Some (if j < i then i else j))"

definition getFilename :: "string \<Rightarrow> string" where
  "getFilename path =
     (case later (strrchr path (CHR ''/'')) (strrchr path backslash) of
        Some i \<Rightarrow> drop (i + 1) path
      | None \<Rightarrow> path)"

end
