(* ===== verification/Wire.thy ===== *)
theory Wire
  imports Roundtrip Protocol
begin

unbundle bit_operations_syntax

text \<open>
  Messages on the wire: compact text contains no control character, so a newline frames it;
  what is sent is read back, message by message, whatever the bytes the socket delivers at a
  time.
\<close>

section \<open>Compact text has no control characters\<close>

definition printable :: "string \<Rightarrow> bool" where
  "printable s \<longleftrightarrow> (\<forall>c \<in> set s. 32 \<le> byte c)"

lemma printable_append [simp]: "printable (s @ t) \<longleftrightarrow> printable s \<and> printable t"
  by (auto simp: printable_def)

lemma printable_Cons [simp]: "printable (c # t) \<longleftrightarrow> 32 \<le> byte c \<and> printable t"
  by (auto simp: printable_def)

lemma printable_Nil [simp]: "printable []"
  by (simp add: printable_def)

lemma printable_concat: "(\<And>s. s \<in> set ss \<Longrightarrow> printable s) \<Longrightarrow> printable (concat ss)"
  by (auto simp: printable_def)

lemma printable_hex4: "printable (hex4 n)"
  by (simp add: hex4_def hex_digit_codes)

lemma printable_unicode_escape: "printable (unicode_escape cp)"
  by (simp add: unicode_escape_def printable_hex4 backslash_def)

lemma printable_utf8_char:
  assumes "utf8_char w" "31 < utf8_code w"
  shows "printable w"
  using assms(1)
proof (cases rule: utf8_char_cases)
  case (one c)
  then have "int (utf8_code w) = byte c" by (simp add: utf8_code_def lead_code_def of_nat_of_char)
  then show ?thesis using assms(2) one by simp
qed (use assms in \<open>auto\<close>)

lemma printable_escape_char: "utf8_char w \<Longrightarrow> printable (escape_char ea w)"
  using printable_utf8_char [of w] printable_unicode_escape [of "utf8_code w"]
  by (auto simp: escape_char_def escape_text_def backslash_def)

lemma printable_escape: "utf8_valid s \<Longrightarrow> printable (escape ea s)"
  by (auto simp: utf8_valid_chars escape_def utf8_chars_concat list_all_iff
      intro!: printable_concat printable_escape_char)

lemma printable_show_nat: "printable (show_nat n)"
  by (auto simp: printable_def is_digit_def dest: show_nat_digits)

lemma printable_dump_float: "dump_float x = Inr t \<Longrightarrow> printable t"
proof (cases "dbl_isfinite x")
  case True
  assume "dump_float x = Inr t"
  then have t: "to_chars x = Inr t" using True by (simp add: dump_float_def)
  obtain ip fp neg es where "t = (if dbl_sign x then ''-'' else []) @ decimal_text ip fp neg es" "float_text ip fp neg es"
    by (rule to_chars_reads [OF True]) (use t in auto)
  moreover have "all_digits s \<Longrightarrow> printable s" for s
    by (auto simp: all_digits_def printable_def list_all_iff is_digit_def)
  ultimately show ?thesis by (auto simp: decimal_text_def exponent_text_def float_text_def)
qed (auto simp: dump_float_def)

lemma printable_members:
  "(\<And>p. p \<in> set m \<Longrightarrow> printable (escape ea (fst p)) \<and> printable (dump_text (snd p) False ea step cur)) \<Longrightarrow>
     printable (members_text m False ea step cur)"
  by (induction m) (auto simp: quote_def)

lemma printable_elements:
  "(\<And>x. x \<in> set xs \<Longrightarrow> printable (dump_text x False ea step cur)) \<Longrightarrow>
     printable (elements_text xs False ea step cur)"
  by (induction xs) auto

lemma printable_text: "textual v \<Longrightarrow> printable (dump_text v False ea step cur)"
proof (induction v arbitrary: cur)
  case (JObject m)
  have "printable (members_text m False ea step c)" for c
    by (rule printable_members) (use JObject in \<open>auto simp: printable_escape snds.simps\<close>)
  then show ?case by simp
next
  case (JArray xs)
  have "printable (elements_text xs False ea step c)" for c
    by (rule printable_elements) (use JArray in auto)
  then show ?case by simp
next
  case (JNumber_float x)
  obtain t where "dump_float x = Inr t" using dump_float_text by blast
  then show ?case using printable_dump_float by simp
qed (auto simp: quote_def printable_escape dump_unsigned_eq dump_signed_eq printable_show_nat)

section \<open>Lines\<close>

lemma take_line_append: "chr 10 \<notin> set l \<Longrightarrow> take_line (l @ chr 10 # r) = Some (l, r)"
  by (induction l) auto

lemma take_line_None: "take_line b = None \<longleftrightarrow> chr 10 \<notin> set b"
  by (induction b) auto

lemma take_line_Some: "take_line b = Some (l, r) \<longleftrightarrow> b = l @ chr 10 # r \<and> chr 10 \<notin> set l"
proof
  assume "take_line b = Some (l, r)"
  then show "b = l @ chr 10 # r \<and> chr 10 \<notin> set l"
    by (induction b arbitrary: l) (auto split: if_splits)
qed (auto simp: take_line_append)

text \<open>Bytes that arrive later do not change the lines there are.\<close>

lemma take_line_more: "take_line b = Some (l, r) \<Longrightarrow> take_line (b @ c) = Some (l, r @ c)"
  by (simp add: take_line_Some)

lemma take_lines_None: "take_line b = None \<Longrightarrow> take_lines b = ([], b)"
  by (subst take_lines.simps) simp

lemma take_lines_Some:
  "take_line b = Some (l, r) \<Longrightarrow> take_lines b = (strip_cr l # fst (take_lines r), snd (take_lines r))"
  by (subst take_lines.simps) (simp add: case_prod_beta)

lemma take_lines_append:
  "take_lines (b @ c) = (let (ls, r) = take_lines b; (ls', r') = take_lines (r @ c) in (ls @ ls', r'))"
proof (induction b rule: take_lines.induct)
  case (1 b)
  show ?case
  proof (cases "take_line b")
    case None
    then show ?thesis by (simp add: take_lines_None Let_def)
  next
    case (Some p)
    obtain l r where p: "p = (l, r)" by fastforce
    have "take_lines (b @ c) = (strip_cr l # fst (take_lines (r @ c)), snd (take_lines (r @ c)))"
      using Some p by (intro take_lines_Some take_line_more) simp
    then show ?thesis
      using 1 [OF Some p [symmetric]] Some p by (simp add: take_lines_Some Let_def case_prod_beta)
  qed
qed

lemma strip_cr_printable: "printable l \<Longrightarrow> strip_cr l = l"
proof (cases "l = []")
  case False
  assume "printable l"
  then have "32 \<le> byte (last l)" using False by (simp add: printable_def)
  then have "last l \<noteq> chr 13" by auto
  then show ?thesis by (simp add: strip_cr_def)
qed (simp add: strip_cr_def)

lemma printable_no_newline: "printable l \<Longrightarrow> chr 10 \<notin> set l"
  by (auto simp: printable_def)

lemma take_lines_lines:
  "list_all printable ls \<Longrightarrow> take_lines (concat (map (\<lambda>l. l @ newline) ls) @ rest)
     = (ls @ fst (take_lines rest), snd (take_lines rest))"
proof (induction ls)
  case (Cons l ls)
  then have "take_line (concat (map (\<lambda>l. l @ newline) (l # ls)) @ rest)
      = Some (l, concat (map (\<lambda>l. l @ newline) ls) @ rest)"
    by (simp add: take_line_append printable_no_newline newline_def)
  from take_lines_Some [OF this] show ?case using Cons by (simp add: strip_cr_printable)
qed simp

section \<open>Messages\<close>

definition sendable :: "message \<Rightarrow> bool" where
  "sendable m \<longleftrightarrow> utf8_valid (msg_type m) \<and> textual (msg_payload m)"

definition message_line :: "message \<Rightarrow> string" where
  "message_line m = dump_text (message_json m) False False 0 0"

lemma message_json_eq:
  "message_json m = JObject [(''payload'', msg_payload m), (''sequence'', json_unsigned (msg_sequence m)),
     (''type'', JString (msg_type m))]"
  by (simp add: message_json_def json_braces_def json_init_def smap_emplace_def)

lemma utf8_valid_literals [simp]: "utf8_valid ''payload''" "utf8_valid ''sequence''" "utf8_valid ''type''"
  by (auto intro!: utf8_valid_ascii)

lemma textual_message: "sendable m \<Longrightarrow> textual (message_json m)"
  by (simp add: sendable_def message_json_eq json_unsigned_def)

lemma message_serialize_line: "sendable m \<Longrightarrow> message_serialize m = Inr (message_line m @ newline)"
  by (simp add: message_serialize_def json_dump_textual textual_message message_line_def)

lemma message_line_printable: "sendable m \<Longrightarrow> printable (message_line m)"
  by (simp add: message_line_def printable_text textual_message)

lemma smap_inv_message: "smap_inv [(''payload'', a), (''sequence'', b), (''type'', c)]"
  by (simp add: smap_inv_def)

lemma ucast_u32_u64: "ucast (ucast (n :: u32) :: u64) = n"
  by (rule bit_word_eqI) (auto simp: bit_simps)

lemma message_parse_line:
  assumes "sendable m"
  shows "message_parse (message_line m) = Inr (m\<lparr>msg_payload := parsed (msg_payload m)\<rparr>)"
proof -
  have "json_parse (message_line m) = Inr (parsed (message_json m))"
    using json_parse_text [OF textual_message [OF assms], of "[]" "[]"] by (simp add: message_line_def)
  moreover have "parsed (message_json m) = JObject [(''payload'', parsed (msg_payload m)),
      (''sequence'', json_unsigned (msg_sequence m)), (''type'', JString (msg_type m))]"
    unfolding message_json_eq
    by (subst parsed_object [OF smap_inv_message]) (simp add: json_unsigned_def)
  ultimately show ?thesis
    by (simp add: message_parse_def json_at_def get_string_def get_uint32_def from_json_arithmetic_def
        json_unsigned_def ucast_u32_u64)
qed

end
