(* ===== verification/JsonDB.thy ===== *)
theory JsonDB
  imports Protocol
begin

text \<open>
  The account database of \<open>server/inc/JsonDB.hpp\<close>: a map from user names to accounts that is
  written to a JSON file after every change, through a temporary file and a rename. The
  disk is a map from paths to contents; what the operating system does to a save (opening,
  how much is written, renaming) is its argument. Operations return their result together
  with the database they leave behind, also when they throw.
\<close>

section \<open>The disk\<close>

type_synonym disk = "(string \<times> string) list"

text \<open>
  \<open>io_open\<close>: the file can be opened for writing; \<open>io_written\<close>: how many characters reach
  it (\<open>None\<close>: all of them), which the program never checks; \<open>io_rename\<close>: the rename
  succeeds.
\<close>

record io_env =
  io_open :: bool
  io_written :: "nat option"
  io_rename :: bool

definition io_ok :: io_env where
  "io_ok = \<lparr>io_open = True, io_written = None, io_rename = True\<rparr>"

definition disk_open_write :: "io_env \<Rightarrow> string \<Rightarrow> disk \<Rightarrow> disk" where
  "disk_open_write io path d = (if io_open io then umap_set path [] d else d)"

definition disk_write :: "io_env \<Rightarrow> string \<Rightarrow> string \<Rightarrow> disk \<Rightarrow> disk" where
  "disk_write io path s d =
     (if io_open io
      then umap_set path (case io_written io of None \<Rightarrow> s | Some n \<Rightarrow> take n s) d else d)"

definition disk_rename :: "io_env \<Rightarrow> string \<Rightarrow> string \<Rightarrow> disk \<Rightarrow> disk res" where
  "disk_rename io old new d =
     (case map_of d old of
        Some s \<Rightarrow> (if io_rename io then Inr (umap_set new s (umap_erase old d))
                   else Inl (Filesystem_error ''rename''))
      | None \<Rightarrow> Inl (Filesystem_error ''rename''))"

section \<open>Accounts\<close>

record account =
  acc_password :: string
  acc_uuid :: string
  acc_resources :: resources
  acc_campLevels :: "(string \<times> u32) list"

definition account_init :: account where
  "account_init = \<lparr>acc_password = [], acc_uuid = [], acc_resources = resources_init,
     acc_campLevels = []\<rparr>"

record jsondb =
  db_filepath :: string
  db_accounts :: "(string \<times> account) list"
  db_disk :: disk

text \<open>Account to JSON and back.\<close>

definition json_members :: "(string \<times> json) list \<Rightarrow> json \<Rightarrow> json res" where
  "json_members kvs j = fold (\<lambda>(k, v) r. rbind r (\<lambda>j. json_index_set j k v)) kvs (Inr j)"

definition resources_json :: "resources \<Rightarrow> json" where
  "resources_json r = json_braces
     [(''wood'', json_unsigned (wood r)), (''food'', json_unsigned (food r)),
      (''iron'', json_unsigned (iron r))]"

definition account_json :: "account \<Rightarrow> json res" where
  "account_json acc =
     rbind (json_members (map (\<lambda>(camp, lvl). (camp, json_int lvl)) (acc_campLevels acc)) (JObject []))
       (\<lambda>jcl. json_members
         [(''password'', JString (acc_password acc)), (''uuid'', JString (acc_uuid acc)),
          (''resources'', resources_json (acc_resources acc)), (''campLevels'', jcl)] JNull)"

definition accounts_json :: "(string \<times> account) list \<Rightarrow> json res" where
  "accounts_json accounts =
     rbind (fold (\<lambda>(user, acc) r. rbind r (\<lambda>jacc. rbind (account_json acc) (\<lambda>val.
              json_index_set jacc user val))) accounts (Inr (JObject [])))
       (\<lambda>jacc. json_index_set JNull ''accounts'' jacc)"

definition camp_levels_of_json :: "json \<Rightarrow> (string \<times> u32) list res" where
  "camp_levels_of_json val =
     (if json_contains val ''campLevels''
      then rbind (json_index val ''campLevels'') (\<lambda>(levels, _).
             fold (\<lambda>(k, v) r. rbind r (\<lambda>m. rbind (get_int v) (\<lambda>lvl. Inr (smap_set k lvl m))))
               (json_items levels) (Inr []))
      else Inr [])"

definition account_of_json :: "json \<Rightarrow> account res" where
  "account_of_json val =
     rbind (json_value get_string val ''password'' []) (\<lambda>password.
     rbind (json_value get_string val ''uuid'' []) (\<lambda>uuid.
     rbind (json_value get_json val ''resources'' (JObject [])) (\<lambda>jres.
     rbind (json_value get_unsigned_long_long jres ''wood'' 0) (\<lambda>w.
     rbind (json_value get_unsigned_long_long jres ''food'' 0) (\<lambda>f.
     rbind (json_value get_unsigned_long_long jres ''iron'' 0) (\<lambda>i.
     rbind (camp_levels_of_json val) (\<lambda>levels.
     Inr \<lparr>acc_password = password, acc_uuid = uuid,
          acc_resources = \<lparr>wood = w, food = f, iron = i\<rparr>, acc_campLevels = levels\<rparr>)))))))"

definition accounts_of_json :: "json \<Rightarrow> (string \<times> account) list res" where
  "accounts_of_json j =
     rbind (json_value get_json j ''accounts'' (JObject [])) (\<lambda>jacc.
       fold (\<lambda>(user, val) r. rbind r (\<lambda>m. rbind (account_of_json val) (\<lambda>acc. Inr (umap_set user acc m))))
         (json_items jacc) (Inr []))"

section \<open>Loading and saving\<close>

definition db_open :: "string \<Rightarrow> disk \<Rightarrow> jsondb res" where
  "db_open filepath disk =
     (case map_of disk filepath of
        None \<Rightarrow> Inr \<lparr>db_filepath = filepath, db_accounts = [], db_disk = disk\<rparr>
      | Some text \<Rightarrow>
          rbind (json_read_stream text) (\<lambda>j.
          rbind (accounts_of_json j) (\<lambda>accounts.
          Inr \<lparr>db_filepath = filepath, db_accounts = accounts, db_disk = disk\<rparr>)))"

definition db_tmp :: "jsondb \<Rightarrow> string" where
  "db_tmp db = db_filepath db @ ''.tmp''"

definition accounts_text :: "(string \<times> account) list \<Rightarrow> string res" where
  "accounts_text accounts =
     rbind (accounts_json accounts) (\<lambda>j. rbind (json_dump_indent 2 j) (\<lambda>t. Inr (t @ newline)))"

text \<open>The temporary file is opened, and so emptied, before the text is computed.\<close>

definition db_save :: "io_env \<Rightarrow> jsondb \<Rightarrow> unit res \<times> jsondb" where
  "db_save io db =
     (let tmp = db_tmp db;
          db1 = db\<lparr>db_disk := disk_open_write io tmp (db_disk db)\<rparr>
      in case accounts_text (db_accounts db) of
           Inl e \<Rightarrow> (Inl e, db1)
         | Inr text \<Rightarrow>
             (let db2 = db1\<lparr>db_disk := disk_write io tmp text (db_disk db1)\<rparr>
              in case disk_rename io tmp (db_filepath db) (db_disk db2) of
                   Inl e \<Rightarrow> (Inl e, db2)
                 | Inr disk \<Rightarrow> (Inr (), db2\<lparr>db_disk := disk\<rparr>)))"

text \<open>What the disk holds while a save is under way, one state after every system call.\<close>

definition save_trace :: "io_env \<Rightarrow> jsondb \<Rightarrow> disk list" where
  "save_trace io db =
     (let tmp = db_tmp db;
          d0 = db_disk db; d1 = disk_open_write io tmp d0
      in case accounts_text (db_accounts db) of
           Inl e \<Rightarrow> [d0, d1]
         | Inr text \<Rightarrow>
             (let d2 = disk_write io tmp text d1
              in [d0, d1] @ map (\<lambda>n. disk_write (io\<lparr>io_written := Some n\<rparr>) tmp text d1)
                              [0..<Suc (case io_written io of None \<Rightarrow> length text | Some n \<Rightarrow> n)]
                 @ [d2] @ (case disk_rename io tmp (db_filepath db) d2 of Inl e \<Rightarrow> [] | Inr d3 \<Rightarrow> [d3])))"

section \<open>Operations\<close>

definition db_userExists :: "jsondb \<Rightarrow> string \<Rightarrow> bool" where
  "db_userExists db username \<longleftrightarrow> map_of (db_accounts db) username \<noteq> None"

definition db_verifyUser :: "jsondb \<Rightarrow> string \<Rightarrow> string \<Rightarrow> bool" where
  "db_verifyUser db username password =
     (case map_of (db_accounts db) username of
        Some acc \<Rightarrow> acc_password acc = password | None \<Rightarrow> False)"

definition db_getUser :: "jsondb \<Rightarrow> string \<Rightarrow> string \<Rightarrow> string res" where
  "db_getUser db username password =
     (case map_of (db_accounts db) username of
        None \<Rightarrow> Inl (Runtime_error (''User not found: '' @ username))
      | Some acc \<Rightarrow> (if acc_password acc \<noteq> password
                     then Inl (Runtime_error (''Invalid password for '' @ username))
                     else Inr (acc_uuid acc)))"

text \<open>\<open>std::hex\<close>, \<open>std::setw(16)\<close> and \<open>std::setfill('0')\<close> on 64-bit draws.\<close>

fun show_hex :: "nat \<Rightarrow> string" where
  "show_hex n = (if n < 16 then [hex_digit n] else show_hex (n div 16) @ [hex_digit (n mod 16)])"

declare show_hex.simps [simp del]

definition setw_fill :: "nat \<Rightarrow> char \<Rightarrow> string \<Rightarrow> string" where
  "setw_fill w c s = replicate (w - length s) c @ s"

definition generateUuid :: "u64 \<Rightarrow> u64 \<Rightarrow> string" where
  "generateUuid a b =
     setw_fill 16 (CHR ''0'') (show_hex (unat a)) @ setw_fill 16 (CHR ''0'') (show_hex (unat b))"

text \<open>The two random draws are arguments. The account is in the map before the save.\<close>

definition db_addUser ::
  "io_env \<Rightarrow> u64 \<times> u64 \<Rightarrow> string \<Rightarrow> string \<Rightarrow> jsondb \<Rightarrow> string res \<times> jsondb" where
  "db_addUser io draws username password db =
     (if db_userExists db username
      then (Inl (Runtime_error (''User already exists: '' @ username)), db)
      else (let acc = account_init\<lparr>acc_password := password,
                                   acc_uuid := generateUuid (fst draws) (snd draws)\<rparr>;
                (r, db') = db_save io (db\<lparr>db_accounts := umap_set username acc (db_accounts db)\<rparr>)
            in (rbind r (\<lambda>_. Inr (acc_uuid acc)), db')))"

text \<open>The loops over the accounts stop at the first with the uuid.\<close>

fun find_uuid :: "string \<Rightarrow> (string \<times> account) list \<Rightarrow> (string \<times> account) option" where
  "find_uuid uuid [] = None"
| "find_uuid uuid (p # ps) = (if acc_uuid (snd p) = uuid then Some p else find_uuid uuid ps)"

definition uuid_not_found :: "string \<Rightarrow> exn" where
  "uuid_not_found uuid = Runtime_error (''UUID not found: '' @ uuid)"

definition db_getResources :: "jsondb \<Rightarrow> string \<Rightarrow> resources res" where
  "db_getResources db uuid =
     (case find_uuid uuid (db_accounts db) of
        Some (_, acc) \<Rightarrow> Inr (acc_resources acc) | None \<Rightarrow> Inl (uuid_not_found uuid))"

definition update_uuid :: "io_env \<Rightarrow> string \<Rightarrow> (account \<Rightarrow> account) \<Rightarrow> jsondb \<Rightarrow> unit res \<times> jsondb" where
  "update_uuid io uuid f db =
     (case find_uuid uuid (db_accounts db) of
        Some (user, acc) \<Rightarrow> db_save io (db\<lparr>db_accounts := umap_set user (f acc) (db_accounts db)\<rparr>)
      | None \<Rightarrow> (Inl (uuid_not_found uuid), db))"

definition db_updateResources :: "io_env \<Rightarrow> string \<Rightarrow> resources \<Rightarrow> jsondb \<Rightarrow> unit res \<times> jsondb" where
  "db_updateResources io uuid r = update_uuid io uuid (\<lambda>acc. acc\<lparr>acc_resources := r\<rparr>)"

definition db_getCampLevels :: "jsondb \<Rightarrow> string \<Rightarrow> (string \<times> u32) list res" where
  "db_getCampLevels db uuid =
     (case find_uuid uuid (db_accounts db) of
        Some (_, acc) \<Rightarrow> Inr (acc_campLevels acc) | None \<Rightarrow> Inl (uuid_not_found uuid))"

definition db_getCampLevel :: "jsondb \<Rightarrow> string \<Rightarrow> string \<Rightarrow> u32 res" where
  "db_getCampLevel db uuid camp =
     rbind (db_getCampLevels db uuid) (\<lambda>levels.
       Inr (case map_of levels camp of Some l \<Rightarrow> l | None \<Rightarrow> 0))"

definition db_setCampLevel :: "io_env \<Rightarrow> string \<Rightarrow> string \<Rightarrow> u32 \<Rightarrow> jsondb \<Rightarrow> unit res \<times> jsondb" where
  "db_setCampLevel io uuid camp level =
     update_uuid io uuid (\<lambda>acc. acc\<lparr>acc_campLevels := smap_set camp level (acc_campLevels acc)\<rparr>)"

end
