(* ===== verification/Database.thy ===== *)
theory Database
  imports Wire JsonDB
begin

unbundle bit_operations_syntax

text \<open>
  The account database: what it saves it loads again, a save leaves either the old or the new
  file behind whatever step of it fails, and what each operation does to the accounts.
\<close>

section \<open>Folding into maps\<close>

abbreviation smap_sets :: "('k::linorder \<times> 'v) list \<Rightarrow> ('k \<times> 'v) list \<Rightarrow> ('k \<times> 'v) list" where
  "smap_sets \<equiv> fold (\<lambda>(k, v). smap_set k v)"

abbreviation umap_sets :: "('k \<times> 'v) list \<Rightarrow> ('k \<times> 'v) list \<Rightarrow> ('k \<times> 'v) list" where
  "umap_sets \<equiv> fold (\<lambda>(k, v). umap_set k v)"

lemma smap_inv_sets: "smap_inv m \<Longrightarrow> smap_inv (smap_sets kvs m)"
  by (induction kvs arbitrary: m) (auto simp: case_prod_beta)

lemma map_of_smap_sets:
  "smap_inv m \<Longrightarrow> distinct (map fst kvs) \<Longrightarrow> map_of (smap_sets kvs m) = map_of m ++ map_of kvs"
proof (induction kvs arbitrary: m)
  case (Cons p kvs)
  then have "map_of kvs (fst p) = None" by (simp add: map_of_eq_None_iff)
  then show ?case
    using Cons by (auto simp: map_of_smap_set case_prod_beta fun_eq_iff map_add_def split: option.split)
qed simp

lemma map_of_umap_sets:
  "distinct (map fst kvs) \<Longrightarrow> map_of (umap_sets kvs m) = map_of m ++ map_of kvs"
proof (induction kvs arbitrary: m)
  case (Cons p kvs)
  then have "map_of kvs (fst p) = None" by (simp add: map_of_eq_None_iff)
  then show ?case
    using Cons by (auto simp: case_prod_beta fun_eq_iff map_add_def split: option.split)
qed simp

lemma umap_inv_sets: "umap_inv m \<Longrightarrow> umap_inv (umap_sets kvs m)"
  by (induction kvs arbitrary: m) (auto simp: case_prod_beta)

lemma set_smap_sets:
  assumes "smap_inv m" "distinct (map fst kvs)"
  shows "p \<in> set (smap_sets kvs m) \<Longrightarrow> p \<in> set kvs \<or> p \<in> set m"
  using set_smap_set by (induction kvs arbitrary: m) (fastforce simp: case_prod_beta)+

text \<open>A loop whose every turn succeeds.\<close>

lemma fold_rbind:
  "(\<And>k v. (k, v) \<in> set kvs \<Longrightarrow> f v = Inr (h v)) \<Longrightarrow>
     fold (\<lambda>(k, v) r. rbind r (\<lambda>m. rbind (f v) (\<lambda>a. Inr (g k a m)))) kvs (Inr m)
       = Inr (fold (\<lambda>(k, v). g k v) (map (\<lambda>(k, v). (k, h v)) kvs) m)"
proof (induction kvs arbitrary: m)
  case (Cons p kvs)
  have "f (snd p) = Inr (h (snd p))" using Cons.prems [of "fst p" "snd p"] by simp
  moreover have "f v = Inr (h v)" if "(k, v) \<in> set kvs" for k v by (rule Cons.prems [of k v]) (use that in simp)
  ultimately show ?case using Cons.IH by (simp add: case_prod_beta)
qed simp

section \<open>Accounts as JSON\<close>

definition account_ok :: "account \<Rightarrow> bool" where
  "account_ok acc \<longleftrightarrow> utf8_valid (acc_password acc) \<and> utf8_valid (acc_uuid acc)
     \<and> smap_inv (acc_campLevels acc) \<and> (\<forall>p \<in> set (acc_campLevels acc). utf8_valid (fst p))"

definition accounts_ok :: "(string \<times> account) list \<Rightarrow> bool" where
  "accounts_ok accounts \<longleftrightarrow> umap_inv accounts
     \<and> (\<forall>p \<in> set accounts. utf8_valid (fst p) \<and> account_ok (snd p))"

definition levels_value :: "(string \<times> u32) list \<Rightarrow> json" where
  "levels_value levels = JObject (map (\<lambda>p. (fst p, json_int (snd p))) levels)"

definition account_value :: "account \<Rightarrow> json" where
  "account_value acc = JObject
     [(''campLevels'', levels_value (acc_campLevels acc)),
      (''password'', JString (acc_password acc)),
      (''resources'', JObject [(''food'', JNumber_unsigned (food (acc_resources acc))),
         (''iron'', JNumber_unsigned (iron (acc_resources acc))),
         (''wood'', JNumber_unsigned (wood (acc_resources acc)))]),
      (''uuid'', JString (acc_uuid acc))]"

definition accounts_value :: "(string \<times> account) list \<Rightarrow> json" where
  "accounts_value accounts = JObject
     [(''accounts'', JObject (smap_sets (map (\<lambda>(user, acc). (user, account_value acc)) accounts) []))]"

lemma json_members_object: "json_members kvs (JObject m) = Inr (JObject (smap_sets kvs m))"
  by (induction kvs arbitrary: m) (simp_all add: json_members_def json_index_set_def case_prod_beta)

lemma json_members_null: "kvs \<noteq> [] \<Longrightarrow> json_members kvs JNull = Inr (JObject (smap_sets kvs []))"
proof (cases kvs)
  case (Cons p ps)
  then have "json_members kvs JNull = json_members ps (JObject [p])"
    by (simp add: json_members_def json_index_set_def case_prod_beta)
  then show ?thesis using Cons by (simp add: json_members_object case_prod_beta)
qed simp

lemma resources_json_eq: "resources_json r = JObject [(''food'', JNumber_unsigned (food r)),
    (''iron'', JNumber_unsigned (iron r)), (''wood'', JNumber_unsigned (wood r))]"
  by (simp add: resources_json_def json_braces_def json_init_def smap_emplace_def json_unsigned_def)

lemma account_json_eq: "account_ok acc \<Longrightarrow> account_json acc = Inr (account_value acc)"
proof -
  assume "account_ok acc"
  then have "smap_inv (map (\<lambda>p. (fst p, json_int (snd p))) (acc_campLevels acc))"
    by (simp add: account_ok_def smap_inv_map)
  then have "smap_sets (map (\<lambda>p. (fst p, json_int (snd p))) (acc_campLevels acc)) []
      = map (\<lambda>p. (fst p, json_int (snd p))) (acc_campLevels acc)"
    using fold_smap_set [of "[]"] by simp
  then show ?thesis
    by (simp add: account_json_def json_members_object json_members_null account_value_def resources_json_eq
        levels_value_def split_beta')
qed

lemma accounts_json_eq: "accounts_ok accounts \<Longrightarrow> accounts_json accounts = Inr (accounts_value accounts)"
proof -
  assume ok: "accounts_ok accounts"
  have "fold (\<lambda>(user, acc) r. rbind r (\<lambda>jacc. rbind (account_json acc) (\<lambda>val. json_index_set jacc user val)))
      kvs (Inr (JObject m)) = Inr (JObject (smap_sets (map (\<lambda>(user, acc). (user, account_value acc)) kvs) m))"
    if "set kvs \<subseteq> set accounts" for kvs m
    using that
  proof (induction kvs arbitrary: m)
    case (Cons p kvs)
    have "account_json (snd p) = Inr (account_value (snd p))"
      using ok Cons.prems by (intro account_json_eq) (auto simp: accounts_ok_def)
    then show ?case using Cons by (simp add: case_prod_beta json_index_set_def)
  qed simp
  from this [of accounts "[]"] show ?thesis
    by (simp add: accounts_json_def accounts_value_def json_index_set_def)
qed

section \<open>Reading accounts back\<close>

lemma utf8_valid_keys [simp]:
  "utf8_valid ''accounts''" "utf8_valid ''campLevels''" "utf8_valid ''password''"
  "utf8_valid ''resources''" "utf8_valid ''uuid''" "utf8_valid ''food''" "utf8_valid ''iron''"
  "utf8_valid ''wood''"
  by (auto intro!: utf8_valid_ascii)

lemma json_int_simps [simp]: "textual (json_int n)" "json_inv (json_int n)"
  by (simp_all add: json_int_def)

lemma account_value_textual: "account_ok acc \<Longrightarrow> textual (account_value acc)"
  by (auto simp: account_ok_def account_value_def levels_value_def)

lemma account_value_inv: "account_ok acc \<Longrightarrow> json_inv (account_value acc)"
proof -
  have keys: "smap_inv [(''campLevels'', a), (''password'', b), (''resources'', c), (''uuid'', d)]"
    "smap_inv [(''food'', a), (''iron'', b), (''wood'', c)]" for a b c d :: json
    by (simp_all add: smap_inv_def)
  assume "account_ok acc"
  then show ?thesis
    by (auto simp: account_ok_def account_value_def levels_value_def keys smap_inv_map)
qed

lemma scast_ucast_int: "ucast (scast (n :: u32) :: u64) = n"
  by (rule bit_word_eqI) (auto simp: bit_simps)

lemma get_int_parsed: "get_int (parsed (json_int n)) = Inr n"
  by (simp add: json_int_def get_int_def from_json_arithmetic_def scast_ucast_int)

lemma camp_levels_read:
  assumes "smap_inv levels"
  shows "fold (\<lambda>(k, v) r. rbind r (\<lambda>m. rbind (get_int v) (\<lambda>lvl. Inr (smap_set k lvl m))))
     (map (\<lambda>p. (fst p, parsed (json_int (snd p)))) levels) (Inr []) = Inr levels"
proof -
  let ?kvs = "map (\<lambda>p. (fst p, parsed (json_int (snd p)))) levels"
  let ?h = "\<lambda>v. case get_int v of Inr n \<Rightarrow> n | Inl _ \<Rightarrow> 0"
  have "get_int v = Inr (?h v)" if "(k, v) \<in> set ?kvs" for k v
    using that by (auto simp: get_int_parsed)
  then have "fold (\<lambda>(k, v) r. rbind r (\<lambda>m. rbind (get_int v) (\<lambda>lvl. Inr (smap_set k lvl m)))) ?kvs (Inr [])
      = Inr (smap_sets (map (\<lambda>(k, v). (k, ?h v)) ?kvs) [])" by (rule fold_rbind)
  moreover have "map (\<lambda>(k, v). (k, ?h v)) ?kvs = levels"
    by (simp add: get_int_parsed case_prod_beta comp_def)
  ultimately show ?thesis using fold_smap_set [of "[]" levels] assms by simp
qed

lemma account_read: "account_ok acc \<Longrightarrow> account_of_json (parsed (account_value acc)) = Inr acc"
proof -
  assume ok: "account_ok acc"
  have keys: "smap_inv [(''campLevels'', a), (''password'', b), (''resources'', c), (''uuid'', d)]"
    "smap_inv [(''food'', a), (''iron'', b), (''wood'', c)]" for a b c d :: json
    by (simp_all add: smap_inv_def)
  have levels: "parsed (levels_value (acc_campLevels acc))
      = JObject (map (\<lambda>p. (fst p, parsed (json_int (snd p)))) (acc_campLevels acc))"
    using ok unfolding levels_value_def
    by (subst parsed_object) (simp_all add: account_ok_def smap_inv_map comp_def)
  let ?r = "JObject [(''food'', JNumber_unsigned (food (acc_resources acc))),
         (''iron'', JNumber_unsigned (iron (acc_resources acc))),
         (''wood'', JNumber_unsigned (wood (acc_resources acc)))]"
  have r: "parsed ?r = ?r" by (subst parsed_object [OF keys(2)]) simp
  have "parsed (account_value acc) = JObject [(''campLevels'', parsed (levels_value (acc_campLevels acc))),
      (''password'', JString (acc_password acc)), (''resources'', ?r), (''uuid'', JString (acc_uuid acc))]"
    unfolding account_value_def by (subst parsed_object [OF keys(1)]) (simp add: r del: parsed.simps(1))
  then show ?thesis
    unfolding levels
    using camp_levels_read [of "acc_campLevels acc"] ok
    by (simp add: account_of_json_def json_value_def get_string_def get_json_def
        get_unsigned_long_long_def from_json_arithmetic_def camp_levels_of_json_def json_contains_def
        json_index_def smap_emplace_def json_items_def account_ok_def)
qed

section \<open>A saved file loads\<close>

abbreviation account_members :: "(string \<times> account) list \<Rightarrow> (string \<times> json) list" where
  "account_members accounts \<equiv> smap_sets (map (\<lambda>(user, acc). (user, account_value acc)) accounts) []"

lemma map_of_map_snd: "map_of (map (\<lambda>p. (fst p, f (snd p))) m) k = map_option f (map_of m k)"
  by (induction m) auto

lemma accounts_keys: "accounts_ok accounts \<Longrightarrow> distinct (map fst (map (\<lambda>(user, acc). (user, account_value acc)) accounts))"
  by (simp add: accounts_ok_def umap_inv_def comp_def case_prod_beta)

lemma account_members_inv [simp]: "smap_inv (account_members accounts)"
  by (rule smap_inv_sets) simp

lemma account_members_set:
  assumes "accounts_ok accounts" "p \<in> set (account_members accounts)"
  shows "\<exists>acc. (fst p, acc) \<in> set accounts \<and> snd p = account_value acc"
  using set_smap_sets [OF smap_inv_Nil accounts_keys [OF assms(1)] assms(2)] by auto

lemma account_members_lookup:
  "accounts_ok accounts \<Longrightarrow>
     map_of (account_members accounts) user = map_option account_value (map_of accounts user)"
  using map_of_map_snd [of account_value accounts user]
  by (subst map_of_smap_sets [OF smap_inv_Nil accounts_keys]) (simp_all add: case_prod_unfold)

lemma accounts_value_textual: "accounts_ok accounts \<Longrightarrow> textual (accounts_value accounts)"
proof -
  assume ok: "accounts_ok accounts"
  have "utf8_valid (fst p) \<and> textual (snd p)" if "p \<in> set (account_members accounts)" for p
    using account_members_set [OF ok that] ok account_value_textual by (fastforce simp: accounts_ok_def)
  then show ?thesis by (simp add: accounts_value_def)
qed

lemma accounts_value_parsed:
  "parsed (accounts_value accounts) = JObject [(''accounts'',
     JObject (map (\<lambda>p. (fst p, parsed (snd p))) (account_members accounts)))]"
  unfolding accounts_value_def
  by (subst parsed_object, simp add: smap_inv_def) (simp add: parsed_object del: parsed.simps(1))

lemma umap_same_entries: "umap_inv m \<Longrightarrow> map_of m = map_of n \<Longrightarrow> set m \<subseteq> set n"
  by (auto simp: umap_inv_def dest!: map_of_is_SomeI intro: map_of_SomeD)

lemma accounts_read:
  assumes "accounts_ok accounts"
  shows "\<exists>accounts'. accounts_of_json (parsed (accounts_value accounts)) = Inr accounts'
    \<and> map_of accounts' = map_of accounts \<and> accounts_ok accounts'"
proof -
  let ?kvs = "map (\<lambda>p. (fst p, parsed (snd p))) (account_members accounts)"
  let ?h = "\<lambda>v. case account_of_json v of Inr acc \<Rightarrow> acc | Inl _ \<Rightarrow> account_init"
  let ?new = "map (\<lambda>(k, v). (k, ?h v)) ?kvs"
  have ok: "\<exists>acc. (user, acc) \<in> set accounts \<and> account_of_json v = Inr acc" if uv: "(user, v) \<in> set ?kvs" for user v
  proof -
    obtain p where p: "p \<in> set (account_members accounts)" "user = fst p" "v = parsed (snd p)"
      using uv by auto
    then obtain acc where "(user, acc) \<in> set accounts" "snd p = account_value acc"
      using account_members_set [OF assms] by blast
    moreover from this have "account_ok acc" using assms by (auto simp: accounts_ok_def)
    ultimately show ?thesis using p account_read by auto
  qed
  have "account_of_json v = Inr (?h v)" if "(user, v) \<in> set ?kvs" for user v
    using ok [OF that] by auto
  then have eq: "fold (\<lambda>(user, v) r. rbind r (\<lambda>m. rbind (account_of_json v) (\<lambda>acc. Inr (umap_set user acc m)))) ?kvs (Inr [])
      = Inr (umap_sets ?new [])" by (rule fold_rbind)
  have d: "distinct (map fst ?new)"
    using smap_inv_distinct [OF account_members_inv, of accounts] by (simp add: comp_def case_prod_beta)
  have "map_of ?new user = map_of accounts user" for user
  proof -
    have "map_of ?new user = map_option (\<lambda>v. ?h (parsed v)) (map_of (account_members accounts) user)"
      using map_of_map_snd [of "\<lambda>v. ?h (parsed v)" "account_members accounts" user]
      by (simp add: comp_def case_prod_beta)
    also have "\<dots> = map_option (\<lambda>acc. ?h (parsed (account_value acc))) (map_of accounts user)"
      by (simp add: account_members_lookup [OF assms] option.map_comp comp_def)
    also have "\<dots> = map_of accounts user"
      using assms by (cases "map_of accounts user") (auto simp: accounts_ok_def account_read dest!: map_of_SomeD)
    finally show ?thesis .
  qed
  then have lookup: "map_of (umap_sets ?new []) = map_of accounts"
    using map_of_umap_sets [OF d, of "[]"] by (simp add: fun_eq_iff)
  have inv: "umap_inv (umap_sets ?new [])" by (rule umap_inv_sets) simp
  have ok_new: "accounts_ok (umap_sets ?new [])"
    unfolding accounts_ok_def
  proof (intro conjI ballI inv)
    fix p assume "p \<in> set (umap_sets ?new [])"
    then have "p \<in> set accounts" using umap_same_entries [OF inv lookup] by blast
    then show "utf8_valid (fst p)" "account_ok (snd p)" using assms by (auto simp: accounts_ok_def)
  qed
  have "accounts_of_json (parsed (accounts_value accounts)) = Inr (umap_sets ?new [])"
    unfolding eq [symmetric]
    by (simp add: accounts_of_json_def accounts_value_parsed json_value_def get_json_def json_items_def)
  with lookup ok_new show ?thesis by blast
qed

lemma newline_ends: "ends_integer newline"
  by (rule ends_integer_white) (simp add: white_def newline_def is_whitespace_def)

lemma accounts_text_ok:
  "accounts_ok accounts \<Longrightarrow>
     accounts_text accounts = Inr (dump_text (accounts_value accounts) True False 2 0 @ newline)"
  using json_dump_indent_textual [OF accounts_value_textual, of accounts 2]
  by (simp add: accounts_text_def accounts_json_eq)

definition loads :: "string \<Rightarrow> disk \<Rightarrow> (string \<Rightarrow> account option) \<Rightarrow> bool" where
  "loads filepath disk m \<longleftrightarrow>
     (\<exists>db. db_open filepath disk = Inr db \<and> map_of (db_accounts db) = m \<and> accounts_ok (db_accounts db))"

lemma saved_loads:
  assumes "accounts_ok accounts" "accounts_text accounts = Inr t" "map_of disk filepath = Some t"
  shows "loads filepath disk (map_of accounts)"
proof -
  have "json_read_stream t = Inr (parsed (accounts_value accounts))"
    using json_read_stream_text [OF accounts_value_textual [OF assms(1)] _ newline_ends,
        where ws = "[]" and pp = True and ea = False and step = 2 and cur = 0] assms(1,2)
    by (simp add: accounts_text_ok white_def)
  then show ?thesis
    using accounts_read [OF assms(1)] assms(3) by (auto simp: loads_def db_open_def)
qed

section \<open>Saving\<close>

lemma db_tmp_neq [simp]: "db_tmp db \<noteq> db_filepath db" "db_filepath db \<noteq> db_tmp db"
  by (simp_all add: db_tmp_def)

text \<open>What is written of a text.\<close>

definition written :: "io_env \<Rightarrow> string \<Rightarrow> string" where
  "written io t = (case io_written io of None \<Rightarrow> t | Some n \<Rightarrow> take n t)"

lemma db_save_frame: "db_filepath (snd (db_save io db)) = db_filepath db"
  "db_accounts (snd (db_save io db)) = db_accounts db"
  by (auto simp: db_save_def Let_def split: sum.splits)

text \<open>The file holds the old text or what was written of the new one, at every moment of a save.\<close>

lemma save_trace_file:
  assumes "d \<in> set (save_trace io db)" "io_open io \<or> map_of (db_disk db) (db_tmp db) = None"
  shows "map_of d (db_filepath db) = map_of (db_disk db) (db_filepath db)
    \<or> (\<exists>t. accounts_text (db_accounts db) = Inr t \<and> map_of d (db_filepath db) = Some (written io t))"
  using assms
  by (auto simp: save_trace_def Let_def disk_open_write_def disk_write_def disk_rename_def written_def
      split: sum.splits option.splits if_splits)

lemma db_save_trace: "db_disk (snd (db_save io db)) = last (save_trace io db)"
  by (auto simp: db_save_def save_trace_def Let_def split: sum.splits)

text \<open>So whenever the program stops, the old accounts or the new ones load.\<close>

lemma save_crash_safe:
  assumes "loads (db_filepath db) (db_disk db) old" "accounts_ok (db_accounts db)"
    "io_open io \<or> map_of (db_disk db) (db_tmp db) = None" "io_written io = None"
    "d \<in> set (save_trace io db)"
  shows "loads (db_filepath db) d old \<or> loads (db_filepath db) d (map_of (db_accounts db))"
  using save_trace_file [OF assms(5,3)]
proof
  assume "map_of d (db_filepath db) = map_of (db_disk db) (db_filepath db)"
  then have "loads (db_filepath db) d old"
    using assms(1) unfolding loads_def db_open_def
    by (auto simp: rbind_eq_Inr split: option.splits)
  then show ?thesis ..
next
  assume "\<exists>t. accounts_text (db_accounts db) = Inr t \<and> map_of d (db_filepath db) = Some (written io t)"
  then show ?thesis using saved_loads [OF assms(2)] assms(4) by (auto simp: written_def)
qed

lemma db_save_ok:
  assumes "accounts_ok (db_accounts db)"
  shows "\<exists>disk. db_save io_ok db = (Inr (), db\<lparr>db_disk := disk\<rparr>)
    \<and> loads (db_filepath db) disk (map_of (db_accounts db))"
proof -
  obtain t where t: "accounts_text (db_accounts db) = Inr t" using assms by (auto simp: accounts_text_ok)
  show ?thesis
    using saved_loads [OF assms t]
    by (intro exI [of _ "umap_set (db_filepath db) t
           (umap_erase (db_tmp db) (umap_set (db_tmp db) t (umap_set (db_tmp db) [] (db_disk db))))"])
      (simp add: db_save_def t io_ok_def disk_open_write_def disk_write_def disk_rename_def Let_def)
qed

text \<open>A save ends in the last of its states.\<close>

lemma save_trace_ends: "hd (save_trace io db) = db_disk db" "last (save_trace io db) = db_disk (snd (db_save io db))"
  by (simp add: save_trace_def Let_def split: sum.split) (rule db_save_trace [symmetric])

text \<open>A write that fails half-way goes unnoticed: the save succeeds and the file is cut.\<close>

lemma db_save_cut:
  assumes "accounts_text (db_accounts db) = Inr t"
  shows "\<exists>disk. db_save (io_ok\<lparr>io_written := Some n\<rparr>) db = (Inr (), db\<lparr>db_disk := disk\<rparr>)
    \<and> map_of disk (db_filepath db) = Some (take n t)"
  by (intro exI [of _ "umap_set (db_filepath db) (take n t)
         (umap_erase (db_tmp db) (umap_set (db_tmp db) (take n t) (umap_set (db_tmp db) [] (db_disk db))))"])
    (simp add: db_save_def assms io_ok_def disk_open_write_def disk_write_def disk_rename_def Let_def)

section \<open>Identifiers\<close>

lemma show_hex_length: "n < 16 ^ k \<Longrightarrow> 0 < k \<Longrightarrow> length (show_hex n) \<le> k"
proof (induction k arbitrary: n)
  case (Suc k)
  show ?case
  proof (cases "n < 16")
    case False
    then have "0 < k" using Suc.prems(1) by (cases k) auto
    moreover have "n div 16 < 16 ^ k" using Suc.prems(1) by (simp add: less_mult_imp_div_less mult.commute)
    ultimately have "length (show_hex (n div 16)) \<le> k" by (intro Suc.IH)
    then show ?thesis using False by (subst show_hex.simps) simp
  qed (subst show_hex.simps, simp)
qed simp

fun hex_value :: "string \<Rightarrow> nat" where
  "hex_value [] = 0"
| "hex_value (c # cs) = (let b = nat (byte c) in if b < 58 then b - 48 else b - 87) * 16 ^ length cs + hex_value cs"

lemma hex_value_append: "hex_value (s @ t) = hex_value s * 16 ^ length t + hex_value t"
  by (induction s) (simp_all add: Let_def power_add algebra_simps)

lemma hex_value_digit: "d < 16 \<Longrightarrow> hex_value [hex_digit d] = d"
  by (cases "d < 10") (auto simp: hex_digit_def of_char_of Let_def nat_add_distrib)

lemma hex_value_show: "hex_value (show_hex n) = n"
proof (induction n rule: show_hex.induct)
  case (1 n)
  show ?case
  proof (cases "n < 16")
    case True
    then show ?thesis by (subst show_hex.simps) (simp add: hex_value_digit del: hex_value.simps)
  next
    case False
    then have "hex_value (show_hex n) = n div 16 * 16 + n mod 16"
      using 1 by (subst show_hex.simps) (simp add: hex_value_append hex_value_digit del: hex_value.simps)
    then show ?thesis by (simp add: div_mult_mod_eq)
  qed
qed

lemma hex_value_zeros: "hex_value (replicate n (CHR ''0'') @ s) = hex_value s"
  by (induction n) (simp_all add: Let_def)

definition hex16 :: "u64 \<Rightarrow> string" where
  "hex16 a = setw_fill 16 (CHR ''0'') (show_hex (unat a))"

lemma hex16_length: "length (hex16 a) = 16"
proof -
  have "unat a < 16 ^ 16" using unsigned_less [of a, where 'a = nat] by simp
  from show_hex_length [OF this] show ?thesis by (simp add: hex16_def setw_fill_def)
qed

lemma hex16_inj: "hex16 a = hex16 b \<longleftrightarrow> a = b"
proof
  assume "hex16 a = hex16 b"
  then have "hex_value (hex16 a) = hex_value (hex16 b)" by simp
  then show "a = b" by (simp add: hex16_def setw_fill_def hex_value_zeros hex_value_show unsigned_word_eqI)
qed simp

lemma generateUuid_length: "length (generateUuid a b) = 32"
  using hex16_length [of a] hex16_length [of b] by (simp add: generateUuid_def hex16_def)

lemma generateUuid_inj: "generateUuid a b = generateUuid c d \<longleftrightarrow> a = c \<and> b = d"
  using hex16_length [of a] hex16_length [of c] hex16_inj [of a c] hex16_inj [of b d]
  by (auto simp: generateUuid_def hex16_def)

lemma show_hex_ascii: "c \<in> set (show_hex n) \<Longrightarrow> byte c < 128"
proof (induction n rule: show_hex.induct)
  case (1 n)
  have "byte (hex_digit d) < 128" if "d < 16" for d
    using that by (simp add: hex_digit_def of_char_of)
  then show ?case using 1 by (subst (asm) (2) show_hex.simps) (auto split: if_splits)
qed

text \<open>Only digits and the letters a to f.\<close>

lemma show_hex_digits: "set (show_hex n) \<subseteq> set ''0123456789abcdef''"
proof (induction n rule: show_hex.induct)
  case (1 n)
  have "set [hex_digit d] \<subseteq> set ''0123456789abcdef''" if "d < 16" for d
  proof -
    have "\<forall>d \<in> set [0..<16]. set [hex_digit d] \<subseteq> set ''0123456789abcdef''" by code_simp
    then show ?thesis using that by simp
  qed
  then show ?case using 1 by (subst show_hex.simps) (simp del: list.set)
qed

lemma generateUuid_digits: "set (generateUuid a b) \<subseteq> set ''0123456789abcdef''"
  using show_hex_digits [of "unat a"] show_hex_digits [of "unat b"]
  by (auto simp: generateUuid_def setw_fill_def simp del: insert_iff)

lemma generateUuid_utf8 [simp]: "utf8_valid (generateUuid a b)"
  by (rule utf8_valid_ascii) (auto simp: generateUuid_def setw_fill_def show_hex_ascii)

section \<open>What the operations do to the accounts\<close>

lemma find_uuid_Some: "find_uuid uuid accs = Some p \<Longrightarrow> p \<in> set accs \<and> acc_uuid (snd p) = uuid"
  by (induction accs) (auto split: if_splits)

lemma find_uuid_None: "find_uuid uuid accs = None \<longleftrightarrow> (\<forall>p \<in> set accs. acc_uuid (snd p) \<noteq> uuid)"
  by (induction accs) auto

lemma find_uuid_replace_same:
  "find_uuid uuid accs = Some (user, acc) \<Longrightarrow> distinct (map fst accs) \<Longrightarrow> acc_uuid acc' = uuid \<Longrightarrow>
     find_uuid uuid (umap_replace user acc' accs) = Some (user, acc')"
  by (induction accs) (auto split: if_splits dest!: find_uuid_Some)

lemma find_uuid_replace_other:
  "map_of accs user = Some acc \<Longrightarrow> distinct (map fst accs) \<Longrightarrow> acc_uuid acc \<noteq> uuid \<Longrightarrow> acc_uuid acc' \<noteq> uuid \<Longrightarrow>
     find_uuid uuid (umap_replace user acc' accs) = find_uuid uuid accs"
  by (induction accs) (auto split: if_splits)

lemma find_uuid_lookup:
  "umap_inv accs \<Longrightarrow> find_uuid uuid accs = Some (user, acc) \<Longrightarrow> map_of accs user = Some acc \<and> acc_uuid acc = uuid"
  by (auto simp: umap_inv_def dest!: find_uuid_Some)

text \<open>An update changes the account found and no other.\<close>

lemma update_found:
  assumes "umap_inv accs" "find_uuid uuid accs = Some (user, acc)" "acc_uuid acc' = uuid"
  shows "find_uuid uuid (umap_set user acc' accs) = Some (user, acc')"
    and "uuid' \<noteq> uuid \<Longrightarrow> find_uuid uuid' (umap_set user acc' accs) = find_uuid uuid' accs"
  using find_uuid_lookup [OF assms(1,2)] find_uuid_replace_same [OF assms(2) _ assms(3)] assms
    find_uuid_replace_other [of accs user acc uuid' acc']
  by (simp_all add: umap_set_def umap_inv_def del: Some_eq_map_of_iff map_of_eq_Some_iff)

lemma update_uuid_found:
  "find_uuid uuid (db_accounts db) = Some (user, acc) \<Longrightarrow>
     update_uuid io uuid f db = db_save io (db\<lparr>db_accounts := umap_set user (f acc) (db_accounts db)\<rparr>)"
  by (simp add: update_uuid_def)

lemma update_uuid_accounts:
  assumes "umap_inv (db_accounts db)" "find_uuid uuid (db_accounts db) = Some (user, acc)"
    "acc_uuid (f acc) = uuid"
  shows "find_uuid uuid (db_accounts (snd (update_uuid io uuid f db))) = Some (user, f acc)"
    and "uuid' \<noteq> uuid \<Longrightarrow> find_uuid uuid' (db_accounts (snd (update_uuid io uuid f db)))
           = find_uuid uuid' (db_accounts db)"
  using update_found [OF assms(1,2), of "f acc"] assms(3)
  by (simp_all add: update_uuid_found [OF assms(2)] db_save_frame)

lemma update_uuid_map:
  "find_uuid uuid (db_accounts db) = Some (user, acc) \<Longrightarrow>
     map_of (db_accounts (snd (update_uuid io uuid f db))) = (map_of (db_accounts db))(user \<mapsto> f acc)
     \<and> db_filepath (snd (update_uuid io uuid f db)) = db_filepath db"
  by (simp add: update_uuid_found db_save_frame)

lemma update_uuid_keys:
  "umap_inv (db_accounts db) \<Longrightarrow>
     map fst (db_accounts (snd (update_uuid io uuid f db))) = map fst (db_accounts db)"
  by (auto simp: update_uuid_def db_save_frame umap_set_def find_uuid_lookup split: option.splits)

section \<open>Every operation keeps the accounts fit to be saved\<close>

lemma accounts_ok_umap_set:
  assumes "accounts_ok accs" "utf8_valid user" "account_ok acc"
  shows "accounts_ok (umap_set user acc accs)"
proof -
  have inv: "umap_inv (umap_set user acc accs)" using assms(1) by (simp add: accounts_ok_def)
  have "utf8_valid (fst p) \<and> account_ok (snd p)" if "p \<in> set (umap_set user acc accs)" for p
    using umap.entry_after_assign [of accs "fst p" "snd p" user acc] that assms
    by (auto simp: accounts_ok_def split: if_splits)
  then show ?thesis using inv by (simp add: accounts_ok_def)
qed

lemma update_uuid_ok:
  assumes "accounts_ok (db_accounts db)" "\<And>acc. account_ok acc \<Longrightarrow> account_ok (f acc)"
  shows "accounts_ok (db_accounts (snd (update_uuid io uuid f db)))"
proof (cases "find_uuid uuid (db_accounts db)")
  case (Some p)
  obtain user acc where p: "p = (user, acc)" by fastforce
  then have "(user, acc) \<in> set (db_accounts db)" using find_uuid_Some Some by blast
  then have "utf8_valid user \<and> account_ok acc" using assms(1) by (auto simp: accounts_ok_def)
  then show ?thesis
    using accounts_ok_umap_set [OF assms(1), of user "f acc"] assms(2) Some p
    by (simp add: update_uuid_found db_save_frame)
qed (use assms(1) in \<open>simp add: update_uuid_def\<close>)

lemma smap_set_keys: "p \<in> set (smap_set k v m) \<Longrightarrow> p = (k, v) \<or> p \<in> set m"
  using set_smap_set [of k v m] by auto

lemma setCampLevel_account_ok:
  "utf8_valid camp \<Longrightarrow> account_ok acc \<Longrightarrow>
     account_ok (acc\<lparr>acc_campLevels := smap_set camp level (acc_campLevels acc)\<rparr>)"
  by (auto simp: account_ok_def dest!: smap_set_keys)

lemma addUser_ok:
  assumes "accounts_ok (db_accounts db)" "utf8_valid username" "utf8_valid password"
  shows "accounts_ok (db_accounts (snd (db_addUser io draws username password db)))"
  using accounts_ok_umap_set [OF assms(1,2), of "account_init\<lparr>acc_password := password, acc_uuid := generateUuid (fst draws) (snd draws)\<rparr>"]
    assms
  by (simp add: db_addUser_def Let_def case_prod_beta db_save_frame account_ok_def account_init_def)

text \<open>What is in memory is on the disk after an operation that succeeded.\<close>

definition synced :: "jsondb \<Rightarrow> bool" where
  "synced db \<longleftrightarrow> accounts_ok (db_accounts db)
     \<and> loads (db_filepath db) (db_disk db) (map_of (db_accounts db))"

lemma db_save_synced: "accounts_ok (db_accounts db) \<Longrightarrow> fst (db_save io_ok db) = Inr () \<and> synced (snd (db_save io_ok db))"
  using db_save_ok [of db] by (auto simp: synced_def)

lemma update_uuid_synced:
  assumes "synced db" "\<And>acc. account_ok acc \<Longrightarrow> account_ok (f acc)"
  shows "synced (snd (update_uuid io_ok uuid f db))"
proof (cases "find_uuid uuid (db_accounts db)")
  case (Some p)
  obtain user acc where p: "p = (user, acc)" by fastforce
  have "accounts_ok (umap_set user (f acc) (db_accounts db))"
    using update_uuid_ok [of db f io_ok uuid] assms Some p
    by (simp add: update_uuid_found db_save_frame synced_def)
  then show ?thesis using db_save_synced [of "db\<lparr>db_accounts := umap_set user (f acc) (db_accounts db)\<rparr>"] Some p
    by (simp add: update_uuid_found)
qed (use assms(1) in \<open>simp add: update_uuid_def\<close>)

lemma addUser_synced:
  assumes "synced db" "utf8_valid username" "utf8_valid password"
  shows "synced (snd (db_addUser io_ok draws username password db))"
proof (cases "db_userExists db username")
  case False
  let ?acc = "account_init\<lparr>acc_password := password, acc_uuid := generateUuid (fst draws) (snd draws)\<rparr>"
  have "accounts_ok (umap_set username ?acc (db_accounts db))"
    using addUser_ok [of db username password io_ok draws] assms False
    by (simp add: db_addUser_def Let_def case_prod_beta db_save_frame synced_def)
  from db_save_synced [of "db\<lparr>db_accounts := umap_set username ?acc (db_accounts db)\<rparr>"] this
  show ?thesis using False by (simp add: db_addUser_def Let_def case_prod_beta)
qed (use assms(1) in \<open>simp add: db_addUser_def\<close>)

end
