(* ===== verification/Wellformed.thy ===== *)
theory Wellformed
  imports Database
begin

unbundle bit_operations_syntax

text \<open>
  Whatever the input, the parser builds a well-formed value or reports an error in the input.
  Strings the lexer accepts are well-formed UTF-8. What the parser needs of a SAX handler is
  the locale \<open>sax_contract\<close>; the DOM builder and the acceptor meet it, so the builder's
  assertions never fail.
\<close>

section \<open>Strings\<close>

lemma get_codepoint_loop_range:
  assumes "get_codepoint_loop fs cp l = (r, l')"
  shows "lx_token_buffer l' = lx_token_buffer l
    \<and> (r = - 1 \<or> cp \<le> r \<and> r \<le> cp + 15 * sum_list (map (\<lambda>f. 2 ^ f) fs))"
  using assms
proof (induction fs arbitrary: cp l)
  case (Cons f fs)
  define d where "d = (let c = lx_current (get l) in
    if 48 \<le> c \<and> c \<le> 57 then c - 48 else if 65 \<le> c \<and> c \<le> 70 then c - 55
    else if 97 \<le> c \<and> c \<le> 102 then c - 87 else - 1)"
  have d15: "d \<le> 15" by (auto simp: d_def Let_def)
  show ?case
  proof (cases "d = - 1")
    case True
    then have "(r, l') = (- 1, get l)" using Cons.prems by (auto simp: d_def Let_def split: if_splits)
    then show ?thesis by simp
  next
    case False
    then have d0: "0 \<le> d" by (auto simp: d_def Let_def split: if_splits)
    have "get_codepoint_loop fs (cp + push_bit f d) (get l) = (r, l')"
      using Cons.prems False by (auto simp: d_def Let_def split: if_splits)
    from Cons.IH [OF this] have ih: "lx_token_buffer l' = lx_token_buffer l"
      "r = - 1 \<or> cp + push_bit f d \<le> r \<and> r \<le> cp + push_bit f d + 15 * sum_list (map (\<lambda>f. 2 ^ f) fs)"
      by simp_all
    have "push_bit f d \<le> 15 * 2 ^ f" using d15 by (simp add: push_bit_eq_mult mult_right_mono)
    moreover have "0 \<le> push_bit f d" using d0 by simp
    ultimately have "r = - 1 \<or> cp \<le> r \<and> r \<le> cp + 15 * sum_list (map (\<lambda>f. 2 ^ f) (f # fs))"
      using ih(2) by (simp only: list.map sum_list.Cons distrib_left) linarith
    with ih(1) show ?thesis by (intro conjI)
  qed
qed simp

lemma get_codepoint_range:
  assumes "get_codepoint l = (r, l')"
  shows "lx_token_buffer l' = lx_token_buffer l \<and> (r = - 1 \<or> 0 \<le> r \<and> r < 65536)"
  using get_codepoint_loop_range [OF assms [unfolded get_codepoint_def]] by auto

text \<open>What one turn adds to the token buffer.\<close>

definition grows :: "lexer \<Rightarrow> lexer \<Rightarrow> bool" where
  "grows l l' \<longleftrightarrow> (\<exists>w. utf8_valid w \<and> lx_token_buffer l' = lx_token_buffer l @ w)"

lemma grows_refl: "lx_token_buffer l' = lx_token_buffer l \<Longrightarrow> grows l l'"
  by (auto simp: grows_def intro: exI [of _ "[]"])

lemma grows_trans: "grows a b \<Longrightarrow> grows b c \<Longrightarrow> grows a c"
  unfolding grows_def by (metis append.assoc utf8_valid_append)

lemma grows_add: "0 \<le> c \<Longrightarrow> c < 128 \<Longrightarrow> lx_token_buffer k = lx_token_buffer l \<Longrightarrow> grows l (add c k)"
  unfolding grows_def add_def
  by (intro exI [of _ "[chr c]"]) (auto intro!: utf8_valid_ascii)

lemma grows_codepoint:
  assumes "0 \<le> cp" "is_scalar (nat cp)" "lx_token_buffer k = lx_token_buffer l"
  shows "grows l (add_codepoint cp k)"
proof -
  have "nat cp < 0x110000" using assms(2) by (simp add: is_scalar_def)
  from add_codepoint_utf8 [OF this, of k] show ?thesis
    using assms is_scalar_utf8_char [OF assms(2)] by (auto simp: grows_def intro: utf8_valid_char)
qed

lemma scan_low_surrogate_grows:
  assumes "scan_low_surrogate cp l = (None, l')" "55296 \<le> cp" "cp \<le> 56319"
  shows "grows l l'"
proof -
  obtain cp2 l3 where c: "get_codepoint (get (get l)) = (cp2, l3)" by fastforce
  then have r: "56320 \<le> cp2" "cp2 \<le> 57343"
      "l' = add_codepoint (push_bit 10 cp + cp2 - 56613888) l3"
    using assms(1) by (auto simp: scan_low_surrogate_def scan_error_def Let_def split: if_splits)
  let ?cp = "push_bit 10 cp + cp2 - 56613888"
  have "0x10000 \<le> ?cp" "?cp < 0x110000" using r assms(2,3) by (simp_all add: push_bit_eq_mult)
  then have "is_scalar (nat ?cp)" "0 \<le> ?cp" by (simp_all add: is_scalar_def nat_le_iff le_nat_iff nat_less_iff)
  then show ?thesis
    using grows_codepoint [of ?cp l3 l] get_codepoint_range [OF c] r(3) by simp
qed

lemma scan_unicode_escape_grows:
  assumes "scan_unicode_escape l = (None, l')"
  shows "grows l l'"
proof -
  obtain cp l1 where c: "get_codepoint l = (cp, l1)" by fastforce
  note cp = get_codepoint_range [OF c]
  show ?thesis
  proof (cases "55296 \<le> cp \<and> cp \<le> 56319")
    case True
    then have "scan_low_surrogate cp l1 = (None, l')" using assms c by (simp add: scan_unicode_escape_def)
    from scan_low_surrogate_grows [OF this] True cp show ?thesis by (simp add: grows_def)
  next
    case False
    then have "\<not> (55296 \<le> cp \<and> cp \<le> 57343)" "cp \<noteq> - 1" "l' = add_codepoint cp l1"
      using assms c by (auto simp: scan_unicode_escape_def scan_error_def Let_def split: if_splits)
    then show ?thesis
      using cp by (auto intro!: grows_codepoint simp: is_scalar_def nat_less_iff le_nat_iff nat_le_iff)
  qed
qed

lemma scan_escape_grows: "scan_escape l = (None, l') \<Longrightarrow> grows l l'"
  using scan_unicode_escape_grows [of "get l" l']
  by (auto simp: scan_escape_def Let_def scan_error_def grows_def [of l] grows_def [of "get l"] add_def
      intro!: utf8_valid_ascii split: if_splits)

lemma utf8_ranges_bytes: "rg \<in> set (utf8_ranges c) \<Longrightarrow> 128 \<le> fst rg \<and> snd rg \<le> 191"
  by (auto simp: utf8_ranges_def split: if_splits)

lemma range_loop_grows:
  assumes "next_byte_in_range_loop rs l = (True, l')" "\<And>rg. rg \<in> set rs \<Longrightarrow> 128 \<le> fst rg \<and> snd rg \<le> 191"
  shows "\<exists>cs. list_all2 in_range rs cs \<and> lx_token_buffer l' = lx_token_buffer l @ cs"
  using assms
proof (induction rs arbitrary: l)
  case (Cons rg rs)
  let ?c = "lx_current (get l)"
  have c: "fst rg \<le> ?c" "?c \<le> snd rg" "next_byte_in_range_loop rs (add ?c (get l)) = (True, l')"
    using Cons.prems(1) by (auto simp: Let_def split: if_splits)
  then obtain cs where "list_all2 in_range rs cs" "lx_token_buffer l' = lx_token_buffer (add ?c (get l)) @ cs"
    using Cons.IH Cons.prems(2) by (meson list.set_intros(2))
  moreover have "in_range rg (chr ?c)" using c Cons.prems(2) [of rg] by (simp add: in_range_def)
  ultimately show ?case by (intro exI [of _ "chr ?c # cs"]) (simp add: add_def)
qed simp

lemma scan_multibyte_grows:
  assumes "scan_multibyte l = (None, l')"
  shows "grows l l'"
proof -
  let ?c = "lx_current l"
  have rs: "utf8_ranges ?c \<noteq> []" "next_byte_in_range (utf8_ranges ?c) l = (True, l')"
    using assms by (auto simp: scan_multibyte_def scan_error_def split: list.splits prod.splits if_splits)
  then have lead: "194 \<le> ?c \<and> ?c \<le> 244" by (auto simp: utf8_ranges_def split: if_splits)
  obtain cs where cs: "list_all2 in_range (utf8_ranges ?c) cs" "lx_token_buffer l' = lx_token_buffer (add ?c l) @ cs"
    using range_loop_grows [OF rs(2) [unfolded next_byte_in_range_def]] utf8_ranges_bytes by blast
  have "utf8_char (chr ?c # cs)" using rs(1) cs(1) lead by simp
  then show ?thesis
    unfolding grows_def using cs(2) by (intro exI [of _ "chr ?c # cs"]) (simp add: add_def utf8_valid_char)
qed

lemma string_step_grows: "scan_string_step l = (None, l') \<Longrightarrow> grows l l'"
  using scan_escape_grows [of "get l" l'] scan_multibyte_grows [of "get l" l'] grows_add [of "lx_current (get l)" "get l" l]
  by (auto simp: scan_string_step_def Let_def scan_error_def scan_control_def grows_def [of l] grows_def [of "get l"]
      split: if_splits)

lemma string_step_end: "scan_string_step l = (Some Tok_value_string, l') \<Longrightarrow> lx_token_buffer l' = lx_token_buffer l"
  by (auto simp: scan_string_step_def Let_def scan_error_def scan_control_def scan_escape_def scan_unicode_escape_def
      scan_low_surrogate_def scan_multibyte_def split: if_splits list.splits prod.splits)

lemma string_loop_grows: "scan_string_loop l = (Tok_value_string, l') \<Longrightarrow> grows l l'"
proof (induction l rule: scan_string_loop.induct)
  case (1 l)
  obtain st k where s: "scan_string_step l = (st, k)" by fastforce
  show ?case
  proof (cases st)
    case None
    then show ?thesis
      using 1 s string_step_grows [of l k] grows_trans [of l k l']
      by (auto simp: scan_string_loop.simps [of l])
  next
    case (Some t)
    then show ?thesis
      using 1(2) s string_step_end [of l k] by (auto simp: scan_string_loop.simps [of l] intro: grows_refl)
  qed
qed

section \<open>Tokens\<close>

text \<open>No operation on a string moves the decimal point of a number.\<close>

abbreviation point :: "lexer \<Rightarrow> nat option" where
  "point \<equiv> lx_decimal_point_position"

lemma point_simps [frame_simps, simp]:
  "point (get l) = point l" "point (add c l) = point l" "point (set_error m l) = point l"
  "point (add_codepoint cp l) = point l"
  by (simp_all add: get_def get_read_def Let_def add_def set_error_def add_codepoint_def case_prod_beta)

lemma point_codepoint: "get_codepoint l = (cp, l') \<Longrightarrow> point l' = point l"
proof -
  have "point (snd (get_codepoint_loop fs cp l)) = point l" for fs cp l
    by (induction fs cp l rule: get_codepoint_loop.induct) (simp_all add: Let_def)
  then show "get_codepoint l = (cp, l') \<Longrightarrow> point l' = point l" by (metis get_codepoint_def snd_conv)
qed

lemma point_range_loop: "point (snd (next_byte_in_range_loop rs l)) = point l"
  by (induction rs l rule: next_byte_in_range_loop.induct) (simp_all add: Let_def)

lemma point_low_surrogate: "point (snd (scan_low_surrogate cp l)) = point l"
  by (auto simp: scan_low_surrogate_def scan_error_def Let_def dest: point_codepoint split: prod.split)

lemma point_unicode_escape: "point (snd (scan_unicode_escape l)) = point l"
  using point_low_surrogate
  by (auto simp: scan_unicode_escape_def scan_error_def Let_def dest: point_codepoint split: prod.split)

lemma point_multibyte: "point (snd (scan_multibyte l)) = point l"
proof -
  have "point (snd (next_byte_in_range rs l)) = point l" for rs
    by (simp add: next_byte_in_range_def point_range_loop)
  then show ?thesis by (auto simp: scan_multibyte_def scan_error_def case_prod_beta split: list.split)
qed

lemma point_string_step: "point (snd (scan_string_step l)) = point l"
  by (auto simp: scan_string_step_def Let_def scan_error_def scan_control_def scan_escape_def
      point_multibyte point_unicode_escape)

lemma point_string_loop: "point (snd (scan_string_loop l)) = point l"
proof (induction l rule: scan_string_loop.induct)
  case (1 l)
  show ?case
    using 1 point_string_step [of l]
    by (subst scan_string_loop.simps) (auto split: prod.split option.split)
qed

lemma scan_string_utf8:
  assumes "scan_string l = (Tok_value_string, l')"
  shows "utf8_valid (lexer_get_string l')"
proof -
  have "point l' = None"
    using point_string_loop [of "reset_token l"] assms by (simp add: scan_string_def reset_token_def)
  moreover have "grows (reset_token l) l'" using string_loop_grows assms by (simp add: scan_string_def)
  ultimately show ?thesis by (auto simp: grows_def reset_token_def lexer_get_string_def)
qed

lemma number_loop_not_string:
  "t \<noteq> Tok_value_string \<Longrightarrow> fst (scan_number_loop st t l) \<noteq> Tok_value_string"
proof (induction st t l rule: scan_number_loop.induct)
  case (1 st t l)
  have "number_type_at st t \<noteq> Tok_value_string" using 1(2) by (cases st) simp_all
  then show ?case using 1 by (simp add: scan_number_loop.simps [of st] Let_def split: num_next.split)
qed

lemma number_not_string: "fst (scan_number l) \<noteq> Tok_value_string"
  using number_loop_not_string [of Tok_value_unsigned]
  by (simp add: scan_number_def Let_def scan_number_done_def split: prod.split option.split)

lemma literal_not_string: "t \<noteq> Tok_value_string \<Longrightarrow> fst (scan_literal s t l) \<noteq> Tok_value_string"
proof -
  have "t \<noteq> Tok_value_string \<Longrightarrow> fst (scan_literal_loop cs t l) \<noteq> Tok_value_string" for cs
    by (induction cs t l rule: scan_literal_loop.induct) (simp_all add: Let_def)
  then show "t \<noteq> Tok_value_string \<Longrightarrow> fst (scan_literal s t l) \<noteq> Tok_value_string"
    by (simp add: scan_literal_def)
qed

lemma scan_utf8: "scan l = (Tok_value_string, l') \<Longrightarrow> utf8_valid (lexer_get_string l')"
proof -
  have *: "scan_token k = (Tok_value_string, l') \<Longrightarrow> utf8_valid (lexer_get_string l')" for k
    using number_not_string [of k] literal_not_string [of Tok_literal_true "''true''" k]
      literal_not_string [of Tok_literal_false "''false''" k] literal_not_string [of Tok_literal_null "''null''" k]
    by (auto simp: scan_token_def Let_def scan_string_utf8 split: if_splits)
  assume "scan l = (Tok_value_string, l')"
  then show ?thesis by (auto simp: scan_def intro: * split: prod.splits if_splits)
qed

text \<open>What the parser's token tells about the lexer.\<close>

definition token_ok :: "parser \<Rightarrow> bool" where
  "token_ok p \<longleftrightarrow> (ps_last_token p = Tok_value_string \<longrightarrow> utf8_valid (lexer_get_string (ps_lexer p)))"

lemma token_ok_get_token [simp]: "token_ok (get_token p)"
  by (auto simp: token_ok_def get_token_def scan_utf8 split: prod.split)

lemma token_ok_init [simp]: "token_ok (parser_init s ae ic itc)"
  by (simp add: parser_init_def)

section \<open>The contract of a SAX handler\<close>

text \<open>
  \<open>want st\<close>: in the open containers \<open>st\<close> (innermost first, \<open>True\<close> for an array) a value
  may come; \<open>has st\<close>: a value has just been completed there, or the innermost container
  has just been opened; \<open>throws\<close>: errors in the input are exceptions.
\<close>

fun input_error :: "exn \<Rightarrow> bool" where
  "input_error (Json_parse_error i _ _) \<longleftrightarrow> i = 101"
| "input_error (Json_out_of_range i _) \<longleftrightarrow> i = 406"
| "input_error _ \<longleftrightarrow> False"

abbreviation moves :: "(bool \<times> 's) res \<Rightarrow> ('s \<Rightarrow> bool) \<Rightarrow> bool" where
  "moves r P \<equiv> (case r of Inl _ \<Rightarrow> False | Inr (ok, s) \<Rightarrow> ok \<and> P s)"

locale sax_contract =
  fixes sax :: "'s json_sax"
    and want :: "bool list \<Rightarrow> 's \<Rightarrow> bool"
    and has :: "bool list \<Rightarrow> 's \<Rightarrow> bool"
    and throws :: bool
  assumes null: "want st s \<Longrightarrow> moves (sax_null sax s) (has st)"
    and boolean: "want st s \<Longrightarrow> moves (sax_boolean sax b s) (has st)"
    and number_integer: "want st s \<Longrightarrow> moves (sax_number_integer sax n s) (has st)"
    and number_unsigned: "want st s \<Longrightarrow> moves (sax_number_unsigned sax n s) (has st)"
    and number_float: "want st s \<Longrightarrow> dbl_isfinite x \<Longrightarrow> moves (sax_number_float sax x t s) (has st)"
    and str: "want st s \<Longrightarrow> utf8_valid t \<Longrightarrow> moves (sax_string sax t s) (has st)"
    and start_object: "want st s \<Longrightarrow> moves (sax_start_object sax unknown_size s) (has (False # st))"
    and key: "has (False # st) s \<Longrightarrow> utf8_valid t \<Longrightarrow> moves (sax_key sax t s) (want (False # st))"
    and end_object: "has (False # st) s \<Longrightarrow> moves (sax_end_object sax s) (has st)"
    and start_array: "want st s \<Longrightarrow> moves (sax_start_array sax unknown_size s) (has (True # st))"
    and element: "has (True # st) s \<Longrightarrow> want (True # st) s"
    and end_array: "has (True # st) s \<Longrightarrow> moves (sax_end_array sax s) (has st)"
    and parse_error: "want st s \<or> has st s \<Longrightarrow>
      (case sax_parse_error sax k t ex s of Inl e \<Rightarrow> e = ex | Inr (ok, _) \<Rightarrow> \<not> ok \<and> \<not> throws)"
begin

text \<open>What a turn of the loop may come to.\<close>

definition turn :: "(loop_next \<times> parser \<times> 's) res \<Rightarrow> bool" where
  "turn r \<longleftrightarrow> (case r of
     Inl e \<Rightarrow> input_error e
   | Inr (Return b, p, s) \<Rightarrow> if b then has [] s else \<not> throws
   | Inr (Continue st skip, p, s) \<Rightarrow> token_ok p \<and> (if skip then has st s else want st s))"

lemma fail_turn: "want st s \<or> has st s \<Longrightarrow> input_error ex \<Longrightarrow> turn (fail_with sax ex p s)"
  using parse_error [of st s, where k = "chars_read_total (lx_position (ps_lexer p))" and ex = ex
      and t = "get_token_string (ps_lexer p)"]
  by (auto simp: turn_def fail_with_def report_def split: sum.splits)

lemma event_turn: "moves (ev s) P \<Longrightarrow> (\<And>s'. P s' \<Longrightarrow> turn (k s')) \<Longrightarrow> turn (sax_event ev k p s)"
  by (auto simp: sax_event_def split: sum.splits)

lemma syntax_error_input [simp]: "input_error (syntax_error t c p)"
  by (simp add: syntax_error_def parse_error_create_def)

lemma parse_error_input [simp]: "input_error (parse_error_create 101 pos w)"
  by (simp add: parse_error_create_def)

lemma overflow_error_input [simp]: "input_error (overflow_error p)"
  by (simp add: overflow_error_def out_of_range_create_def)

lemma key_turn: "has (False # st) s \<Longrightarrow> token_ok p \<Longrightarrow> turn (parse_key sax (False # st) p s)"
  unfolding parse_key_def Let_def
  by (auto intro!: fail_turn event_turn [where P = "want (False # st)"] key simp: token_ok_def [of p] turn_def [of "Inr _"])

lemma array_turn: "has (True # st) s \<Longrightarrow> turn (eval_array sax (True # st) p s)"
  unfolding eval_array_def Let_def
  by (auto intro!: fail_turn [of "True # st"] event_turn [where P = "has st"] end_array element simp: turn_def [of "Inr _"])

lemma object_turn: "has (False # st) s \<Longrightarrow> turn (eval_object sax (False # st) p s)"
  unfolding eval_object_def Let_def
  by (auto intro!: fail_turn [of "False # st"] event_turn [where P = "has st"] end_object key_turn simp: turn_def [of "Inr _"])

lemma evaluation_turn: "has st s \<Longrightarrow> turn (state_evaluation sax st p s)"
  by (auto simp: state_evaluation_def array_turn object_turn turn_def [of "Inr _"] split: list.split)

lemma begin_object_turn: "want st s \<Longrightarrow> turn (begin_object sax st p s)"
  unfolding begin_object_def Let_def
  by (rule event_turn [OF start_object], assumption)
    (auto intro!: event_turn [OF end_object] key_turn evaluation_turn)

lemma begin_array_turn: "want st s \<Longrightarrow> turn (begin_array sax st p s)"
  unfolding begin_array_def Let_def
  by (rule event_turn [OF start_array], assumption)
    (auto intro!: event_turn [OF end_array] evaluation_turn element simp: turn_def [of "Inr _"])

lemma value_turn:
  assumes "want st s" "token_ok p"
  shows "turn (parse_value sax st p s)"
proof -
  have scalar: "turn (sax_event ev (\<lambda>s. state_evaluation sax st p s) p s)" if "moves (ev s) (has st)" for ev
    using that by (rule event_turn) (rule evaluation_turn)
  show ?thesis
    using assms
    by (cases "ps_last_token p")
      (auto simp: parse_value_def Let_def token_ok_def intro!: scalar begin_object_turn begin_array_turn fail_turn [of st]
        null boolean number_integer number_unsigned number_float str)
qed

lemma step_turn: "token_ok p \<Longrightarrow> (if skip then has st s else want st s) \<Longrightarrow> turn (sax_step sax st skip p s)"
  by (auto simp: sax_step_def value_turn evaluation_turn split: if_splits)

text \<open>What the loop comes to.\<close>

definition outcome :: "(bool \<times> parser \<times> 's) res \<Rightarrow> bool" where
  "outcome r \<longleftrightarrow> (case r of Inl e \<Rightarrow> input_error e | Inr (b, p, s) \<Rightarrow> if b then has [] s else \<not> throws)"

lemma loop_outcome:
  "token_ok p \<Longrightarrow> (if skip then has st s else want st s) \<Longrightarrow> outcome (sax_parse_loop sax st skip p s)"
proof (induction p arbitrary: st skip s rule: measure_induct_rule [where f = parser_size])
  case (less p)
  have t: "turn (sax_step sax st skip p s)" by (rule step_turn [OF less.prems])
  have *: "outcome (sax_parse_loop sax st' skip' p' s')"
    if "sax_step sax st skip p s = Inr (Continue st' skip', p', s')" for st' skip' p' s'
    using less.IH [OF sax_step_Continue [OF that]] t that by (simp add: turn_def)
  show ?case
    using t *
    by (subst sax_parse_loop.simps) (auto simp: turn_def outcome_def split: sum.split loop_next.split)
qed

lemma internal_outcome: "token_ok p \<Longrightarrow> want [] s \<Longrightarrow> outcome (sax_parse_internal sax p s)"
  unfolding sax_parse_internal_def by (rule loop_outcome) simp_all

lemma strict_end_outcome:
  assumes "has [] s"
  shows "outcome (strict_end sax strict True p s)"
  using assms parse_error [of "[]" s, where k = "chars_read_total (lx_position (ps_lexer (get_token p)))"
      and ex = "syntax_error Tok_end_of_input ''value'' (get_token p)"
      and t = "get_token_string (ps_lexer (get_token p))"]
  by (auto simp: strict_end_def Let_def report_def outcome_def split: sum.splits)

lemma parse_outcome: "token_ok p \<Longrightarrow> want [] s \<Longrightarrow> outcome (sax_parse sax strict p s)"
proof -
  assume "token_ok p" "want [] s"
  then have o: "outcome (sax_parse_internal sax p s)" by (rule internal_outcome)
  show ?thesis
  proof (cases "sax_parse_internal sax p s")
    case (Inr a)
    obtain b p' s' where a: "a = (b, p', s')" by (cases a)
    show ?thesis
    proof (cases b)
      case True
      then have "has [] s'" using o Inr a by (simp add: outcome_def)
      moreover have "sax_parse sax strict p s = strict_end sax strict True p' s'"
        using True Inr a by (simp add: sax_parse_def)
      ultimately show ?thesis by (simp only: strict_end_outcome)
    next
      case False
      then have "sax_parse sax strict p s = sax_parse_internal sax p s" using Inr a by (simp add: sax_parse_def)
      then show ?thesis by (simp only: o)
    qed
  qed (use o in \<open>simp add: sax_parse_def outcome_def\<close>)
qed

end

section \<open>The handlers meet the contract\<close>

text \<open>The acceptor has no state to speak of.\<close>

interpretation acceptor: sax_contract acceptor_sax "\<lambda>_ _. True" "\<lambda>_ _. True" False
  by unfold_locales (simp_all add: acceptor_sax_def acceptor_yes_def)

text \<open>Values the builder makes: ordered maps, UTF-8 strings, finite doubles, nothing binary.\<close>

fun json_wf :: "json \<Rightarrow> bool" where
  "json_wf (JObject m) \<longleftrightarrow> smap_inv m \<and> (\<forall>p \<in> set m. utf8_valid (fst p) \<and> json_wf (snd p))"
| "json_wf (JArray xs) \<longleftrightarrow> (\<forall>x \<in> set xs. json_wf x)"
| "json_wf (JString s) \<longleftrightarrow> utf8_valid s"
| "json_wf (JNumber_float x) \<longleftrightarrow> dbl_isfinite x"
| "json_wf (JBinary _ _) \<longleftrightarrow> False"
| "json_wf JDiscarded \<longleftrightarrow> False"
| "json_wf _ \<longleftrightarrow> True"

lemma json_wf_utf8: "json_wf v \<Longrightarrow> utf8_json v"
  by (induction v) (auto simp: snds.simps)

lemma json_wf_inv: "json_wf v \<Longrightarrow> json_inv v"
  by (induction v) (auto simp: snds.simps)

text \<open>Where a value goes while the containers \<open>st\<close> are open, the paths on the stack, the
  path and the root around the place.\<close>

inductive opens :: "bool list \<Rightarrow> path list \<Rightarrow> path \<Rightarrow> (json \<Rightarrow> json) \<Rightarrow> bool" where
  root: "opens [] [] [] (\<lambda>v. v)"
| element: "opens st ps q put \<Longrightarrow> json_wf (JArray xs) \<Longrightarrow>
    opens (True # st) (ps @ [q]) (q @ [Idx (length xs)]) (\<lambda>v. put (JArray (xs @ [v])))"
| member: "opens st ps q put \<Longrightarrow> json_wf (JObject m) \<Longrightarrow> utf8_valid k \<Longrightarrow>
    opens (False # st) (ps @ [q]) (q @ [Key k]) (\<lambda>v. put (JObject (smap_set k v m)))"

inductive_cases opens_rootE: "opens [] ps q put"
inductive_cases opens_arrayE: "opens (True # st) ps q put"
inductive_cases opens_objectE: "opens (False # st) ps q put"

lemma opens_lens:
  assumes "opens st ps q put"
  shows "json_lookup q (put v) = Some v \<and> json_update q f (put v) = put (f v)"
  using assms
proof (induction arbitrary: v f)
  case (element st ps q put xs)
  then show ?case by (simp add: json_lookup_append json_update_append)
next
  case (member st ps q put m k)
  then show ?case
    by (simp add: json_lookup_append json_update_append map_of_set_same change_set json_update_Nil cong: if_cong)
qed simp

lemma json_wf_set: "json_wf (JObject m) \<Longrightarrow> utf8_valid k \<Longrightarrow> json_wf v \<Longrightarrow> json_wf (JObject (smap_set k v m))"
  by (auto dest!: smap_set_keys)

lemma opens_length: "opens st ps q put \<Longrightarrow> length ps = length st"
  by (induction rule: opens.induct) simp_all

section \<open>The builder\<close>

text \<open>The container that is open, around what the slot below it holds.\<close>

definition content :: "bool \<Rightarrow> json \<Rightarrow> bool" where
  "content arr c \<longleftrightarrow> json_wf c \<and> (case c of JArray _ \<Rightarrow> arr | JObject _ \<Rightarrow> \<not> arr | _ \<Rightarrow> False)"

text \<open>No error so far, and errors are exceptions.\<close>

definition throwing :: "dom_parser \<Rightarrow> bool" where
  "throwing d \<longleftrightarrow> \<not> dom_errored d \<and> dom_allow_exceptions d"

lemma throwing_update [simp]:
  "throwing (d\<lparr>dom_root := r\<rparr>) = throwing d" "throwing (d\<lparr>dom_ref_stack := ps\<rparr>) = throwing d"
  "throwing (d\<lparr>dom_object_element := oe\<rparr>) = throwing d"
  by (simp_all add: throwing_def)

fun dom_has :: "bool list \<Rightarrow> dom_parser \<Rightarrow> bool" where
  "dom_has [] d \<longleftrightarrow> dom_ref_stack d = [] \<and> json_wf (dom_root d) \<and> throwing d"
| "dom_has (arr # st) d \<longleftrightarrow> throwing d
     \<and> (\<exists>ps q put c. opens st ps q put \<and> dom_ref_stack d = ps @ [q] \<and> dom_root d = put c \<and> content arr c)"

definition dom_want :: "bool list \<Rightarrow> dom_parser \<Rightarrow> bool" where
  "dom_want st d \<longleftrightarrow> throwing d \<and> (\<exists>q put. opens st (dom_ref_stack d) q put \<and> slot d q put)"

lemma dom_put:
  assumes "opens st ps q put" "dom_ref_stack d = ps" "dom_root d = put v" "json_wf v" "throwing d"
  shows "dom_has st d"
  using assms(1)
proof cases
  case root
  then show ?thesis using assms by simp
next
  case (element st' ps' q' put' xs)
  have "content True (JArray (xs @ [v]))" using element assms(4) by (auto simp: content_def)
  then show ?thesis
    using element assms by (auto intro!: exI [of _ q'] exI [of _ put'])
next
  case (member st' ps' q' put' m k)
  have "content False (JObject (smap_set k v m))" using member json_wf_set assms(4) by (auto simp: content_def)
  then show ?thesis
    using member assms by (auto intro!: exI [of _ q'] exI [of _ put'])
qed

lemma dom_value_moves: "dom_want st d \<Longrightarrow> json_wf v \<Longrightarrow> moves (dom_value v d) (dom_has st)"
proof -
  assume "dom_want st d" and v: "json_wf v"
  then obtain q put where o: "opens st (dom_ref_stack d) q put" "slot d q put" "throwing d"
    by (auto simp: dom_want_def)
  show ?thesis
    using dom_put [OF o(1), of "d\<lparr>dom_root := put v\<rparr>" v] slot_value [OF o(2)] o(3) v by simp
qed

lemma dom_start_moves:
  assumes "dom_want st d" "content arr c"
  shows "moves (dom_start what c unknown_size d) (dom_has (arr # st))"
proof -
  obtain q put where o: "opens st (dom_ref_stack d) q put" "slot d q put" "throwing d"
    using assms(1) by (auto simp: dom_want_def)
  show ?thesis
    using slot_start [OF o(2), of what c] o(1,3) assms(2) by auto
qed

lemma dom_has_inside:
  assumes "dom_has (arr # st) d"
  obtains ps q put c where "opens st ps q put" "dom_ref_stack d = ps @ [q]" "inside q put c d" "content arr c"
    "throwing d"
proof -
  obtain ps q put c where o: "opens st ps q put" "dom_ref_stack d = ps @ [q]" "dom_root d = put c"
      "content arr c" "throwing d"
    using assms by auto
  then have "inside q put c d" using opens_lens [OF o(1)] by (simp add: inside_def)
  then show ?thesis using that o by blast
qed

lemma dom_end_moves:
  assumes "dom_has (arr # st) d"
  shows "moves (if arr then dom_end_array d else dom_end_object d) (dom_has st)"
proof -
  obtain ps q put c where o: "opens st ps q put" "dom_ref_stack d = ps @ [q]" "inside q put c d"
      "content arr c" "throwing d"
    by (rule dom_has_inside [OF assms])
  have "dom_has st (d\<lparr>dom_ref_stack := ps\<rparr>)"
    by (rule dom_put [OF o(1), of _ c]) (use o(3-5) in \<open>simp_all add: inside_def content_def\<close>)
  then show ?thesis
    using o(2,4) inside_back [OF o(3)]
    by (auto simp: dom_end_array_def dom_end_object_def content_def split: json.splits)
qed

lemma dom_element_want: "dom_has (True # st) d \<Longrightarrow> dom_want (True # st) d"
proof -
  assume "dom_has (True # st) d"
  then obtain ps q put c where o: "opens st ps q put" "dom_ref_stack d = ps @ [q]" "inside q put c d"
      "content True c" "throwing d"
    by (rule dom_has_inside)
  then obtain xs where xs: "c = JArray xs" by (auto simp: content_def split: json.splits)
  show ?thesis
    using inside_element [OF o(3) [unfolded xs]] opens.element [OF o(1), of xs] o xs
    by (auto simp: dom_want_def content_def)
qed

lemma dom_key_moves:
  assumes "dom_has (False # st) d" "utf8_valid k"
  shows "moves (dom_key k d) (dom_want (False # st))"
proof -
  obtain ps q put c where o: "opens st ps q put" "dom_ref_stack d = ps @ [q]" "inside q put c d"
      "content False c" "throwing d"
    by (rule dom_has_inside [OF assms(1)])
  then obtain m where m: "c = JObject m" by (auto simp: content_def split: json.splits)
  then have "json_wf (JObject m)" using o(4) by (simp add: content_def)
  obtain r oe where k: "dom_key k d = Inr (True, d\<lparr>dom_root := r, dom_object_element := oe\<rparr>)"
      "slot (d\<lparr>dom_root := r, dom_object_element := oe\<rparr>) (q @ [Key k]) (\<lambda>v. put (JObject (smap_set k v m)))"
    by (rule inside_key [OF o(3) [unfolded m]]) (use \<open>json_wf (JObject m)\<close> in simp)
  show ?thesis
    using k opens.member [OF o(1) \<open>json_wf (JObject m)\<close> assms(2)] o(2,5) by (auto simp: dom_want_def)
qed

interpretation dom: sax_contract dom_sax dom_want dom_has True
proof (unfold_locales, goal_cases)
  case (7 st s)
  then show ?case
    using dom_start_moves [of st s False "JObject []" "''object''"]
    by (simp add: dom_sax_def dom_start_object_def content_def)
next
  case (10 st s)
  then show ?case
    using dom_start_moves [of st s True "JArray []" "''array''"]
    by (simp add: dom_sax_def dom_start_array_def content_def)
next
  case (13 st s k t ex)
  then have "throwing s" by (cases st) (auto simp: dom_want_def)
  then show ?case by (simp add: dom_sax_def dom_parse_error_def Let_def throwing_def)
qed (use dom_end_moves [where arr = True] dom_end_moves [where arr = False] in
    \<open>simp_all add: dom_sax_def dom_value_moves dom_key_moves dom_element_want del: dom_has.simps\<close>)

section \<open>Parsing any input\<close>

lemma dom_init_want: "dom_want [] (dom_init n True r)"
proof -
  have "slot (dom_init n True r) [] (\<lambda>v. v)" by (rule slot_root) (simp add: dom_init_def)
  moreover have "opens [] (dom_ref_stack (dom_init n True r)) [] (\<lambda>v. v)" by (simp add: dom_init_def opens.root)
  moreover have "throwing (dom_init n True r)" by (simp add: dom_init_def throwing_def)
  ultimately show ?thesis unfolding dom_want_def by blast
qed

lemma parser_parse_outcome:
  assumes "ps_allow_exceptions p" "token_ok p"
  shows "case parser_parse n strict r p of Inl e \<Rightarrow> input_error e | Inr (v, _) \<Rightarrow> json_wf v"
proof -
  have "dom.outcome (sax_parse_internal dom_sax p (dom_init n True r))"
    by (rule dom.internal_outcome [OF assms(2) dom_init_want])
  then consider e where "sax_parse_internal dom_sax p (dom_init n True r) = Inl e" "input_error e"
    | p' d where "sax_parse_internal dom_sax p (dom_init n True r) = Inr (True, p', d)" "dom_has [] d"
    by (auto simp: dom.outcome_def split: sum.splits if_splits)
  then show ?thesis
  proof cases
    case 1
    then show ?thesis using assms(1) by (simp add: parser_parse_def)
  next
    case 2
    have "dom.outcome (strict_end dom_sax strict True p' d)" by (rule dom.strict_end_outcome [OF 2(2)])
    then show ?thesis
      using 2(1) assms(1)
      by (auto simp: parser_parse_def dom.outcome_def throwing_def split: sum.splits if_splits)
  qed
qed

lemma parser_init_throws [simp]: "ps_allow_exceptions (parser_init s ae ic itc) = ae"
  by (simp add: parser_init_def get_token_def split: prod.split)

lemma json_parse_outcome: "case json_parse s of Inl e \<Rightarrow> input_error e | Inr v \<Rightarrow> json_wf v"
  using parser_parse_outcome [of "parser_init s True False False" 0 True JNull]
  by (auto simp: json_parse_def split: sum.splits)

lemma json_read_stream_outcome: "case json_read_stream s of Inl e \<Rightarrow> input_error e | Inr v \<Rightarrow> json_wf v"
  using parser_parse_outcome [of "parser_init s True False False" 0 False JNull]
  by (auto simp: json_read_stream_def split: sum.splits)

lemma json_parse_wf: "json_parse s = Inr v \<Longrightarrow> json_wf v"
  using json_parse_outcome [of s] by simp

lemma json_read_stream_wf: "json_read_stream s = Inr v \<Longrightarrow> json_wf v"
  using json_read_stream_outcome [of s] by simp

section \<open>What the program reads\<close>

lemma json_at_wf: "json_wf j \<Longrightarrow> json_at j k = Inr v \<Longrightarrow> json_wf v"
  by (auto simp: json_at_def split: json.splits option.splits dest!: map_of_SomeD)

lemma get_string_wf: "json_wf j \<Longrightarrow> get_string j = Inr s \<Longrightarrow> utf8_valid s"
  by (auto simp: get_string_def split: json.splits)

lemma message_parse_wf: "message_parse raw = Inr m \<Longrightarrow> utf8_valid (msg_type m) \<and> json_wf (msg_payload m)"
  by (auto simp: message_parse_def rbind_eq_Inr dest!: json_parse_wf intro: json_at_wf get_string_wf)

lemma json_value_wf:
  assumes "json_wf j" "json_value rd j k d = Inr x" "P d" "\<And>v. json_wf v \<Longrightarrow> rd v = Inr x \<Longrightarrow> P x"
  shows "P x"
  using assms by (auto simp: json_value_def split: json.splits option.splits dest!: map_of_SomeD)

lemma json_value_string_wf:
  "json_wf j \<Longrightarrow> utf8_valid d \<Longrightarrow> json_value get_string j k d = Inr s \<Longrightarrow> utf8_valid s"
  by (rule json_value_wf [where P = utf8_valid]) (auto intro: get_string_wf)

lemma json_value_json_wf: "json_wf j \<Longrightarrow> json_value get_json j k (JObject []) = Inr v \<Longrightarrow> json_wf v"
  by (auto simp: json_value_def get_json_def split: json.splits option.splits dest!: map_of_SomeD)

lemma json_items_wf: "json_wf j \<Longrightarrow> p \<in> set (json_items j) \<Longrightarrow> utf8_valid (fst p) \<and> json_wf (snd p)"
  by (cases j) (auto simp: json_items_def is_digit_def intro!: utf8_valid_ascii dest!: show_nat_digits)

lemma json_wf_member: "json_wf (JObject m) \<Longrightarrow> (k, v) \<in> set m \<Longrightarrow> json_wf v"
  by auto

lemma json_index_wf: "json_wf j \<Longrightarrow> utf8_valid k \<Longrightarrow> json_index j k = Inr (v, j') \<Longrightarrow> json_wf v"
  by (auto simp: json_index_def Let_def smap_emplace_def map_of_smap_set is_null_def
      split: json.splits option.splits if_splits dest!: map_of_SomeD dest: json_wf_member)

text \<open>A loop that reads the members keeps what every turn keeps.\<close>

lemma fold_rbind_keeps:
  assumes "fold (\<lambda>p r. rbind r (f p)) kvs r = Inr m'"
    "\<And>m. r = Inr m \<Longrightarrow> P m" "\<And>p m m'. p \<in> set kvs \<Longrightarrow> P m \<Longrightarrow> f p m = Inr m' \<Longrightarrow> P m'"
  shows "P m'"
  using assms
proof (induction kvs arbitrary: r)
  case (Cons p kvs)
  have "P m" if "rbind r (f p) = Inr m" for m
    using that Cons.prems(2,3) by (auto simp: rbind_eq_Inr)
  moreover have "fold (\<lambda>p r. rbind r (f p)) kvs (rbind r (f p)) = Inr m'" using Cons.prems(1) by simp
  moreover have "P m \<Longrightarrow> f q m = Inr m' \<Longrightarrow> P m'" if "q \<in> set kvs" for q m m'
    using Cons.prems(3) [of q m m'] that by simp
  ultimately show ?case by (intro Cons.IH [of "rbind r (f p)"])
qed simp

lemma camp_levels_ok:
  assumes "json_wf val" "camp_levels_of_json val = Inr levels"
  shows "smap_inv levels \<and> (\<forall>p \<in> set levels. utf8_valid (fst p))"
proof (cases "json_contains val ''campLevels''")
  case True
  then obtain lv j' where lv: "json_index val ''campLevels'' = Inr (lv, j')"
      "fold (\<lambda>p r. rbind r (\<lambda>m. rbind (get_int (snd p)) (\<lambda>lvl. Inr (smap_set (fst p) lvl m)))) (json_items lv) (Inr [])
        = Inr levels"
    using assms(2) by (auto simp: camp_levels_of_json_def rbind_eq_Inr case_prod_unfold)
  have wf: "json_wf lv" using json_index_wf [OF assms(1) _ lv(1)] by simp
  show ?thesis
    by (rule fold_rbind_keeps [OF lv(2), where P = "\<lambda>m. smap_inv m \<and> (\<forall>p \<in> set m. utf8_valid (fst p))"])
      (use json_items_wf [OF wf] in \<open>auto simp: rbind_eq_Inr dest!: smap_set_keys\<close>)
qed (use assms(2) in \<open>simp add: camp_levels_of_json_def\<close>)

lemma account_of_json_ok:
  assumes "json_wf val" "account_of_json val = Inr acc"
  shows "account_ok acc"
proof -
  have "utf8_valid (acc_password acc)" "utf8_valid (acc_uuid acc)" "camp_levels_of_json val = Inr (acc_campLevels acc)"
    using assms(2) json_value_string_wf [OF assms(1) utf8_valid_Nil] by (auto simp: account_of_json_def rbind_eq_Inr)
  then show ?thesis using camp_levels_ok [OF assms(1)] by (simp add: account_ok_def)
qed

lemma accounts_of_json_ok:
  assumes "json_wf j" "accounts_of_json j = Inr accounts"
  shows "accounts_ok accounts"
proof -
  obtain jacc where jacc: "json_value get_json j ''accounts'' (JObject []) = Inr jacc"
      "fold (\<lambda>p r. rbind r (\<lambda>m. rbind (account_of_json (snd p)) (\<lambda>acc. Inr (umap_set (fst p) acc m)))) (json_items jacc) (Inr [])
        = Inr accounts"
    using assms(2) by (auto simp: accounts_of_json_def rbind_eq_Inr case_prod_unfold)
  have wf: "json_wf jacc" by (rule json_value_json_wf [OF assms(1) jacc(1)])
  show ?thesis
    by (rule fold_rbind_keeps [OF jacc(2), where P = accounts_ok])
      (use json_items_wf [OF wf] account_of_json_ok in
        \<open>auto simp: rbind_eq_Inr accounts_ok_def [of "[]"] intro!: accounts_ok_umap_set\<close>)
qed

text \<open>Whatever the file holds, a database that opens can be saved again.\<close>

lemma db_open_ok: "db_open filepath disk = Inr db \<Longrightarrow> accounts_ok (db_accounts db)"
  by (auto simp: db_open_def rbind_eq_Inr accounts_ok_def [of "[]"] split: option.splits
      dest!: json_read_stream_wf intro: accounts_of_json_ok)

lemma db_open_frame: "db_open filepath disk = Inr db \<Longrightarrow> db_filepath db = filepath \<and> db_disk db = disk"
  by (auto simp: db_open_def rbind_eq_Inr split: option.splits)

lemma db_open_synced: "db_open filepath disk = Inr db \<Longrightarrow> synced db"
  using db_open_ok [of filepath disk db] db_open_frame [of filepath disk db] by (auto simp: synced_def loads_def)

end
