(* ===== verification/Acceptance.thy ===== *)
theory Acceptance
  imports Wellformed
begin

unbundle bit_operations_syntax

text \<open>
  \<open>accept\<close> and \<open>parse\<close> agree: whatever handler meets the contract, the parser takes the same
  turns with it as with the acceptor, up to the error that ends both.
\<close>

text \<open>The parser of \<open>accept\<close> differs in a flag the loop does not look at.\<close>

definition silent :: "parser \<Rightarrow> parser" where
  "silent p = p\<lparr>ps_allow_exceptions := False\<rparr>"

lemma silent_simps [simp]:
  "ps_last_token (silent p) = ps_last_token p" "ps_lexer (silent p) = ps_lexer p"
  "ps_ignore_trailing_commas (silent p) = ps_ignore_trailing_commas p"
  "get_token (silent p) = silent (get_token p)"
  "parser_init s False ic itc = silent (parser_init s True ic itc)"
  by (simp_all add: silent_def get_token_def parser_init_def split: prod.split)

lemma silent_errors [simp]:
  "syntax_error t c (silent p) = syntax_error t c p" "overflow_error (silent p) = overflow_error p"
  by (simp_all add: syntax_error_def exception_message_def overflow_error_def)

lemma acceptor_fields [simp]:
  "sax_null acceptor_sax = acceptor_yes" "sax_boolean acceptor_sax b = acceptor_yes"
  "sax_number_integer acceptor_sax n = acceptor_yes" "sax_number_unsigned acceptor_sax n = acceptor_yes"
  "sax_number_float acceptor_sax x t = acceptor_yes" "sax_string acceptor_sax t = acceptor_yes"
  "sax_start_object acceptor_sax n = acceptor_yes" "sax_key acceptor_sax t = acceptor_yes"
  "sax_end_object acceptor_sax = acceptor_yes" "sax_start_array acceptor_sax n = acceptor_yes"
  "sax_end_array acceptor_sax = acceptor_yes"
  by (simp_all add: acceptor_sax_def)

context sax_contract
begin

text \<open>A turn with the acceptor that follows a turn with the handler.\<close>

definition follows :: "(loop_next \<times> parser \<times> 's) res \<Rightarrow> (loop_next \<times> parser \<times> unit) res \<Rightarrow> bool" where
  "follows r a \<longleftrightarrow> (case r of
     Inl _ \<Rightarrow> \<exists>p. a = Inr (Return False, p, ())
   | Inr (n, p, s) \<Rightarrow> a = Inr (n, silent p, ()))"

lemma followsI: "follows (Inr (n, p, s)) (Inr (n, silent p, ()))"
  by (simp add: follows_def)

lemma fail_follows:
  "want st s \<or> has st s \<Longrightarrow> follows (fail_with sax ex p s) (fail_with acceptor_sax ex (silent p) ())"
  using parse_error [of st s, where k = "chars_read_total (lx_position (ps_lexer p))" and ex = ex
      and t = "get_token_string (ps_lexer p)"]
  by (auto simp: follows_def fail_with_def report_def acceptor_sax_def split: sum.splits)

lemma event_follows:
  "moves (ev s) P \<Longrightarrow> (\<And>s'. P s' \<Longrightarrow> follows (k s') (k' ())) \<Longrightarrow>
     follows (sax_event ev k p s) (sax_event acceptor_yes k' q ())"
  by (auto simp: sax_event_def acceptor_yes_def split: sum.splits)

lemma key_follows:
  "has (False # st) s \<Longrightarrow> token_ok p \<Longrightarrow>
     follows (parse_key sax (False # st) p s) (parse_key acceptor_sax (False # st) (silent p) ())"
  unfolding parse_key_def Let_def
  by (auto intro!: fail_follows event_follows [where P = "want (False # st)"] key followsI simp: token_ok_def [of p])

lemma array_follows:
  "has (True # st) s \<Longrightarrow> follows (eval_array sax (True # st) p s) (eval_array acceptor_sax (True # st) (silent p) ())"
  unfolding eval_array_def Let_def
  by (auto intro!: fail_follows [of "True # st"] event_follows [OF end_array] followsI)

lemma object_follows:
  "has (False # st) s \<Longrightarrow> follows (eval_object sax (False # st) p s) (eval_object acceptor_sax (False # st) (silent p) ())"
  unfolding eval_object_def Let_def
  by (auto intro!: fail_follows [of "False # st"] event_follows [OF end_object] key_follows followsI)

lemma evaluation_follows:
  "has st s \<Longrightarrow> follows (state_evaluation sax st p s) (state_evaluation acceptor_sax st (silent p) ())"
  by (auto simp: state_evaluation_def array_follows object_follows followsI split: list.split)

lemma begin_object_follows:
  "want st s \<Longrightarrow> follows (begin_object sax st p s) (begin_object acceptor_sax st (silent p) ())"
  unfolding begin_object_def Let_def acceptor_fields
  by (rule event_follows [OF start_object], assumption)
    (auto intro!: event_follows [OF end_object] key_follows evaluation_follows)

lemma begin_array_follows:
  "want st s \<Longrightarrow> follows (begin_array sax st p s) (begin_array acceptor_sax st (silent p) ())"
  unfolding begin_array_def Let_def acceptor_fields
  by (rule event_follows [OF start_array], assumption)
    (auto intro!: event_follows [OF end_array] evaluation_follows followsI)

lemma value_follows:
  assumes "want st s" "token_ok p"
  shows "follows (parse_value sax st p s) (parse_value acceptor_sax st (silent p) ())"
proof -
  have scalar: "follows (sax_event ev (\<lambda>s. state_evaluation sax st p s) p s)
      (sax_event acceptor_yes (\<lambda>s. state_evaluation acceptor_sax st (silent p) s) (silent p) ())"
    if "moves (ev s) (has st)" for ev
    using that by (rule event_follows) (rule evaluation_follows)
  show ?thesis
    using assms
    by (cases "ps_last_token p")
      (auto simp: parse_value_def Let_def token_ok_def intro!: scalar begin_object_follows begin_array_follows
        fail_follows [of st] null boolean number_integer number_unsigned number_float str)
qed

lemma step_follows:
  "token_ok p \<Longrightarrow> (if skip then has st s else want st s) \<Longrightarrow>
     follows (sax_step sax st skip p s) (sax_step acceptor_sax st skip (silent p) ())"
  by (auto simp: sax_step_def value_follows evaluation_follows split: if_splits)

definition agrees :: "(bool \<times> parser \<times> 's) res \<Rightarrow> (bool \<times> parser \<times> unit) res \<Rightarrow> bool" where
  "agrees r a \<longleftrightarrow> (case r of
     Inl _ \<Rightarrow> \<exists>p. a = Inr (False, p, ()) | Inr (b, p, s) \<Rightarrow> a = Inr (b, silent p, ()))"

lemma loop_agrees:
  "token_ok p \<Longrightarrow> (if skip then has st s else want st s) \<Longrightarrow>
     agrees (sax_parse_loop sax st skip p s) (sax_parse_loop acceptor_sax st skip (silent p) ())"
proof (induction p arbitrary: st skip s rule: measure_induct_rule [where f = parser_size])
  case (less p)
  have t: "turn (sax_step sax st skip p s)" by (rule step_turn [OF less.prems])
  have f: "follows (sax_step sax st skip p s) (sax_step acceptor_sax st skip (silent p) ())"
    by (rule step_follows [OF less.prems])
  show ?case
  proof (cases "sax_step sax st skip p s")
    case (Inl e)
    then obtain q where "sax_step acceptor_sax st skip (silent p) () = Inr (Return False, q, ())"
      using f by (auto simp: follows_def)
    then show ?thesis using Inl by (simp add: sax_parse_loop.simps [of _ st skip] agrees_def)
  next
    case (Inr x)
    obtain n p' s' where x: "x = (n, p', s')" by (cases x)
    have a: "sax_step acceptor_sax st skip (silent p) () = Inr (n, silent p', ())"
      using f Inr x by (simp add: follows_def)
    show ?thesis
    proof (cases n)
      case (Return b)
      then show ?thesis using Inr x a by (simp add: sax_parse_loop.simps [of _ st skip] agrees_def)
    next
      case (Continue st' skip')
      have s: "sax_step sax st skip p s = Inr (Continue st' skip', p', s')" using Inr x Continue by simp
      have "agrees (sax_parse_loop sax st' skip' p' s') (sax_parse_loop acceptor_sax st' skip' (silent p') ())"
        by (rule less.IH [OF sax_step_Continue [OF s]]) (use t s in \<open>simp_all add: turn_def\<close>)
      then show ?thesis using s a Continue by (simp add: sax_parse_loop.simps [of _ st skip])
    qed
  qed
qed

lemma strict_end_agrees:
  "has [] s \<Longrightarrow> agrees (strict_end sax strict True p s) (strict_end acceptor_sax strict True (silent p) ())"
  using parse_error [of "[]" s, where k = "chars_read_total (lx_position (ps_lexer (get_token p)))"
      and ex = "syntax_error Tok_end_of_input ''value'' (get_token p)"
      and t = "get_token_string (ps_lexer (get_token p))"]
  by (auto simp: strict_end_def Let_def report_def agrees_def acceptor_sax_def split: sum.splits)

end

lemma json_accept_iff: "json_accept s \<longleftrightarrow> (\<exists>v. json_parse s = Inr v)"
proof -
  let ?p = "parser_init s True False False" and ?d = "dom_init 0 True JNull"
  have internal: "dom.agrees (sax_parse_internal dom_sax ?p ?d) (sax_parse_internal acceptor_sax (silent ?p) ())"
    unfolding sax_parse_internal_def by (rule dom.loop_agrees) (simp_all add: dom_init_want)
  have out: "dom.outcome (sax_parse_internal dom_sax ?p ?d)"
    by (rule dom.internal_outcome [OF token_ok_init dom_init_want])
  show ?thesis
  proof (cases "sax_parse_internal dom_sax ?p ?d")
    case (Inl e)
    then obtain q where "sax_parse_internal acceptor_sax (silent ?p) () = Inr (False, q, ())"
      using internal by (auto simp: dom.agrees_def)
    then have "\<not> json_accept s" by (simp add: json_accept_def parser_accept_def sax_parse_def)
    moreover have "json_parse s = Inl e" using Inl by (simp add: json_parse_def parser_parse_def)
    ultimately show ?thesis by simp
  next
    case (Inr x)
    obtain b p' d where x: "x = (b, p', d)" by (cases x)
    have "if b then dom_has [] d else \<not> True"
      using out unfolding dom.outcome_def Inr x by (simp only: sum.case prod.case)
    then have b: "b" "dom_has [] d" by (simp_all split: if_splits)
    have a: "sax_parse_internal acceptor_sax (silent ?p) () = Inr (True, silent p', ())"
      using internal Inr x b by (simp add: dom.agrees_def)
    have eq: "json_accept s = (case strict_end acceptor_sax True True (silent p') () of Inl _ \<Rightarrow> False | Inr (b, _) \<Rightarrow> b)"
      by (simp add: json_accept_def parser_accept_def sax_parse_def a)
    have e: "dom.agrees (strict_end dom_sax True True p' d) (strict_end acceptor_sax True True (silent p') ())"
      "dom.outcome (strict_end dom_sax True True p' d)"
      by (rule dom.strict_end_agrees [OF b(2)], rule dom.strict_end_outcome [OF b(2)])
    show ?thesis
    proof (cases "strict_end dom_sax True True p' d")
      case (Inl ex)
      then have "json_parse s = Inl ex" using Inr x b(1) by (simp add: json_parse_def parser_parse_def)
      then show ?thesis using e(1) Inl eq by (auto simp: dom.agrees_def)
    next
      case r: (Inr y)
      obtain c q d' where y: "y = (c, q, d')" by (cases y)
      have "c" using e(2) r y by (simp add: dom.outcome_def split: if_splits)
      moreover have "\<exists>v. json_parse s = Inr v" using Inr x b(1) r y by (simp add: json_parse_def parser_parse_def)
      ultimately show ?thesis using e(1) r y eq by (simp add: dom.agrees_def)
    qed
  qed
qed

end
