(* ===== verification/JsonCompare.thy ===== *)
theory JsonCompare
  imports JsonNumber
begin

text \<open>
  The comparison operators of \<open>common/json.hpp\<close>: \<open>operator==\<close> and \<open>operator<\<close> of
  \<open>basic_json\<close> as the macro \<open>JSON_IMPLEMENT_OPERATOR\<close> expands for C++17. Numbers of
  different representations are converted before they are compared: signed and unsigned
  integers to \<open>int64_t\<close>, an integer and a double to the nearest double. Arrays and objects
  compare as \<open>std::vector\<close> and \<open>std::map\<close> do.
\<close>

unbundle bit_operations_syntax

section \<open>Doubles\<close>

text \<open>\<open>std::isnan\<close>, and the order of the doubles that are numbers: by sign and magnitude, where
  the two zeros are equal.\<close>

definition dbl_isnan :: "dbl \<Rightarrow> bool" where
  "dbl_isnan x \<longleftrightarrow> dbl_exponent x = 2047 \<and> dbl_fraction x \<noteq> 0"

definition dbl_rank :: "dbl \<Rightarrow> int" where
  "dbl_rank x = (let n = int (unat x mod 2 ^ 63) in if dbl_sign x then - n else n)"

definition dbl_eq :: "dbl \<Rightarrow> dbl \<Rightarrow> bool" where
  "dbl_eq x y \<longleftrightarrow> \<not> dbl_isnan x \<and> \<not> dbl_isnan y \<and> dbl_rank x = dbl_rank y"

definition dbl_less :: "dbl \<Rightarrow> dbl \<Rightarrow> bool" where
  "dbl_less x y \<longleftrightarrow> \<not> dbl_isnan x \<and> \<not> dbl_isnan y \<and> dbl_rank x < dbl_rank y"

text \<open>\<open>static_cast<double>\<close> of an unsigned and of a signed 64-bit integer.\<close>

definition dbl_of_unsigned :: "u64 \<Rightarrow> dbl" where
  "dbl_of_unsigned n = word_of_nat (dbl_of_ratio (unat n) 1)"

definition dbl_of_signed :: "u64 \<Rightarrow> dbl" where
  "dbl_of_signed n = word_of_nat ((if sint n < 0 then 2 ^ 63 else 0) + dbl_of_ratio (nat \<bar>sint n\<bar>) 1)"

section \<open>Equality\<close>

fun json_eq :: "json \<Rightarrow> json \<Rightarrow> bool"
  and elements_eq :: "json list \<Rightarrow> json list \<Rightarrow> bool"
  and members_eq :: "(string \<times> json) list \<Rightarrow> (string \<times> json) list \<Rightarrow> bool"
where
  "json_eq (JArray xs) r = (case r of JArray ys \<Rightarrow> elements_eq xs ys | _ \<Rightarrow> False)"
| "json_eq (JObject m) r = (case r of JObject n \<Rightarrow> members_eq m n | _ \<Rightarrow> False)"
| "json_eq JNull r = (case r of JNull \<Rightarrow> True | _ \<Rightarrow> False)"
| "json_eq (JString s) r = (case r of JString t \<Rightarrow> s = t | _ \<Rightarrow> False)"
| "json_eq (JBoolean a) r = (case r of JBoolean b \<Rightarrow> a = b | _ \<Rightarrow> False)"
| "json_eq (JBinary s a) r = (case r of JBinary t b \<Rightarrow> s = t \<and> a = b | _ \<Rightarrow> False)"
| "json_eq JDiscarded r = False"
| "json_eq (JNumber_integer a) r = (case r of
     JNumber_integer b \<Rightarrow> a = b
   | JNumber_float y \<Rightarrow> dbl_eq (dbl_of_signed a) y
   | JNumber_unsigned b \<Rightarrow> a = b
   | _ \<Rightarrow> False)"
| "json_eq (JNumber_unsigned a) r = (case r of
     JNumber_unsigned b \<Rightarrow> a = b
   | JNumber_float y \<Rightarrow> dbl_eq (dbl_of_unsigned a) y
   | JNumber_integer b \<Rightarrow> a = b
   | _ \<Rightarrow> False)"
| "json_eq (JNumber_float x) r = (case r of
     JNumber_float y \<Rightarrow> dbl_eq x y
   | JNumber_integer b \<Rightarrow> dbl_eq x (dbl_of_signed b)
   | JNumber_unsigned b \<Rightarrow> dbl_eq x (dbl_of_unsigned b)
   | _ \<Rightarrow> False)"
| "elements_eq [] ys \<longleftrightarrow> ys = []"
| "elements_eq (x # xs) ys = (case ys of y # ys \<Rightarrow> json_eq x y \<and> elements_eq xs ys | [] \<Rightarrow> False)"
| "members_eq [] n \<longleftrightarrow> n = []"
| "members_eq (p # m) n =
     (case n of q # n \<Rightarrow> fst p = fst q \<and> json_eq (snd p) (snd q) \<and> members_eq m n | [] \<Rightarrow> False)"

section \<open>Order\<close>

text \<open>The order of the types; discarded values have no place in it.\<close>

definition type_order :: "value_t \<Rightarrow> nat option" where
  "type_order t = (case t of
     T_null \<Rightarrow> Some 0 | T_boolean \<Rightarrow> Some 1 | T_number_integer \<Rightarrow> Some 2 | T_number_unsigned \<Rightarrow> Some 2
   | T_number_float \<Rightarrow> Some 2 | T_object \<Rightarrow> Some 3 | T_array \<Rightarrow> Some 4 | T_string \<Rightarrow> Some 5
   | T_binary \<Rightarrow> Some 6 | T_discarded \<Rightarrow> None)"

definition type_less :: "value_t \<Rightarrow> value_t \<Rightarrow> bool" where
  "type_less s t = (case (type_order s, type_order t) of (Some m, Some n) \<Rightarrow> m < n | _ \<Rightarrow> False)"

text \<open>\<open>compares_unordered\<close>\<close>

definition compares_unordered :: "json \<Rightarrow> json \<Rightarrow> bool" where
  "compares_unordered l r \<longleftrightarrow>
     (case l of JNumber_float x \<Rightarrow> dbl_isnan x \<and> is_number r | _ \<Rightarrow> False)
   \<or> (case r of JNumber_float y \<Rightarrow> dbl_isnan y \<and> is_number l | _ \<Rightarrow> False)
   \<or> is_discarded l \<or> is_discarded r"

text \<open>Values that cannot be compared: the order of their types decides.\<close>

definition other_less :: "json \<Rightarrow> json \<Rightarrow> bool" where
  "other_less l r \<longleftrightarrow> \<not> compares_unordered l r \<and> type_less (json_type l) (json_type r)"

lemma size_pair: "size_prod (\<lambda>_. 0) size = (\<lambda>p. Suc (size (snd p)))"
  by (rule ext) (simp add: size_prod_simp)

text \<open>\<open>std::lexicographical_compare\<close>, on elements and on key and value pairs.\<close>

function (sequential) json_less :: "json \<Rightarrow> json \<Rightarrow> bool"
  and elements_less :: "json list \<Rightarrow> json list \<Rightarrow> bool"
  and members_less :: "(string \<times> json) list \<Rightarrow> (string \<times> json) list \<Rightarrow> bool"
where
  "json_less (JArray xs) r = (case r of JArray ys \<Rightarrow> elements_less xs ys | _ \<Rightarrow> other_less (JArray xs) r)"
| "json_less (JObject m) r = (case r of JObject n \<Rightarrow> members_less m n | _ \<Rightarrow> other_less (JObject m) r)"
| "json_less JNull r = (case r of JNull \<Rightarrow> False | _ \<Rightarrow> other_less JNull r)"
| "json_less (JString s) r = (case r of JString t \<Rightarrow> s < t | _ \<Rightarrow> other_less (JString s) r)"
| "json_less (JBoolean a) r = (case r of JBoolean b \<Rightarrow> \<not> a \<and> b | _ \<Rightarrow> other_less (JBoolean a) r)"
| "json_less (JBinary s k) r = (case r of JBinary t _ \<Rightarrow> s < t | _ \<Rightarrow> other_less (JBinary s k) r)"
| "json_less JDiscarded r = (case r of JDiscarded \<Rightarrow> False | _ \<Rightarrow> other_less JDiscarded r)"
| "json_less (JNumber_integer a) r = (case r of
     JNumber_integer b \<Rightarrow> sint a < sint b
   | JNumber_float y \<Rightarrow> dbl_less (dbl_of_signed a) y
   | JNumber_unsigned b \<Rightarrow> sint a < sint b
   | _ \<Rightarrow> other_less (JNumber_integer a) r)"
| "json_less (JNumber_unsigned a) r = (case r of
     JNumber_unsigned b \<Rightarrow> a < b
   | JNumber_float y \<Rightarrow> dbl_less (dbl_of_unsigned a) y
   | JNumber_integer b \<Rightarrow> sint a < sint b
   | _ \<Rightarrow> other_less (JNumber_unsigned a) r)"
| "json_less (JNumber_float x) r = (case r of
     JNumber_float y \<Rightarrow> dbl_less x y
   | JNumber_integer b \<Rightarrow> dbl_less x (dbl_of_signed b)
   | JNumber_unsigned b \<Rightarrow> dbl_less x (dbl_of_unsigned b)
   | _ \<Rightarrow> other_less (JNumber_float x) r)"
| "elements_less [] ys \<longleftrightarrow> ys \<noteq> []"
| "elements_less (x # xs) ys = (case ys of
     y # ys \<Rightarrow> if json_less x y then True else if json_less y x then False else elements_less xs ys
   | [] \<Rightarrow> False)"
| "members_less [] n \<longleftrightarrow> n \<noteq> []"
| "members_less (p # m) n = (case n of
     q # n \<Rightarrow>
       if fst p < fst q \<or> (\<not> fst q < fst p \<and> json_less (snd p) (snd q)) then True
       else if fst q < fst p \<or> (\<not> fst p < fst q \<and> json_less (snd q) (snd p)) then False
       else members_less m n
   | [] \<Rightarrow> False)"
  by pat_completeness auto

termination
  by (relation "measure (case_sum (\<lambda>(x, y). size x + size y)
      (case_sum (\<lambda>(xs, ys). size_list size xs + size_list size ys)
        (\<lambda>(m, n). size_list (\<lambda>p. Suc (size (snd p))) m + size_list (\<lambda>p. Suc (size (snd p))) n)))")
    (auto simp: size_pair)

section \<open>Laws\<close>

lemma elements_eq_iff: "elements_eq xs ys \<longleftrightarrow> list_all2 json_eq xs ys"
  by (induction xs arbitrary: ys) (auto split: list.splits)

lemma members_eq_iff:
  "members_eq m n \<longleftrightarrow> list_all2 (\<lambda>p q. fst p = fst q \<and> json_eq (snd p) (snd q)) m n"
  by (induction m arbitrary: n) (auto split: list.splits)

lemma dbl_eq_sym: "dbl_eq x y \<longleftrightarrow> dbl_eq y x"
  by (auto simp: dbl_eq_def)

lemma json_eq_commute:
  "json_eq l r \<longleftrightarrow> json_eq r l"
  "elements_eq xs ys \<longleftrightarrow> elements_eq ys xs"
  "members_eq m n \<longleftrightarrow> members_eq n m"
  by (induction l r and xs ys and m n rule: json_eq_elements_eq_members_eq.induct)
    (auto split: json.splits list.splits simp: dbl_eq_sym elim: json_eq.elims elements_eq.elims members_eq.elims)

text \<open>Values that equal themselves: those without a NaN and without discarded parts.\<close>

fun comparable :: "json \<Rightarrow> bool" where
  "comparable (JArray xs) \<longleftrightarrow> (\<forall>x \<in> set xs. comparable x)"
| "comparable (JObject m) \<longleftrightarrow> (\<forall>p \<in> set m. comparable (snd p))"
| "comparable (JNumber_float x) \<longleftrightarrow> \<not> dbl_isnan x"
| "comparable JDiscarded \<longleftrightarrow> False"
| "comparable _ \<longleftrightarrow> True"

lemma json_eq_refl: "json_eq v v \<longleftrightarrow> comparable v"
  by (induction v) (auto simp: elements_eq_iff members_eq_iff list_all2_same dbl_eq_def)

text \<open>The order is asymmetric.\<close>

lemma type_less_asym: "type_less s t \<Longrightarrow> \<not> type_less t s"
  by (auto simp: type_less_def split: option.splits)

lemma less_Nil [simp]: "\<not> elements_less xs []" "\<not> members_less m []"
  by (cases xs; simp) (cases m; simp)

lemma json_less_asym:
  "json_less l r \<Longrightarrow> \<not> json_less r l"
  "elements_less xs ys \<Longrightarrow> \<not> elements_less ys xs"
  "members_less m n \<Longrightarrow> \<not> members_less n m"
  by (induction l r and xs ys and m n rule: json_less_elements_less_members_less.induct)
    (auto split: json.splits list.splits if_splits simp: dbl_less_def other_less_def dest: type_less_asym)

lemma json_eq_not_less:
  "json_eq l r \<Longrightarrow> \<not> json_less l r"
  "elements_eq xs ys \<Longrightarrow> \<not> elements_less xs ys"
  "members_eq m n \<Longrightarrow> \<not> members_less m n"
  by (induction l r and xs ys and m n rule: json_eq_elements_eq_members_eq.induct)
    (auto split: json.splits list.splits simp: dbl_eq_def dbl_less_def)

text \<open>Without NaN, discarded and binary values it is total: two values are equal or one is less.\<close>

fun ordered :: "json \<Rightarrow> bool" where
  "ordered (JArray xs) \<longleftrightarrow> (\<forall>x \<in> set xs. ordered x)"
| "ordered (JObject m) \<longleftrightarrow> (\<forall>p \<in> set m. ordered (snd p))"
| "ordered (JNumber_float x) \<longleftrightarrow> \<not> dbl_isnan x"
| "ordered JDiscarded \<longleftrightarrow> False"
| "ordered (JBinary _ _) \<longleftrightarrow> False"
| "ordered _ \<longleftrightarrow> True"

lemma sint_neq_iff: "sint a < sint b \<or> a = b \<or> sint b < sint (a :: u64)"
  by (metis linorder_neqE signed_word_eqI)

lemma dbl_of_ratio_le: "dbl_of_ratio p q \<le> 2047 * 2 ^ 52"
  unfolding dbl_of_ratio_def Let_def if_distrib [of "\<lambda>n. n \<le> 2047 * 2 ^ 52"]
  by (simp only: min.cobounded2 le0 simp_thms split: if_split)

lemma not_nan_le:
  assumes "unat x mod 2 ^ 63 \<le> 2047 * 2 ^ 52"
  shows "\<not> dbl_isnan x"
proof -
  have "unat x mod (2 ^ 52 * 2 ^ 11) = 2 ^ 52 * (unat x div 2 ^ 52 mod 2 ^ 11) + unat x mod 2 ^ 52"
    by (rule mod_mult2_eq)
  then show ?thesis using assms unfolding dbl_isnan_def dbl_exponent_def dbl_fraction_def by auto
qed

lemma of_integer_not_nan [simp]: "\<not> dbl_isnan (dbl_of_unsigned n)" "\<not> dbl_isnan (dbl_of_signed n)"
proof -
  have small: "unat (word_of_nat (s * 2 ^ 63 + dbl_of_ratio p q) :: u64) mod 2 ^ 63 \<le> 2047 * 2 ^ 52" if "s < 2" for s p q
  proof -
    have "s * 2 ^ 63 + dbl_of_ratio p q < 2 ^ 64" using that dbl_of_ratio_le [of p q] by (auto simp: less_2_cases_iff)
    moreover have "unat (word_of_nat k :: u64) = k" if "k < 2 ^ 64" for k
      using that by (simp add: unat_of_nat)
    ultimately have "unat (word_of_nat (s * 2 ^ 63 + dbl_of_ratio p q) :: u64) = s * 2 ^ 63 + dbl_of_ratio p q"
      by blast
    then show ?thesis using dbl_of_ratio_le [of p q] by simp
  qed
  show "\<not> dbl_isnan (dbl_of_unsigned n)" "\<not> dbl_isnan (dbl_of_signed n)"
    using small [of 0 "unat n" 1] small [of "if sint n < 0 then 1 else 0" "nat \<bar>sint n\<bar>" 1]
    by (auto intro!: not_nan_le simp: dbl_of_unsigned_def dbl_of_signed_def)
qed

lemma dbl_eqI: "\<not> dbl_isnan x \<Longrightarrow> \<not> dbl_isnan y \<Longrightarrow> \<not> dbl_less x y \<Longrightarrow> \<not> dbl_less y x \<Longrightarrow> dbl_eq x y"
  by (auto simp: dbl_less_def dbl_eq_def)

lemma json_less_total:
  "ordered l \<Longrightarrow> ordered r \<Longrightarrow> json_less l r \<or> json_eq l r \<or> json_less r l"
  "(\<forall>x \<in> set xs. ordered x) \<Longrightarrow> (\<forall>y \<in> set ys. ordered y) \<Longrightarrow>
     elements_less xs ys \<or> elements_eq xs ys \<or> elements_less ys xs"
  "(\<forall>p \<in> set m. ordered (snd p)) \<Longrightarrow> (\<forall>q \<in> set n. ordered (snd q)) \<Longrightarrow>
     members_less m n \<or> members_eq m n \<or> members_less n m"
proof (induction l r and xs ys and m n rule: json_less_elements_less_members_less.induct)
  case (12 x xs ys)
  then show ?case by (cases ys) (auto simp: json_eq_commute)
next
  case (14 p m n)
  show ?case
  proof (cases n)
    case (Cons q n')
    then show ?thesis using 14 by (cases "fst p" "fst q" rule: linorder_cases) (auto simp: json_eq_commute)
  qed simp
qed (use sint_neq_iff in
    \<open>auto split: json.splits list.splits intro!: dbl_eqI
      simp: other_less_def compares_unordered_def type_less_def type_order_def\<close>)

end
