(* ===== verification/BinaryFormat.thy ===== *)
theory BinaryFormat
  imports JsonPointer Lexer
begin

unbundle bit_operations_syntax

text \<open>
  What the binary formats of \<open>common/json.hpp\<close> share: on the side of \<open>binary_writer\<close> numbers in
  network order and the choice between float and double, on the side of \<open>binary_reader\<close> its state
  (the input not yet read, the current character, the number of characters read) and its utility
  functions. The machine is little-endian. A reading function \<open>f\<close> that stands in a conjunction
  \<open>f(x) && g(x)\<close> takes \<open>g\<close> as a continuation, which gets what \<open>f\<close> has put into its reference
  argument; what it returns is whether to go on, the reader, and the state of the SAX handler.
\<close>

section \<open>Writing numbers\<close>

text \<open>The bytes of an object in memory, and the number in \<open>k\<close> bytes.\<close>

fun le_bytes :: "nat \<Rightarrow> nat \<Rightarrow> string" where
  "le_bytes 0 n = []"
| "le_bytes (Suc k) n = char_of (n mod 256) # le_bytes k (n div 256)"

fun le_value :: "string \<Rightarrow> nat" where
  "le_value [] = 0"
| "le_value (c # cs) = of_char c + 256 * le_value cs"

text \<open>\<open>write_number\<close> of a number cast to \<open>k\<close> bytes.\<close>

definition write_number :: "nat \<Rightarrow> u64 \<Rightarrow> string" where
  "write_number k n = rev (le_bytes k (unat n))"

section \<open>Floats\<close>

text \<open>A float is its 32 bits. \<open>static_cast<float>\<close> rounds to nearest, ties to even; a NaN stays a
  NaN and gets quiet.\<close>

definition flt_of_ratio :: "nat \<Rightarrow> nat \<Rightarrow> nat" where
  "flt_of_ratio p q =
     (if p = 0 then 0 else
      let e0 = int (ilog2 p) - int (ilog2 q);
          e1 = (if q * 2 ^ nat e0 \<le> p * 2 ^ nat (- e0) then e0 else e0 - 1);
          e = max e1 (- 126);
          num = p * 2 ^ nat (23 - e);
          den = q * 2 ^ nat (e - 23);
          m = num div den; r = num mod den;
          m' = (if den < 2 * r \<or> (den = 2 * r \<and> odd m) then m + 1 else m)
      in min (nat (e + 126) * 2 ^ 23 + m') (255 * 2 ^ 23))"

definition flt_magnitude :: "dbl \<Rightarrow> nat" where
  "flt_magnitude x =
     (let e = (if dbl_exponent x = 0 then 1 else dbl_exponent x);
          m = (if dbl_exponent x = 0 then dbl_fraction x else 2 ^ 52 + dbl_fraction x)
      in if dbl_isfinite x then flt_of_ratio (m * 2 ^ (e - 1075)) (2 ^ (1075 - e))
         else if dbl_isnan x then 255 * 2 ^ 23 + 2 ^ 22 + dbl_fraction x div 2 ^ 29 mod 2 ^ 22
         else 255 * 2 ^ 23)"

definition flt_of_dbl :: "dbl \<Rightarrow> u32" where
  "flt_of_dbl x = word_of_nat ((if dbl_sign x then 2 ^ 31 else 0) + flt_magnitude x)"

definition dbl_magnitude :: "u32 \<Rightarrow> nat" where
  "dbl_magnitude f =
     (let exponent = unat f div 2 ^ 23 mod 256; fraction = unat f mod 2 ^ 23;
          e = (if exponent = 0 then 1 else exponent);
          m = (if exponent = 0 then fraction else 2 ^ 23 + fraction)
      in if exponent < 255 then dbl_of_ratio (m * 2 ^ (e - 150)) (2 ^ (150 - e))
         else if fraction \<noteq> 0 then 2047 * 2 ^ 52 + 2 ^ 51 + fraction mod 2 ^ 22 * 2 ^ 29
         else 2047 * 2 ^ 52)"

definition dbl_of_flt :: "u32 \<Rightarrow> dbl" where
  "dbl_of_flt f = word_of_nat (unat f div 2 ^ 31 * 2 ^ 63 + dbl_magnitude f)"

text \<open>\<open>numeric_limits<float>::max()\<close> and \<open>lowest()\<close> as doubles.\<close>

definition flt_max :: dbl where
  "flt_max = 0x47EFFFFFE0000000"

definition flt_lowest :: dbl where
  "flt_lowest = 0xC7EFFFFFE0000000"

definition dbl_less_eq :: "dbl \<Rightarrow> dbl \<Rightarrow> bool" where
  "dbl_less_eq x y \<longleftrightarrow> dbl_less x y \<or> dbl_eq x y"

definition fits_float :: "dbl \<Rightarrow> bool" where
  "fits_float n \<longleftrightarrow> \<not> dbl_isfinite n
     \<or> (dbl_less_eq flt_lowest n \<and> dbl_less_eq n flt_max \<and> dbl_eq (dbl_of_flt (flt_of_dbl n)) n)"

definition write_compact_float :: "char \<Rightarrow> char \<Rightarrow> dbl \<Rightarrow> string" where
  "write_compact_float float_prefix double_prefix n =
     (if fits_float n then float_prefix # write_number 4 (ucast (flt_of_dbl n))
      else double_prefix # write_number 8 n)"

section \<open>The reader\<close>

datatype input_format =
  Format_json | Format_cbor | Format_msgpack | Format_ubjson | Format_bson | Format_bjdata

record binary_reader =
  br_ia :: string
  br_current :: int
  br_chars_read :: nat

definition br_init :: "string \<Rightarrow> binary_reader" where
  "br_init adapter = \<lparr>br_ia = adapter, br_current = eof, br_chars_read = 0\<rparr>"

type_synonym 's reading = "(bool \<times> binary_reader \<times> 's) res"

text \<open>\<open>&&\<close>, and a call of the handler.\<close>

definition br_and :: "'s reading \<Rightarrow> (binary_reader \<Rightarrow> 's \<Rightarrow> 's reading) \<Rightarrow> 's reading" where
  "br_and m f = rbind m (\<lambda>(b, r, d). if b then f r d else Inr (False, r, d))"

definition br_sax :: "('s \<Rightarrow> (bool \<times> 's) res) \<Rightarrow> binary_reader \<Rightarrow> 's \<Rightarrow> 's reading" where
  "br_sax ev r d = rbind (ev d) (\<lambda>(b, d). Inr (b, r, d))"

definition br_get :: "binary_reader \<Rightarrow> binary_reader" where
  "br_get r = (case get_character (br_ia r) of
     (c, ia) \<Rightarrow> r\<lparr>br_ia := ia, br_current := c, br_chars_read := br_chars_read r + 1\<rparr>)"

lemma br_get_length: "length (br_ia (br_get r)) \<le> length (br_ia r)"
  "br_current (br_get r) \<noteq> eof \<Longrightarrow> length (br_ia (br_get r)) < length (br_ia r)"
  by (auto simp: br_get_def get_character_def split: list.splits)

text \<open>\<open>get\<close>, but skipping the bytes \<open>N\<close>.\<close>

function get_ignore_noop :: "binary_reader \<Rightarrow> binary_reader" where
  "get_ignore_noop r = (let r = br_get r in if br_current r = byte (CHR ''N'') then get_ignore_noop r else r)"
  by pat_completeness auto
termination
  by (relation "measure (\<lambda>r. length (br_ia r))") (auto intro!: br_get_length(2))

declare get_ignore_noop.simps [simp del]

definition format_name :: "input_format \<Rightarrow> string res" where
  "format_name format = (case format of
     Format_cbor \<Rightarrow> Inr ''CBOR'' | Format_msgpack \<Rightarrow> Inr ''MessagePack'' | Format_ubjson \<Rightarrow> Inr ''UBJSON''
   | Format_bson \<Rightarrow> Inr ''BSON'' | Format_bjdata \<Rightarrow> Inr ''BJData''
   | Format_json \<Rightarrow> Inl (Undefined_behaviour ''assertion failed in exception_message''))"

definition binary_exception_message :: "input_format \<Rightarrow> string \<Rightarrow> string \<Rightarrow> string res" where
  "binary_exception_message format detail context =
     rbind (format_name format) (\<lambda>name.
       Inr (''syntax error while parsing '' @ name @ '' '' @ context @ '': '' @ detail))"

text \<open>A call of \<open>sax->parse_error\<close> with an exception of the reader.\<close>

definition br_error ::
  "input_format \<Rightarrow> nat \<Rightarrow> string \<Rightarrow> string \<Rightarrow> string \<Rightarrow> 's json_sax \<Rightarrow> binary_reader \<Rightarrow> 's \<Rightarrow> 's reading" where
  "br_error format i token detail context h r d =
     rbind (binary_exception_message format detail context) (\<lambda>m.
       br_sax (sax_parse_error h (br_chars_read r) token (parse_error_at i (br_chars_read r) m)) r d)"

text \<open>\<open>%.2hhX\<close> of the current character\<close>

definition binary_token_string :: "binary_reader \<Rightarrow> string" where
  "binary_token_string r =
     (let n = nat (br_current r mod 256) in [hex_digit_upper (n div 16), hex_digit_upper (n mod 16)])"

definition unexpect_eof :: "input_format \<Rightarrow> string \<Rightarrow> 's json_sax \<Rightarrow> binary_reader \<Rightarrow> 's \<Rightarrow> 's reading" where
  "unexpect_eof format context h r d =
     (if br_current r = eof
      then br_error format 110 ''<end of file>'' ''unexpected end of input'' context h r d
      else Inr (True, r, d))"

text \<open>\<open>get_to\<close> reads \<open>k\<close> bytes into an object.\<close>

definition get_to ::
  "nat \<Rightarrow> input_format \<Rightarrow> string \<Rightarrow> 's json_sax \<Rightarrow> (string \<Rightarrow> binary_reader \<Rightarrow> 's \<Rightarrow> 's reading)
     \<Rightarrow> binary_reader \<Rightarrow> 's \<Rightarrow> 's reading" where
  "get_to k format context h f r d =
     (let dest = take k (br_ia r); new_chars_read = length dest;
          r = r\<lparr>br_ia := drop k (br_ia r), br_chars_read := br_chars_read r + new_chars_read\<rparr>
      in if new_chars_read < k
         then (let r = r\<lparr>br_chars_read := br_chars_read r + 1\<rparr>
               in rbind (br_error format 110 ''<end of file>'' ''unexpected end of input'' context h r d)
                    (\<lambda>(_, r, d). Inr (False, r, d)))
         else f dest r d)"

text \<open>\<open>get_number\<close> of a type of \<open>k\<close> bytes, as an unsigned value; BJData alone is little-endian. The
  value of the signed type is \<open>as_signed\<close> of it.\<close>

definition get_number ::
  "nat \<Rightarrow> input_format \<Rightarrow> 's json_sax \<Rightarrow> (u64 \<Rightarrow> binary_reader \<Rightarrow> 's \<Rightarrow> 's reading)
     \<Rightarrow> binary_reader \<Rightarrow> 's \<Rightarrow> 's reading" where
  "get_number k format h f = get_to k format ''number'' h
     (\<lambda>bytes. f (word_of_nat (le_value (if format \<noteq> Format_bjdata then rev bytes else bytes))))"

definition as_signed :: "nat \<Rightarrow> u64 \<Rightarrow> u64" where
  "as_signed k n = signed_take_bit (8 * k - 1) n"

text \<open>The loops of \<open>get_string\<close> and \<open>get_binary\<close>, which differ in the context they report.\<close>

fun get_chars ::
  "nat \<Rightarrow> input_format \<Rightarrow> string \<Rightarrow> 's json_sax \<Rightarrow> (string \<Rightarrow> binary_reader \<Rightarrow> 's \<Rightarrow> 's reading)
     \<Rightarrow> string \<Rightarrow> binary_reader \<Rightarrow> 's \<Rightarrow> 's reading" where
  "get_chars 0 format context h f result r d = f result r d"
| "get_chars (Suc n) format context h f result r d =
     br_and (unexpect_eof format context h (br_get r) d)
       (\<lambda>r. get_chars n format context h f (result @ [chr (br_current r)]) r)"

definition binary_get_string ::
  "input_format \<Rightarrow> u64 \<Rightarrow> 's json_sax \<Rightarrow> (string \<Rightarrow> binary_reader \<Rightarrow> 's \<Rightarrow> 's reading)
     \<Rightarrow> binary_reader \<Rightarrow> 's \<Rightarrow> 's reading" where
  "binary_get_string format len h f = get_chars (unat len) format ''string'' h f []"

definition binary_get_binary ::
  "input_format \<Rightarrow> u64 \<Rightarrow> 's json_sax \<Rightarrow> (string \<Rightarrow> binary_reader \<Rightarrow> 's \<Rightarrow> 's reading)
     \<Rightarrow> binary_reader \<Rightarrow> 's \<Rightarrow> 's reading" where
  "binary_get_binary format len h f = get_chars (unat len) format ''binary'' h f []"

text \<open>The elements of an array and the members of an object, with \<open>p\<close> for one value and \<open>pk\<close> for
  a key.\<close>

fun read_elements ::
  "nat \<Rightarrow> (binary_reader \<Rightarrow> 's \<Rightarrow> 's reading) \<Rightarrow> binary_reader \<Rightarrow> 's \<Rightarrow> 's reading" where
  "read_elements 0 p r d = Inr (True, r, d)"
| "read_elements (Suc n) p r d = br_and (p r d) (read_elements n p)"

fun read_members ::
  "nat \<Rightarrow> ((string \<Rightarrow> binary_reader \<Rightarrow> 's \<Rightarrow> 's reading) \<Rightarrow> binary_reader \<Rightarrow> 's \<Rightarrow> 's reading)
     \<Rightarrow> (binary_reader \<Rightarrow> 's \<Rightarrow> 's reading) \<Rightarrow> 's json_sax \<Rightarrow> binary_reader \<Rightarrow> 's \<Rightarrow> 's reading" where
  "read_members 0 pk p h r d = Inr (True, r, d)"
| "read_members (Suc n) pk p h r d =
     br_and (br_and (pk (\<lambda>key. br_sax (sax_key h key)) (br_get r) d) p) (read_members n pk p h)"

text \<open>The check for the end of the input.\<close>

definition strict_binary_end :: "input_format \<Rightarrow> bool \<Rightarrow> 's json_sax \<Rightarrow> binary_reader \<Rightarrow> 's \<Rightarrow> 's reading" where
  "strict_binary_end format strict h r d =
     (if \<not> strict then Inr (True, r, d)
      else let r = (if format = Format_ubjson \<or> format = Format_bjdata then get_ignore_noop r else br_get r)
        in if br_current r \<noteq> eof
           then br_error format 110 (binary_token_string r)
             (''expected end of input; last byte: 0x'' @ binary_token_string r) ''value'' h r d
           else Inr (True, r, d))"

end
