(* ===== verification/Cbor.thy ===== *)
theory Cbor
  imports BinaryFormat
begin

unbundle bit_operations_syntax

text \<open>
  CBOR in \<open>common/json.hpp\<close>: \<open>binary_writer::write_cbor\<close> and the functions of \<open>binary_reader\<close>
  that read the format, with the three ways to treat tags, indefinite lengths and half-precision
  floats, and \<open>to_cbor\<close> and \<open>from_cbor\<close> on bytes. The recursions and the loops that wait for a break
  byte have fuel: with a handler that goes on after errors the loops of the code do not end.
\<close>

section \<open>Writing\<close>

text \<open>The head of an item: the same five branches for every major type, whose first byte is \<open>base\<close>.\<close>

definition write_cbor_head :: "nat \<Rightarrow> u64 \<Rightarrow> string" where
  "write_cbor_head base N =
     (if N \<le> 0x17 then write_number 1 (word_of_nat base + N)
      else if N \<le> 0xFF then char_of (base + 0x18) # write_number 1 N
      else if N \<le> 0xFFFF then char_of (base + 0x19) # write_number 2 N
      else if N \<le> 0xFFFFFFFF then char_of (base + 0x1A) # write_number 4 N
      else char_of (base + 0x1B) # write_number 8 N)"

definition write_cbor_integer :: "u64 \<Rightarrow> string" where
  "write_cbor_integer n = (if 0 \<le> sint n then write_cbor_head 0x00 n else write_cbor_head 0x20 (- 1 - n))"

definition write_cbor_float :: "dbl \<Rightarrow> string" where
  "write_cbor_float x =
     (if dbl_isnan x then [chr 0xF9, chr 0x7E, chr 0x00]
      else if \<not> dbl_isfinite x then [chr 0xF9, if dbl_less 0 x then chr 0x7C else chr 0xFC, chr 0x00]
      else write_compact_float (chr 0xFA) (chr 0xFB) x)"

definition write_cbor_string :: "string \<Rightarrow> string" where
  "write_cbor_string s = write_cbor_head 0x60 (word_of_nat (length s)) @ s"

definition write_cbor_subtype :: "u64 option \<Rightarrow> string" where
  "write_cbor_subtype subtype = (case subtype of
     None \<Rightarrow> []
   | Some k \<Rightarrow>
       if k \<le> 0xFF then write_number 1 0xD8 @ write_number 1 k
       else if k \<le> 0xFFFF then write_number 1 0xD9 @ write_number 2 k
       else if k \<le> 0xFFFFFFFF then write_number 1 0xDA @ write_number 4 k
       else write_number 1 0xDB @ write_number 8 k)"

definition write_cbor_binary :: "string \<Rightarrow> u64 option \<Rightarrow> string" where
  "write_cbor_binary bs subtype =
     write_cbor_subtype subtype @ write_cbor_head 0x40 (word_of_nat (length bs)) @ bs"

fun write_cbor :: "json \<Rightarrow> string" where
  "write_cbor JNull = [chr 0xF6]"
| "write_cbor (JBoolean b) = [if b then chr 0xF5 else chr 0xF4]"
| "write_cbor (JNumber_integer n) = write_cbor_integer n"
| "write_cbor (JNumber_unsigned n) = write_cbor_head 0x00 n"
| "write_cbor (JNumber_float x) = write_cbor_float x"
| "write_cbor (JString s) = write_cbor_string s"
| "write_cbor (JArray xs) = write_cbor_head 0x80 (word_of_nat (length xs)) @ concat (map write_cbor xs)"
| "write_cbor (JBinary bs subtype) = write_cbor_binary bs subtype"
| "write_cbor (JObject m) = write_cbor_head 0xA0 (word_of_nat (length m))
     @ concat (map (\<lambda>p. write_cbor_string (fst p) @ write_cbor (snd p)) m)"
| "write_cbor JDiscarded = []"

definition to_cbor :: "json \<Rightarrow> string" where
  "to_cbor = write_cbor"

section \<open>Reading strings and binaries\<close>

text \<open>\<open>get_cbor_string\<close> and \<open>get_cbor_binary\<close> differ in the first byte and in what they report.\<close>

datatype cbor_chars = Cbor_string | Cbor_binary

fun cbor_base :: "cbor_chars \<Rightarrow> int" where
  "cbor_base Cbor_string = 0x60"
| "cbor_base Cbor_binary = 0x40"

fun cbor_context :: "cbor_chars \<Rightarrow> string" where
  "cbor_context Cbor_string = ''string''"
| "cbor_context Cbor_binary = ''binary''"

fun cbor_expected :: "cbor_chars \<Rightarrow> string" where
  "cbor_expected Cbor_string =
     ''expected length specification (0x60-0x7B) or indefinite string type (0x7F); last byte: 0x''"
| "cbor_expected Cbor_binary =
     ''expected length specification (0x40-0x5B) or indefinite binary array type (0x5F); last byte: 0x''"

definition cbor_chars_switch ::
  "'s reading \<Rightarrow> cbor_chars \<Rightarrow> 's json_sax \<Rightarrow> (string \<Rightarrow> binary_reader \<Rightarrow> 's \<Rightarrow> 's reading)
     \<Rightarrow> binary_reader \<Rightarrow> 's \<Rightarrow> 's reading" where
  "cbor_chars_switch chunks kind h f r d =
     (let current = br_current r; base = cbor_base kind;
          sized_chars = (\<lambda>len. get_chars (unat (len :: u64)) Format_cbor (cbor_context kind) h f [])
      in if base \<le> current \<and> current \<le> base + 0x17 then sized_chars (word_of_int (current AND 0x1F)) r d
         else if current = base + 0x18 then get_number 1 Format_cbor h sized_chars r d
         else if current = base + 0x19 then get_number 2 Format_cbor h sized_chars r d
         else if current = base + 0x1A then get_number 4 Format_cbor h sized_chars r d
         else if current = base + 0x1B then get_number 8 Format_cbor h sized_chars r d
         else if current = base + 0x1F then chunks
         else br_and (br_error Format_cbor 113 (binary_token_string r)
             (cbor_expected kind @ binary_token_string r) (cbor_context kind) h r d) (f []))"

definition out_of_fuel :: "'s reading" where
  "out_of_fuel = Inl (Undefined_behaviour ''out of fuel'')"

fun get_cbor_chars ::
  "nat \<Rightarrow> cbor_chars \<Rightarrow> 's json_sax \<Rightarrow> (string \<Rightarrow> binary_reader \<Rightarrow> 's \<Rightarrow> 's reading)
     \<Rightarrow> binary_reader \<Rightarrow> 's \<Rightarrow> 's reading"
  and get_cbor_chunks ::
  "nat \<Rightarrow> cbor_chars \<Rightarrow> 's json_sax \<Rightarrow> (string \<Rightarrow> binary_reader \<Rightarrow> 's \<Rightarrow> 's reading)
     \<Rightarrow> string \<Rightarrow> binary_reader \<Rightarrow> 's \<Rightarrow> 's reading"
where
  "get_cbor_chars 0 kind h f r d = out_of_fuel"
| "get_cbor_chars (Suc n) kind h f r d =
     br_and (unexpect_eof Format_cbor (cbor_context kind) h r d)
       (\<lambda>r d. cbor_chars_switch (get_cbor_chunks n kind h f [] r d) kind h f r d)"
| "get_cbor_chunks 0 kind h f result r d = out_of_fuel"
| "get_cbor_chunks (Suc n) kind h f result r d =
     (let r = br_get r
      in if br_current r = 0xFF then f result r d
         else get_cbor_chars n kind h (\<lambda>chunk. get_cbor_chunks n kind h f (result @ chunk)) r d)"

definition cbor_fuel :: "binary_reader \<Rightarrow> nat" where
  "cbor_fuel r = 2 * length (br_ia r) + 3"

definition get_cbor_string ::
  "'s json_sax \<Rightarrow> (string \<Rightarrow> binary_reader \<Rightarrow> 's \<Rightarrow> 's reading) \<Rightarrow> binary_reader \<Rightarrow> 's \<Rightarrow> 's reading" where
  "get_cbor_string h f r = get_cbor_chars (cbor_fuel r) Cbor_string h f r"

definition get_cbor_binary ::
  "'s json_sax \<Rightarrow> (string \<Rightarrow> binary_reader \<Rightarrow> 's \<Rightarrow> 's reading) \<Rightarrow> binary_reader \<Rightarrow> 's \<Rightarrow> 's reading" where
  "get_cbor_binary h f r = get_cbor_chars (cbor_fuel r) Cbor_binary h f r"

section \<open>Reading containers\<close>

text \<open>Containers of indefinite length end with the byte \<open>0xFF\<close>; here \<open>p\<close> reads a value whose first
  byte has been read.\<close>

fun elements_until_break ::
  "nat \<Rightarrow> (binary_reader \<Rightarrow> 's \<Rightarrow> 's reading) \<Rightarrow> binary_reader \<Rightarrow> 's \<Rightarrow> 's reading" where
  "elements_until_break 0 p r d = out_of_fuel"
| "elements_until_break (Suc n) p r d =
     (let r = br_get r
      in if br_current r = 0xFF then Inr (True, r, d) else br_and (p r d) (elements_until_break n p))"

fun members_until_break ::
  "nat \<Rightarrow> (binary_reader \<Rightarrow> 's \<Rightarrow> 's reading) \<Rightarrow> 's json_sax \<Rightarrow> binary_reader \<Rightarrow> 's \<Rightarrow> 's reading" where
  "members_until_break 0 p h r d = out_of_fuel"
| "members_until_break (Suc n) p h r d =
     (let r = br_get r
      in if br_current r = 0xFF then Inr (True, r, d)
         else br_and (br_and (get_cbor_string h (\<lambda>key. br_sax (sax_key h key)) r d) p)
           (members_until_break n p h))"

text \<open>\<open>parse get_char\<close> is \<open>parse_cbor_internal\<close>, which reads the first byte only if \<open>get_char\<close>.\<close>

definition get_cbor_array ::
  "(bool \<Rightarrow> binary_reader \<Rightarrow> 's \<Rightarrow> 's reading) \<Rightarrow> 's json_sax \<Rightarrow> u64 \<Rightarrow> binary_reader \<Rightarrow> 's \<Rightarrow> 's reading" where
  "get_cbor_array parse h len r d =
     br_and (br_sax (sax_start_array h len) r d) (\<lambda>r d.
     br_and (if len \<noteq> unknown_size then read_elements (unat len) (parse True) r d
             else elements_until_break (cbor_fuel r) (parse False) r d) (br_sax (sax_end_array h)))"

definition get_cbor_object ::
  "(bool \<Rightarrow> binary_reader \<Rightarrow> 's \<Rightarrow> 's reading) \<Rightarrow> 's json_sax \<Rightarrow> u64 \<Rightarrow> binary_reader \<Rightarrow> 's \<Rightarrow> 's reading" where
  "get_cbor_object parse h len r d =
     br_and (br_sax (sax_start_object h len) r d) (\<lambda>r d.
     br_and (if len = 0 then Inr (True, r, d)
             else if len \<noteq> unknown_size then read_members (unat len) (get_cbor_string h) (parse True) h r d
             else members_until_break (cbor_fuel r) (parse True) h r d) (br_sax (sax_end_object h)))"

section \<open>Tags\<close>

datatype cbor_tag_handler = Tag_error | Tag_ignore | Tag_store

text \<open>A number whose failure is not looked at: what has been read of it stays in the variable.\<close>

definition get_number_unchecked ::
  "nat \<Rightarrow> input_format \<Rightarrow> 's json_sax \<Rightarrow> (u64 \<Rightarrow> binary_reader \<Rightarrow> 's \<Rightarrow> 's reading)
     \<Rightarrow> binary_reader \<Rightarrow> 's \<Rightarrow> 's reading" where
  "get_number_unchecked k format h f r d =
     (if length (br_ia r) < k
      then rbind (get_number k format h (\<lambda>_ r d. Inr (True, r, d)) r d)
             (\<lambda>(_, r, d). f (word_of_nat (le_value (take k (br_ia r)))) r d)
      else get_number k format h f r d)"

text \<open>The number of bytes of the tag.\<close>

definition tag_bytes :: "int \<Rightarrow> nat option" where
  "tag_bytes current =
     (if current = 0xD8 then Some 1 else if current = 0xD9 then Some 2
      else if current = 0xDA then Some 4 else if current = 0xDB then Some 8 else None)"

definition cbor_tag ::
  "(bool \<Rightarrow> binary_reader \<Rightarrow> 's \<Rightarrow> 's reading) \<Rightarrow> 's json_sax \<Rightarrow> cbor_tag_handler
     \<Rightarrow> binary_reader \<Rightarrow> 's \<Rightarrow> 's reading" where
  "cbor_tag parse h tag_handler r d = (case tag_handler of
     Tag_error \<Rightarrow>
       br_error Format_cbor 112 (binary_token_string r) (''invalid byte: 0x'' @ binary_token_string r) ''value'' h r d
   | Tag_ignore \<Rightarrow>
       (case tag_bytes (br_current r) of
          Some k \<Rightarrow> get_number_unchecked k Format_cbor h (\<lambda>_. parse True) r d
        | None \<Rightarrow> parse True r d)
   | Tag_store \<Rightarrow>
       (case tag_bytes (br_current r) of
          Some k \<Rightarrow> get_number_unchecked k Format_cbor h (\<lambda>subtype r.
            get_cbor_binary h (\<lambda>b. br_sax (sax_binary h b (Some subtype))) (br_get r)) r d
        | None \<Rightarrow> parse True r d))"

section \<open>Half-precision floats\<close>

definition dbl_of_half :: "nat \<Rightarrow> dbl" where
  "dbl_of_half half =
     (let exp = half div 2 ^ 10 mod 32; mant = half mod 2 ^ 10;
          val = (if exp = 0 then dbl_of_ratio mant (2 ^ 24)
                 else if exp = 31 then (if mant = 0 then 2047 * 2 ^ 52 else 2047 * 2 ^ 52 + 2 ^ 51)
                 else dbl_of_ratio ((mant + 1024) * 2 ^ exp) (2 ^ 25))
      in word_of_nat ((if half div 2 ^ 15 mod 2 \<noteq> 0 then 2 ^ 63 else 0) + val))"

definition get_cbor_half :: "'s json_sax \<Rightarrow> binary_reader \<Rightarrow> 's \<Rightarrow> 's reading" where
  "get_cbor_half h r d =
     br_and (unexpect_eof Format_cbor ''number'' h (br_get r) d) (\<lambda>r d.
       let byte1 = nat (br_current r mod 256)
       in br_and (unexpect_eof Format_cbor ''number'' h (br_get r) d) (\<lambda>r d.
         let byte2 = nat (br_current r mod 256)
         in br_sax (sax_number_float h (dbl_of_half (byte1 * 256 + byte2)) []) r d))"

section \<open>Reading values\<close>

text \<open>The switch of \<open>parse_cbor_internal\<close>, in three parts: numbers, strings with containers, the rest.\<close>

definition cbor_integers ::
  "'s json_sax \<Rightarrow> (binary_reader \<Rightarrow> 's \<Rightarrow> 's reading) \<Rightarrow> binary_reader \<Rightarrow> 's \<Rightarrow> 's reading" where
  "cbor_integers h other_bytes r d =
     (let current = br_current r;
          unsigned = (\<lambda>n. br_sax (sax_number_unsigned h n));
          negative = (\<lambda>n. br_sax (sax_number_integer h (- 1 - n)))
      in if 0x00 \<le> current \<and> current \<le> 0x17 then unsigned (word_of_int current) r d
         else if current = 0x18 then get_number 1 Format_cbor h unsigned r d
         else if current = 0x19 then get_number 2 Format_cbor h unsigned r d
         else if current = 0x1A then get_number 4 Format_cbor h unsigned r d
         else if current = 0x1B then get_number 8 Format_cbor h unsigned r d
         else if 0x20 \<le> current \<and> current \<le> 0x37 then br_sax (sax_number_integer h (word_of_int (0x20 - 1 - current))) r d
         else if current = 0x38 then get_number 1 Format_cbor h negative r d
         else if current = 0x39 then get_number 2 Format_cbor h negative r d
         else if current = 0x3A then get_number 4 Format_cbor h negative r d
         else if current = 0x3B then get_number 8 Format_cbor h negative r d
         else other_bytes r d)"

definition cbor_containers ::
  "(bool \<Rightarrow> binary_reader \<Rightarrow> 's \<Rightarrow> 's reading) \<Rightarrow> 's json_sax
     \<Rightarrow> (binary_reader \<Rightarrow> 's \<Rightarrow> 's reading) \<Rightarrow> binary_reader \<Rightarrow> 's \<Rightarrow> 's reading" where
  "cbor_containers parse h other_bytes r d =
     (let current = br_current r
      in if 0x40 \<le> current \<and> current \<le> 0x5B \<or> current = 0x5F
         then get_cbor_binary h (\<lambda>b. br_sax (sax_binary h b None)) r d
         else if 0x60 \<le> current \<and> current \<le> 0x7B \<or> current = 0x7F
         then get_cbor_string h (\<lambda>s. br_sax (sax_string h s)) r d
         else if 0x80 \<le> current \<and> current \<le> 0x97 then get_cbor_array parse h (word_of_int (current AND 0x1F)) r d
         else if current = 0x98 then get_number 1 Format_cbor h (get_cbor_array parse h) r d
         else if current = 0x99 then get_number 2 Format_cbor h (get_cbor_array parse h) r d
         else if current = 0x9A then get_number 4 Format_cbor h (get_cbor_array parse h) r d
         else if current = 0x9B then get_number 8 Format_cbor h (get_cbor_array parse h) r d
         else if current = 0x9F then get_cbor_array parse h unknown_size r d
         else if 0xA0 \<le> current \<and> current \<le> 0xB7 then get_cbor_object parse h (word_of_int (current AND 0x1F)) r d
         else if current = 0xB8 then get_number 1 Format_cbor h (get_cbor_object parse h) r d
         else if current = 0xB9 then get_number 2 Format_cbor h (get_cbor_object parse h) r d
         else if current = 0xBA then get_number 4 Format_cbor h (get_cbor_object parse h) r d
         else if current = 0xBB then get_number 8 Format_cbor h (get_cbor_object parse h) r d
         else if current = 0xBF then get_cbor_object parse h unknown_size r d
         else other_bytes r d)"

definition cbor_rest ::
  "(bool \<Rightarrow> binary_reader \<Rightarrow> 's \<Rightarrow> 's reading) \<Rightarrow> 's json_sax \<Rightarrow> cbor_tag_handler
     \<Rightarrow> binary_reader \<Rightarrow> 's \<Rightarrow> 's reading" where
  "cbor_rest parse h tag_handler r d =
     (let current = br_current r
      in if 0xC6 \<le> current \<and> current \<le> 0xD4 \<or> 0xD8 \<le> current \<and> current \<le> 0xDB
         then cbor_tag parse h tag_handler r d
         else if current = 0xF4 then br_sax (sax_boolean h False) r d
         else if current = 0xF5 then br_sax (sax_boolean h True) r d
         else if current = 0xF6 then br_sax (sax_null h) r d
         else if current = 0xF9 then get_cbor_half h r d
         else if current = 0xFA
         then get_number 4 Format_cbor h (\<lambda>n. br_sax (sax_number_float h (dbl_of_flt (ucast n)) [])) r d
         else if current = 0xFB then get_number 8 Format_cbor h (\<lambda>n. br_sax (sax_number_float h n [])) r d
         else br_error Format_cbor 112 (binary_token_string r)
           (''invalid byte: 0x'' @ binary_token_string r) ''value'' h r d)"

definition cbor_switch ::
  "(bool \<Rightarrow> binary_reader \<Rightarrow> 's \<Rightarrow> 's reading) \<Rightarrow> 's json_sax \<Rightarrow> cbor_tag_handler
     \<Rightarrow> binary_reader \<Rightarrow> 's \<Rightarrow> 's reading" where
  "cbor_switch parse h tag_handler r d =
     (if br_current r = eof then unexpect_eof Format_cbor ''value'' h r d
      else cbor_integers h (cbor_containers parse h (cbor_rest parse h tag_handler)) r d)"

primrec parse_cbor_internal ::
  "nat \<Rightarrow> 's json_sax \<Rightarrow> cbor_tag_handler \<Rightarrow> bool \<Rightarrow> binary_reader \<Rightarrow> 's \<Rightarrow> 's reading" where
  "parse_cbor_internal 0 h tag_handler get_char r d = out_of_fuel"
| "parse_cbor_internal (Suc n) h tag_handler get_char r d =
     cbor_switch (parse_cbor_internal n h tag_handler) h tag_handler (if get_char then br_get r else r) d"

definition cbor_sax_parse :: "cbor_tag_handler \<Rightarrow> bool \<Rightarrow> 's json_sax \<Rightarrow> binary_reader \<Rightarrow> 's \<Rightarrow> 's reading" where
  "cbor_sax_parse tag_handler strict h r d =
     br_and (parse_cbor_internal (cbor_fuel r) h tag_handler True r d) (strict_binary_end Format_cbor strict h)"

definition from_cbor_with :: "nat \<Rightarrow> bool \<Rightarrow> bool \<Rightarrow> cbor_tag_handler \<Rightarrow> string \<Rightarrow> json res" where
  "from_cbor_with max_size strict allow_exceptions tag_handler bytes =
     rbind (cbor_sax_parse tag_handler strict dom_sax (br_init bytes) (dom_init max_size allow_exceptions JNull))
       (\<lambda>(b, _, d). Inr (if b then dom_root d else JDiscarded))"

definition from_cbor :: "nat \<Rightarrow> cbor_tag_handler \<Rightarrow> string \<Rightarrow> json res" where
  "from_cbor max_size = from_cbor_with max_size True True"

end
