(* ===== verification/BinaryReading.thy ===== *)
theory BinaryReading
  imports BinaryFormat Roundtrip
begin

unbundle bit_operations_syntax

text \<open>
  What the binary formats share in their proofs: numbers and floats in bytes, readers that consume
  what is there (for any SAX handler), the builder on the events of a value, and readers with the
  builder on arbitrary input, where what a format accepts is the locale \<open>input_values\<close>.
\<close>

section \<open>Numbers in bytes\<close>

lemma length_le_bytes [simp]: "length (le_bytes k n) = k"
  by (induction k arbitrary: n) simp_all

lemma le_value_bytes: "le_value (le_bytes k n) = n mod 256 ^ k"
  by (induction k arbitrary: n) (simp_all add: mod_mult2_eq of_char_of)

lemma length_write_number [simp]: "length (write_number k n) = k"
  by (simp add: write_number_def)

lemma number_back: "unat n < 256 ^ k \<Longrightarrow> word_of_nat (le_value (rev (write_number k n))) = n"
  by (simp add: write_number_def le_value_bytes)

lemma take_number: "word_of_nat (le_value (rev (write_number k n))) = take_bit (8 * k) n"
proof -
  have "(256 :: nat) ^ k = 2 ^ (8 * k)" by (simp add: power_mult)
  then show ?thesis
    by (simp add: write_number_def le_value_bytes flip: take_bit_eq_mod unsigned_take_bit_eq)
qed

lemma take_small:
  fixes n :: u64
  assumes "unat n < 256 ^ k"
  shows "take_bit (8 * k) n = n"
  using number_back [OF assms] unfolding take_number .

lemma write_number_1: "write_number (Suc 0) n = [char_of (unat n)]"
  by (simp add: write_number_def)

lemma write_number_Nil [simp]: "write_number k n = [] \<longleftrightarrow> k = 0"
  by (metis length_write_number length_0_conv)

text \<open>A signed number of \<open>k\<close> bytes survives the cast and the sign extension.\<close>

lemma signed_back:
  assumes "- (2 ^ (8 * k - 1)) \<le> sint n" "sint n < 2 ^ (8 * k - 1)" "0 < k" "k \<le> 8"
  shows "as_signed k (take_bit (8 * k) n) = n"
proof -
  have "signed_take_bit (8 * k - 1) (sint n) = sint n"
    by (rule signed_take_bit_int_eq_self) (use assms in auto)
  have "as_signed k (take_bit (8 * k) n) = signed_take_bit (8 * k - 1) n"
    unfolding as_signed_def by (rule bit_eqI) (use assms in \<open>auto simp: bit_signed_take_bit_iff bit_take_bit_iff min_def\<close>)
  also have "\<dots> = n"
  proof (rule bit_word_eqI)
    fix i assume "i < LENGTH(64)"
    have "bit (sint n) (min i (8 * k - 1)) = bit (sint n) i"
      using \<open>signed_take_bit (8 * k - 1) (sint n) = sint n\<close> bit_signed_take_bit_iff [of "8 * k - 1" "sint n" i]
      by (simp add: min.commute)
    then show "bit (signed_take_bit (8 * k - 1) n) i = bit n i"
      using \<open>i < LENGTH(64)\<close> assms(3,4) by (auto simp: bit_signed_take_bit_iff bit_sint_iff min_def split: if_splits)
  qed
  finally show ?thesis .
qed

section \<open>Floats\<close>

lemma dbl_sign_iff: "dbl_sign x \<longleftrightarrow> 2 ^ 63 \<le> unat x"
proof (cases "dbl_sign x")
  case True
  then show ?thesis using dbl_sign_split(2) [of x] by simp
next
  case False
  have "dbl_exponent x * 2 ^ 52 + dbl_fraction x < 2 ^ 63"
    using dbl_exponent_less [of x] by (simp add: dbl_fraction_def)
  then show ?thesis using dbl_fields(3) [OF False] False by simp
qed

lemma dbl_parts: "unat x = (if dbl_sign x then 2 ^ 63 else 0) + dbl_exponent x * 2 ^ 52 + dbl_fraction x"
proof -
  have "dbl_exponent x * 2 ^ 52 + dbl_fraction x = unat x mod 2 ^ 63"
    using mod_mult2_eq [of "unat x" "2 ^ 52" "2 ^ 11"]
    by (simp add: dbl_exponent_def dbl_fraction_def mult.commute)
  moreover have "unat x div 2 ^ 63 = (if dbl_sign x then 1 else 0)"
    using unat_u64 [of x] by (auto simp: dbl_sign_iff div_nat_eqI)
  ultimately show ?thesis using div_mult_mod_eq [of "unat x" "2 ^ 63"] by (auto split: if_splits)
qed

lemma ratio_small: "flt_of_ratio p q \<le> 255 * 2 ^ 23" "dbl_of_ratio p q \<le> 2047 * 2 ^ 52"
  unfolding flt_of_ratio_def dbl_of_ratio_def Let_def
  by (cases "p = 0"; simp only: if_True if_False zero_le min.cobounded2)+

text \<open>The conversions keep the sign, so a float that equals the double has the same bits.\<close>

lemma flt_magnitude_less: "flt_magnitude x < 2 ^ 31"
proof -
  have "dbl_fraction x div 2 ^ 29 mod 2 ^ 22 < 2 ^ 22" by simp
  moreover have "flt_of_ratio p q < 2 ^ 31" for p q
    by (rule order_le_less_trans [OF ratio_small(1)]) simp
  ultimately show ?thesis unfolding flt_magnitude_def Let_def by (simp split del: if_split) (simp split: if_split)
qed

lemma dbl_magnitude_less: "dbl_magnitude f < 2 ^ 63"
proof -
  have "unat f mod 2 ^ 23 mod 2 ^ 22 * 2 ^ 29 < 2 ^ 51" by simp
  moreover have "dbl_of_ratio p q < 2 ^ 63" for p q
    by (rule order_le_less_trans [OF ratio_small(2)]) simp
  ultimately show ?thesis unfolding dbl_magnitude_def Let_def by (simp split del: if_split) (simp split: if_split)
qed

lemma unat_flt_of_dbl: "unat (flt_of_dbl x) = (if dbl_sign x then 2 ^ 31 else 0) + flt_magnitude x"
  unfolding flt_of_dbl_def unat_of_nat using flt_magnitude_less [of x]
  by (intro mod_less) (simp split: if_split)

lemma unat_dbl_of_flt: "unat (dbl_of_flt f) = unat f div 2 ^ 31 * 2 ^ 63 + dbl_magnitude f"
proof -
  have "unat f < 2 ^ 32" by (rule order_less_le_trans [OF unsigned_less]) simp
  then have "unat f div 2 ^ 31 \<le> 1" by (simp add: less_Suc_eq_le [symmetric] less_mult_imp_div_less)
  then have "unat f div 2 ^ 31 * 2 ^ 63 + dbl_magnitude f < 2 ^ 64"
    using dbl_magnitude_less [of f] by (cases "unat f div 2 ^ 31") (simp_all del: unat_div)
  then show ?thesis unfolding dbl_of_flt_def unat_of_nat by (intro mod_less) simp
qed

lemma flt_sign: "dbl_sign (dbl_of_flt (flt_of_dbl x)) = dbl_sign x"
proof -
  have "unat (flt_of_dbl x) div 2 ^ 31 = (if dbl_sign x then 1 else 0)"
    using flt_magnitude_less [of x] by (simp add: unat_flt_of_dbl)
  then show ?thesis
    using dbl_magnitude_less [of "flt_of_dbl x"] unat_dbl_of_flt [of "flt_of_dbl x"]
    by (simp add: dbl_sign_iff split: if_splits)
qed

lemma dbl_eq_same:
  assumes "dbl_eq x y" "dbl_sign x = dbl_sign y"
  shows "x = y"
proof -
  have "unat x mod 2 ^ 63 = unat y mod 2 ^ 63"
    using assms by (simp add: dbl_eq_def dbl_rank_def Let_def split: if_splits)
  moreover have "unat z = (if dbl_sign z then 2 ^ 63 else 0) + unat z mod 2 ^ 63" for z :: dbl
    using unat_u64 [of z] by (auto simp: dbl_sign_iff mod_if [of "unat z"] le_mod_geq)
  ultimately have "unat x = unat y" using assms(2) by metis
  then show ?thesis by (simp only: unsigned_word_eqI)
qed

lemma float_back:
  assumes "fits_float x" "\<not> dbl_isnan x"
  shows "dbl_of_flt (flt_of_dbl x) = x"
proof (cases "dbl_isfinite x")
  case True
  then show ?thesis using assms(1) dbl_eq_same flt_sign by (simp add: fits_float_def)
next
  case False
  then have x: "dbl_exponent x = 2047" "dbl_fraction x = 0"
    using assms(2) by (simp_all add: dbl_isfinite_def dbl_isnan_def)
  have f: "unat (flt_of_dbl x) = (if dbl_sign x then 2 ^ 31 else 0) + 255 * 2 ^ 23"
    using False assms(2) by (simp add: unat_flt_of_dbl flt_magnitude_def Let_def)
  have "unat (dbl_of_flt (flt_of_dbl x)) = (if dbl_sign x then 2 ^ 63 else 0) + 2047 * 2 ^ 52"
    unfolding unat_dbl_of_flt dbl_magnitude_def f Let_def by (simp split: if_split)
  also have "\<dots> = unat x" using dbl_parts [of x] x by simp
  finally show ?thesis by (simp only: unsigned_word_eqI)
qed

lemma ucast_back: "ucast (ucast w :: u64) = (w :: u32)"
  by (rule bit_word_eqI) (simp add: bit_unsigned_iff)

section \<open>Reading what is there\<close>

text \<open>The bytes \<open>bs\<close> are read with success, and take the handler from \<open>d\<close> to \<open>d'\<close>; \<open>after_byte\<close>: when
  the byte before them has been read already.\<close>

definition consumes :: "(binary_reader \<Rightarrow> 's \<Rightarrow> 's reading) \<Rightarrow> string \<Rightarrow> 's \<Rightarrow> 's \<Rightarrow> bool" where
  "consumes p bs d d' \<longleftrightarrow> (\<forall>r rest. br_ia r = bs @ rest \<longrightarrow> (\<exists>r'. p r d = Inr (True, r', d') \<and> br_ia r' = rest))"

definition after_byte :: "int \<Rightarrow> (binary_reader \<Rightarrow> 's \<Rightarrow> 's reading) \<Rightarrow> string \<Rightarrow> 's \<Rightarrow> 's \<Rightarrow> bool" where
  "after_byte c p bs d d' \<longleftrightarrow> (\<forall>r rest. br_current r = c \<and> br_ia r = bs @ rest \<longrightarrow>
     (\<exists>r'. p r d = Inr (True, r', d') \<and> br_ia r' = rest))"

lemma br_and_simps [simp]:
  "br_and (Inr (True, r, d)) f = f r d" "br_and (Inr (False, r, d)) f = Inr (False, r, d)" "br_and (Inl e) f = Inl e"
  by (simp_all add: br_and_def)

lemma br_get_Cons [simp]:
  "br_ia r = c # cs \<Longrightarrow> br_get r = r\<lparr>br_ia := cs, br_current := byte c, br_chars_read := br_chars_read r + 1\<rparr>"
  by (simp add: br_get_def get_character_def)

lemma after_byteI: "consumes p bs d d' \<Longrightarrow> after_byte c p bs d d'"
  by (simp add: consumes_def after_byte_def)

lemma consumes_get: "after_byte (byte c) p bs d d' \<Longrightarrow> consumes (\<lambda>r. p (br_get r)) (c # bs) d d'"
  by (simp add: consumes_def after_byte_def)

lemma consumes_done: "consumes (\<lambda>r d. Inr (True, r, d)) [] d d"
  by (simp add: consumes_def)

lemma consumes_sax: "ev d = Inr (True, d') \<Longrightarrow> consumes (br_sax ev) [] d d'"
  by (simp add: consumes_def br_sax_def)

lemma consumes_and:
  assumes "consumes p bs d d1" "consumes q cs d1 d2"
  shows "consumes (\<lambda>r d. br_and (p r d) q) (bs @ cs) d d2"
  using assms unfolding consumes_def by (metis append.assoc br_and_simps(1))

lemma after_and:
  assumes "after_byte c p bs d d1" "consumes q cs d1 d2"
  shows "after_byte c (\<lambda>r d. br_and (p r d) q) (bs @ cs) d d2"
  using assms unfolding consumes_def after_byte_def by (metis append.assoc br_and_simps(1))

lemma consumes_number:
  assumes "consumes (f (take_bit (8 * k) n)) bs d d'" "format \<noteq> Format_bjdata"
  shows "consumes (get_number k format h f) (write_number k n @ bs) d d'"
  using assms by (simp add: consumes_def get_number_def get_to_def Let_def take_number)

lemma consumes_chars:
  assumes "consumes (f (acc @ s)) bs d d'"
  shows "consumes (get_chars (length s) format context h f acc) (s @ bs) d d'"
  using assms
proof (induction s arbitrary: acc)
  case (Cons c s)
  have "consumes (get_chars (length s) format context h f (acc @ [c])) (s @ bs) d d'"
    by (rule Cons.IH) (use Cons.prems in simp)
  then show ?case by (simp add: consumes_def unexpect_eof_def)
qed (simp add: consumes_def)

lemma consumes_elements:
  assumes "\<And>x d d'. x \<in> set xs \<Longrightarrow> accepts h (es x) d d' \<Longrightarrow> consumes p (bs x) d d'"
    "accepts h (concat (map es xs)) d d'"
  shows "consumes (read_elements (length xs) p) (concat (map bs xs)) d d'"
  using assms
proof (induction xs arbitrary: d)
  case Nil
  then show ?case using consumes_done by (simp add: consumes_def)
next
  case (Cons x xs)
  obtain d1 where d1: "accepts h (es x) d d1" "accepts h (concat (map es xs)) d1 d'"
    using Cons.prems(2) by (auto simp: accepts_append)
  have "consumes p (bs x) d d1" by (rule Cons.prems(1) [OF _ d1(1)]) simp
  moreover have "consumes (read_elements (length xs) p) (concat (map bs xs)) d1 d'"
    by (rule Cons.IH [OF _ d1(2)]) (use Cons.prems(1) in simp)
  ultimately have "consumes (\<lambda>r d. br_and (p r d) (read_elements (length xs) p)) (bs x @ concat (map bs xs)) d d'"
    by (rule consumes_and)
  then show ?case by (simp add: consumes_def)
qed

text \<open>For the members the reader of keys \<open>pk\<close> must deliver each key, with its bytes \<open>ks\<close>.\<close>

lemma consumes_members:
  assumes "\<And>p' d d'. p' \<in> set m \<Longrightarrow> accepts h (es (snd p')) d d' \<Longrightarrow> consumes p (bs (snd p')) d d'"
    "\<And>p' f d d'. p' \<in> set m \<Longrightarrow> consumes (f (fst p')) [] d d' \<Longrightarrow> consumes (\<lambda>r. pk f (br_get r)) (ks (fst p')) d d'"
    "accepts h (concat (map (\<lambda>p. Ev_key (fst p) # es (snd p)) m)) d d'"
  shows "consumes (read_members (length m) pk p h) (concat (map (\<lambda>p. ks (fst p) @ bs (snd p)) m)) d d'"
  using assms
proof (induction m arbitrary: d)
  case Nil
  then show ?case using consumes_done by (simp add: consumes_def)
next
  case (Cons p' m)
  obtain d1 d2 where d: "sax_key h (fst p') d = Inr (True, d1)" "accepts h (es (snd p')) d1 d2"
      "accepts h (concat (map (\<lambda>p. Ev_key (fst p) # es (snd p)) m)) d2 d'"
    using Cons.prems(3) by (auto simp: accepts_append)
  have "consumes (\<lambda>r. pk (\<lambda>key. br_sax (sax_key h key)) (br_get r)) (ks (fst p')) d d1"
    by (rule Cons.prems(2)) (simp_all add: consumes_sax [of "sax_key h (fst p')", OF d(1)])
  moreover have "consumes p (bs (snd p')) d1 d2" by (rule Cons.prems(1) [OF _ d(2)]) simp
  moreover have "consumes (read_members (length m) pk p h) (concat (map (\<lambda>p. ks (fst p) @ bs (snd p)) m)) d2 d'"
    by (rule Cons.IH [OF _ _ d(3)]) (use Cons.prems(1,2) in simp_all)
  ultimately have "consumes (\<lambda>r d. br_and (br_and (pk (\<lambda>key. br_sax (sax_key h key)) (br_get r) d) p)
      (read_members (length m) pk p h)) ((ks (fst p') @ bs (snd p')) @ concat (map (\<lambda>p. ks (fst p) @ bs (snd p)) m)) d d'"
    by (intro consumes_and)
  then show ?case by (simp add: consumes_def)
qed

lemma switch_after:
  assumes "consumes q bs d d'" "\<And>r d. br_current r = c \<Longrightarrow> g r d = q r d"
  shows "after_byte c g bs d d'"
  using assms by (simp add: consumes_def after_byte_def)

lemma unat_count: "n < 2 ^ 32 \<Longrightarrow> unat (word_of_nat n :: u64) = n"
  by (simp add: unat_of_nat)

lemma head_number:
  assumes "consumes (q n) bs d d'" "unat n < 256 ^ k"
    "\<And>r d. br_current r = c \<Longrightarrow> g r d = get_number k format h q r d"
    "format \<noteq> Format_bjdata"
  shows "after_byte c g (write_number k n @ bs) d d'"
  by (rule switch_after [OF consumes_number assms(3)])
    (simp_all only: take_small [OF assms(2)] assms(1,4) not_False_eq_True)

text \<open>A control byte and a number, and the two ways to write a float.\<close>

lemma number_consumed:
  assumes "consumes (f (take_bit (8 * k) n)) [] d d'" "format \<noteq> Format_bjdata"
    "\<And>r d. br_current r = byte c \<Longrightarrow> g r d = get_number k format h f r d"
  shows "consumes (\<lambda>r. g (br_get r)) (c # write_number k n) d d'"
  using consumes_get [OF switch_after [OF consumes_number assms(3)]] assms(1,2) by fastforce

lemma compact_float_consumed:
  assumes "sax_number_float h x [] d = Inr (True, d')" "\<not> dbl_isnan x" "format \<noteq> Format_bjdata"
    "\<And>r d. br_current r = byte c4 \<Longrightarrow>
       g r d = get_number 4 format h (\<lambda>n. br_sax (sax_number_float h (dbl_of_flt (ucast n)) [])) r d"
    "\<And>r d. br_current r = byte c8 \<Longrightarrow> g r d = get_number 8 format h (\<lambda>n. br_sax (sax_number_float h n [])) r d"
  shows "consumes (\<lambda>r. g (br_get r)) (write_compact_float c4 c8 x) d d'"
proof (cases "fits_float x")
  case True
  let ?n = "ucast (flt_of_dbl x) :: u64"
  have "unat (flt_of_dbl x) < 2 ^ 32" by (rule order_less_le_trans [OF unsigned_less]) simp
  then have "unat ?n < 256 ^ 4"
    by (simp add: unsigned_ucast_eq order_le_less_trans [OF take_bit_nat_less_eq_self])
  then have "take_bit (8 * 4) ?n = ?n" by (rule take_small)
  then have "dbl_of_flt (ucast (take_bit (8 * 4) ?n)) = x"
    using float_back [OF True assms(2)] by (simp add: ucast_back)
  then show ?thesis
    using True number_consumed [of "\<lambda>n. br_sax (sax_number_float h (dbl_of_flt (ucast n)) [])" 4 ?n d d' format c4 g h]
      consumes_sax [of "sax_number_float h x []", OF assms(1)] assms(3,4)
    by (simp add: write_compact_float_def)
next
  case False
  then show ?thesis
    using number_consumed [of "\<lambda>n. br_sax (sax_number_float h n [])" 8 x d d' format c8 g h]
      consumes_sax [of "sax_number_float h x []", OF assms(1)] assms(3,5)
    by (simp add: write_compact_float_def take_bit_word_eq_self)
qed

section \<open>The events of a value\<close>

text \<open>The values the formats have lengths for, the events the readers report for them, and the value
  that comes back: integers that are not negative have become unsigned. A NaN may come back as
  another one, so the round trips are about values without (\<open>comparable\<close>).\<close>

fun packable :: "json \<Rightarrow> bool" where
  "packable (JObject m) \<longleftrightarrow> length m < 2 ^ 32 \<and> (\<forall>p \<in> set m. length (fst p) < 2 ^ 32 \<and> packable (snd p))"
| "packable (JArray xs) \<longleftrightarrow> length xs < 2 ^ 32 \<and> (\<forall>x \<in> set xs. packable x)"
| "packable (JString s) \<longleftrightarrow> length s < 2 ^ 32"
| "packable (JBinary s k) \<longleftrightarrow> length s < 2 ^ 32 \<and> (case k of Some w \<Rightarrow> w < 256 | None \<Rightarrow> True)"
| "packable JDiscarded \<longleftrightarrow> False"
| "packable _ \<longleftrightarrow> True"

text \<open>Without the bound on subtypes, which is MessagePack's.\<close>

fun encodable :: "json \<Rightarrow> bool" where
  "encodable (JObject m) \<longleftrightarrow> length m < 2 ^ 32 \<and> (\<forall>p \<in> set m. length (fst p) < 2 ^ 32 \<and> encodable (snd p))"
| "encodable (JArray xs) \<longleftrightarrow> length xs < 2 ^ 32 \<and> (\<forall>x \<in> set xs. encodable x)"
| "encodable (JString s) \<longleftrightarrow> length s < 2 ^ 32"
| "encodable (JBinary s k) \<longleftrightarrow> length s < 2 ^ 32"
| "encodable JDiscarded \<longleftrightarrow> False"
| "encodable _ \<longleftrightarrow> True"

lemma packable_encodable: "packable v \<Longrightarrow> encodable v"
proof (induction v)
  case (JObject m)
  then show ?case by (auto simp: snds.simps)
qed auto

fun pack_events :: "json \<Rightarrow> parse_event list" where
  "pack_events (JObject m) = Ev_start_object (word_of_nat (length m))
     # concat (map (\<lambda>p. Ev_key (fst p) # pack_events (snd p)) m) @ [Ev_end_object]"
| "pack_events (JArray xs) = Ev_start_array (word_of_nat (length xs)) # concat (map pack_events xs) @ [Ev_end_array]"
| "pack_events (JString s) = [Ev_string s]"
| "pack_events (JBinary s k) = [Ev_binary s k]"
| "pack_events (JBoolean b) = [Ev_boolean b]"
| "pack_events (JNumber_integer n) = (if sint n < 0 then [Ev_integer n] else [Ev_unsigned n])"
| "pack_events (JNumber_unsigned n) = [Ev_unsigned n]"
| "pack_events (JNumber_float x) = [Ev_float x []]"
| "pack_events _ = [Ev_null]"

fun unpacked :: "json \<Rightarrow> json" where
  "unpacked (JObject m) = JObject (map (\<lambda>p. (fst p, unpacked (snd p))) m)"
| "unpacked (JArray xs) = JArray (map unpacked xs)"
| "unpacked (JNumber_integer n) = (if sint n < 0 then JNumber_integer n else JNumber_unsigned n)"
| "unpacked v = v"

lemma length_le_concat: "x \<in> set xs \<Longrightarrow> length (f x) \<le> length (concat (map f xs))"
  by (induction xs) auto

lemma encodable_build:
  "encodable v \<Longrightarrow> json_inv v \<Longrightarrow> 2 ^ 32 \<le> n + 1 \<Longrightarrow> builds n (pack_events v) (unpacked v)"
proof (induction v)
  case (JObject m)
  have "builds n (pack_events (JObject m)) (JObject (set_members (map (\<lambda>p. (fst p, unpacked (snd p))) m) []))"
    unfolding pack_events.simps
    by (intro object_builds) (use JObject in \<open>auto simp: snds.simps sized_def unat_count\<close>)
  then show ?case
    using JObject.prems(2) fold_smap_set [of "[]" "map (\<lambda>p. (fst p, unpacked (snd p))) m"]
    by (simp add: set_members_def smap_inv_map)
next
  case (JArray xs)
  have "builds n (pack_events (JArray xs)) (JArray (map unpacked xs))"
    unfolding pack_events.simps by (intro array_builds) (use JArray in \<open>auto simp: sized_def unat_count\<close>)
  then show ?case by simp
qed (auto intro: value_builds simp: dom_sax_def)

lemmas pack_events_build = encodable_build [OF packable_encodable]

lemma unpacked_equal: "comparable v \<Longrightarrow> json_eq (unpacked v) v"
proof (induction v)
  case (JObject m)
  then show ?case by (auto simp: members_eq_iff list_all2_map1 snds.simps intro!: list.rel_refl_strong)
next
  case (JArray xs)
  then show ?case by (auto simp: elements_eq_iff list_all2_map1 intro!: list.rel_refl_strong)
qed (auto simp: dbl_eq_def)

section \<open>The end of the input\<close>

abbreviation plain_end :: "input_format \<Rightarrow> bool" where
  "plain_end format \<equiv> format \<noteq> Format_ubjson \<and> format \<noteq> Format_bjdata"

lemma strict_end_eq:
  "plain_end format \<Longrightarrow> strict_binary_end format True h r d =
     (if br_current (br_get r) = eof then Inr (True, br_get r, d)
      else br_error format 110 (binary_token_string (br_get r))
        (''expected end of input; last byte: 0x'' @ binary_token_string (br_get r)) ''value'' h (br_get r) d)"
  by (simp add: strict_binary_end_def Let_def)

lemma strict_end_at_end:
  "plain_end format \<Longrightarrow> br_ia r = [] \<Longrightarrow> \<exists>r'. strict_binary_end format True h r d = Inr (True, r', d)"
  by (simp add: strict_end_eq br_get_def get_character_def)

section \<open>Reading arbitrary input\<close>

text \<open>Four errors: the end of the input where more was needed or not at the end (110), a byte that
  starts no value (112) or no string (113), and a container above the largest size (408).\<close>

fun binary_error :: "exn \<Rightarrow> bool" where
  "binary_error (Json_parse_error i _ _) \<longleftrightarrow> i = 110 \<or> i = 112 \<or> i = 113"
| "binary_error (Json_out_of_range i _) \<longleftrightarrow> i = 408"
| "binary_error _ \<longleftrightarrow> False"

definition reading_outcome :: "(binary_reader \<Rightarrow> 's \<Rightarrow> bool) \<Rightarrow> 's reading \<Rightarrow> bool" where
  "reading_outcome P res \<longleftrightarrow> (case res of Inl e \<Rightarrow> binary_error e | Inr (b, r, d) \<Rightarrow> b \<and> P r d)"

lemma reading_outcome_simps [simp]:
  "reading_outcome P (Inl e) = binary_error e" "reading_outcome P (Inr (b, r, d)) \<longleftrightarrow> b \<and> P r d"
  by (simp_all add: reading_outcome_def)

lemma outcome_and:
  "reading_outcome P m \<Longrightarrow> (\<And>r d. P r d \<Longrightarrow> reading_outcome Q (f r d)) \<Longrightarrow> reading_outcome Q (br_and m f)"
  by (cases m) auto

lemma outcome_mono: "reading_outcome P m \<Longrightarrow> (\<And>r d. P r d \<Longrightarrow> Q r d) \<Longrightarrow> reading_outcome Q m"
  by (auto simp: reading_outcome_def split: sum.splits)

lemma outcome_if:
  "(b \<Longrightarrow> reading_outcome P m) \<Longrightarrow> (\<not> b \<Longrightarrow> reading_outcome P n) \<Longrightarrow> reading_outcome P (if b then m else n)"
  by simp

text \<open>Errors are exceptions.\<close>

lemma dom_error:
  assumes "dom_allow_exceptions d" "format \<noteq> Format_json"
  obtains e where "br_error format i t detail context dom_sax r d = Inl e"
    "i = 110 \<or> i = 112 \<or> i = 113 \<Longrightarrow> binary_error e"
  using assms by (cases format) (auto simp: br_error_def binary_exception_message_def format_name_def br_sax_def dom_sax_def
      dom_parse_error_def parse_error_at_def Let_def)

lemma error_outcome:
  assumes "dom_allow_exceptions d" "format \<noteq> Format_json" "i = 110 \<or> i = 112 \<or> i = 113"
  shows "reading_outcome P (br_error format i t detail context dom_sax r d)"
  using dom_error [OF assms(1,2), of i t detail "context" r] assms(3) by (metis reading_outcome_simps(1))

lemma unexpect_eof_outcome:
  assumes "dom_allow_exceptions d" "format \<noteq> Format_json" "br_current r \<noteq> eof \<Longrightarrow> P r d"
  shows "reading_outcome P (unexpect_eof format context dom_sax r d)"
proof (cases "br_current r = eof")
  case True
  then show ?thesis using error_outcome [OF assms(1,2)] by (simp add: unexpect_eof_def)
qed (use assms in \<open>simp add: unexpect_eof_def\<close>)

lemma le_value_less: "le_value bs < 256 ^ length bs"
proof (induction bs)
  case (Cons c bs)
  have "of_char c < (256 :: nat)" by simp
  moreover have "a < 256 \<Longrightarrow> v < k \<Longrightarrow> a + 256 * v < 256 * k" for a v k :: nat by linarith
  ultimately show ?case using Cons unfolding le_value.simps length_Cons power_Suc by blast
qed simp

definition shorter :: "binary_reader \<Rightarrow> binary_reader \<Rightarrow> bool" where
  "shorter r' r \<longleftrightarrow> length (br_ia r') \<le> length (br_ia r)"

lemma shorter_refl [simp]: "shorter r r"
  by (simp add: shorter_def)

lemma shorter_trans: "shorter a b \<Longrightarrow> shorter b c \<Longrightarrow> shorter a c"
  by (simp add: shorter_def)

lemma shorter_get: "shorter (br_get r) r"
  by (simp add: shorter_def br_get_length(1))

lemma current_range: "- 1 \<le> br_current (br_get r)" "br_current (br_get r) < 256"
  by (auto simp: br_get_def get_character_def intro: order_trans [OF _ byte_lower] split: list.split)

text \<open>Numbers, which may be too short, and characters.\<close>

lemma number_outcome:
  assumes "dom_allow_exceptions d" "format \<noteq> Format_json" "format \<noteq> Format_bjdata"
    "\<And>n r'. unat n < 256 ^ k \<Longrightarrow> shorter r' r \<Longrightarrow> reading_outcome P (f n r' d)"
  shows "reading_outcome P (get_number k format dom_sax f r d)"
proof (cases "length (br_ia r) < k")
  case True
  let ?r = "r\<lparr>br_ia := drop k (br_ia r), br_chars_read := br_chars_read r + length (take k (br_ia r)) + 1\<rparr>"
  obtain e where "br_error format 110 ''<end of file>'' ''unexpected end of input'' ''number'' dom_sax ?r d = Inl e"
      "binary_error e"
    using dom_error [OF assms(1,2)] by metis
  then show ?thesis using True by (simp add: get_number_def get_to_def Let_def)
next
  case False
  let ?n = "word_of_nat (le_value (rev (take k (br_ia r)))) :: u64"
  have "unat ?n \<le> le_value (rev (take k (br_ia r)))" by (simp add: unat_of_nat)
  also have "\<dots> < 256 ^ k" using le_value_less [of "rev (take k (br_ia r))"] False by simp
  finally have n: "unat ?n < 256 ^ k" .
  let ?r = "r\<lparr>br_ia := drop k (br_ia r), br_chars_read := br_chars_read r + length (take k (br_ia r))\<rparr>"
  have "reading_outcome P (f ?n ?r d)" by (rule assms(4) [OF n]) (simp add: shorter_def)
  then show ?thesis using False assms(3) by (simp add: get_number_def get_to_def Let_def)
qed

lemma number_then_outcome:
  assumes "dom_allow_exceptions d" "format \<noteq> Format_json" "format \<noteq> Format_bjdata" "k \<le> 4"
    "\<And>n r'. unat n < 2 ^ 32 \<Longrightarrow> shorter r' r \<Longrightarrow> reading_outcome P (f n r' d)"
  shows "reading_outcome P (get_number k format dom_sax f r d)"
proof (rule number_outcome [OF assms(1-3)])
  fix n :: u64 and r' assume n: "unat n < 256 ^ k" and r: "shorter r' r"
  have "(256 :: nat) ^ k \<le> 256 ^ 4" by (rule power_increasing) (use assms(4) in simp_all)
  then have "unat n < 2 ^ 32" using n by simp
  then show "reading_outcome P (f n r' d)" by (rule assms(5)) (rule r)
qed

lemma chars_outcome:
  assumes "dom_allow_exceptions d" "format \<noteq> Format_json"
    "\<And>s r'. length s = n \<Longrightarrow> shorter r' r \<Longrightarrow> reading_outcome P (f (acc @ s) r' d)"
  shows "reading_outcome P (get_chars n format context dom_sax f acc r d)"
  using assms(3)
proof (induction n arbitrary: acc r)
  case 0
  then show ?case by (metis append_Nil2 get_chars.simps(1) shorter_refl list.size(3))
next
  case (Suc n)
  let ?c = "chr (br_current (br_get r))"
  have "reading_outcome P (get_chars n format context dom_sax f (acc @ [?c]) (br_get r) d)"
  proof (rule Suc.IH)
    fix s :: string and r' assume "length s = n" "shorter r' (br_get r)"
    then show "reading_outcome P (f ((acc @ [?c]) @ s) r' d)"
      using Suc.prems [of "?c # s" r'] shorter_trans [of r' "br_get r" r] shorter_get [of r] by simp
  qed
  then show ?case
    using unexpect_eof_outcome [OF assms(1,2), of "br_get r" "\<lambda>r' d'. r' = br_get r \<and> d' = d" "context"]
    by (auto intro: outcome_and)
qed

lemma low_count: "0 \<le> c \<Longrightarrow> c < 256 \<Longrightarrow> unat (word_of_int (c AND m) :: u64) < 2 ^ 32"
proof -
  assume c: "0 \<le> c" "c < 256"
  have "c AND m \<le> c" "0 \<le> c AND m" using c by (simp_all add: AND_upper1)
  then have "take_bit LENGTH(64) (c AND m) = c AND m"
    by (intro take_bit_int_eq_self) (use c in simp_all)
  then have "unat (word_of_int (c AND m) :: u64) = nat (c AND m)"
    by (simp only: unsigned_of_int of_nat_id)
  then show ?thesis using \<open>c AND m \<le> c\<close> c by (simp add: nat_less_iff)
qed

end
