(* ===== verification/BinaryValues.thy ===== *)
theory BinaryValues
  imports BinaryReading
begin

unbundle bit_operations_syntax

text \<open>
  What the readers of MessagePack and CBOR share when the input is arbitrary and the handler is the
  builder: a locale for a notion of good values, in which containers are built element by element.
\<close>

section \<open>What the readers of values share\<close>

text \<open>A good value has been put where the slot is.\<close>

definition filled :: "(json \<Rightarrow> bool) \<Rightarrow> dom_parser \<Rightarrow> (json \<Rightarrow> json) \<Rightarrow> dom_parser \<Rightarrow> bool" where
  "filled good d put d' \<longleftrightarrow> (\<exists>v oe. good v \<and> d' = d\<lparr>dom_root := put v, dom_object_element := oe\<rparr>)"

abbreviation fills ::
  "(json \<Rightarrow> bool) \<Rightarrow> binary_reader \<Rightarrow> dom_parser \<Rightarrow> (json \<Rightarrow> json) \<Rightarrow> dom_parser reading \<Rightarrow> bool" where
  "fills good r d put \<equiv> reading_outcome (\<lambda>r' d'. shorter r' r \<and> filled good d put d')"

definition reads_values ::
  "(json \<Rightarrow> bool) \<Rightarrow> nat \<Rightarrow> (binary_reader \<Rightarrow> dom_parser \<Rightarrow> dom_parser reading) \<Rightarrow> bool" where
  "reads_values good k p \<longleftrightarrow>
     (\<forall>r d q put. slot d q put \<and> dom_allow_exceptions d \<and> length (br_ia r) < k \<longrightarrow> fills good r d put (p r d))"

lemma fills_mono: "fills good r' d put m \<Longrightarrow> shorter r' r \<Longrightarrow> fills good r d put m"
  by (erule outcome_mono) (auto intro: shorter_trans)

lemma value_fills:
  assumes "slot d q put" "good v" "ev d = dom_value v d" "shorter r' r"
  shows "fills good r d put (br_sax ev r' d)"
proof -
  have "filled good d put (d\<lparr>dom_root := put v\<rparr>)"
    unfolding filled_def using assms(2) by (intro exI [of _ v] exI [of _ "dom_object_element d"]) simp
  then show ?thesis using assms(3,4) slot_value [OF assms(1), of v] by (simp add: br_sax_def)
qed

lemma scalar_number_outcome:
  assumes "slot d q put" "dom_allow_exceptions d" "format \<noteq> Format_json" "format \<noteq> Format_bjdata"
    "\<And>n. good (v n)" "\<And>n d. ev n d = dom_value (v n) d"
  shows "fills good r d put (get_number k format dom_sax (\<lambda>n. br_sax (ev n)) r d)"
proof (rule number_outcome [OF assms(2-4)])
  fix n and r' assume "shorter r' r"
  then show "fills good r d put (br_sax (ev n) r' d)"
    by (intro value_fills [OF assms(1), of good "v n"]) (simp_all add: assms)
qed

lemma reads_valuesI:
  "(\<And>r d q put. slot d q put \<Longrightarrow> dom_allow_exceptions d \<Longrightarrow> length (br_ia r) < k \<Longrightarrow> fills good r d put (p r d)) \<Longrightarrow>
   reads_values good k p"
  unfolding reads_values_def by blast

text \<open>A whole document, up to the end of the input.\<close>

lemma document_outcome:
  assumes p: "reads_values good k p" and k: "length (br_ia r) < k"
    and format: "format \<noteq> Format_json" "plain_end format"
  shows "reading_outcome (\<lambda>r d. good (dom_root d))
    (br_and (p r (dom_init n True JNull)) (strict_binary_end format True dom_sax))"
proof -
  let ?d = "dom_init n True JNull"
  have d: "slot ?d [] (\<lambda>v. v)" "dom_allow_exceptions ?d" by (simp_all add: slot_root dom_init_def)
  then have "fills good r ?d (\<lambda>v. v) (p r ?d)" using p k unfolding reads_values_def by blast
  then show ?thesis
  proof (rule outcome_and, elim conjE)
    fix r1 :: binary_reader and d1 assume "filled good ?d (\<lambda>v. v) d1"
    then have d1: "good (dom_root d1)" "dom_allow_exceptions d1" using d(2) by (auto simp: filled_def)
    obtain e where "br_error format 110 (binary_token_string (br_get r1))
        (''expected end of input; last byte: 0x'' @ binary_token_string (br_get r1)) ''value'' dom_sax (br_get r1) d1 = Inl e"
        "binary_error e"
      using dom_error [OF d1(2) format(1)] by metis
    then show "reading_outcome (\<lambda>r d. good (dom_root d)) (strict_binary_end format True dom_sax r1 d1)"
      using d1(1) format(2) by (simp add: strict_end_eq del: append.simps)
  qed
qed

text \<open>A reader of keys delivers good ones.\<close>

definition reads_keys ::
  "(string \<Rightarrow> bool) \<Rightarrow> ((string \<Rightarrow> binary_reader \<Rightarrow> dom_parser \<Rightarrow> dom_parser reading)
     \<Rightarrow> binary_reader \<Rightarrow> dom_parser \<Rightarrow> dom_parser reading) \<Rightarrow> bool" where
  "reads_keys key_ok pk \<longleftrightarrow> (\<forall>P f r d. dom_allow_exceptions d \<and> - 1 \<le> br_current r \<and> br_current r < 256
     \<and> (\<forall>s r'. key_ok s \<and> shorter r' r \<longrightarrow> reading_outcome P (f s r' d)) \<longrightarrow> reading_outcome P (pk f r d))"

lemma reads_keysI:
  "(\<And>P f r d. dom_allow_exceptions d \<Longrightarrow> - 1 \<le> br_current r \<Longrightarrow> br_current r < 256 \<Longrightarrow>
     (\<And>s r'. key_ok s \<Longrightarrow> shorter r' r \<Longrightarrow> reading_outcome P (f s r' d)) \<Longrightarrow> reading_outcome P (pk f r d)) \<Longrightarrow>
   reads_keys key_ok pk"
  by (simp add: reads_keys_def)

lemma reads_keysD:
  "reads_keys key_ok pk \<Longrightarrow> dom_allow_exceptions d \<Longrightarrow> - 1 \<le> br_current r \<Longrightarrow> br_current r < 256 \<Longrightarrow>
   (\<And>s r'. key_ok s \<Longrightarrow> shorter r' r \<Longrightarrow> reading_outcome P (f s r' d)) \<Longrightarrow> reading_outcome P (pk f r d)"
  by (simp add: reads_keys_def)

lemma length_smap_set: "length (smap_set k v m) \<le> Suc (length m)"
  by (induction m) auto

text \<open>A format is a notion of good values and keys and of the counts its containers can have.\<close>

locale input_values =
  fixes good :: "json \<Rightarrow> bool" and key_ok :: "string \<Rightarrow> bool" and fits :: "nat \<Rightarrow> bool"
  assumes good_array: "fits (length xs) \<Longrightarrow> (\<And>x. x \<in> set xs \<Longrightarrow> good x) \<Longrightarrow> good (JArray xs)"
    and good_object: "smap_inv m \<Longrightarrow> fits (length m) \<Longrightarrow> (\<And>x. x \<in> set m \<Longrightarrow> key_ok (fst x) \<and> good (snd x)) \<Longrightarrow>
      good (JObject m)"
    and fits_less: "fits n \<Longrightarrow> l \<le> n \<Longrightarrow> fits l"
begin

text \<open>What the elements of an array that has been opened are, with \<open>xs\<close> behind the elements \<open>ys\<close>, and the
  members of an object. A member at a time: the key opens the slot for the value.\<close>

abbreviation elements_read where
  "elements_read r d put ys N \<equiv> reading_outcome (\<lambda>r' d'. shorter r' r \<and> (\<exists>xs oe. N (length xs) \<and> (\<forall>x \<in> set xs. good x)
     \<and> d' = d\<lparr>dom_root := put (JArray (ys @ xs)), dom_object_element := oe\<rparr>))"

abbreviation members_read where
  "members_read r d put N \<equiv> reading_outcome (\<lambda>r' d'. shorter r' r \<and> (\<exists>m oe. N (length m) \<and> smap_inv m
     \<and> (\<forall>x \<in> set m. key_ok (fst x) \<and> good (snd x)) \<and> d' = d\<lparr>dom_root := put (JObject m), dom_object_element := oe\<rparr>))"

lemma element_outcome:
  assumes "inside q put (JArray ys) d" "fills good r d (\<lambda>v. put (JArray (ys @ [v]))) m" "length (br_ia r) < k"
    "dom_allow_exceptions d"
    "\<And>v d1 r1. good v \<Longrightarrow> inside q put (JArray (ys @ [v])) d1 \<Longrightarrow> dom_allow_exceptions d1 \<Longrightarrow> length (br_ia r1) < k \<Longrightarrow>
       elements_read r1 d1 put (ys @ [v]) N (f r1 d1)"
  shows "elements_read r d put ys (\<lambda>n. 0 < n \<and> N (n - 1)) (br_and m f)"
  using assms(2)
proof (rule outcome_and)
  fix r1 d1 assume "shorter r1 r \<and> filled good d (\<lambda>v. put (JArray (ys @ [v]))) d1"
  then obtain v oe1 where r1: "shorter r1 r" and v: "good v"
      and d1: "d1 = d\<lparr>dom_root := put (JArray (ys @ [v])), dom_object_element := oe1\<rparr>"
    by (auto simp: filled_def)
  have "elements_read r1 d1 put (ys @ [v]) N (f r1 d1)"
    by (rule assms(5) [OF v]) (use assms(1,3,4) d1 r1 in \<open>auto simp: inside_def shorter_def\<close>)
  then show "elements_read r d put ys (\<lambda>n. 0 < n \<and> N (n - 1)) (f r1 d1)"
  proof (rule outcome_mono)
    fix r' d' assume "shorter r' r1 \<and> (\<exists>xs oe. N (length xs) \<and> (\<forall>x \<in> set xs. good x)
        \<and> d' = d1\<lparr>dom_root := put (JArray ((ys @ [v]) @ xs)), dom_object_element := oe\<rparr>)"
    then obtain xs oe where xs: "shorter r' r1" "N (length xs)" "\<forall>x \<in> set xs. good x"
        "d' = d1\<lparr>dom_root := put (JArray ((ys @ [v]) @ xs)), dom_object_element := oe\<rparr>"
      by blast
    then show "shorter r' r \<and> (\<exists>xs oe. (0 < length xs \<and> N (length xs - 1)) \<and> (\<forall>x \<in> set xs. good x)
        \<and> d' = d\<lparr>dom_root := put (JArray (ys @ xs)), dom_object_element := oe\<rparr>)"
      using v d1 shorter_trans [OF xs(1) r1] by (intro conjI exI [of _ "v # xs"] exI [of _ oe]) simp_all
  qed
qed

lemma elements_done:
  assumes "inside q put (JArray ys) d" "N 0" "shorter r1 r"
  shows "elements_read r d put ys N (Inr (True, r1, d))"
proof -
  have "d = d\<lparr>dom_root := put (JArray (ys @ [])), dom_object_element := dom_object_element d\<rparr>"
    using assms(1) by (cases d) (simp add: inside_def)
  then have "\<exists>xs oe. N (length xs) \<and> (\<forall>x \<in> set xs. good x)
      \<and> d = d\<lparr>dom_root := put (JArray (ys @ xs)), dom_object_element := oe\<rparr>"
    using assms(2) by (intro exI [of _ "[]"] exI [of _ "dom_object_element d"]) simp
  then show ?thesis using assms(3) by simp
qed

lemma elements_outcome:
  assumes p: "reads_values good k p"
  shows "inside q put (JArray ys) d \<Longrightarrow> dom_allow_exceptions d \<Longrightarrow> length (br_ia r) < k \<Longrightarrow>
    elements_read r d put ys (\<lambda>l. l = n) (read_elements n p r d)"
proof (induction n arbitrary: ys d r)
  case 0
  then show ?case using elements_done [OF 0(1), of "\<lambda>l. l = 0" r r] by simp
next
  case (Suc n)
  have first: "fills good r d (\<lambda>v. put (JArray (ys @ [v]))) (p r d)"
    using p inside_element [OF Suc.prems(1)] Suc.prems(2,3) unfolding reads_values_def by blast
  show ?case
    unfolding read_elements.simps
    by (rule outcome_mono [OF element_outcome [OF Suc.prems(1) first Suc.prems(3,2) Suc.IH]]) auto
qed

lemma members_done:
  assumes "inside q put (JObject m) d" "smap_inv m" "\<forall>x \<in> set m. key_ok (fst x) \<and> good (snd x)" "N (length m)" "shorter r1 r"
  shows "members_read r d put N (Inr (True, r1, d))"
proof -
  have "d = d\<lparr>dom_root := put (JObject m), dom_object_element := dom_object_element d\<rparr>"
    using assms(1) by (cases d) (simp add: inside_def)
  then have "\<exists>m' oe. N (length m') \<and> smap_inv m' \<and> (\<forall>x \<in> set m'. key_ok (fst x) \<and> good (snd x))
      \<and> d = d\<lparr>dom_root := put (JObject m'), dom_object_element := oe\<rparr>"
    using assms(2-4) by (intro exI [of _ m] exI [of _ "dom_object_element d"]) simp
  then show ?thesis using assms(5) by simp
qed

lemma members_mono: "members_read r d put N x \<Longrightarrow> (\<And>l. N l \<Longrightarrow> N' l) \<Longrightarrow> members_read r d put N' x"
  by (erule outcome_mono) blast

lemma member_outcome:
  assumes d: "inside q put (JObject m) d" "dom_allow_exceptions d" "length (br_ia r) < k"
    and m: "smap_inv m" "\<forall>x \<in> set m. key_ok (fst x) \<and> good (snd x)"
    and pk: "reads_keys key_ok pk" and p: "reads_values good k p"
    and rest: "\<And>m' d1 r1. inside q put (JObject m') d1 \<Longrightarrow> dom_allow_exceptions d1 \<Longrightarrow> shorter r1 (br_get r) \<Longrightarrow>
       smap_inv m' \<Longrightarrow> \<forall>x \<in> set m'. key_ok (fst x) \<and> good (snd x) \<Longrightarrow> length m' \<le> Suc (length m) \<Longrightarrow>
       members_read r1 d1 put N (f r1 d1)"
  shows "members_read r d put N (br_and (br_and (pk (\<lambda>key. br_sax (sax_key dom_sax key)) (br_get r) d) p) f)"
proof -
  let ?put = "\<lambda>s v. put (JObject (smap_set s v m))"
  let ?K = "\<lambda>r1 d1. shorter r1 (br_get r) \<and> (\<exists>s root oe. key_ok s \<and> d1 = d\<lparr>dom_root := root, dom_object_element := oe\<rparr>
      \<and> slot d1 (q @ [Key s]) (?put s))"
  let ?M = "\<lambda>r1 d1. shorter r1 (br_get r) \<and> (\<exists>s v oe. key_ok s \<and> good v \<and> d1 = d\<lparr>dom_root := ?put s v, dom_object_element := oe\<rparr>)"
  have key: "reading_outcome ?K (br_sax (sax_key dom_sax s) r1 d)" if s: "key_ok s" and r1: "shorter r1 (br_get r)" for s r1
  proof -
    obtain root oe where key: "dom_key s d = Inr (True, d\<lparr>dom_root := root, dom_object_element := oe\<rparr>)"
        "slot (d\<lparr>dom_root := root, dom_object_element := oe\<rparr>) (q @ [Key s]) (?put s)"
      by (rule inside_key [OF d(1) m(1)])
    have "?K r1 (d\<lparr>dom_root := root, dom_object_element := oe\<rparr>)" using r1 s key(2) by blast
    then show ?thesis using key(1) by (simp add: br_sax_def dom_sax_def)
  qed
  have member: "reading_outcome ?M (p r1 d1)"
    if r1: "shorter r1 (br_get r)" and s: "key_ok s" and d1: "d1 = d\<lparr>dom_root := root, dom_object_element := oe\<rparr>"
      and at: "slot d1 (q @ [Key s]) (?put s)" for r1 d1 s root oe
  proof -
    have "length (br_ia r1) < k" using shorter_trans [OF r1 shorter_get] d(3) by (simp add: shorter_def)
    then have "fills good r1 d1 (?put s) (p r1 d1)" using p at d(2) d1 unfolding reads_values_def by simp
    then show ?thesis
      by (rule outcome_mono) (use s d1 shorter_trans [OF _ r1] in \<open>auto simp: filled_def\<close>)
  qed
  have after: "members_read r d put N (f r1 d1)"
    if r1: "shorter r1 (br_get r)" and s: "key_ok s" "good v" and d1: "d1 = d\<lparr>dom_root := ?put s v, dom_object_element := oe1\<rparr>"
    for r1 d1 s v oe1
  proof -
    have "members_read r1 d1 put N (f r1 d1)"
      by (rule rest [of "smap_set s v m"])
        (use d m r1 s d1 set_smap_set [of s v m] length_smap_set [of s v m] in \<open>auto simp: inside_def shorter_def\<close>)
    then show ?thesis by (rule outcome_mono) (use d1 shorter_trans [OF _ shorter_trans [OF r1 shorter_get]] in auto)
  qed
  have "reading_outcome ?K (pk (\<lambda>key. br_sax (sax_key dom_sax key)) (br_get r) d)"
    by (rule reads_keysD [OF pk d(2) current_range]) (rule key)
  then have "reading_outcome ?M (br_and (pk (\<lambda>key. br_sax (sax_key dom_sax key)) (br_get r) d) p)"
    by (rule outcome_and) (elim conjE exE, rule member, assumption+)
  then show ?thesis by (rule outcome_and) (elim conjE exE, rule after, assumption+)
qed

lemma members_outcome:
  assumes p: "reads_keys key_ok pk" "reads_values good k p"
  shows "inside q put (JObject m) d \<Longrightarrow> dom_allow_exceptions d \<Longrightarrow> length (br_ia r) < k \<Longrightarrow> smap_inv m \<Longrightarrow>
    \<forall>x \<in> set m. key_ok (fst x) \<and> good (snd x) \<Longrightarrow>
    members_read r d put (\<lambda>l. l \<le> length m + n) (read_members n pk p dom_sax r d)"
proof (induction n arbitrary: m d r)
  case 0
  then show ?case using members_done [OF 0(1,4,5), of "\<lambda>l. l \<le> length m" r r] by simp
next
  case (Suc n)
  show ?case
    unfolding read_members.simps
  proof (rule member_outcome [OF Suc.prems p], goal_cases)
    case (1 m' d1 r1)
    have "length (br_ia r1) < k" using shorter_trans [OF 1(3) shorter_get] Suc.prems(3) by (simp add: shorter_def)
    then show ?case by (rule members_mono [OF Suc.IH [OF 1(1,2) _ 1(4,5)]]) (use 1(6) in simp)
  qed
qed

text \<open>A container is opened at the slot, unless its size is too large, filled and closed.\<close>

lemma start_outcome:
  assumes "slot d q put" "shorter r' r"
  shows "reading_outcome (\<lambda>r1 d1. shorter r1 r \<and> d1 = d\<lparr>dom_root := put c, dom_ref_stack := dom_ref_stack d @ [q]\<rparr>)
    (br_sax (dom_start what c len) r' d)"
  using assms by (simp add: br_sax_def dom_start_def slot_def Let_def out_of_range_create_def)

lemma filledI: "good v \<Longrightarrow> filled good d put (d\<lparr>dom_root := put v, dom_object_element := oe\<rparr>)"
  unfolding filled_def by blast

lemma array_outcome:
  assumes s: "slot d q put" "dom_allow_exceptions d" and r: "shorter r0 r" and N: "\<And>n. N n \<Longrightarrow> fits n"
    and body: "\<And>r1 d1. inside q put (JArray []) d1 \<Longrightarrow> dom_allow_exceptions d1 \<Longrightarrow> shorter r1 r \<Longrightarrow>
      elements_read r1 d1 put [] N (body r1 d1)"
  shows "fills good r d put (br_and (br_sax (sax_start_array dom_sax n) r0 d)
    (\<lambda>r d. br_and (body r d) (br_sax (sax_end_array dom_sax))))"
proof -
  let ?d = "d\<lparr>dom_root := put (JArray []), dom_ref_stack := dom_ref_stack d @ [q]\<rparr>"
  have close: "fills good r d put (br_sax (sax_end_array dom_sax) r2 d2)"
    if d2: "d2 = ?d\<lparr>dom_root := put (JArray ([] @ xs)), dom_object_element := oe\<rparr>" and r2: "shorter r2 r1" and r1: "shorter r1 r"
      and xs: "N (length xs)" "\<forall>x \<in> set xs. good x" for r1 r2 d2 xs oe
  proof -
    have "dom_back d2 = Some (JArray xs)" using s(1) d2 by (simp add: dom_back_def slot_def)
    then have "dom_end_array d2 = Inr (True, d\<lparr>dom_root := put (JArray xs), dom_object_element := oe\<rparr>)"
      using d2 by (simp add: dom_end_array_def)
    moreover have "good (JArray xs)" using good_array N xs by blast
    ultimately show ?thesis using shorter_trans [OF r2 r1] filledI [of "JArray xs" d put oe] by (simp add: br_sax_def dom_sax_def)
  qed
  have start: "reading_outcome (\<lambda>r1 d1. shorter r1 r \<and> d1 = ?d) (br_sax (sax_start_array dom_sax n) r0 d)"
    using start_outcome [OF s(1) r] by (simp add: dom_sax_def dom_start_array_def)
  show ?thesis
  proof (rule outcome_and [OF start], elim conjE)
    fix r1 d1 assume r1: "shorter r1 r" and d1: "d1 = ?d"
    have "elements_read r1 ?d put [] N (body r1 ?d)"
      by (rule body [OF slot_inside [OF s(1)] _ r1]) (use s(2) in simp)
    then show "fills good r d put (br_and (body r1 d1) (br_sax (sax_end_array dom_sax)))"
      unfolding d1 by (rule outcome_and) (elim conjE exE, rule close [OF _ _ r1], assumption+)
  qed
qed

lemma object_outcome:
  assumes s: "slot d q put" "dom_allow_exceptions d" and r: "shorter r0 r" and N: "\<And>n. N n \<Longrightarrow> fits n"
    and body: "\<And>r1 d1. inside q put (JObject []) d1 \<Longrightarrow> dom_allow_exceptions d1 \<Longrightarrow> shorter r1 r \<Longrightarrow>
      members_read r1 d1 put N (body r1 d1)"
  shows "fills good r d put (br_and (br_sax (sax_start_object dom_sax n) r0 d)
    (\<lambda>r d. br_and (body r d) (br_sax (sax_end_object dom_sax))))"
proof -
  let ?d = "d\<lparr>dom_root := put (JObject []), dom_ref_stack := dom_ref_stack d @ [q]\<rparr>"
  have close: "fills good r d put (br_sax (sax_end_object dom_sax) r2 d2)"
    if d2: "d2 = ?d\<lparr>dom_root := put (JObject m), dom_object_element := oe\<rparr>" and r2: "shorter r2 r1" and r1: "shorter r1 r"
      and m: "N (length m)" "smap_inv m" "\<forall>x \<in> set m. key_ok (fst x) \<and> good (snd x)" for r1 r2 d2 m oe
  proof -
    have "dom_back d2 = Some (JObject m)" using s(1) d2 by (simp add: dom_back_def slot_def)
    then have "dom_end_object d2 = Inr (True, d\<lparr>dom_root := put (JObject m), dom_object_element := oe\<rparr>)"
      using d2 by (simp add: dom_end_object_def)
    moreover have "good (JObject m)" using good_object N m by blast
    ultimately show ?thesis using shorter_trans [OF r2 r1] filledI [of "JObject m" d put oe] by (simp add: br_sax_def dom_sax_def)
  qed
  have start: "reading_outcome (\<lambda>r1 d1. shorter r1 r \<and> d1 = ?d) (br_sax (sax_start_object dom_sax n) r0 d)"
    using start_outcome [OF s(1) r] by (simp add: dom_sax_def dom_start_object_def)
  show ?thesis
  proof (rule outcome_and [OF start], elim conjE)
    fix r1 d1 assume r1: "shorter r1 r" and d1: "d1 = ?d"
    have "members_read r1 ?d put N (body r1 ?d)"
      by (rule body [OF slot_inside [OF s(1)] _ r1]) (use s(2) in simp)
    then show "fills good r d put (br_and (body r1 d1) (br_sax (sax_end_object dom_sax)))"
      unfolding d1 by (rule outcome_and) (elim conjE exE, rule close [OF _ _ r1], assumption+)
  qed
qed

end

end
