(* ===== verification/CborPacking.thy ===== *)
theory CborPacking
  imports Cbor BinaryValues
begin

unbundle bit_operations_syntax

text \<open>
  CBOR: what the writer writes the reader reads, for any SAX handler and then for the builder, and
  what the reader makes of arbitrary input.
\<close>

section \<open>Heads\<close>

text \<open>The reader has one branch for each way to write a head.\<close>

lemma head_consumed:
  assumes "consumes (q n) bs d d'" "base \<le> 0xE0"
    and small: "\<And>r d. br_current r = int base + uint n \<Longrightarrow> uint n \<le> 0x17 \<Longrightarrow> g r d = q n r d"
    and number: "\<And>r d. br_current r = int base + 0x18 \<Longrightarrow> g r d = get_number 1 Format_cbor h q r d"
      "\<And>r d. br_current r = int base + 0x19 \<Longrightarrow> g r d = get_number 2 Format_cbor h q r d"
      "\<And>r d. br_current r = int base + 0x1A \<Longrightarrow> g r d = get_number 4 Format_cbor h q r d"
      "\<And>r d. br_current r = int base + 0x1B \<Longrightarrow> g r d = get_number 8 Format_cbor h q r d"
  shows "consumes (\<lambda>r. g (br_get r)) (write_cbor_head base n @ bs) d d'"
proof -
  have numbered: "consumes (\<lambda>r. g (br_get r)) (char_of (base + m) # write_number k n @ bs) d d'"
    if "unat n < 256 ^ k" "m \<le> 0x1B" "\<And>r d. br_current r = int base + int m \<Longrightarrow> g r d = get_number k Format_cbor h q r d" for m k
  proof -
    have "after_byte (int base + int m) g (write_number k n @ bs) d d'"
      by (rule head_number [OF assms(1) that(1,3)]) simp_all
    moreover have "byte (char_of (base + m)) = int base + int m"
      using that(2) assms(2) by (subst byte_char_of) simp_all
    ultimately show ?thesis by (intro consumes_get) simp
  qed
  consider "n \<le> 0x17" | "0x17 < n" "n \<le> 0xFF" | "0xFF < n" "n \<le> 0xFFFF" | "0xFFFF < n" "n \<le> 0xFFFFFFFF" | "0xFFFFFFFF < n"
    by (metis linorder_not_le)
  then show ?thesis
  proof cases
    case 1
    then have n: "unat n \<le> 23" by (simp add: word_le_nat_alt)
    have b: "unat (word_of_nat base :: u64) = base" using assms(2) by (intro unat_count) simp
    have "unat (word_of_nat base + n) = base + unat n"
      using iffD1 [OF unat_add_lem [of "word_of_nat base" n]] n assms(2) unfolding b by simp
    then have head: "write_cbor_head base n = [char_of (base + unat n)]"
      using 1 by (simp add: write_cbor_head_def write_number_1)
    have "byte (char_of (base + unat n)) = int base + uint n"
      unfolding uint_nat by (subst byte_char_of) (use n assms(2) in simp_all)
    moreover have "after_byte (int base + uint n) g bs d d'"
      by (rule switch_after [OF assms(1)]) (rule small, assumption, use n in \<open>simp only: uint_nat\<close>)
    ultimately have "consumes (\<lambda>r. g (br_get r)) (char_of (base + unat n) # bs) d d'"
      by (intro consumes_get) simp
    then show ?thesis by (simp add: head)
  next
    case 2
    then show ?thesis using numbered [of 1 "0x18"] number(1)
      by (simp add: write_cbor_head_def word_le_nat_alt word_less_nat_alt)
  next
    case 3
    then show ?thesis using numbered [of 2 "0x19"] number(2)
      by (simp add: write_cbor_head_def word_le_nat_alt word_less_nat_alt)
  next
    case 4
    then show ?thesis using numbered [of 4 "0x1A"] number(3)
      by (simp add: write_cbor_head_def word_le_nat_alt word_less_nat_alt)
  next
    case 5
    then show ?thesis using numbered [of 8 "0x1B"] number(4) unat_u64 [of n]
      by (simp add: write_cbor_head_def word_le_nat_alt word_less_nat_alt)
  qed
qed

lemma write_cbor_head_nonempty: "write_cbor_head base n \<noteq> []"
  by (simp add: write_cbor_head_def)

text \<open>The low bits of the first byte hold a small number.\<close>

lemma low_bits: "(c :: int) AND 0x1F = c mod 32"
proof -
  have "(c :: int) AND 0x1F = take_bit 5 c" by (simp add: take_bit_eq_mask mask_eq_exp_minus_1)
  then show ?thesis by (simp add: take_bit_eq_mod)
qed

lemma low_number:
  fixes n :: u64
  assumes "uint n \<le> 0x17"
  shows "word_of_int ((0x40 + uint n) AND 0x1F) = n" "word_of_int ((0x60 + uint n) AND 0x1F) = n"
    "word_of_int ((0x80 + uint n) AND 0x1F) = n" "word_of_int ((0xA0 + uint n) AND 0x1F) = n"
proof -
  have "0 \<le> uint n" by simp
  then have "(0x40 + uint n) mod 32 = uint n" "(0x60 + uint n) mod 32 = uint n"
    "(0x80 + uint n) mod 32 = uint n" "(0xA0 + uint n) mod 32 = uint n"
    using assms by presburger+
  then show "word_of_int ((0x40 + uint n) AND 0x1F) = n" "word_of_int ((0x60 + uint n) AND 0x1F) = n"
    "word_of_int ((0x80 + uint n) AND 0x1F) = n" "word_of_int ((0xA0 + uint n) AND 0x1F) = n"
    unfolding low_bits by (simp_all only: word_of_int_uint)
qed

section \<open>The switch\<close>

lemmas cbor_switch_defs = cbor_switch_def cbor_integers_def cbor_containers_def cbor_rest_def Let_def

lemma switch_small_unsigned:
  "br_current r = c \<Longrightarrow> 0 \<le> c \<Longrightarrow> c \<le> 0x17 \<Longrightarrow>
     cbor_switch p h t r d = br_sax (sax_number_unsigned h (word_of_int c)) r d"
  by (simp add: cbor_switch_defs)

lemma switch_small_negative:
  "br_current r = c \<Longrightarrow> 0x20 \<le> c \<Longrightarrow> c \<le> 0x37 \<Longrightarrow>
     cbor_switch p h t r d = br_sax (sax_number_integer h (word_of_int (0x20 - 1 - c))) r d"
  by (simp add: cbor_switch_defs)

lemma cbor_switch_binary:
  "br_current r = c \<Longrightarrow> 0x40 \<le> c \<Longrightarrow> c \<le> 0x5B \<Longrightarrow>
     cbor_switch p h t r d = get_cbor_binary h (\<lambda>b. br_sax (sax_binary h b None)) r d"
  by (simp add: cbor_switch_defs)

lemma cbor_switch_string:
  "br_current r = c \<Longrightarrow> 0x60 \<le> c \<Longrightarrow> c \<le> 0x7B \<Longrightarrow>
     cbor_switch p h t r d = get_cbor_string h (\<lambda>s. br_sax (sax_string h s)) r d"
  by (simp add: cbor_switch_defs)

lemma switch_small_array:
  "br_current r = c \<Longrightarrow> 0x80 \<le> c \<Longrightarrow> c \<le> 0x97 \<Longrightarrow>
     cbor_switch p h t r d = get_cbor_array p h (word_of_int (c AND 0x1F)) r d"
  by (simp add: cbor_switch_defs)

lemma switch_small_object:
  "br_current r = c \<Longrightarrow> 0xA0 \<le> c \<Longrightarrow> c \<le> 0xB7 \<Longrightarrow>
     cbor_switch p h t r d = get_cbor_object p h (word_of_int (c AND 0x1F)) r d"
  by (simp add: cbor_switch_defs)

lemma switch_tag:
  "br_current r = c \<Longrightarrow> 0xD8 \<le> c \<Longrightarrow> c \<le> 0xDB \<Longrightarrow> cbor_switch p h t r d = cbor_tag p h t r d"
  by (simp add: cbor_switch_defs)

text \<open>Strings and binary values of definite length.\<close>

lemma chars_first:
  "br_current r \<noteq> eof \<Longrightarrow> get_cbor_chars (cbor_fuel r) kind h f r d
     = cbor_chars_switch (get_cbor_chunks (2 * length (br_ia r) + 2) kind h f [] r d) kind h f r d"
  by (simp add: cbor_fuel_def numeral_3_eq_3 unexpect_eof_def)

lemma chars_consumed:
  assumes "consumes (f s) bs d d'" "length s < 2 ^ 32"
    and g: "\<And>r d. cbor_base kind \<le> br_current r \<Longrightarrow> br_current r \<le> cbor_base kind + 0x1B \<Longrightarrow>
      g r d = get_cbor_chars (cbor_fuel r) kind h f r d"
  shows "consumes (\<lambda>r. g (br_get r)) (write_cbor_head (nat (cbor_base kind)) (word_of_nat (length s)) @ s @ bs) d d'"
proof -
  let ?n = "word_of_nat (length s) :: u64"
  let ?q = "\<lambda>len. get_chars (unat len) Format_cbor (cbor_context kind) h f []"
  have "consumes (?q ?n) (s @ bs) d d'"
    using consumes_chars [of f "[]" s bs d d'] assms(1) by (simp add: unat_count [OF assms(2)])
  then show ?thesis
  proof (rule head_consumed [of ?q], goal_cases)
    case (2 r d)
    define u where "u = uint ?n"
    have u: "0 \<le> u" "u \<le> 0x17" "word_of_int ((0x40 + u) AND 0x1F) = ?n" "word_of_int ((0x60 + u) AND 0x1F) = ?n"
      using 2(2) low_number [of ?n] by (simp_all add: u_def)
    have "br_current r = int (nat (cbor_base kind)) + u" using 2(1) by (simp add: u_def)
    then show ?case using u
      by (cases kind) (simp_all add: g chars_first cbor_chars_switch_def del: get_cbor_chars.simps)
  qed (cases kind; simp add: g chars_first cbor_chars_switch_def del: get_cbor_chars.simps)+
qed

section \<open>Scalars\<close>

lemma unsigned_encoded:
  assumes "sax_number_unsigned h n d = Inr (True, d')"
  shows "consumes (\<lambda>r. cbor_switch p h t (br_get r)) (write_cbor_head 0x00 n) d d'"
proof -
  let ?q = "\<lambda>n. br_sax (sax_number_unsigned h n)"
  have "consumes (\<lambda>r. cbor_switch p h t (br_get r)) (write_cbor_head 0x00 n @ []) d d'"
  proof (rule head_consumed [of ?q n "[]" d d' "0x00" "cbor_switch p h t" h], goal_cases)
    case 1
    then show ?case by (rule consumes_sax [of "sax_number_unsigned h n", OF assms])
  next
    case (3 r d)
    then show ?case using switch_small_unsigned [of r "uint n" p h t d] by simp
  qed (simp_all add: cbor_switch_defs)
  then show ?thesis by simp
qed

lemma negative_encoded:
  assumes "sax_number_integer h n d = Inr (True, d')"
  shows "consumes (\<lambda>r. cbor_switch p h t (br_get r)) (write_cbor_head 0x20 (- 1 - n)) d d'"
proof -
  let ?q = "\<lambda>m. br_sax (sax_number_integer h (- 1 - m))" and ?m = "- 1 - n"
  have "consumes (\<lambda>r. cbor_switch p h t (br_get r)) (write_cbor_head 0x20 ?m @ []) d d'"
  proof (rule head_consumed [of ?q ?m "[]" d d' "0x20" "cbor_switch p h t" h], goal_cases)
    case 1
    then show ?case using consumes_sax [of "sax_number_integer h n", OF assms] by simp
  next
    case (3 r d)
    define u where "u = uint ?m"
    have u: "0 \<le> u" "u \<le> 0x17" "br_current r = 0x20 + u" using 3 by (simp_all add: u_def)
    have "word_of_int (0x20 - 1 - (0x20 + u)) = - 1 - (word_of_int u :: u64)" by simp
    also have "word_of_int u = ?m" unfolding u_def by (rule word_of_int_uint)
    finally show ?case using switch_small_negative [OF u(3), of p h t d] u by simp
  qed (simp_all add: cbor_switch_defs)
  then show ?thesis by simp
qed

lemma half_consumed:
  assumes "sax_number_float h (dbl_of_half (nat (byte c1) * 256 + nat (byte c2))) [] d = Inr (True, d')"
  shows "consumes (\<lambda>r. cbor_switch p h t (br_get r)) [chr 0xF9, c1, c2] d d'"
proof -
  have "consumes (get_cbor_half h) [c1, c2] d d'"
    using assms by (simp add: consumes_def get_cbor_half_def unexpect_eof_def br_sax_def Let_def)
  then have "after_byte (byte (chr 0xF9)) (cbor_switch p h t) [c1, c2] d d'"
    by (rule switch_after) (simp add: cbor_switch_defs)
  then show ?thesis by (rule consumes_get)
qed

text \<open>There are two infinities.\<close>

lemma infinite_dbl:
  assumes "\<not> dbl_isfinite x" "\<not> dbl_isnan x"
  shows "x = (if dbl_less 0 x then 0x7FF0000000000000 else 0xFFF0000000000000)"
proof -
  have "unat x = (if dbl_sign x then 2 ^ 63 else 0) + 2047 * 2 ^ 52"
    using dbl_parts [of x] assms by (simp add: dbl_isfinite_def dbl_isnan_def)
  then have "unat x = unat (if dbl_sign x then 0xFFF0000000000000 else 0x7FF0000000000000 :: dbl)"
    by (simp split: if_split)
  then have x: "x = (if dbl_sign x then 0xFFF0000000000000 else 0x7FF0000000000000)"
    by (simp only: unsigned_word_eqI)
  have "dbl_less 0 (0x7FF0000000000000 :: dbl)" "\<not> dbl_less 0 (0xFFF0000000000000 :: dbl)"
    by (simp_all add: dbl_less_def dbl_rank_def dbl_isnan_def dbl_exponent_def dbl_fraction_def dbl_sign_iff)
  then show ?thesis using x by (cases "dbl_sign x") simp_all
qed

lemma half_infinite: "dbl_of_half 0x7C00 = 0x7FF0000000000000" "dbl_of_half 0xFC00 = 0xFFF0000000000000"
  by (simp_all add: dbl_of_half_def)

lemma float_encoded:
  assumes "sax_number_float h x [] d = Inr (True, d')" "\<not> dbl_isnan x"
  shows "consumes (\<lambda>r. cbor_switch p h t (br_get r)) (write_cbor_float x) d d'"
proof (cases "dbl_isfinite x")
  case True
  have "consumes (\<lambda>r. cbor_switch p h t (br_get r)) (write_compact_float (chr 0xFA) (chr 0xFB) x) d d'"
    by (rule compact_float_consumed [where format = Format_cbor and h = h])
      (use assms in \<open>simp_all add: cbor_switch_defs\<close>)
  then show ?thesis using True assms(2) by (simp add: write_cbor_float_def)
next
  case False
  note x = infinite_dbl [OF False assms(2)]
  show ?thesis
  proof (cases "dbl_less 0 x")
    case True
    have "consumes (\<lambda>r. cbor_switch p h t (br_get r)) [chr 0xF9, chr 0x7C, chr 0x00] d d'"
      by (rule half_consumed) (use assms(1) x True in \<open>simp add: half_infinite\<close>)
    then show ?thesis using True False assms(2) by (simp add: write_cbor_float_def)
  next
    case neg: False
    have "consumes (\<lambda>r. cbor_switch p h t (br_get r)) [chr 0xF9, chr 0xFC, chr 0x00] d d'"
      by (rule half_consumed) (use assms(1) x neg in \<open>simp add: half_infinite\<close>)
    then show ?thesis using neg False assms(2) by (simp add: write_cbor_float_def)
  qed
qed

text \<open>Strings and keys, and binary values, whose tag only the handler \<open>Tag_store\<close> reads.\<close>

lemma key_encoded:
  assumes "consumes (f s) [] d d'" "length s < 2 ^ 32"
  shows "consumes (\<lambda>r. get_cbor_string h f (br_get r)) (write_cbor_string s) d d'"
  using chars_consumed [of f s "[]" d d' Cbor_string "get_cbor_string h f" h] assms
  by (simp add: write_cbor_string_def get_cbor_string_def)

lemma string_encoded:
  assumes "sax_string h s d = Inr (True, d')" "length s < 2 ^ 32"
  shows "consumes (\<lambda>r. cbor_switch p h t (br_get r)) (write_cbor_string s) d d'"
  using chars_consumed [of "\<lambda>s. br_sax (sax_string h s)" s "[]" d d' Cbor_string "cbor_switch p h t" h]
    consumes_sax [of "sax_string h s", OF assms(1)] assms(2)
  by (simp add: write_cbor_string_def cbor_switch_string get_cbor_string_def)

abbreviation sized_binary :: "string \<Rightarrow> string" where
  "sized_binary s \<equiv> write_cbor_head 0x40 (word_of_nat (length s)) @ s"

lemma untagged_binary_encoded:
  assumes "sax_binary h s None d = Inr (True, d')" "length s < 2 ^ 32"
  shows "consumes (\<lambda>r. cbor_switch p h t (br_get r)) (sized_binary s) d d'"
  using chars_consumed [of "\<lambda>s. br_sax (sax_binary h s None)" s "[]" d d' Cbor_binary "cbor_switch p h t" h]
    consumes_sax [of "sax_binary h s None", OF assms(1)] assms(2)
  by (simp add: cbor_switch_binary get_cbor_binary_def)

lemma unchecked_consumed:
  assumes "consumes (f (take_bit (8 * k) n)) bs d d'" "format \<noteq> Format_bjdata"
  shows "consumes (get_number_unchecked k format h f) (write_number k n @ bs) d d'"
  using consumes_number [of f k n bs d d' format h] assms by (simp add: consumes_def get_number_unchecked_def)

lemma tagged_binary_encoded:
  assumes "sax_binary h s (Some k) d = Inr (True, d')" "length s < 2 ^ 32"
  shows "consumes (\<lambda>r. cbor_switch p h Tag_store (br_get r)) (write_cbor_binary s (Some k)) d d'"
proof -
  let ?f = "\<lambda>subtype r. get_cbor_binary h (\<lambda>b. br_sax (sax_binary h b (Some subtype))) (br_get r)"
  have binary: "consumes (?f k) (sized_binary s) d d'"
    using chars_consumed [of "\<lambda>s. br_sax (sax_binary h s (Some k))" s "[]" d d' Cbor_binary
        "get_cbor_binary h (\<lambda>s. br_sax (sax_binary h s (Some k)))" h]
      consumes_sax [of "sax_binary h s (Some k)", OF assms(1)] assms(2)
    by (simp add: get_cbor_binary_def)
  have tagged: "consumes (\<lambda>r. cbor_switch p h Tag_store (br_get r)) (c # write_number j k @ sized_binary s) d d'"
    if "unat k < 256 ^ j" "tag_bytes (byte c) = Some j" for j c
  proof -
    have "consumes (?f (take_bit (8 * j) k)) (sized_binary s) d d'" using binary take_small [OF that(1)] by simp
    then have "consumes (get_number_unchecked j Format_cbor h ?f) (write_number j k @ sized_binary s) d d'"
      by (rule unchecked_consumed) simp
    moreover have "0xD8 \<le> byte c" "byte c \<le> 0xDB" using that(2) by (auto simp: tag_bytes_def split: if_splits)
    ultimately have "after_byte (byte c) (cbor_switch p h Tag_store) (write_number j k @ sized_binary s) d d'"
      by (intro switch_after) (simp_all add: switch_tag cbor_tag_def that(2))
    then show ?thesis by (rule consumes_get)
  qed
  note tags = tagged [of 1 "chr 0xD8"] tagged [of 2 "chr 0xD9"] tagged [of 4 "chr 0xDA"] tagged [of 8 "chr 0xDB"]
  have bytes: "write_number (Suc 0) 0xD8 = [chr 0xD8]" "write_number (Suc 0) 0xD9 = [chr 0xD9]"
    "write_number (Suc 0) 0xDA = [chr 0xDA]" "write_number (Suc 0) 0xDB = [chr 0xDB]"
    by (simp_all add: write_number_1 flip: chr_int)
  consider "k \<le> 0xFF" | "0xFF < k" "k \<le> 0xFFFF" | "0xFFFF < k" "k \<le> 0xFFFFFFFF" | "0xFFFFFFFF < k"
    by (metis linorder_not_le)
  then show ?thesis
  proof cases
    case 1
    then show ?thesis using tags(1)
      by (simp add: write_cbor_binary_def write_cbor_subtype_def bytes word_le_nat_alt word_less_nat_alt tag_bytes_def)
  next
    case 2
    then show ?thesis using tags(2)
      by (simp add: write_cbor_binary_def write_cbor_subtype_def bytes word_le_nat_alt word_less_nat_alt tag_bytes_def)
  next
    case 3
    then show ?thesis using tags(3)
      by (simp add: write_cbor_binary_def write_cbor_subtype_def bytes word_le_nat_alt word_less_nat_alt tag_bytes_def)
  next
    case 4
    then show ?thesis using tags(4) unat_u64 [of k]
      by (simp add: write_cbor_binary_def write_cbor_subtype_def bytes word_le_nat_alt word_less_nat_alt tag_bytes_def)
  qed
qed

section \<open>Containers\<close>

lemma count_known: "n < 2 ^ 32 \<Longrightarrow> word_of_nat n \<noteq> unknown_size"
proof -
  assume n: "n < 2 ^ 32"
  have "unat (word_of_nat n :: u64) < 2 ^ 32" unfolding unat_count [OF n] by (rule n)
  moreover have "unat unknown_size = 2 ^ 64 - 1"
    by (simp add: unknown_size_def unsigned_minus_1_eq_mask mask_eq_exp_minus_1)
  ultimately show ?thesis by auto
qed

lemma array_encoded:
  assumes elements: "\<And>x d d'. x \<in> set xs \<Longrightarrow> accepts h (pack_events x) d d' \<Longrightarrow> consumes (p True) (write_cbor x) d d'"
    and len: "length xs < 2 ^ 32" and acc: "accepts h (pack_events (JArray xs)) d d'"
  shows "consumes (\<lambda>r. cbor_switch p h t (br_get r)) (write_cbor (JArray xs)) d d'"
proof -
  let ?n = "word_of_nat (length xs) :: u64"
  obtain d1 d2 where d: "sax_start_array h ?n d = Inr (True, d1)" "accepts h (concat (map pack_events xs)) d1 d2"
      "sax_end_array h d2 = Inr (True, d')"
    using acc by (auto simp: accepts_append)
  note first = consumes_sax [of "sax_start_array h ?n" d d1, OF d(1)]
  note last = consumes_sax [of "sax_end_array h" d2 d', OF d(3)]
  have "consumes (read_elements (length xs) (p True)) (concat (map write_cbor xs)) d1 d2"
    by (rule consumes_elements [OF elements d(2)])
  from consumes_and [OF first consumes_and [OF this last]]
  have body: "consumes (get_cbor_array p h ?n) (concat (map write_cbor xs)) d d'"
    using count_known [OF len] by (simp add: get_cbor_array_def unat_count [OF len] consumes_def)
  have "consumes (\<lambda>r. cbor_switch p h t (br_get r)) (write_cbor_head 0x80 ?n @ concat (map write_cbor xs)) d d'"
  proof (rule head_consumed [of "get_cbor_array p h", OF body], goal_cases)
    case (2 r d)
    define u where "u = uint ?n"
    have "0 \<le> u" "u \<le> 0x17" "br_current r = 0x80 + u" "word_of_int ((0x80 + u) AND 0x1F) = ?n"
      using 2 low_number [of ?n] by (simp_all add: u_def)
    then show ?case using switch_small_array [of r "0x80 + u" p h t d] by simp
  qed (simp_all add: cbor_switch_defs)
  then show ?thesis by simp
qed

lemma object_encoded:
  assumes each: "\<And>q d d'. q \<in> set m \<Longrightarrow> accepts h (pack_events (snd q)) d d' \<Longrightarrow>
      consumes (p True) (write_cbor (snd q)) d d'"
    and len: "length m < 2 ^ 32" "\<And>q. q \<in> set m \<Longrightarrow> length (fst q) < 2 ^ 32"
    and acc: "accepts h (pack_events (JObject m)) d d'"
  shows "consumes (\<lambda>r. cbor_switch p h t (br_get r)) (write_cbor (JObject m)) d d'"
proof -
  let ?n = "word_of_nat (length m) :: u64" and ?bs = "concat (map (\<lambda>p. write_cbor_string (fst p) @ write_cbor (snd p)) m)"
  obtain d1 d2 where d: "sax_start_object h ?n d = Inr (True, d1)"
      "accepts h (concat (map (\<lambda>p. Ev_key (fst p) # pack_events (snd p)) m)) d1 d2"
      "sax_end_object h d2 = Inr (True, d')"
    using acc by (auto simp: accepts_append)
  note first = consumes_sax [of "sax_start_object h ?n" d d1, OF d(1)]
  note last = consumes_sax [of "sax_end_object h" d2 d', OF d(3)]
  have members: "consumes (read_members (length m) (get_cbor_string h) (p True) h) ?bs d1 d2"
    by (rule consumes_members [where es = pack_events and ks = write_cbor_string and bs = write_cbor, OF each _ d(2)])
      (assumption, assumption, rule key_encoded, assumption, erule len(2))
  have "(if ?n = 0 then Inr (True, r, d)
      else if ?n \<noteq> unknown_size then read_members (unat ?n) (get_cbor_string h) (p True) h r d
      else members_until_break (cbor_fuel r) (p True) h r d) = read_members (length m) (get_cbor_string h) (p True) h r d" for r d
    using count_known [OF len(1)] unat_count [OF len(1)] by (cases m) auto
  then have body: "consumes (get_cbor_object p h ?n) ?bs d d'"
    using consumes_and [OF first consumes_and [OF members last]] by (simp add: get_cbor_object_def consumes_def)
  have "consumes (\<lambda>r. cbor_switch p h t (br_get r)) (write_cbor_head 0xA0 ?n @ ?bs) d d'"
  proof (rule head_consumed [of "get_cbor_object p h", OF body], goal_cases)
    case (2 r d)
    define u where "u = uint ?n"
    have "0 \<le> u" "u \<le> 0x17" "br_current r = 0xA0 + u" "word_of_int ((0xA0 + u) AND 0x1F) = ?n"
      using 2 low_number [of ?n] by (simp_all add: u_def)
    then show ?case using switch_small_object [of r "0xA0 + u" p h t d] by simp
  qed (simp_all add: cbor_switch_defs)
  then show ?thesis by simp
qed

section \<open>The round trip\<close>

text \<open>A binary value with a subtype is written with a tag, which the reader accepts only when told to
  store it.\<close>

fun untagged :: "json \<Rightarrow> bool" where
  "untagged (JObject m) \<longleftrightarrow> (\<forall>p \<in> set m. untagged (snd p))"
| "untagged (JArray xs) \<longleftrightarrow> (\<forall>x \<in> set xs. untagged x)"
| "untagged (JBinary s k) \<longleftrightarrow> k = None"
| "untagged _ \<longleftrightarrow> True"

lemma constant_encoded:
  assumes "ev d = Inr (True, d')" "0 \<le> c" "c < 256" "\<And>r d. br_current r = c \<Longrightarrow> cbor_switch p h t r d = br_sax ev r d"
  shows "consumes (\<lambda>r. cbor_switch p h t (br_get r)) [chr c] d d'"
proof -
  have "after_byte (byte (chr c)) (cbor_switch p h t) [] d d'"
    by (rule switch_after [OF consumes_sax [of ev d d', OF assms(1)]]) (rule assms(4), use assms(2,3) in simp)
  then show ?thesis by (rule consumes_get)
qed

lemma scalar_encoded:
  assumes "encodable v" "accepts h (pack_events v) d d'" "\<not> is_structured v" "comparable v"
    "t = Tag_store \<or> untagged v"
  shows "consumes (\<lambda>r. cbor_switch p h t (br_get r)) (write_cbor v) d d'"
proof (cases v)
  case JNull
  then show ?thesis using assms(2) constant_encoded [of "sax_null h" d d' "0xF6" p h t] by (simp add: cbor_switch_defs)
next
  case (JBoolean b)
  then show ?thesis
    using assms(2) constant_encoded [of "sax_boolean h b" d d' "if b then 0xF5 else 0xF4" p h t]
    by (cases b) (simp_all add: cbor_switch_defs)
next
  case (JString s)
  then show ?thesis using assms string_encoded [of h s d d' p t] by simp
next
  case (JBinary s k)
  then show ?thesis
    using assms untagged_binary_encoded [of h s d d' p t] tagged_binary_encoded [of h s _ d d' p]
    by (cases k) (auto simp: write_cbor_binary_def [of s None] write_cbor_subtype_def)
next
  case (JNumber_integer n)
  then show ?thesis
    using assms(2) negative_encoded [of h n d d' p t] unsigned_encoded [of h n d d' p t]
    by (auto simp: write_cbor_integer_def split: if_splits)
next
  case (JNumber_float x)
  then show ?thesis using assms float_encoded [of h x d d' p t] by simp
qed (use assms unsigned_encoded [of h _ d d' p t] in \<open>simp_all add: is_structured_def is_array_def is_object_def\<close>)

lemma write_cbor_nonempty: "encodable v \<Longrightarrow> write_cbor v \<noteq> []"
  by (cases v) (simp_all add: write_cbor_head_nonempty write_cbor_integer_def write_cbor_float_def write_compact_float_def
    write_cbor_string_def write_cbor_binary_def)

lemma head_length: "length (write_cbor_head base n) + l \<le> Suc j \<Longrightarrow> l \<le> j"
  using write_cbor_head_nonempty [of base n] by (cases "write_cbor_head base n") simp_all

lemma parse_cbor_Suc: "parse_cbor_internal (Suc j) h t True = (\<lambda>r. cbor_switch (parse_cbor_internal j h t) h t (br_get r))"
  by (simp add: fun_eq_iff)

lemma cbor_scalar_next:
  assumes "encodable v" "length (write_cbor v) \<le> k" "accepts h (pack_events v) d d'" "comparable v"
    "t = Tag_store \<or> untagged v" "\<not> is_structured v"
  shows "consumes (parse_cbor_internal k h t True) (write_cbor v) d d'"
proof -
  obtain j where "k = Suc j" using write_cbor_nonempty [OF assms(1)] assms(2) by (cases k) auto
  then show ?thesis
    using scalar_encoded [OF assms(1,3,6,4,5), of "parse_cbor_internal j h t"] by (simp only: parse_cbor_Suc)
qed

lemma value_encoded:
  "encodable v \<Longrightarrow> length (write_cbor v) \<le> k \<Longrightarrow> accepts h (pack_events v) d d' \<Longrightarrow> comparable v \<Longrightarrow>
     t = Tag_store \<or> untagged v \<Longrightarrow> consumes (parse_cbor_internal k h t True) (write_cbor v) d d'"
proof (induction v arbitrary: k d d')
  case (JObject m)
  obtain j where k: "k = Suc j" using write_cbor_nonempty [OF JObject.prems(1)] JObject.prems(2) by (cases k) auto
  have "consumes (parse_cbor_internal j h t True) (write_cbor (snd q)) e e'"
    if q: "q \<in> set m" "accepts h (pack_events (snd q)) e e'" for q e e'
  proof (rule JObject.IH [OF q(1) _ _ _ q(2)])
    have "length (write_cbor (snd q)) \<le> length (concat (map (\<lambda>p. write_cbor_string (fst p) @ write_cbor (snd p)) m))"
      using length_le_concat [OF q(1), of "\<lambda>p. write_cbor_string (fst p) @ write_cbor (snd p)"] by simp
    then show "length (write_cbor (snd q)) \<le> j"
      using head_length [OF JObject.prems(2) [unfolded k write_cbor.simps length_append]] by simp
  qed (use JObject.prems(1,4,5) q(1) in \<open>auto simp: snds.simps\<close>)
  then show ?case unfolding k parse_cbor_Suc
    by (rule object_encoded) (use JObject.prems in auto)
next
  case (JArray xs)
  obtain j where k: "k = Suc j" using write_cbor_nonempty [OF JArray.prems(1)] JArray.prems(2) by (cases k) auto
  have "consumes (parse_cbor_internal j h t True) (write_cbor x) e e'"
    if x: "x \<in> set xs" "accepts h (pack_events x) e e'" for x e e'
  proof (rule JArray.IH [OF x(1) _ _ x(2)])
    show "length (write_cbor x) \<le> j"
      using length_le_concat [OF x(1), of write_cbor]
        head_length [OF JArray.prems(2) [unfolded k write_cbor.simps length_append]] by simp
  qed (use JArray.prems(1,4,5) x(1) in auto)
  then show ?case unfolding k parse_cbor_Suc
    by (rule array_encoded) (use JArray.prems in auto)
qed (rule cbor_scalar_next; simp add: is_structured_def is_array_def is_object_def)+

lemma cbor_document:
  assumes "consumes (parse_cbor_internal (cbor_fuel (br_init bs)) dom_sax t True) bs (dom_init n True JNull) e"
  shows "from_cbor n t bs = Inr (dom_root e)"
proof -
  have "br_ia (br_init bs) = bs @ []" by (simp add: br_init_def)
  then obtain r where r: "parse_cbor_internal (cbor_fuel (br_init bs)) dom_sax t True (br_init bs) (dom_init n True JNull)
      = Inr (True, r, e)" "br_ia r = []"
    using assms unfolding consumes_def by blast
  obtain r' where "strict_binary_end Format_cbor True dom_sax r e = Inr (True, r', e)"
    using strict_end_at_end [OF _ r(2), of Format_cbor dom_sax e] by blast
  then show ?thesis
    using r(1) by (simp add: from_cbor_def from_cbor_with_def cbor_sax_parse_def del: parse_cbor_internal.simps)
qed

lemma slot_empty: "slot (dom_init n True JNull) [] (\<lambda>v. v)"
  by (rule slot_root) (simp add: dom_init_def)

theorem cbor_back:
  assumes "encodable v" "json_inv v" "comparable v" "2 ^ 32 \<le> n + 1" "t = Tag_store \<or> untagged v"
  shows "from_cbor n t (to_cbor v) = Inr (unpacked v)"
proof -
  let ?d = "dom_init n True JNull" and ?bs = "write_cbor v"
  obtain oe where acc: "accepts dom_sax (pack_events v) ?d (?d\<lparr>dom_root := unpacked v, dom_object_element := oe\<rparr>)"
    by (rule buildsD [OF encodable_build [OF assms(1,2,4)] slot_empty]) (simp_all add: dom_init_def)
  have "length ?bs \<le> cbor_fuel (br_init ?bs)" by (simp add: cbor_fuel_def br_init_def)
  from cbor_document [OF value_encoded [OF assms(1) this acc assms(3,5)]]
  show ?thesis by (simp add: to_cbor_def)
qed

lemma write_cbor_unpacked: "write_cbor (unpacked v) = write_cbor v"
proof (induction v)
  case (JObject m)
  have "map ((\<lambda>p. write_cbor_string (fst p) @ write_cbor (snd p)) \<circ> (\<lambda>p. (fst p, unpacked (snd p)))) m
      = map (\<lambda>p. write_cbor_string (fst p) @ write_cbor (snd p)) m"
    using JObject by (auto simp: snds.simps)
  then show ?case by (simp only: write_cbor.simps unpacked.simps length_map map_map)
next
  case (JArray xs)
  then have "map (write_cbor \<circ> unpacked) xs = map write_cbor xs" by simp
  then show ?case by (simp only: write_cbor.simps unpacked.simps length_map map_map)
qed (auto simp: write_cbor_integer_def)

section \<open>Reading arbitrary input\<close>

text \<open>Any well-formed value can come out, whatever its lengths; only discarded values cannot.\<close>

fun undiscarded :: "json \<Rightarrow> bool" where
  "undiscarded (JObject m) \<longleftrightarrow> (\<forall>p \<in> set m. undiscarded (snd p))"
| "undiscarded (JArray xs) \<longleftrightarrow> (\<forall>x \<in> set xs. undiscarded x)"
| "undiscarded JDiscarded \<longleftrightarrow> False"
| "undiscarded _ \<longleftrightarrow> True"

abbreviation received :: "json \<Rightarrow> bool" where
  "received v \<equiv> undiscarded v \<and> json_inv v"

interpretation cbor: input_values received "\<lambda>_. True" "\<lambda>_. True"
  by unfold_locales auto

lemma cbor_format: "Format_cbor \<noteq> Format_json" "Format_cbor \<noteq> Format_bjdata"
  by simp_all

lemmas cbor_number = number_outcome [OF _ cbor_format]

lemmas cbor_error = error_outcome [OF _ cbor_format(1)]

lemma cbor_eof:
  "dom_allow_exceptions d \<Longrightarrow> br_current r = eof \<Longrightarrow> reading_outcome P (unexpect_eof Format_cbor context dom_sax r d)"
  by (rule unexpect_eof_outcome [OF _ cbor_format(1)]) simp_all

text \<open>Strings, binaries and their chunks: each chunk starts with a byte, so the fuel is enough.\<close>

lemma chars_switch_outcome:
  assumes "dom_allow_exceptions d" "\<And>s r'. shorter r' r \<Longrightarrow> reading_outcome P (f s r' d)" "reading_outcome P chunks"
  shows "reading_outcome P (cbor_chars_switch chunks kind dom_sax f r d)"
proof -
  have sized: "reading_outcome P (get_chars l Format_cbor context dom_sax f [] r' d)" if "shorter r' r" for l r' "context"
    by (rule chars_outcome [OF assms(1) cbor_format(1)]) (rule assms(2), erule shorter_trans [OF _ that])
  have number: "reading_outcome P (get_number k Format_cbor dom_sax (\<lambda>len. get_chars (unat len) Format_cbor context dom_sax f []) r d)"
    for k "context"
    by (rule cbor_number [OF assms(1)]) (rule sized)
  have error: "reading_outcome P (br_and (br_error Format_cbor 113 t detail context dom_sax r d) g)" for t detail "context" g
    by (rule outcome_and [OF cbor_error [OF assms(1), of 113 "\<lambda>_ _. False"]]) simp_all
  show ?thesis
    unfolding cbor_chars_switch_def Let_def
    by (rule outcome_if | rule number error assms(3) | rule sized, rule shorter_refl)+
qed

lemma chars_outcomes:
  assumes d: "dom_allow_exceptions d"
  shows "2 * length (br_ia r) + 3 \<le> n \<Longrightarrow> (\<And>s r'. shorter r' r \<Longrightarrow> reading_outcome P (f s r' d)) \<Longrightarrow>
      reading_outcome P (get_cbor_chars n kind dom_sax f r d)"
    "2 * length (br_ia r) + 2 \<le> n \<Longrightarrow> (\<And>s r'. shorter r' r \<Longrightarrow> reading_outcome P (f s r' d)) \<Longrightarrow>
      reading_outcome P (get_cbor_chunks n kind dom_sax f result r d)"
proof (induction n arbitrary: r f result)
  case (Suc n)
  note IH = Suc.IH
  { case 1
    have chunks: "reading_outcome P (get_cbor_chunks n kind dom_sax f [] r d)"
      by (rule IH(2)) (use 1(1) in simp, rule 1(2))
    have "reading_outcome P (cbor_chars_switch (get_cbor_chunks n kind dom_sax f [] r d) kind dom_sax f r d)"
      by (rule chars_switch_outcome [OF d _ chunks]) (rule 1(2))
    then show ?case
      unfolding get_cbor_chars.simps
      by (intro outcome_and [OF unexpect_eof_outcome [OF d cbor_format(1), of r "\<lambda>r' d'. r' = r \<and> d' = d"]]) auto
  next
    case 2
    let ?r = "br_get r"
    have f: "reading_outcome P (f s r' d)" if "shorter r' ?r" for s r'
      by (rule 2(2)) (rule shorter_trans [OF that shorter_get])
    have "reading_outcome P (get_cbor_chars n kind dom_sax (\<lambda>chunk. get_cbor_chunks n kind dom_sax f (result @ chunk)) ?r d)"
    proof (cases "br_current ?r = eof")
      case True
      obtain m where "n = Suc m" using 2(1) by (cases n) auto
      then show ?thesis using cbor_eof [OF d True, of "\<lambda>_ _. False"] by (auto intro: outcome_and)
    next
      case False
      then have l: "length (br_ia ?r) < length (br_ia r)" by (rule br_get_length(2))
      show ?thesis
      proof (rule IH(1))
        show "2 * length (br_ia ?r) + 3 \<le> n" using l 2(1) by simp
        fix s r' assume r': "shorter r' ?r"
        show "reading_outcome P (get_cbor_chunks n kind dom_sax f (result @ s) r' d)"
          by (rule IH(2)) (use r' l 2(1) in \<open>simp add: shorter_def\<close>, rule f, erule shorter_trans [OF _ r'])
      qed
    qed
    then show ?case by (simp add: Let_def f)
  }
qed simp_all

lemma cbor_keys: "reads_keys (\<lambda>_. True) (get_cbor_string dom_sax)" "reads_keys (\<lambda>_. True) (get_cbor_binary dom_sax)"
  unfolding get_cbor_string_def [abs_def] get_cbor_binary_def [abs_def]
  by (rule reads_keysI, rule chars_outcomes(1), assumption, simp add: cbor_fuel_def, simp)+

text \<open>A reader of values, applied to the reader behind a first byte \<open>br_get r\<close>.\<close>

definition reads_after :: "nat \<Rightarrow> (binary_reader \<Rightarrow> dom_parser \<Rightarrow> dom_parser reading) \<Rightarrow> bool" where
  "reads_after k p \<longleftrightarrow> (\<forall>r d q put. slot d q put \<and> dom_allow_exceptions d \<and> length (br_ia r) < k \<longrightarrow>
     fills received (br_get r) d put (p (br_get r) d)
     \<and> (br_current (br_get r) = eof \<longrightarrow> reading_outcome (\<lambda>_ _. False) (p (br_get r) d)))"

lemma reads_after_values: "reads_after k p \<Longrightarrow> reads_values received k (\<lambda>r. p (br_get r))"
  unfolding reads_after_def by (intro reads_valuesI) (rule fills_mono [OF _ shorter_get], blast)

lemma until_break_outcome:
  assumes p: "reads_after k p"
  shows "inside q put (JArray ys) d \<Longrightarrow> dom_allow_exceptions d \<Longrightarrow> length (br_ia r) < k \<Longrightarrow> length (br_ia r) < n \<Longrightarrow>
    cbor.elements_read r d put ys (\<lambda>_. True) (elements_until_break n p r d)"
proof (induction n arbitrary: ys d r)
  case (Suc n)
  let ?r = "br_get r" and ?put = "\<lambda>v. put (JArray (ys @ [v]))"
  have s: "slot d (q @ [Idx (length ys)]) ?put" by (rule inside_element [OF Suc.prems(1)])
  have first: "fills received ?r d ?put (p ?r d)" "br_current ?r = eof \<Longrightarrow> reading_outcome (\<lambda>_ _. False) (p ?r d)"
    using p s Suc.prems(2,3) unfolding reads_after_def by blast+
  have "cbor.elements_read r d put ys (\<lambda>_. True) (br_and (p ?r d) (elements_until_break n p))"
  proof (cases "br_current ?r = eof")
    case True
    show ?thesis by (rule outcome_and [OF first(2) [OF True]]) simp
  next
    case False
    then have l: "length (br_ia ?r) < length (br_ia r)" by (rule br_get_length(2))
    have "cbor.elements_read ?r d put ys (\<lambda>l. 0 < l \<and> True) (br_and (p ?r d) (elements_until_break n p))"
    proof (rule cbor.element_outcome [OF Suc.prems(1) first(1) lessI Suc.prems(2)])
      fix v and d1 :: dom_parser and r1 :: binary_reader
      assume "inside q put (JArray (ys @ [v])) d1" "dom_allow_exceptions d1" "length (br_ia r1) < Suc (length (br_ia ?r))"
      then show "cbor.elements_read r1 d1 put (ys @ [v]) (\<lambda>_. True) (elements_until_break n p r1 d1)"
        using l Suc.prems(3,4) by (intro Suc.IH) simp_all
    qed
    then show ?thesis by (rule outcome_mono) (use shorter_trans [OF _ shorter_get] in blast)
  qed
  moreover have "cbor.elements_read r d put ys (\<lambda>_. True) (Inr (True, ?r, d))"
    by (rule cbor.elements_done [OF Suc.prems(1) _ shorter_get]) simp
  ultimately show ?case by (simp add: Let_def)
qed simp

lemma members_until_break_outcome:
  assumes p: "reads_values received k p"
  shows "inside q put (JObject m) d \<Longrightarrow> dom_allow_exceptions d \<Longrightarrow> length (br_ia r) < k \<Longrightarrow> smap_inv m \<Longrightarrow>
    \<forall>x \<in> set m. True \<and> received (snd x) \<Longrightarrow> length (br_ia r) < n \<Longrightarrow>
    cbor.members_read r d put (\<lambda>_. True) (members_until_break n p dom_sax r d)"
proof (induction n arbitrary: m d r)
  case (Suc n)
  let ?r = "br_get r"
  let ?rest = "br_and (br_and (get_cbor_string dom_sax (\<lambda>key. br_sax (sax_key dom_sax key)) ?r d) p) (members_until_break n p dom_sax)"
  have "cbor.members_read r d put (\<lambda>_. True) ?rest"
  proof (cases "br_current ?r = eof")
    case True
    have "reading_outcome (\<lambda>_ _. False) (get_cbor_string dom_sax (\<lambda>key. br_sax (sax_key dom_sax key)) ?r d)"
      using cbor_eof [OF Suc.prems(2) True, of "\<lambda>_ _. False"]
      by (auto simp: get_cbor_string_def cbor_fuel_def numeral_3_eq_3 intro: outcome_and)
    then have "reading_outcome (\<lambda>_ _. False) (br_and (get_cbor_string dom_sax (\<lambda>key. br_sax (sax_key dom_sax key)) ?r d) p)"
      by (rule outcome_and) simp
    then show ?thesis by (rule outcome_and) simp
  next
    case False
    then have l: "length (br_ia ?r) < length (br_ia r)" by (rule br_get_length(2))
    show ?thesis
    proof (rule cbor.member_outcome [OF Suc.prems(1-5) cbor_keys(1) p])
      fix m' and d1 :: dom_parser and r1 :: binary_reader
      assume *: "inside q put (JObject m') d1" "dom_allow_exceptions d1" "shorter r1 ?r" "smap_inv m'"
        "\<forall>x \<in> set m'. True \<and> received (snd x)"
      have "length (br_ia r1) < length (br_ia r)" using *(3) l by (simp add: shorter_def)
      then show "cbor.members_read r1 d1 put (\<lambda>_. True) (members_until_break n p dom_sax r1 d1)"
        using * Suc.prems(3,6) by (intro Suc.IH) simp_all
    qed
  qed
  moreover have "cbor.members_read r d put (\<lambda>_. True) (Inr (True, ?r, d))"
    by (rule cbor.members_done [OF Suc.prems(1,4,5) _ shorter_get]) simp
  ultimately show ?case by (simp add: Let_def)
qed simp

text \<open>Arrays and objects of definite and of indefinite length.\<close>

lemma cbor_array_outcome:
  assumes p: "reads_values received k (p True)" "reads_after k (p False)"
    and s: "slot d q put" "dom_allow_exceptions d" "length (br_ia r) < k" and r: "shorter r0 r"
  shows "fills received r d put (get_cbor_array p dom_sax n r0 d)"
  unfolding get_cbor_array_def
proof (rule cbor.array_outcome [OF s(1,2) r, of "\<lambda>_. True"], goal_cases)
  case (2 r1 d1)
  have l: "length (br_ia r1) < k" using 2(3) s(3) by (simp add: shorter_def)
  have "cbor.elements_read r1 d1 put [] (\<lambda>_. True) (read_elements (unat n) (p True) r1 d1)"
    by (rule outcome_mono [OF cbor.elements_outcome [OF p(1) 2(1,2) l, of "unat n"]]) blast
  moreover have "cbor.elements_read r1 d1 put [] (\<lambda>_. True) (elements_until_break (cbor_fuel r1) (p False) r1 d1)"
    by (rule until_break_outcome [OF p(2) 2(1,2) l]) (simp add: cbor_fuel_def)
  ultimately show ?case by simp
qed simp

lemma cbor_object_outcome:
  assumes p: "reads_values received k (p True)"
    and s: "slot d q put" "dom_allow_exceptions d" "length (br_ia r) < k" and r: "shorter r0 r"
  shows "fills received r d put (get_cbor_object p dom_sax n r0 d)"
  unfolding get_cbor_object_def
proof (rule cbor.object_outcome [OF s(1,2) r, of "\<lambda>_. True"], goal_cases)
  case (2 r1 d1)
  have l: "length (br_ia r1) < k" using 2(3) s(3) by (simp add: shorter_def)
  have "cbor.members_read r1 d1 put (\<lambda>_. True) (read_members (unat n) (get_cbor_string dom_sax) (p True) dom_sax r1 d1)"
    by (rule cbor.members_mono [OF cbor.members_outcome [OF cbor_keys(1) p 2(1,2) l, of "unat n"]]) simp_all
  moreover have "cbor.members_read r1 d1 put (\<lambda>_. True) (members_until_break (cbor_fuel r1) (p True) dom_sax r1 d1)"
    by (rule members_until_break_outcome [OF p 2(1,2) l]) (simp_all add: cbor_fuel_def)
  moreover have "cbor.members_read r1 d1 put (\<lambda>_. True) (Inr (True, r1, d1))"
    by (rule cbor.members_done [OF 2(1)]) simp_all
  ultimately show ?case by simp
qed simp

text \<open>Numbers, tags and half-precision floats.\<close>

lemma unchecked_outcome:
  assumes "dom_allow_exceptions d" "\<And>n r'. shorter r' r \<Longrightarrow> reading_outcome P (f n r' d)"
  shows "reading_outcome P (get_number_unchecked k Format_cbor dom_sax f r d)"
proof (cases "length (br_ia r) < k")
  case True
  let ?r = "r\<lparr>br_ia := drop k (br_ia r), br_chars_read := br_chars_read r + length (take k (br_ia r)) + 1\<rparr>"
  obtain e where "br_error Format_cbor 110 ''<end of file>'' ''unexpected end of input'' ''number'' dom_sax ?r d = Inl e"
      "binary_error e"
    using dom_error [OF assms(1) cbor_format(1)] by metis
  then show ?thesis using True by (simp add: get_number_unchecked_def get_number_def get_to_def Let_def)
next
  case False
  have "reading_outcome P (get_number k Format_cbor dom_sax f r d)"
    by (rule cbor_number [OF assms(1)]) (rule assms(2))
  then show ?thesis using False by (simp add: get_number_unchecked_def)
qed

lemma tag_outcome:
  assumes p: "reads_values received k (p True)" and s: "slot d q put" "dom_allow_exceptions d" "length (br_ia r) < k"
  shows "fills received r d put (cbor_tag p dom_sax t r d)"
proof -
  have inner: "fills received r d put (p True r' d)" if "shorter r' r" for r'
  proof (rule fills_mono [OF _ that])
    have "length (br_ia r') < k" using that s(3) by (simp add: shorter_def)
    then show "fills received r' d put (p True r' d)" using p s(1,2) unfolding reads_values_def by blast
  qed
  have binary: "fills received r d put (get_cbor_binary dom_sax (\<lambda>b. br_sax (sax_binary dom_sax b k)) (br_get r') d)"
    if "shorter r' r" for k r'
  proof (rule reads_keysD [OF cbor_keys(2) s(2) current_range])
    fix b r1 assume "shorter r1 (br_get r')"
    then show "fills received r d put (br_sax (sax_binary dom_sax b k) r1 d)"
      using shorter_trans [OF shorter_trans [OF _ shorter_get] that]
      by (intro value_fills [OF s(1), of received "JBinary b k"]) (simp_all add: dom_sax_def)
  qed
  show ?thesis
  proof (cases t)
    case Tag_error
    then show ?thesis using cbor_error [OF s(2), of 112] by (simp add: cbor_tag_def del: append.simps)
  next
    case Tag_ignore
    have "fills received r d put (get_number_unchecked j Format_cbor dom_sax (\<lambda>_. p True) r d)" for j
      by (rule unchecked_outcome [OF s(2)]) (rule inner)
    then show ?thesis using Tag_ignore inner by (simp add: cbor_tag_def split: option.split)
  next
    case Tag_store
    have "fills received r d put (get_number_unchecked j Format_cbor dom_sax (\<lambda>subtype r.
        get_cbor_binary dom_sax (\<lambda>b. br_sax (sax_binary dom_sax b (Some subtype))) (br_get r)) r d)" for j
      by (rule unchecked_outcome [OF s(2)]) (rule binary)
    then show ?thesis using Tag_store inner by (simp add: cbor_tag_def split: option.split)
  qed
qed

lemma half_outcome:
  assumes s: "slot d q put" "dom_allow_exceptions d"
  shows "fills received r d put (get_cbor_half dom_sax r d)"
proof -
  have eof: "reading_outcome (\<lambda>r2 d2. shorter r2 r \<and> d2 = d) (unexpect_eof Format_cbor ''number'' dom_sax r1 d)"
    if "shorter r1 r" for r1
    by (rule unexpect_eof_outcome [OF s(2) cbor_format(1)]) (use that in simp)
  have float: "fills received r d put (br_sax (sax_number_float dom_sax x []) r1 d)" if "shorter r1 r" for x r1
    by (rule value_fills [OF s(1), of received "JNumber_float x"]) (use that in \<open>simp_all add: dom_sax_def\<close>)
  show ?thesis
    unfolding get_cbor_half_def Let_def
  proof (rule outcome_and [OF eof [OF shorter_get]], elim conjE)
    fix r1 d1 assume r1: "shorter r1 r" and d1: "d1 = d"
    show "fills received r d put (br_and (unexpect_eof Format_cbor ''number'' dom_sax (br_get r1) d1) (\<lambda>r' d'.
        br_sax (sax_number_float dom_sax (dbl_of_half (nat (br_current r1 mod 256) * 256 + nat (br_current r' mod 256))) []) r' d'))"
      unfolding d1 by (rule outcome_and [OF eof [OF shorter_trans [OF shorter_get r1]]]) (elim conjE, hypsubst, rule float)
  qed
qed

lemma cbor_switch_outcome:
  assumes p: "reads_values received k (p True)" "reads_after k (p False)"
    and s: "slot d q put" "dom_allow_exceptions d" "length (br_ia r) < k"
    and c: "- 1 \<le> br_current r" "br_current r < 256"
  shows "fills received r d put (cbor_switch p dom_sax t r d)"
proof -
  have scalar: "fills received r d put (br_sax ev r d)" if "received v" "ev d = dom_value v d" for ev v
    by (rule value_fills [OF s(1), of received v]) (simp_all add: that)
  have str: "fills received r d put (get_cbor_string dom_sax (\<lambda>s. br_sax (sax_string dom_sax s)) r d)"
    by (rule reads_keysD [OF cbor_keys(1) s(2) c], rule value_fills [OF s(1), of received "JString _"]) (simp_all add: dom_sax_def)
  have bin: "fills received r d put (get_cbor_binary dom_sax (\<lambda>b. br_sax (sax_binary dom_sax b None)) r d)"
    by (rule reads_keysD [OF cbor_keys(2) s(2) c], rule value_fills [OF s(1), of received "JBinary _ None"]) (simp_all add: dom_sax_def)
  have array: "fills received r d put (get_cbor_array p dom_sax n r d)" for n
    by (rule cbor_array_outcome [where p = p, OF p s shorter_refl])
  have object: "fills received r d put (get_cbor_object p dom_sax n r d)" for n
    by (rule cbor_object_outcome [where p = p, OF p(1) s shorter_refl])
  have sized: "fills received r d put (get_number j Format_cbor dom_sax (get_cbor_array p dom_sax) r d)"
      "fills received r d put (get_number j Format_cbor dom_sax (get_cbor_object p dom_sax) r d)" for j
    by (rule cbor_number [OF s(2)], rule cbor_array_outcome [where p = p, OF p s], assumption)
      (rule cbor_number [OF s(2)], rule cbor_object_outcome [where p = p, OF p(1) s], assumption)
  note number = scalar_number_outcome [OF s(1,2) cbor_format, where good = received]
  have unsigned: "fills received r d put (get_number j Format_cbor dom_sax (\<lambda>n. br_sax (sax_number_unsigned dom_sax n)) r d)" for j
    by (rule number [of JNumber_unsigned]) (simp_all add: dom_sax_def)
  have negative: "fills received r d put (get_number j Format_cbor dom_sax (\<lambda>n. br_sax (sax_number_integer dom_sax (g n))) r d)" for j g
    by (rule number [of "\<lambda>n. JNumber_integer (g n)"]) (simp_all add: dom_sax_def)
  have float: "fills received r d put (get_number j Format_cbor dom_sax (\<lambda>n. br_sax (sax_number_float dom_sax (g n) [])) r d)" for j g
    by (rule number [of "\<lambda>n. JNumber_float (g n)"]) (simp_all add: dom_sax_def)
  have small: "fills received r d put (br_sax (sax_number_unsigned dom_sax n) r d)"
      "fills received r d put (br_sax (sax_number_integer dom_sax n) r d)" for n
    by (rule scalar [of "JNumber_unsigned n"]; simp add: dom_sax_def)
      (rule scalar [of "JNumber_integer n"]; simp add: dom_sax_def)
  have constants: "fills received r d put (br_sax (sax_null dom_sax) r d)" "fills received r d put (br_sax (sax_boolean dom_sax b) r d)" for b
    by (rule scalar [of JNull]; simp add: dom_sax_def) (rule scalar [of "JBoolean b"]; simp add: dom_sax_def)
  have error: "fills received r d put (br_error Format_cbor 112 x detail context dom_sax r d)" for x detail "context"
    by (rule cbor_error [OF s(2)]) simp
  note leaves = str bin array object sized unsigned negative float small constants error tag_outcome [where p = p, OF p(1) s] half_outcome [OF s(1,2)]
  show ?thesis
    unfolding cbor_switch_def cbor_integers_def cbor_containers_def cbor_rest_def Let_def
    by (rule outcome_if | rule cbor_eof [OF s(2)], assumption | rule leaves)+
qed

lemma parse_cbor_first: "(\<lambda>r. parse_cbor_internal k h t False (br_get r)) = parse_cbor_internal k h t True"
  by (cases k) (simp_all add: fun_eq_iff)

lemma reads_cbor_fuel: "reads_after k (parse_cbor_internal k dom_sax t False)"
proof (induction k)
  case 0
  then show ?case by (simp add: reads_after_def)
next
  case (Suc k)
  have p: "reads_values received k (parse_cbor_internal k dom_sax t True)"
    using reads_after_values [OF Suc.IH] unfolding parse_cbor_first .
  show ?case
    unfolding reads_after_def
  proof (intro allI impI, elim conjE)
    fix r :: binary_reader and d q put assume s: "slot d q put" "dom_allow_exceptions d" "length (br_ia r) < Suc k"
    let ?r = "br_get r" and ?p = "parse_cbor_internal k dom_sax t"
    have eof: "reading_outcome P (cbor_switch ?p dom_sax t ?r d)" if "br_current ?r = eof" for P
      using cbor_eof [OF s(2) that, of P "''value''"] that by (simp add: cbor_switch_def)
    have "fills received ?r d put (cbor_switch ?p dom_sax t ?r d)" if "br_current ?r \<noteq> eof"
    proof (rule cbor_switch_outcome [OF p Suc.IH s(1,2) _ current_range])
      show "length (br_ia ?r) < k" using br_get_length(2) [OF that] s(3) by simp
    qed
    then show "fills received ?r d put (parse_cbor_internal (Suc k) dom_sax t False ?r d)
        \<and> (br_current ?r = eof \<longrightarrow> reading_outcome (\<lambda>_ _. False) (parse_cbor_internal (Suc k) dom_sax t False ?r d))"
      using eof by (cases "br_current ?r = eof") simp_all
  qed
qed

theorem from_cbor_outcome:
  "case from_cbor n t bs of Inl e \<Rightarrow> binary_error e | Inr v \<Rightarrow> undiscarded v \<and> json_inv v"
proof -
  let ?k = "cbor_fuel (br_init bs)"
  have "reads_values received ?k (parse_cbor_internal ?k dom_sax t True)"
    using reads_after_values [OF reads_cbor_fuel [of ?k t]] unfolding parse_cbor_first .
  then have "reading_outcome (\<lambda>r d. received (dom_root d)) (cbor_sax_parse t True dom_sax (br_init bs) (dom_init n True JNull))"
    unfolding cbor_sax_parse_def
    by (rule document_outcome) (simp_all add: cbor_fuel_def)
  then show ?thesis
    by (auto simp: from_cbor_def from_cbor_with_def reading_outcome_def split: sum.splits)
qed

section \<open>Corner cases\<close>

text \<open>\<open>0x3B\<close> stands for minus 1 minus a number of 64 bits, but is computed in 64 bits: from 2 to the 63
  on it wraps around, and minus 2 to the 64 is read as zero.\<close>

lemma wide_negative: "from_cbor n t (chr 0x3B # write_number 8 m) = Inr (JNumber_integer (- 1 - m))"
proof -
  let ?d = "dom_init n True JNull" and ?v = "JNumber_integer (- 1 - m)" and ?bs = "chr 0x3B # write_number 8 m"
  have sax: "sax_number_integer dom_sax (- 1 - m) ?d = Inr (True, ?d\<lparr>dom_root := ?v\<rparr>)"
    using slot_value [OF slot_empty [of n], of ?v] by (simp add: dom_sax_def)
  have "consumes (\<lambda>r. cbor_switch p dom_sax t (br_get r)) ?bs ?d (?d\<lparr>dom_root := ?v\<rparr>)" for p
    by (rule number_consumed [of "\<lambda>m. br_sax (sax_number_integer dom_sax (- 1 - m))" 8 m _ _ Format_cbor _ _ dom_sax])
      (use consumes_sax [of "sax_number_integer dom_sax (- 1 - m)", OF sax] in
        \<open>simp_all add: take_bit_word_eq_self cbor_switch_defs\<close>)
  then have parsed: "consumes (parse_cbor_internal (Suc k) dom_sax t True) ?bs ?d (?d\<lparr>dom_root := ?v\<rparr>)" for k
    unfolding parse_cbor_Suc .
  have fuel: "cbor_fuel (br_init ?bs) = Suc (2 * length ?bs + 2)" by (simp add: cbor_fuel_def br_init_def)
  have "consumes (parse_cbor_internal (cbor_fuel (br_init ?bs)) dom_sax t True) ?bs ?d (?d\<lparr>dom_root := ?v\<rparr>)"
    unfolding fuel by (rule parsed)
  from cbor_document [OF this] show ?thesis by simp
qed

lemma negative_wraps: "from_cbor n t (chr 0x3B # write_number 8 (- 1)) = Inr (JNumber_integer 0)"
  by (simp add: wide_negative)

text \<open>A definite length of 2 to the 64 minus 1 is taken for an indefinite one.\<close>

lemma definite_length_indefinite:
  assumes "br_current r = 0x9B" "br_ia r = write_number 8 (- 1) @ rest"
  shows "\<exists>r'. br_ia r' = rest \<and> cbor_switch p h t r d = get_cbor_array p h unknown_size r' d"
proof -
  have "take_bit (8 * 8) (- 1 :: u64) = unknown_size"
    unfolding unknown_size_def by (rule take_bit_word_eq_self) simp
  then show ?thesis
    using assms by (intro exI [of _ "r\<lparr>br_ia := rest, br_chars_read := br_chars_read r + 8\<rparr>"])
      (simp add: cbor_switch_defs get_number_def get_to_def take_number)
qed

end
