(* ===== verification/Session.thy ===== *)
theory Session
  imports Protocol
begin

text \<open>
  One connection of the server, class \<open>Session\<close> of \<open>server/inc/Session.hpp\<close> and
  \<open>server/src/Session.cpp\<close>. What asio holds for it is part of the state: the closures
  posted to the strand, whether a read and a write are under way, and the lines the peer has
  been sent. Each completion handler is one operation.
\<close>

record session =
  ss_clientId :: u8
  ss_uuid :: string
  ss_incoming :: string
  ss_reading :: bool
  ss_posted :: "string list"
  ss_outgoing :: "string list"
  ss_writing :: bool
  ss_sent :: "string list"

definition session_init :: "u8 \<Rightarrow> session" where
  "session_init clientId =
     \<lparr>ss_clientId = clientId, ss_uuid = [], ss_incoming = [], ss_reading = False, ss_posted = [],
      ss_outgoing = [], ss_writing = False, ss_sent = []\<rparr>"

definition session_setUUID :: "string \<Rightarrow> session \<Rightarrow> session" where
  "session_setUUID uuid s = s\<lparr>ss_uuid := uuid\<rparr>"

section \<open>Writing\<close>

text \<open>\<open>send\<close> serializes at once and posts the text to the strand.\<close>

definition session_send :: "message \<Rightarrow> session \<Rightarrow> session res" where
  "session_send msg s =
     rbind (message_serialize msg) (\<lambda>text. Inr (s\<lparr>ss_posted := ss_posted s @ [text]\<rparr>))"

text \<open>\<open>doWrite\<close> reads \<open>m_outgoing.front()\<close>.\<close>

definition session_doWrite :: "session \<Rightarrow> session res" where
  "session_doWrite s =
     (if ss_outgoing s = [] then Inl (Undefined_behaviour ''front() of an empty deque'')
      else Inr (s\<lparr>ss_writing := True\<rparr>))"

text \<open>The posted closure: queue the text, and write when nothing was queued before.\<close>

definition session_run_posted :: "session \<Rightarrow> session res" where
  "session_run_posted s =
     (case ss_posted s of
        [] \<Rightarrow> Inr s
      | text # rest \<Rightarrow>
          (let busy = ss_outgoing s \<noteq> [];
               s1 = s\<lparr>ss_posted := rest, ss_outgoing := ss_outgoing s @ [text]\<rparr>
           in if \<not> busy then session_doWrite s1 else Inr s1))"

text \<open>The handler of \<open>async_write\<close>; the flag says whether the connection is lost.\<close>

definition session_written :: "bool \<Rightarrow> session \<Rightarrow> (bool \<times> session) res" where
  "session_written ec s =
     (let s0 = s\<lparr>ss_writing := False\<rparr> in
      if ec then Inr (True, s0)
      else (case ss_outgoing s0 of
              [] \<Rightarrow> Inl (Undefined_behaviour ''pop_front() of an empty deque'')
            | text # rest \<Rightarrow>
                (let s1 = s0\<lparr>ss_outgoing := rest, ss_sent := ss_sent s0 @ [text]\<rparr>
                 in if rest \<noteq> [] then rbind (session_doWrite s1) (\<lambda>s2. Inr (False, s2))
                    else Inr (False, s1))))"

section \<open>Reading\<close>

definition session_doRead :: "session \<Rightarrow> session" where
  "session_doRead s = s\<lparr>ss_reading := True\<rparr>"

definition session_start :: "session \<Rightarrow> session" where
  "session_start = session_doRead"

definition session_receive :: "string \<Rightarrow> session \<Rightarrow> session" where
  "session_receive bytes s = s\<lparr>ss_incoming := ss_incoming s @ bytes\<rparr>"

text \<open>The read completes when the buffer holds a line, which is taken out.\<close>

definition session_take_line :: "session \<Rightarrow> (string \<times> session) option" where
  "session_take_line s =
     (if ss_reading s
      then map_option (\<lambda>(line, rest). (strip_cr line, s\<lparr>ss_incoming := rest, ss_reading := False\<rparr>))
             (take_line (ss_incoming s))
      else None)"

section \<open>The queue of outgoing texts\<close>

text \<open>What the peer has, what is being written or waits, what is posted: in this order.\<close>

definition session_texts :: "session \<Rightarrow> string list" where
  "session_texts s = ss_sent s @ ss_outgoing s @ ss_posted s"

text \<open>A write is under way only on a non-empty queue.\<close>

definition session_inv :: "session \<Rightarrow> bool" where
  "session_inv s \<longleftrightarrow> (ss_writing s \<longrightarrow> ss_outgoing s \<noteq> [])"

text \<open>As long as no write has failed, a non-empty queue is being written.\<close>

definition session_live :: "session \<Rightarrow> bool" where
  "session_live s \<longleftrightarrow> (ss_writing s \<longleftrightarrow> ss_outgoing s \<noteq> [])"

lemma session_live_inv: "session_live s \<Longrightarrow> session_inv s"
  by (simp add: session_live_def session_inv_def)

end
