(* ===== verification/Server.thy ===== *)
theory Server
  imports Session JsonDB
begin

text \<open>
  The server: \<open>server/inc/Server.hpp\<close>, \<open>server/src/Server.cpp\<close> and the login handler of
  \<open>server/src/main.cpp\<close>. Sessions are shared objects: they live in a heap, and the map
  \<open>m_sessions\<close> holds references to them (\<open>None\<close> is the null pointer). The io_context runs
  one completion handler at a time, so a run of the server is a sequence of events; an
  exception that leaves a handler leaves \<open>run\<close> and ends the program. Logging is left out, but for the one
  call that is undefined behaviour.
\<close>

datatype handler = Login_handler

record server =
  sv_nextClientId :: u8
  sv_sessions :: "(u8 \<times> nat option) list"
  sv_heap :: "session list"
  sv_handlers :: "(string \<times> handler) list"
  sv_lastSeqByType :: "(u8 \<times> (string \<times> u32) list) list"
  sv_timer :: bool
  sv_accepting :: bool
  sv_db :: jsondb

definition scheduleResourceTick :: "server \<Rightarrow> server" where
  "scheduleResourceTick sv = sv\<lparr>sv_timer := True\<rparr>"

definition server_doAccept :: "server \<Rightarrow> server" where
  "server_doAccept sv = sv\<lparr>sv_accepting := True\<rparr>"

definition server_init :: "jsondb \<Rightarrow> server" where
  "server_init db = scheduleResourceTick
     \<lparr>sv_nextClientId = 1, sv_sessions = [], sv_heap = [], sv_handlers = [],
      sv_lastSeqByType = [], sv_timer = False, sv_accepting = False, sv_db = db\<rparr>"

definition server_registerHandler :: "string \<Rightarrow> handler \<Rightarrow> server \<Rightarrow> server" where
  "server_registerHandler type h sv = sv\<lparr>sv_handlers := umap_set type h (sv_handlers sv)\<rparr>"

definition null_session :: exn where
  "null_session = Undefined_behaviour ''null session dereferenced''"

section \<open>Sessions\<close>

definition heap_update :: "nat \<Rightarrow> (session \<Rightarrow> session) \<Rightarrow> server \<Rightarrow> server" where
  "heap_update r f sv = sv\<lparr>sv_heap := (sv_heap sv)[r := f (sv_heap sv ! r)]\<rparr>"

definition heap_send :: "nat \<Rightarrow> message \<Rightarrow> server \<Rightarrow> unit res \<times> server" where
  "heap_send r msg sv =
     (case session_send msg (sv_heap sv ! r) of
        Inl e \<Rightarrow> (Inl e, sv)
      | Inr s \<Rightarrow> (Inr (), heap_update r (\<lambda>_. s) sv))"

definition server_sendToClient :: "u8 \<Rightarrow> message \<Rightarrow> server \<Rightarrow> unit res \<times> server" where
  "server_sendToClient clientId msg sv =
     (case map_of (sv_sessions sv) clientId of
        None \<Rightarrow> (Inr (), sv)
      | Some None \<Rightarrow> (Inl null_session, sv)
      | Some (Some r) \<Rightarrow> heap_send r msg sv)"

text \<open>\<open>m_sessions[clientId]\<close> adds a null pointer for an id it does not hold.\<close>

definition server_getSession :: "u8 \<Rightarrow> server \<Rightarrow> nat option \<times> server" where
  "server_getSession clientId sv =
     (case map_of (sv_sessions sv) clientId of
        Some r \<Rightarrow> (r, sv)
      | None \<Rightarrow> (None, sv\<lparr>sv_sessions := umap_set clientId None (sv_sessions sv)\<rparr>))"

definition onClientDisconnect :: "u8 \<Rightarrow> server \<Rightarrow> server" where
  "onClientDisconnect clientId sv = sv\<lparr>sv_sessions := umap_erase clientId (sv_sessions sv)\<rparr>"

definition handshake :: "u8 \<Rightarrow> message" where
  "handshake cid = \<lparr>msg_type = MSG_ASSIGN_CLIENT_ID, msg_sequence = 1,
     msg_payload = json_braces [(''clientId'', json_unsigned cid)]\<rparr>"

text \<open>
  The id is the next of a counter of eight bits. A failed accept is logged with
  \<open>LOG_ERROR("Accept error: %s", ec.message())\<close>, which passes a \<open>std::string\<close> through the
  variable arguments of \<open>fprintf\<close> where \<open>%s\<close> reads a pointer: undefined behaviour, so that the
  \<open>doAccept\<close> behind it is not reached.
\<close>

definition accept_logged :: exn where
  "accept_logged = Undefined_behaviour ''std::string passed to fprintf for %s''"

definition onAccept :: "bool \<Rightarrow> server \<Rightarrow> unit res \<times> server" where
  "onAccept ec sv0 =
     (let sv = sv0\<lparr>sv_accepting := False\<rparr> in
      if ec then (Inl accept_logged, sv)
      else (let cid = sv_nextClientId sv; r = length (sv_heap sv);
                sv1 = sv\<lparr>sv_nextClientId := cid + 1, sv_heap := sv_heap sv @ [session_init cid],
                        sv_sessions := umap_set cid (Some r) (sv_sessions sv)\<rparr>
            in case heap_send r (handshake cid) sv1 of
                 (Inl e, sv2) \<Rightarrow> (Inl e, sv2)
               | (Inr _, sv2) \<Rightarrow> (Inr (), server_doAccept (heap_update r session_start sv2))))"

section \<open>The resource tick\<close>

definition next_sequence :: "u8 \<Rightarrow> string \<Rightarrow> server \<Rightarrow> u32 \<times> server" where
  "next_sequence cid type sv =
     (let by_type = (case map_of (sv_lastSeqByType sv) cid of None \<Rightarrow> [] | Some m \<Rightarrow> m);
          n = (case map_of by_type type of None \<Rightarrow> 0 | Some k \<Rightarrow> k) + 1
      in (n, sv\<lparr>sv_lastSeqByType :=
                 umap_set cid (umap_set type n by_type) (sv_lastSeqByType sv)\<rparr>))"

definition produce :: "resources \<Rightarrow> resources" where
  "produce pool = \<lparr>wood = wood pool + 10, food = food pool + 10, iron = iron pool + 10\<rparr>"

definition resource_update :: "u32 \<Rightarrow> string \<Rightarrow> resources \<Rightarrow> message" where
  "resource_update seq uuid pool =
     \<lparr>msg_type = MSG_RESOURCE_UPDATE, msg_sequence = seq,
      msg_payload = json_braces
        [(''uuid'', JString uuid), (''wood'', json_unsigned (wood pool)),
         (''food'', json_unsigned (food pool)), (''iron'', json_unsigned (iron pool))]\<rparr>"

definition tick_session :: "io_env \<Rightarrow> u8 \<Rightarrow> nat option \<Rightarrow> server \<Rightarrow> unit res \<times> server" where
  "tick_session io cid ref sv =
     (case ref of
        None \<Rightarrow> (Inl null_session, sv)
      | Some r \<Rightarrow>
          (let uuid = ss_uuid (sv_heap sv ! r) in
           if uuid = [] then (Inr (), sv)
           else (case db_getResources (sv_db sv) uuid of
                   Inl e \<Rightarrow> (Inl e, sv)
                 | Inr pool \<Rightarrow>
                     (let pool' = produce pool;
                          (seq, sv1) = next_sequence cid MSG_RESOURCE_UPDATE sv;
                          (res, db') = db_updateResources io uuid pool' (sv_db sv1);
                          sv2 = sv1\<lparr>sv_db := db'\<rparr>
                      in case res of
                           Inl e \<Rightarrow> (Inl e, sv2)
                         | Inr _ \<Rightarrow> heap_send r (resource_update seq uuid pool') sv2))))"

text \<open>\<open>io\<close> says how the save on behalf of each client goes.\<close>

fun tick_sessions :: "(u8 \<Rightarrow> io_env) \<Rightarrow> (u8 \<times> nat option) list \<Rightarrow> server \<Rightarrow> unit res \<times> server" where
  "tick_sessions io [] sv = (Inr (), sv)"
| "tick_sessions io ((cid, ref) # rest) sv =
     (case tick_session (io cid) cid ref sv of
        (Inl e, sv') \<Rightarrow> (Inl e, sv')
      | (Inr _, sv') \<Rightarrow> tick_sessions io rest sv')"

definition onResourceTick :: "bool \<Rightarrow> (u8 \<Rightarrow> io_env) \<Rightarrow> server \<Rightarrow> unit res \<times> server" where
  "onResourceTick ec io sv0 =
     (let sv = sv0\<lparr>sv_timer := False\<rparr> in
      if ec then (Inr (), sv)
      else (case tick_sessions io (sv_sessions sv) sv of
              (Inl e, sv') \<Rightarrow> (Inl e, sv')
            | (Inr _, sv') \<Rightarrow> (Inr (), scheduleResourceTick sv')))"

section \<open>Messages\<close>

definition login_reply :: "string \<Rightarrow> message" where
  "login_reply uuid = \<lparr>msg_type = MSG_LOGIN_RESULT, msg_sequence = 1,
     msg_payload = json_braces [(''uuid'', JString uuid)]\<rparr>"

text \<open>The end of the handler, once the uuid is known.\<close>

definition login_finish :: "u8 \<Rightarrow> string \<Rightarrow> server \<Rightarrow> unit res \<times> server" where
  "login_finish cid uuid sv =
     (case server_getSession cid sv of
        (None, sv1) \<Rightarrow> (Inl null_session, sv1)
      | (Some r, sv1) \<Rightarrow>
          server_sendToClient cid (login_reply uuid) (heap_update r (session_setUUID uuid) sv1))"

definition login_user ::
  "io_env \<Rightarrow> u64 \<times> u64 \<Rightarrow> u8 \<Rightarrow> string \<Rightarrow> string \<Rightarrow> server \<Rightarrow> unit res \<times> server" where
  "login_user io draws cid user pass sv =
     (if db_userExists (sv_db sv) user
      then (if \<not> db_verifyUser (sv_db sv) user pass then (Inr (), sv)
            else (case db_getUser (sv_db sv) user pass of
                    Inl e \<Rightarrow> (Inl e, sv) | Inr uuid \<Rightarrow> login_finish cid uuid sv))
      else (case db_addUser io draws user pass (sv_db sv) of
              (Inl e, db') \<Rightarrow> (Inl e, sv\<lparr>sv_db := db'\<rparr>)
            | (Inr uuid, db') \<Rightarrow> login_finish cid uuid (sv\<lparr>sv_db := db'\<rparr>)))"

definition login_handler ::
  "io_env \<Rightarrow> u64 \<times> u64 \<Rightarrow> u8 \<Rightarrow> message \<Rightarrow> server \<Rightarrow> unit res \<times> server" where
  "login_handler io draws cid msg sv =
     (let p = msg_payload msg in
      case rbind (rbind (json_at p ''id'') get_string) (\<lambda>user.
           rbind (rbind (json_at p ''password'') get_string) (\<lambda>pass. Inr (user, pass))) of
        Inl e \<Rightarrow> (Inl e, sv)
      | Inr (user, pass) \<Rightarrow> login_user io draws cid user pass sv)"

definition onClientMessage ::
  "io_env \<Rightarrow> u64 \<times> u64 \<Rightarrow> u8 \<Rightarrow> message \<Rightarrow> server \<Rightarrow> unit res \<times> server" where
  "onClientMessage io draws cid msg sv =
     (case map_of (sv_handlers sv) (msg_type msg) of
        Some Login_handler \<Rightarrow> login_handler io draws cid msg sv
      | None \<Rightarrow> (Inr (), sv))"

section \<open>The handlers of a session\<close>

text \<open>\<open>catch (std::exception &)\<close>; undefined behaviour is not an exception.\<close>

fun caught :: "exn \<Rightarrow> bool" where
  "caught (Undefined_behaviour _) = False"
| "caught _ = True"

definition session_onLine :: "io_env \<Rightarrow> u64 \<times> u64 \<Rightarrow> nat \<Rightarrow> server \<Rightarrow> unit res \<times> server" where
  "session_onLine io draws r sv =
     (case session_take_line (sv_heap sv ! r) of
        None \<Rightarrow> (Inr (), sv)
      | Some (line, s) \<Rightarrow>
          (let sv1 = heap_update r (\<lambda>_. s) sv;
               (res, sv2) =
                 (case message_parse line of
                    Inl e \<Rightarrow> (Inl e, sv1)
                  | Inr msg \<Rightarrow> onClientMessage io draws (ss_clientId s) msg sv1)
           in case res of
                Inl e \<Rightarrow> (if caught e then (Inr (), heap_update r session_doRead sv2) else (Inl e, sv2))
              | Inr _ \<Rightarrow> (Inr (), heap_update r session_doRead sv2)))"

definition session_onReadError :: "nat \<Rightarrow> server \<Rightarrow> server" where
  "session_onReadError r sv =
     onClientDisconnect (ss_clientId (sv_heap sv ! r)) (heap_update r (\<lambda>s. s\<lparr>ss_reading := False\<rparr>) sv)"

definition session_onPosted :: "nat \<Rightarrow> server \<Rightarrow> unit res \<times> server" where
  "session_onPosted r sv =
     (case session_run_posted (sv_heap sv ! r) of
        Inl e \<Rightarrow> (Inl e, sv) | Inr s \<Rightarrow> (Inr (), heap_update r (\<lambda>_. s) sv))"

definition session_onWritten :: "bool \<Rightarrow> nat \<Rightarrow> server \<Rightarrow> unit res \<times> server" where
  "session_onWritten ec r sv =
     (case session_written ec (sv_heap sv ! r) of
        Inl e \<Rightarrow> (Inl e, sv)
      | Inr (lost, s) \<Rightarrow>
          (let sv1 = heap_update r (\<lambda>_. s) sv
           in (Inr (), if lost then onClientDisconnect (ss_clientId s) sv1 else sv1)))"

section \<open>Runs\<close>

datatype event =
    Ev_accept bool
  | Ev_receive nat string
  | Ev_line io_env "u64 \<times> u64" nat
  | Ev_read_error nat
  | Ev_posted nat
  | Ev_written bool nat
  | Ev_tick bool "u8 \<Rightarrow> io_env"

text \<open>What asio can complete next.\<close>

fun enabled :: "event \<Rightarrow> server \<Rightarrow> bool" where
  "enabled (Ev_accept _) sv \<longleftrightarrow> sv_accepting sv"
| "enabled (Ev_receive r _) sv \<longleftrightarrow> r < length (sv_heap sv) \<and> ss_reading (sv_heap sv ! r)"
| "enabled (Ev_line _ _ r) sv \<longleftrightarrow>
     r < length (sv_heap sv) \<and> session_take_line (sv_heap sv ! r) \<noteq> None"
| "enabled (Ev_read_error r) sv \<longleftrightarrow> r < length (sv_heap sv) \<and> ss_reading (sv_heap sv ! r)"
| "enabled (Ev_posted r) sv \<longleftrightarrow> r < length (sv_heap sv) \<and> ss_posted (sv_heap sv ! r) \<noteq> []"
| "enabled (Ev_written _ r) sv \<longleftrightarrow> r < length (sv_heap sv) \<and> ss_writing (sv_heap sv ! r)"
| "enabled (Ev_tick _ _) sv \<longleftrightarrow> sv_timer sv"

fun server_step :: "event \<Rightarrow> server \<Rightarrow> unit res \<times> server" where
  "server_step (Ev_accept ec) sv = onAccept ec sv"
| "server_step (Ev_receive r bytes) sv = (Inr (), heap_update r (session_receive bytes) sv)"
| "server_step (Ev_line io draws r) sv = session_onLine io draws r sv"
| "server_step (Ev_read_error r) sv = (Inr (), session_onReadError r sv)"
| "server_step (Ev_posted r) sv = session_onPosted r sv"
| "server_step (Ev_written ec r) sv = session_onWritten ec r sv"
| "server_step (Ev_tick ec io) sv = onResourceTick ec io sv"

definition server_main :: "jsondb \<Rightarrow> server" where
  "server_main db =
     server_doAccept (server_registerHandler MSG_LOGIN_REQUEST Login_handler (server_init db))"

text \<open>The states a server reaches from its start, with the events so far.\<close>

inductive server_runs :: "jsondb \<Rightarrow> event list \<Rightarrow> server \<Rightarrow> bool" for db where
  start: "server_runs db [] (server_main db)"
| step: "server_runs db evs sv \<Longrightarrow> enabled ev sv \<Longrightarrow> server_step ev sv = (Inr (), sv') \<Longrightarrow>
     server_runs db (evs @ [ev]) sv'"

end
