(* ===== verification/Serving.thy ===== *)
theory Serving
  imports Wellformed Server "HOL-Library.Sublist"
begin

unbundle bit_operations_syntax

text \<open>
  The server's runs: texts reach a peer in the order they were sent, the session map and the
  accounts keep their invariant, and the only ways a handler can end the program are the log
  message of a failed accept, a file system error of the resource tick, a login on a session that
  has left the map, and a message whose sequence number is a double out of range.
\<close>

section \<open>Sending\<close>

lemma json_unsigned_textual [simp]: "textual (json_unsigned n)"
  by (simp add: json_unsigned_def)

lemma braces_one: "json_braces [(k, v)] = JObject [(k, v)]"
  by (simp add: json_braces_def json_init_def smap_emplace_def)

lemma resource_payload:
  "json_braces [(''uuid'', a), (''wood'', b), (''food'', c), (''iron'', d)]
     = JObject [(''food'', c), (''iron'', d), (''uuid'', a), (''wood'', b)]"
  by (simp add: json_braces_def json_init_def smap_emplace_def)

lemma utf8_valid_types [simp]:
  "utf8_valid MSG_ASSIGN_CLIENT_ID" "utf8_valid MSG_RESOURCE_UPDATE" "utf8_valid MSG_LOGIN_RESULT"
  "utf8_valid MSG_LOGIN_REQUEST" "utf8_valid ''clientId''"
  by (auto simp: MSG_ASSIGN_CLIENT_ID_def MSG_RESOURCE_UPDATE_def MSG_LOGIN_RESULT_def MSG_LOGIN_REQUEST_def
      intro!: utf8_valid_ascii)

lemma sendable_handshake [simp]: "sendable (handshake cid)"
  by (simp add: sendable_def handshake_def braces_one)

lemma sendable_login_reply [simp]: "utf8_valid uuid \<Longrightarrow> sendable (login_reply uuid)"
  by (simp add: sendable_def login_reply_def braces_one)

lemma sendable_resource_update [simp]: "utf8_valid uuid \<Longrightarrow> sendable (resource_update n uuid pool)"
  by (simp add: sendable_def resource_update_def resource_payload)

text \<open>Posting puts the line at the end of what the session holds.\<close>

definition message_text :: "message \<Rightarrow> string" where
  "message_text m = message_line m @ newline"

definition session_post :: "message \<Rightarrow> session \<Rightarrow> session" where
  "session_post m s = s\<lparr>ss_posted := ss_posted s @ [message_text m]\<rparr>"

lemma session_send_post: "sendable m \<Longrightarrow> session_send m s = Inr (session_post m s)"
  by (simp add: session_send_def message_serialize_line message_text_def session_post_def)

lemma heap_send_post: "sendable m \<Longrightarrow> heap_send r m sv = (Inr (), heap_update r (session_post m) sv)"
  by (simp add: heap_send_def session_send_post heap_update_def)

section \<open>One session\<close>

text \<open>The order of texts: only \<open>send\<close> adds one, at the end; only the socket takes them, from
  the front.\<close>

lemma session_texts_post: "session_texts (session_post m s) = session_texts s @ [message_text m]"
  by (simp add: session_texts_def session_post_def)

lemma session_run_posted_ok:
  "\<exists>s'. session_run_posted s = Inr s' \<and> session_texts s' = session_texts s \<and> ss_sent s' = ss_sent s
     \<and> ss_clientId s' = ss_clientId s \<and> ss_uuid s' = ss_uuid s \<and> ss_reading s' = ss_reading s
     \<and> ss_incoming s' = ss_incoming s
     \<and> (session_inv s \<longrightarrow> session_inv s') \<and> (session_live s \<longrightarrow> session_live s')"
  by (auto simp: session_run_posted_def session_doWrite_def session_texts_def session_inv_def session_live_def
      Let_def split: list.split)

lemma session_written_ok:
  assumes "ss_outgoing s \<noteq> []"
  shows "\<exists>s'. session_written ec s = Inr (ec, s') \<and> session_texts s' = session_texts s
     \<and> (\<exists>ts. ss_sent s' = ss_sent s @ ts)
     \<and> ss_clientId s' = ss_clientId s \<and> ss_uuid s' = ss_uuid s \<and> ss_reading s' = ss_reading s
     \<and> ss_incoming s' = ss_incoming s
     \<and> session_inv s' \<and> (\<not> ec \<longrightarrow> session_live s')"
  using assms
  by (cases "ss_outgoing s")
    (auto simp: session_written_def session_doWrite_def session_texts_def session_inv_def session_live_def Let_def)

section \<open>The invariant of the server\<close>

definition session_known :: "jsondb \<Rightarrow> session \<Rightarrow> bool" where
  "session_known db s \<longleftrightarrow> ss_uuid s = [] \<or> find_uuid (ss_uuid s) (db_accounts db) \<noteq> None"

definition server_inv :: "server \<Rightarrow> bool" where
  "server_inv sv \<longleftrightarrow> umap_inv (sv_sessions sv)
     \<and> (\<forall>p \<in> set (sv_sessions sv). \<exists>r. snd p = Some r \<and> r < length (sv_heap sv)
          \<and> ss_clientId (sv_heap sv ! r) = fst p)
     \<and> (\<forall>s \<in> set (sv_heap sv). session_inv s \<and> session_known (sv_db sv) s)
     \<and> accounts_ok (db_accounts (sv_db sv))"

lemma server_inv_entry:
  "server_inv sv \<Longrightarrow> p \<in> set (sv_sessions sv) \<Longrightarrow>
     \<exists>r. snd p = Some r \<and> r < length (sv_heap sv) \<and> ss_clientId (sv_heap sv ! r) = fst p"
  unfolding server_inv_def by blast

lemma server_inv_session:
  assumes "server_inv sv" "map_of (sv_sessions sv) cid = Some ref"
  obtains r where "ref = Some r" "r < length (sv_heap sv)" "ss_clientId (sv_heap sv ! r) = cid"
  using assms by (auto simp: server_inv_def dest!: map_of_SomeD)

lemma server_inv_heap_session:
  "server_inv sv \<Longrightarrow> r < length (sv_heap sv) \<Longrightarrow>
     session_inv (sv_heap sv ! r) \<and> session_known (sv_db sv) (sv_heap sv ! r)"
  by (simp add: server_inv_def)

lemma server_inv_heap_update:
  assumes "server_inv sv" "r < length (sv_heap sv)"
    "ss_clientId (f (sv_heap sv ! r)) = ss_clientId (sv_heap sv ! r)"
    "session_inv (f (sv_heap sv ! r))" "session_known (sv_db sv) (f (sv_heap sv ! r))"
  shows "server_inv (heap_update r f sv)"
proof -
  have "session_inv s \<and> session_known (sv_db sv) s" if "s \<in> set ((sv_heap sv)[r := f (sv_heap sv ! r)])" for s
    using that set_update_subset_insert [of "sv_heap sv" r "f (sv_heap sv ! r)"] assms
    by (auto simp: server_inv_def)
  moreover have "\<exists>q. snd p = Some q \<and> q < length (sv_heap sv)
      \<and> ss_clientId ((sv_heap sv)[r := f (sv_heap sv ! r)] ! q) = fst p" if entry: "p \<in> set (sv_sessions sv)" for p
  proof -
    obtain q where "snd p = Some q" "q < length (sv_heap sv)" "ss_clientId (sv_heap sv ! q) = fst p"
      using server_inv_entry [OF assms(1) entry] by blast
    then show ?thesis using assms(3) by (intro exI [of _ q]) (cases "q = r"; simp)
  qed
  ultimately show ?thesis using assms(1) by (simp add: server_inv_def heap_update_def)
qed

lemma session_post_frame [simp]:
  "ss_clientId (session_post m s) = ss_clientId s" "session_inv (session_post m s) = session_inv s"
  "session_known db (session_post m s) = session_known db s" "ss_uuid (session_post m s) = ss_uuid s"
  by (simp_all add: session_post_def session_inv_def session_known_def)

lemma server_inv_post:
  "server_inv sv \<Longrightarrow> r < length (sv_heap sv) \<Longrightarrow> server_inv (heap_update r (session_post m) sv)"
  using server_inv_heap_session [of sv r] by (auto intro: server_inv_heap_update)

lemma server_inv_disconnect: "server_inv sv \<Longrightarrow> server_inv (onClientDisconnect cid sv)"
  by (auto simp: server_inv_def onClientDisconnect_def umap_erase_def umap_inv_erase [unfolded umap_erase_def])

text \<open>Fields the invariant does not look at.\<close>

lemma server_inv_fields [simp]:
  "server_inv (sv\<lparr>sv_timer := b\<rparr>) = server_inv sv" "server_inv (sv\<lparr>sv_accepting := b\<rparr>) = server_inv sv"
  "server_inv (sv\<lparr>sv_lastSeqByType := m\<rparr>) = server_inv sv"
  "server_inv (sv\<lparr>sv_nextClientId := n\<rparr>) = server_inv sv"
  "server_inv (server_doAccept sv) = server_inv sv" "server_inv (scheduleResourceTick sv) = server_inv sv"
  by (simp_all add: server_inv_def server_doAccept_def scheduleResourceTick_def)

lemma heap_update_frame [simp]:
  "sv_sessions (heap_update r f sv) = sv_sessions sv" "sv_db (heap_update r f sv) = sv_db sv"
  "length (sv_heap (heap_update r f sv)) = length (sv_heap sv)"
  "sv_handlers (heap_update r f sv) = sv_handlers sv"
  "sv_lastSeqByType (heap_update r f sv) = sv_lastSeqByType sv"
  "sv_timer (heap_update r f sv) = sv_timer sv" "sv_accepting (heap_update r f sv) = sv_accepting sv"
  "sv_nextClientId (heap_update r f sv) = sv_nextClientId sv"
  by (simp_all add: heap_update_def)

lemma heap_update_nth: "r < length (sv_heap sv) \<Longrightarrow>
    sv_heap (heap_update r f sv) ! q = (if q = r then f (sv_heap sv ! r) else sv_heap sv ! q)"
  by (simp add: heap_update_def nth_list_update)

text \<open>The accounts may change as long as every uuid stays.\<close>

definition keeps_uuids :: "jsondb \<Rightarrow> jsondb \<Rightarrow> bool" where
  "keeps_uuids db db' \<longleftrightarrow> (\<forall>u. find_uuid u (db_accounts db) \<noteq> None \<longrightarrow> find_uuid u (db_accounts db') \<noteq> None)"

lemma server_inv_db:
  "server_inv sv \<Longrightarrow> keeps_uuids (sv_db sv) db' \<Longrightarrow> accounts_ok (db_accounts db') \<Longrightarrow> server_inv (sv\<lparr>sv_db := db'\<rparr>)"
  by (fastforce simp: server_inv_def keeps_uuids_def session_known_def)

lemma update_keeps_uuids:
  assumes "accounts_ok (db_accounts db)" "\<And>acc. acc_uuid (f acc) = acc_uuid acc"
  shows "keeps_uuids db (snd (update_uuid io uuid f db))"
proof (cases "find_uuid uuid (db_accounts db)")
  case (Some p)
  obtain user acc where p: "p = (user, acc)" by fastforce
  have inv: "umap_inv (db_accounts db)" using assms(1) by (simp add: accounts_ok_def)
  have "acc_uuid (f acc) = uuid" using find_uuid_Some [OF Some] p assms(2) by simp
  from update_uuid_accounts [where f = f, OF inv Some [unfolded p] this] show ?thesis
    unfolding keeps_uuids_def by (metis option.distinct(1))
qed (simp add: update_uuid_def keeps_uuids_def)

lemma find_uuid_new:
  assumes "map_of accs user = None" "find_uuid u accs \<noteq> None"
  shows "find_uuid u (umap_set user acc accs) \<noteq> None"
  using assms by (simp add: umap_set_def)

lemma addUser_keeps_uuids: "keeps_uuids db (snd (db_addUser io draws user pass db))"
  by (auto simp: keeps_uuids_def db_addUser_def db_userExists_def Let_def case_prod_beta db_save_frame find_uuid_new
      dest!: find_uuid_new split: if_splits)

section \<open>Every handler keeps the invariant or ends the program in a known way\<close>

text \<open>A result that is fine: the invariant holds again, or the exception is one of those of \<open>P\<close>.\<close>

abbreviation fine :: "(exn \<Rightarrow> bool) \<Rightarrow> unit res \<times> server \<Rightarrow> bool" where
  "fine P r \<equiv> (case r of (Inl e, _) \<Rightarrow> P e | (Inr _, sv) \<Rightarrow> server_inv sv)"

abbreviation never :: "exn \<Rightarrow> bool" where
  "never \<equiv> \<lambda>_. False"

fun is_filesystem :: "exn \<Rightarrow> bool" where
  "is_filesystem (Filesystem_error _) \<longleftrightarrow> True"
| "is_filesystem _ \<longleftrightarrow> False"

lemma heap_send_fine:
  "server_inv sv \<Longrightarrow> r < length (sv_heap sv) \<Longrightarrow> sendable m \<Longrightarrow> fine never (heap_send r m sv)"
  by (simp add: heap_send_post server_inv_post)

lemma db_save_errors: "accounts_ok (db_accounts db) \<Longrightarrow> fst (db_save io db) = Inl e \<Longrightarrow> is_filesystem e"
  by (auto simp: db_save_def accounts_text_ok Let_def disk_rename_def split: sum.splits option.splits if_splits)

lemma update_uuid_errors:
  assumes "accounts_ok (db_accounts db)" "\<And>acc. account_ok acc \<Longrightarrow> account_ok (f acc)"
    "find_uuid uuid (db_accounts db) \<noteq> None" "fst (update_uuid io uuid f db) = Inl e"
  shows "is_filesystem e"
proof -
  obtain user acc where p: "find_uuid uuid (db_accounts db) = Some (user, acc)" using assms(3) by auto
  have "accounts_ok (db_accounts (db\<lparr>db_accounts := umap_set user (f acc) (db_accounts db)\<rparr>))"
    using update_uuid_ok [where f = f, OF assms(1,2), of io uuid] p by (simp add: update_uuid_found db_save_frame)
  from db_save_errors [OF this] show ?thesis using assms(4) p by (simp add: update_uuid_found)
qed

subsection \<open>Accepting\<close>

lemma session_init_frame [simp]:
  "session_inv (session_init cid)" "session_known db (session_init cid)" "ss_clientId (session_init cid) = cid"
  by (simp_all add: session_init_def session_inv_def session_known_def)

lemma server_inv_new_session:
  assumes "server_inv sv"
  shows "server_inv (sv\<lparr>sv_heap := sv_heap sv @ [session_init cid],
     sv_sessions := umap_set cid (Some (length (sv_heap sv))) (sv_sessions sv)\<rparr>)"
proof -
  have inv: "umap_inv (sv_sessions sv)" using assms by (simp add: server_inv_def)
  have "\<exists>r. snd p = Some r \<and> r < Suc (length (sv_heap sv))
      \<and> ss_clientId ((sv_heap sv @ [session_init cid]) ! r) = fst p"
    if "p \<in> set (umap_set cid (Some (length (sv_heap sv))) (sv_sessions sv))" for p
  proof (cases "fst p = cid")
    case True
    then have "snd p = Some (length (sv_heap sv))"
      using that umap.entry_after_assign [OF inv, of "fst p" "snd p" cid "Some (length (sv_heap sv))"]
      by (cases p) simp
    then show ?thesis using True by simp
  next
    case False
    then have "p \<in> set (sv_sessions sv)"
      using that umap.entry_after_assign [OF inv, of "fst p" "snd p" cid "Some (length (sv_heap sv))"]
      by (cases p) simp
    then obtain r where "snd p = Some r" "r < length (sv_heap sv)" "ss_clientId (sv_heap sv ! r) = fst p"
      using server_inv_entry [OF assms] by blast
    then show ?thesis by (intro exI [of _ r]) (simp add: nth_append)
  qed
  then show ?thesis using assms inv by (auto simp: server_inv_def)
qed

lemma session_start_frame [simp]:
  "ss_clientId (session_start s) = ss_clientId s" "session_inv (session_start s) = session_inv s"
  "session_known db (session_start s) = session_known db s"
  "ss_clientId (session_doRead s) = ss_clientId s" "session_inv (session_doRead s) = session_inv s"
  "session_known db (session_doRead s) = session_known db s"
  by (simp_all add: session_start_def session_doRead_def session_inv_def session_known_def)

lemma server_inv_doRead:
  "server_inv sv \<Longrightarrow> r < length (sv_heap sv) \<Longrightarrow> server_inv (heap_update r session_doRead sv)"
  using server_inv_heap_session [of sv r] by (auto intro: server_inv_heap_update)

lemma onAccept_fine: "server_inv sv \<Longrightarrow> fine (\<lambda>e. ec \<and> e = accept_logged) (onAccept ec sv)"
proof -
  assume inv: "server_inv sv"
  let ?sv = "sv\<lparr>sv_accepting := False, sv_nextClientId := sv_nextClientId sv + 1,
      sv_heap := sv_heap sv @ [session_init (sv_nextClientId sv)],
      sv_sessions := umap_set (sv_nextClientId sv) (Some (length (sv_heap sv))) (sv_sessions sv)\<rparr>"
  have "server_inv ?sv"
    using server_inv_new_session [of "sv\<lparr>sv_accepting := False, sv_nextClientId := sv_nextClientId sv + 1\<rparr>"] inv
    by simp
  then have "server_inv (heap_update (length (sv_heap sv)) (session_post (handshake (sv_nextClientId sv))) ?sv)"
    by (rule server_inv_post) simp
  then show ?thesis
    using server_inv_doRead inv
    by (simp add: onAccept_def Let_def heap_send_post session_start_def)
qed

subsection \<open>The tick\<close>

lemma next_sequence_frame:
  "snd (next_sequence cid t sv) = sv\<lparr>sv_lastSeqByType := sv_lastSeqByType (snd (next_sequence cid t sv))\<rparr>"
  by (simp add: next_sequence_def Let_def)

lemma tick_session_fine:
  assumes "server_inv sv" "r < length (sv_heap sv)"
  shows "fine is_filesystem (tick_session io cid (Some r) sv)"
proof (cases "ss_uuid (sv_heap sv ! r) = []")
  case True
  then show ?thesis using assms(1) by (simp add: tick_session_def)
next
  case False
  let ?u = "ss_uuid (sv_heap sv ! r)" and ?db = "sv_db sv"
  have ok: "accounts_ok (db_accounts ?db)" using assms(1) by (simp add: server_inv_def)
  obtain user acc where f: "find_uuid ?u (db_accounts ?db) = Some (user, acc)"
    using server_inv_heap_session [OF assms] False by (auto simp: session_known_def)
  have u: "utf8_valid ?u"
    using find_uuid_Some [OF f] ok by (auto simp: accounts_ok_def account_ok_def)
  let ?pool = "produce (acc_resources acc)" and ?sq = "next_sequence cid MSG_RESOURCE_UPDATE sv"
  let ?g = "\<lambda>acc. acc\<lparr>acc_resources := ?pool\<rparr>"
  let ?upd = "db_updateResources io ?u ?pool ?db"
  have upd: "?upd = update_uuid io ?u ?g ?db" by (simp add: db_updateResources_def)
  have ok_g: "account_ok acc \<Longrightarrow> account_ok (?g acc)" for acc by (simp add: account_ok_def)
  have err: "fst ?upd = Inl e \<Longrightarrow> is_filesystem e" for e
    unfolding upd by (rule update_uuid_errors [OF ok ok_g]) (simp_all add: f)
  have inv: "server_inv (snd ?sq\<lparr>sv_db := snd ?upd\<rparr>)"
  proof (rule server_inv_db)
    show "server_inv (snd ?sq)" using assms(1) by (subst next_sequence_frame) simp
    have db: "sv_db (snd ?sq) = ?db" by (subst next_sequence_frame) simp
    show "keeps_uuids (sv_db (snd ?sq)) (snd ?upd)" unfolding db upd by (rule update_keeps_uuids [OF ok]) simp
    show "accounts_ok (db_accounts (snd ?upd))" unfolding upd by (rule update_uuid_ok [OF ok ok_g])
  qed
  have len: "r < length (sv_heap (snd ?sq))" using assms(2) by (subst next_sequence_frame) simp
  have db: "sv_db (snd ?sq) = ?db" by (subst next_sequence_frame) simp
  have eq: "tick_session io cid (Some r) sv = (case fst ?upd of
      Inl e \<Rightarrow> (Inl e, snd ?sq\<lparr>sv_db := snd ?upd\<rparr>)
    | Inr _ \<Rightarrow> heap_send r (resource_update (fst ?sq) ?u ?pool) (snd ?sq\<lparr>sv_db := snd ?upd\<rparr>))"
    using False f db by (simp add: tick_session_def db_getResources_def Let_def case_prod_beta split: sum.split)
  show ?thesis
  proof (cases "fst ?upd")
    case (Inl e)
    then show ?thesis unfolding eq using err by simp
  next
    case (Inr x)
    have "fine never (heap_send r (resource_update (fst ?sq) ?u ?pool) (snd ?sq\<lparr>sv_db := snd ?upd\<rparr>))"
      by (rule heap_send_fine [OF inv]) (use len u in simp_all)
    then show ?thesis unfolding eq Inr by (auto split: prod.split sum.split)
  qed
qed

lemma tick_session_frame:
  "sv_sessions (snd (tick_session io cid ref sv)) = sv_sessions sv"
  "length (sv_heap (snd (tick_session io cid ref sv))) = length (sv_heap sv)"
  by (auto simp: tick_session_def heap_send_def next_sequence_def Let_def split: option.split sum.split prod.split)

lemma tick_sessions_fine:
  assumes "server_inv sv" "\<And>p. p \<in> set l \<Longrightarrow> \<exists>r. snd p = Some r \<and> r < length (sv_heap sv)"
  shows "fine is_filesystem (tick_sessions io l sv)"
  using assms
proof (induction l arbitrary: sv)
  case (Cons p l)
  obtain r where r: "snd p = Some r" "r < length (sv_heap sv)" using Cons.prems(2) [of p] by auto
  obtain res sv' where t: "tick_session (io (fst p)) (fst p) (Some r) sv = (res, sv')" by fastforce
  have f: "fine is_filesystem (res, sv')" using tick_session_fine [OF Cons.prems(1) r(2), of "io (fst p)" "fst p"] t by simp
  have len: "length (sv_heap sv') = length (sv_heap sv)"
    using tick_session_frame(2) [of "io (fst p)" "fst p" "Some r" sv] t by simp
  show ?case
  proof (cases res)
    case (Inl e)
    then show ?thesis using t f r by (cases p) simp
  next
    case (Inr x)
    then have "fine is_filesystem (tick_sessions io l sv')"
      using Cons.IH [of sv'] f Cons.prems(2) len by simp
    then show ?thesis using t r Inr by (cases p) simp
  qed
qed simp

lemma onResourceTick_fine:
  assumes "server_inv sv"
  shows "fine is_filesystem (onResourceTick ec io sv)"
proof (cases ec)
  case False
  have "fine is_filesystem (tick_sessions io (sv_sessions sv) (sv\<lparr>sv_timer := False\<rparr>))"
    by (rule tick_sessions_fine) (use assms in \<open>auto simp: server_inv_def\<close>)
  then show ?thesis using False by (auto simp: onResourceTick_def split: prod.splits sum.splits)
qed (use assms in \<open>simp add: onResourceTick_def\<close>)

subsection \<open>Logging in\<close>

lemma session_known_uuid:
  "find_uuid u (db_accounts db) \<noteq> None \<or> u = [] \<Longrightarrow> session_known db (session_setUUID u s)"
  by (auto simp: session_known_def session_setUUID_def)

lemma session_setUUID_frame [simp]:
  "ss_clientId (session_setUUID u s) = ss_clientId s" "session_inv (session_setUUID u s) = session_inv s"
  by (simp_all add: session_setUUID_def session_inv_def)

text \<open>With the client in the map, a login answers; without, the null pointer is used.\<close>

lemma login_finish_present:
  assumes "map_of (sv_sessions sv) cid = Some (Some r)" "utf8_valid uuid"
  shows "login_finish cid uuid sv
     = (Inr (), heap_update r (session_post (login_reply uuid)) (heap_update r (session_setUUID uuid) sv))"
  using assms by (simp add: login_finish_def server_getSession_def server_sendToClient_def heap_send_post)

lemma login_finish_absent:
  "map_of (sv_sessions sv) cid = None \<Longrightarrow> fst (login_finish cid uuid sv) = Inl null_session"
  by (simp add: login_finish_def server_getSession_def)

text \<open>An exception the session catches leaves the invariant; the one it cannot catch comes from
  a client that is not in the map.\<close>

abbreviation served :: "(exn \<Rightarrow> bool) \<Rightarrow> unit res \<times> server \<Rightarrow> bool" where
  "served P r \<equiv> (case r of (Inl e, sv) \<Rightarrow> if caught e then server_inv sv else P e | (Inr _, sv) \<Rightarrow> server_inv sv)"

definition lost :: "server \<Rightarrow> u8 \<Rightarrow> exn \<Rightarrow> bool" where
  "lost sv cid e \<longleftrightarrow> e = null_session \<and> map_of (sv_sessions sv) cid = None"

lemma lost_db: "lost (sv\<lparr>sv_db := db\<rparr>) = lost sv"
  by (intro ext) (simp add: lost_def)

lemma login_finish_served:
  assumes "server_inv sv" "utf8_valid uuid" "find_uuid uuid (db_accounts (sv_db sv)) \<noteq> None \<or> uuid = []"
  shows "served (lost sv cid) (login_finish cid uuid sv)"
proof (cases "map_of (sv_sessions sv) cid")
  case None
  then have "fst (login_finish cid uuid sv) = Inl null_session" by (rule login_finish_absent)
  then show ?thesis using None by (cases "login_finish cid uuid sv") (simp add: null_session_def lost_def)
next
  case (Some ref)
  then obtain r where r: "ref = Some r" "r < length (sv_heap sv)" by (rule server_inv_session [OF assms(1)])
  have "server_inv (heap_update r (session_setUUID uuid) sv)"
    by (rule server_inv_heap_update [OF assms(1) r(2)])
      (use server_inv_heap_session [OF assms(1) r(2)] session_known_uuid [OF assms(3)] in simp_all)
  then have "server_inv (heap_update r (session_post (login_reply uuid)) (heap_update r (session_setUUID uuid) sv))"
    by (rule server_inv_post) (simp add: r(2))
  then show ?thesis using Some r(1) assms(2) by (simp add: login_finish_present)
qed

lemma addUser_finds:
  assumes "fst (db_addUser io draws user pass db) = Inr uuid"
  shows "uuid = generateUuid (fst draws) (snd draws)
    \<and> find_uuid uuid (db_accounts (snd (db_addUser io draws user pass db))) \<noteq> None"
  using assms
  by (auto simp: db_addUser_def db_userExists_def Let_def case_prod_beta db_save_frame rbind_eq_Inr umap_set_def
      split: if_splits)

lemma addUser_errors:
  assumes "accounts_ok (db_accounts db)" "utf8_valid user" "utf8_valid pass"
    "fst (db_addUser io draws user pass db) = Inl e"
  shows "caught e"
proof (cases "db_userExists db user")
  case True
  then show ?thesis using assms(4) by (auto simp: db_addUser_def)
next
  case False
  let ?acc = "account_init\<lparr>acc_password := pass, acc_uuid := generateUuid (fst draws) (snd draws)\<rparr>"
  let ?db = "db\<lparr>db_accounts := umap_set user ?acc (db_accounts db)\<rparr>"
  have "accounts_ok (db_accounts ?db)"
    using addUser_ok [OF assms(1-3), of io draws] False
    by (simp add: db_addUser_def Let_def case_prod_beta db_save_frame)
  moreover have "fst (db_save io ?db) = Inl e"
    using assms(4) False by (auto simp: db_addUser_def Let_def case_prod_beta rbind_eq_Inl)
  ultimately have "is_filesystem e" by (rule db_save_errors)
  then show ?thesis by (cases e) simp_all
qed

lemma login_user_served:
  assumes inv: "server_inv sv" and utf8: "utf8_valid user" "utf8_valid pass"
  shows "served (lost sv cid) (login_user io draws cid user pass sv)"
proof (cases "db_userExists (sv_db sv) user")
  case True
  have ok: "accounts_ok (db_accounts (sv_db sv))" using inv by (simp add: server_inv_def)
  show ?thesis
  proof (cases "db_verifyUser (sv_db sv) user pass")
    case ver: True
    then obtain acc where acc: "map_of (db_accounts (sv_db sv)) user = Some acc" "acc_password acc = pass"
      by (auto simp: db_verifyUser_def split: option.splits)
    then have "(user, acc) \<in> set (db_accounts (sv_db sv))" by (blast dest: map_of_SomeD)
    then have u: "utf8_valid (acc_uuid acc)" "find_uuid (acc_uuid acc) (db_accounts (sv_db sv)) \<noteq> None"
      using ok by (auto simp: accounts_ok_def account_ok_def find_uuid_None intro: bexI [of _ "(user, acc)"])
    have "login_user io draws cid user pass sv = login_finish cid (acc_uuid acc) sv"
      using True ver acc by (simp add: login_user_def db_getUser_def)
    then show ?thesis using login_finish_served [OF inv u(1)] u(2) by simp
  qed (use True inv in \<open>simp add: login_user_def\<close>)
next
  case False
  let ?r = "db_addUser io draws user pass (sv_db sv)"
  have ok: "accounts_ok (db_accounts (sv_db sv))" using inv by (simp add: server_inv_def)
  have inv': "server_inv (sv\<lparr>sv_db := snd ?r\<rparr>)"
    by (rule server_inv_db [OF inv addUser_keeps_uuids addUser_ok [OF ok utf8]])
  show ?thesis
  proof (cases "fst ?r")
    case (Inl e)
    then have "login_user io draws cid user pass sv = (Inl e, sv\<lparr>sv_db := snd ?r\<rparr>)"
      using False by (simp add: login_user_def case_prod_beta split: sum.split)
    then show ?thesis using inv' addUser_errors [OF ok utf8 Inl] by simp
  next
    case (Inr uuid)
    then have "login_user io draws cid user pass sv = login_finish cid uuid (sv\<lparr>sv_db := snd ?r\<rparr>)"
      using False by (simp add: login_user_def case_prod_beta)
    moreover have "served (lost (sv\<lparr>sv_db := snd ?r\<rparr>) cid) (login_finish cid uuid (sv\<lparr>sv_db := snd ?r\<rparr>))"
    proof (rule login_finish_served [OF inv'])
      show "utf8_valid uuid" using addUser_finds [OF Inr] by simp
      show "find_uuid uuid (db_accounts (sv_db (sv\<lparr>sv_db := snd ?r\<rparr>))) \<noteq> None \<or> uuid = []"
        using addUser_finds [OF Inr] by (auto simp del: not_None_eq)
    qed
    ultimately show ?thesis by (simp only: lost_db)
  qed
qed

lemma json_at_caught: "json_at j k = Inl e \<Longrightarrow> caught e"
  by (auto simp: json_at_def type_error_create_def out_of_range_create_def split: json.splits option.splits)

lemma get_string_caught: "get_string j = Inl e \<Longrightarrow> caught e"
  by (auto simp: get_string_def type_error_create_def split: json.splits)

text \<open>A member that must be a string.\<close>

lemma string_member:
  assumes "json_wf j"
  shows "case rbind (json_at j k) get_string of Inl e \<Rightarrow> caught e | Inr s \<Rightarrow> utf8_valid s"
proof (cases "json_at j k")
  case (Inr v)
  then show ?thesis
    using get_string_wf [OF json_at_wf [OF assms Inr]] get_string_caught [of v] by (auto split: sum.split)
qed (auto dest: json_at_caught)

lemma login_handler_served:
  assumes "server_inv sv" "json_wf (msg_payload msg)"
  shows "served (lost sv cid) (login_handler io draws cid msg sv)"
proof -
  note user = string_member [OF assms(2), of "''id''"] and pass = string_member [OF assms(2), of "''password''"]
  show ?thesis
  proof (cases "rbind (json_at (msg_payload msg) ''id'') get_string")
    case (Inl e)
    then show ?thesis using user assms(1) by (simp add: login_handler_def)
  next
    case u: (Inr u)
    show ?thesis
    proof (cases "rbind (json_at (msg_payload msg) ''password'') get_string")
      case (Inl e)
      then show ?thesis using u pass assms(1) by (simp add: login_handler_def)
    next
      case (Inr w)
      then have "login_handler io draws cid msg sv = login_user io draws cid u w sv"
        using u by (simp add: login_handler_def)
      then show ?thesis using login_user_served [OF assms(1), of u w cid io draws] user pass u Inr by simp
    qed
  qed
qed

lemma onClientMessage_served:
  "server_inv sv \<Longrightarrow> json_wf (msg_payload msg) \<Longrightarrow> served (lost sv cid) (onClientMessage io draws cid msg sv)"
proof -
  have "onClientMessage io draws cid msg sv = (Inr (), sv)
      \<or> onClientMessage io draws cid msg sv = login_handler io draws cid msg sv"
    by (auto simp: onClientMessage_def split: option.split handler.split)
  moreover assume "server_inv sv" "json_wf (msg_payload msg)"
  moreover from this have "served (lost sv cid) (login_handler io draws cid msg sv)" by (rule login_handler_served)
  ultimately show ?thesis by (elim disjE) simp_all
qed

subsection \<open>Lines\<close>

text \<open>A sequence number that is a double outside the range of \<open>uint32_t\<close> is converted all the
  same, which the language leaves undefined.\<close>

definition bad_sequence :: "string \<Rightarrow> bool" where
  "bad_sequence raw \<longleftrightarrow> (\<exists>j x. json_parse raw = Inr j \<and> json_at j ''sequence'' = Inr (JNumber_float x)
     \<and> \<not> (0 \<le> dbl_trunc x \<and> dbl_trunc x < 2 ^ 32))"

lemma get_uint32_errors:
  "json_wf v \<Longrightarrow> get_uint32 v = Inl e \<Longrightarrow>
     caught e \<or> (\<exists>x. v = JNumber_float x \<and> \<not> (0 \<le> dbl_trunc x \<and> dbl_trunc x < 2 ^ 32))"
  by (cases v) (auto simp: get_uint32_def from_json_arithmetic_def static_cast_dbl_def type_error_create_def split: if_splits)

lemma message_parse_errors:
  assumes "message_parse raw = Inl e"
  shows "caught e \<or> bad_sequence raw"
proof (cases "json_parse raw")
  case (Inl e')
  then have "input_error e" using assms json_parse_outcome [of raw] by (simp add: message_parse_def)
  then show ?thesis by (cases e) simp_all
next
  case (Inr j)
  note wf = json_parse_wf [OF Inr]
  show ?thesis
  proof (cases "rbind (json_at j ''type'') get_string")
    case (Inl e')
    then show ?thesis using assms Inr string_member [OF wf, of "''type''"] by (simp add: message_parse_def)
  next
    case ty: (Inr ty)
    show ?thesis
    proof (cases "json_at j ''sequence''")
      case (Inl e')
      then show ?thesis using assms Inr ty json_at_caught [of j "''sequence''"] by (simp add: message_parse_def)
    next
      case sq: (Inr v)
      show ?thesis
      proof (cases "get_uint32 v")
        case (Inl e')
        then have "e = e'" using assms Inr ty sq by (simp add: message_parse_def)
        then show ?thesis using get_uint32_errors [OF json_at_wf [OF wf sq] Inl] Inr sq by (auto simp: bad_sequence_def)
      next
        case n: (Inr n)
        then have "json_at j ''payload'' = Inl e" using assms Inr ty sq by (auto simp: message_parse_def rbind_eq_Inl)
        then show ?thesis by (blast dest: json_at_caught)
      qed
    qed
  qed
qed

lemma session_take_line_frame:
  "session_take_line s = Some (line, s') \<Longrightarrow> ss_clientId s' = ss_clientId s \<and> session_inv s' = session_inv s
     \<and> session_known db s' = session_known db s"
  by (auto simp: session_take_line_def session_inv_def session_known_def split: if_splits)

text \<open>The ways a line can end the program.\<close>

definition fatal_line :: "server \<Rightarrow> nat \<Rightarrow> exn \<Rightarrow> bool" where
  "fatal_line sv r e \<longleftrightarrow> lost sv (ss_clientId (sv_heap sv ! r)) e
     \<or> (\<exists>line s. session_take_line (sv_heap sv ! r) = Some (line, s) \<and> bad_sequence line)"

lemma onClientMessage_length:
  "length (sv_heap (snd (onClientMessage io draws cid msg sv))) = length (sv_heap sv)"
proof -
  have f: "length (sv_heap (snd (login_finish cid uuid sv))) = length (sv_heap sv)" for uuid sv
    by (auto simp: login_finish_def server_getSession_def server_sendToClient_def heap_send_def
        split: option.split sum.split)
  have u: "length (sv_heap (snd (login_user io draws cid user pass sv))) = length (sv_heap sv)" for user pass
    by (simp add: login_user_def f case_prod_beta split: sum.split)
  show ?thesis
    by (simp add: onClientMessage_def login_handler_def u Let_def split: option.split handler.split sum.split prod.split)
qed

lemma session_onLine_fine:
  assumes "server_inv sv" "r < length (sv_heap sv)"
  shows "fine (fatal_line sv r) (session_onLine io draws r sv)"
proof (cases "session_take_line (sv_heap sv ! r)")
  case None
  then show ?thesis using assms(1) by (simp add: session_onLine_def)
next
  case (Some p)
  obtain line s where p: "p = (line, s)" by fastforce
  let ?sv = "heap_update r (\<lambda>_. s) sv"
  note s = session_take_line_frame [OF Some [unfolded p]]
  have inv: "server_inv ?sv"
    by (rule server_inv_heap_update [OF assms]) (use s server_inv_heap_session [OF assms] in simp_all)
  show ?thesis
  proof (cases "message_parse line")
    case (Inl e)
    then show ?thesis
      using message_parse_errors [OF Inl] server_inv_doRead [OF inv, of r] assms(2) Some p
      by (auto simp: session_onLine_def fatal_line_def Let_def)
  next
    case (Inr msg)
    let ?r = "onClientMessage io draws (ss_clientId s) msg ?sv"
    have srv: "served (lost ?sv (ss_clientId s)) ?r"
      by (rule onClientMessage_served [OF inv]) (use message_parse_wf [OF Inr] in simp)
    have len: "r < length (sv_heap (snd ?r))" using assms(2) by (simp add: onClientMessage_length)
    obtain res sv' where r: "?r = (res, sv')" by fastforce
    show ?thesis
    proof (cases res)
      case (Inl e)
      then show ?thesis
        using srv len r Some p Inr s server_inv_doRead [of sv' r]
        by (auto simp: session_onLine_def fatal_line_def lost_def Let_def)
    next
      case i: (Inr x)
      then show ?thesis
        using srv len r Some p Inr server_inv_doRead [of sv' r] by (simp add: session_onLine_def Let_def)
    qed
  qed
qed

subsection \<open>Every event\<close>

text \<open>How an event can end the program.\<close>

fun fatal :: "event \<Rightarrow> server \<Rightarrow> exn \<Rightarrow> bool" where
  "fatal (Ev_tick _ _) sv e \<longleftrightarrow> is_filesystem e"
| "fatal (Ev_line _ _ r) sv e \<longleftrightarrow> fatal_line sv r e"
| "fatal (Ev_accept ec) sv e \<longleftrightarrow> ec \<and> e = accept_logged"
| "fatal _ sv e \<longleftrightarrow> False"

lemma session_known_frame:
  "ss_uuid s' = ss_uuid s \<Longrightarrow> session_known db s' = session_known db s"
  by (simp add: session_known_def)

lemma session_onPosted_fine:
  assumes "server_inv sv" "r < length (sv_heap sv)"
  shows "fine never (session_onPosted r sv)"
proof -
  obtain s' where s': "session_run_posted (sv_heap sv ! r) = Inr s'"
      "ss_clientId s' = ss_clientId (sv_heap sv ! r)" "ss_uuid s' = ss_uuid (sv_heap sv ! r)"
      "session_inv (sv_heap sv ! r) \<longrightarrow> session_inv s'"
    using session_run_posted_ok by blast
  have "server_inv (heap_update r (\<lambda>_. s') sv)"
    by (rule server_inv_heap_update [OF assms])
      (use s' server_inv_heap_session [OF assms] session_known_frame [OF s'(3), of "sv_db sv"] in simp_all)
  then show ?thesis by (simp add: session_onPosted_def s'(1))
qed

lemma session_onWritten_fine:
  assumes "server_inv sv" "r < length (sv_heap sv)" "ss_writing (sv_heap sv ! r)"
  shows "fine never (session_onWritten ec r sv)"
proof -
  have "ss_outgoing (sv_heap sv ! r) \<noteq> []"
    using server_inv_heap_session [OF assms(1,2)] assms(3) by (simp add: session_inv_def)
  then obtain s' where s': "session_written ec (sv_heap sv ! r) = Inr (ec, s')"
      "ss_clientId s' = ss_clientId (sv_heap sv ! r)" "ss_uuid s' = ss_uuid (sv_heap sv ! r)" "session_inv s'"
    using session_written_ok by blast
  have "server_inv (heap_update r (\<lambda>_. s') sv)"
    by (rule server_inv_heap_update [OF assms(1,2)])
      (use s' server_inv_heap_session [OF assms(1,2)] session_known_frame [OF s'(3), of "sv_db sv"] in simp_all)
  then show ?thesis by (simp add: session_onWritten_def s'(1) server_inv_disconnect Let_def)
qed

lemma receive_frame [simp]:
  "ss_clientId (session_receive b s) = ss_clientId s" "session_inv (session_receive b s) = session_inv s"
  "session_known db (session_receive b s) = session_known db s"
  by (simp_all add: session_receive_def session_inv_def session_known_def)

lemma server_step_fine:
  assumes inv: "server_inv sv" and en: "enabled ev sv"
  shows "fine (fatal ev sv) (server_step ev sv)"
proof (cases ev)
  case (Ev_accept ec)
  then show ?thesis using onAccept_fine [OF inv, of ec] by (auto split: prod.splits sum.splits)
next
  case (Ev_receive r b)
  then show ?thesis
    using en server_inv_heap_session [OF inv, of r] server_inv_heap_update [OF inv, of r "session_receive b"] by simp
next
  case (Ev_line io draws r)
  show ?thesis
    unfolding Ev_line fatal.simps server_step.simps by (rule session_onLine_fine [OF inv]) (use en Ev_line in simp)
next
  case (Ev_read_error r)
  have "server_inv (heap_update r (\<lambda>s. s\<lparr>ss_reading := False\<rparr>) sv)"
    by (rule server_inv_heap_update [OF inv])
      (use en Ev_read_error server_inv_heap_session [OF inv, of r] in \<open>auto simp: session_inv_def session_known_def\<close>)
  then show ?thesis using Ev_read_error by (simp add: session_onReadError_def server_inv_disconnect)
next
  case (Ev_posted r)
  then show ?thesis using session_onPosted_fine [OF inv, of r] en by (auto split: prod.splits sum.splits)
next
  case (Ev_written ec r)
  then show ?thesis using session_onWritten_fine [OF inv, of r ec] en by (auto split: prod.splits sum.splits)
next
  case (Ev_tick ec io)
  show ?thesis unfolding Ev_tick fatal.simps server_step.simps by (rule onResourceTick_fine [OF inv])
qed

lemma server_main_inv: "accounts_ok (db_accounts db) \<Longrightarrow> server_inv (server_main db)"
  by (simp add: server_main_def server_init_def server_registerHandler_def server_inv_def server_doAccept_def
      scheduleResourceTick_def)

inductive_cases server_runs_startE: "server_runs db [] sv"
inductive_cases server_runs_stepE: "server_runs db (evs @ [ev]) sv"

lemma server_runs_inv: "server_runs db evs sv \<Longrightarrow> accounts_ok (db_accounts db) \<Longrightarrow> server_inv sv"
proof (induction rule: server_runs.induct)
  case (step evs sv ev sv')
  then show ?case using server_step_fine [of sv ev] by simp
qed (rule server_main_inv)

section \<open>Texts arrive in the order they were sent\<close>

text \<open>A session goes on from another: it is the same client, and texts are only added at the end.\<close>

definition goes_on :: "session \<Rightarrow> session \<Rightarrow> bool" where
  "goes_on s s' \<longleftrightarrow> ss_clientId s' = ss_clientId s \<and> prefix (session_texts s) (session_texts s')
     \<and> prefix (ss_sent s) (ss_sent s')"

definition sessions_go_on :: "server \<Rightarrow> server \<Rightarrow> bool" where
  "sessions_go_on sv sv' \<longleftrightarrow> length (sv_heap sv) \<le> length (sv_heap sv')
     \<and> (\<forall>r < length (sv_heap sv). goes_on (sv_heap sv ! r) (sv_heap sv' ! r))"

lemma goes_on_refl [simp]: "goes_on s s"
  by (simp add: goes_on_def)

lemma goes_on_trans: "goes_on a b \<Longrightarrow> goes_on b c \<Longrightarrow> goes_on a c"
  unfolding goes_on_def by (metis prefix_order.trans)

lemma sessions_go_on_refl [simp]: "sessions_go_on sv sv"
  by (simp add: sessions_go_on_def)

lemma sessions_go_on_trans: "sessions_go_on a b \<Longrightarrow> sessions_go_on b c \<Longrightarrow> sessions_go_on a c"
  unfolding sessions_go_on_def by (meson goes_on_trans order.trans order_less_le_trans)

lemma sessions_go_on_heap: "sv_heap sv' = sv_heap sv \<Longrightarrow> sessions_go_on sv sv'"
  by (simp add: sessions_go_on_def)

lemma sessions_go_on_update:
  assumes "goes_on (sv_heap sv ! r) (f (sv_heap sv ! r))"
  shows "sessions_go_on sv (heap_update r f sv)"
proof -
  have "goes_on (sv_heap sv ! q) ((sv_heap sv)[r := f (sv_heap sv ! r)] ! q)" if "q < length (sv_heap sv)" for q
    using that assms by (cases "q = r") simp_all
  then show ?thesis by (simp add: sessions_go_on_def heap_update_def)
qed

lemma goes_on_simps [simp]:
  "goes_on s (s\<lparr>ss_posted := ss_posted s @ [t]\<rparr>)" "goes_on s (session_setUUID u s)" "goes_on s (session_doRead s)"
  "goes_on s (session_receive b s)" "goes_on s (s\<lparr>ss_reading := rd\<rparr>)" "goes_on s (session_start s)"
  by (simp_all add: goes_on_def session_texts_def session_setUUID_def session_doRead_def session_receive_def
      session_start_def)

lemma heap_send_goes_on: "sessions_go_on sv (snd (heap_send r m sv))"
  by (auto simp: heap_send_def session_send_def rbind_def intro: sessions_go_on_update split: sum.split)

lemma tick_session_goes_on: "sessions_go_on sv (snd (tick_session io cid ref sv))"
proof -
  have "sessions_go_on sv (snd (heap_send r m (snd (next_sequence cid t sv)\<lparr>sv_db := db\<rparr>)))" for r m t db
    by (rule sessions_go_on_trans [OF _ heap_send_goes_on]) (simp add: sessions_go_on_heap next_sequence_def Let_def)
  moreover have "sessions_go_on sv (snd (next_sequence cid t sv)\<lparr>sv_db := db\<rparr>)" for t db
    by (simp add: sessions_go_on_heap next_sequence_def Let_def)
  ultimately show ?thesis
    by (simp add: tick_session_def Let_def case_prod_beta split: option.split sum.split)
qed

lemma tick_sessions_goes_on: "sessions_go_on sv (snd (tick_sessions io l sv))"
proof (induction l arbitrary: sv)
  case (Cons p l)
  obtain res sv' where t: "tick_session (io (fst p)) (fst p) (snd p) sv = (res, sv')" by fastforce
  then have "sessions_go_on sv sv'" using tick_session_goes_on by (metis snd_conv)
  then show ?case
    using t sessions_go_on_trans [OF _ Cons.IH] by (cases p; cases res) simp_all
qed simp

lemma login_goes_on: "sessions_go_on sv (snd (login_finish cid uuid sv))"
proof -
  have "sessions_go_on sv (snd (server_sendToClient cid m sv))" for m sv
    by (simp add: server_sendToClient_def heap_send_goes_on split: option.split)
  then have "sessions_go_on sv (snd (server_sendToClient cid m (heap_update r (session_setUUID u) sv)))" for m r u
    by (rule sessions_go_on_trans [rotated]) (simp add: sessions_go_on_update)
  then show ?thesis
    by (auto simp: login_finish_def server_getSession_def sessions_go_on_heap split: option.split)
qed

lemma onClientMessage_goes_on: "sessions_go_on sv (snd (onClientMessage io draws cid msg sv))"
proof -
  have "sessions_go_on sv (snd (login_finish cid u (sv\<lparr>sv_db := db\<rparr>)))" for u db
    by (rule sessions_go_on_trans [OF _ login_goes_on]) (simp add: sessions_go_on_heap)
  then have "sessions_go_on sv (snd (login_user io draws cid user pass sv))" for user pass
    by (simp add: login_user_def login_goes_on case_prod_beta sessions_go_on_heap split: sum.split)
  then show ?thesis
    by (simp add: onClientMessage_def login_handler_def Let_def split: option.split handler.split sum.split prod.split)
qed

lemma session_onLine_goes_on: "sessions_go_on sv (snd (session_onLine io draws r sv))"
proof (cases "session_take_line (sv_heap sv ! r)")
  case (Some p)
  obtain line s where p: "p = (line, s)" by fastforce
  let ?sv = "heap_update r (\<lambda>_. s) sv"
  have "goes_on (sv_heap sv ! r) s"
    using Some p by (auto simp: session_take_line_def goes_on_def session_texts_def split: if_splits)
  then have 1: "sessions_go_on sv ?sv" by (simp add: sessions_go_on_update)
  have rd: "sessions_go_on a (heap_update r session_doRead b)" if "sessions_go_on a b" for a b
    using that by (rule sessions_go_on_trans) (simp add: sessions_go_on_update)
  have 2: "sessions_go_on sv (snd (onClientMessage io draws (ss_clientId s) msg ?sv))" for msg
    by (rule sessions_go_on_trans [OF 1 onClientMessage_goes_on])
  show ?thesis
  proof (cases "message_parse line")
    case (Inl e)
    then show ?thesis using Some p 1 rd [OF 1] by (simp add: session_onLine_def Let_def)
  next
    case (Inr msg)
    then show ?thesis
      using Some p 2 [of msg] rd [OF 2 [of msg]]
      by (auto simp: session_onLine_def Let_def case_prod_beta split: sum.split)
  qed
qed (simp add: session_onLine_def)

lemma server_step_goes_on:
  assumes "server_inv sv" "enabled ev sv"
  shows "sessions_go_on sv (snd (server_step ev sv))"
proof (cases ev)
  case (Ev_accept ec)
  let ?sv = "sv\<lparr>sv_accepting := False, sv_nextClientId := sv_nextClientId sv + 1,
      sv_heap := sv_heap sv @ [session_init (sv_nextClientId sv)],
      sv_sessions := umap_set (sv_nextClientId sv) (Some (length (sv_heap sv))) (sv_sessions sv)\<rparr>"
  have "sessions_go_on sv ?sv" by (simp add: sessions_go_on_def nth_append)
  moreover have "sessions_go_on ?sv (heap_update (length (sv_heap sv)) (session_post m) ?sv)" for m
    by (rule sessions_go_on_update) (simp add: session_post_def)
  moreover have "sessions_go_on a (server_doAccept (heap_update r session_start a))" for a r
    by (rule sessions_go_on_trans [OF sessions_go_on_update [of a r session_start]])
      (simp_all add: sessions_go_on_heap server_doAccept_def)
  ultimately have "sessions_go_on sv (server_doAccept (heap_update r session_start
      (heap_update (length (sv_heap sv)) (session_post m) ?sv)))" for r m
    by (blast intro: sessions_go_on_trans)
  moreover have "sessions_go_on sv (sv\<lparr>sv_accepting := False\<rparr>)" by (simp add: sessions_go_on_heap)
  ultimately show ?thesis using Ev_accept by (simp add: onAccept_def Let_def heap_send_post)
next
  case (Ev_receive r b)
  then show ?thesis by (simp add: sessions_go_on_update)
next
  case (Ev_line io draws r)
  then show ?thesis by (simp add: session_onLine_goes_on)
next
  case (Ev_read_error r)
  have "sessions_go_on sv (heap_update r (\<lambda>s. s\<lparr>ss_reading := False\<rparr>) sv)" by (simp add: sessions_go_on_update)
  then have "sessions_go_on sv (onClientDisconnect cid (heap_update r (\<lambda>s. s\<lparr>ss_reading := False\<rparr>) sv))" for cid
    by (rule sessions_go_on_trans) (simp add: sessions_go_on_heap onClientDisconnect_def)
  then show ?thesis using Ev_read_error by (simp add: session_onReadError_def)
next
  case (Ev_posted r)
  obtain s' where s': "session_run_posted (sv_heap sv ! r) = Inr s'" "session_texts s' = session_texts (sv_heap sv ! r)"
      "ss_sent s' = ss_sent (sv_heap sv ! r)" "ss_clientId s' = ss_clientId (sv_heap sv ! r)"
    using session_run_posted_ok by blast
  then show ?thesis using Ev_posted by (simp add: session_onPosted_def sessions_go_on_update goes_on_def)
next
  case (Ev_written ec r)
  have "ss_outgoing (sv_heap sv ! r) \<noteq> []"
    using server_inv_heap_session [OF assms(1), of r] assms(2) Ev_written by (simp add: session_inv_def)
  then obtain s' ts where s': "session_written ec (sv_heap sv ! r) = Inr (ec, s')"
      "session_texts s' = session_texts (sv_heap sv ! r)" "ss_sent s' = ss_sent (sv_heap sv ! r) @ ts"
      "ss_clientId s' = ss_clientId (sv_heap sv ! r)"
    using session_written_ok by blast
  have "sessions_go_on sv (heap_update r (\<lambda>_. s') sv)" using s' by (simp add: sessions_go_on_update goes_on_def)
  moreover from this have "sessions_go_on sv (onClientDisconnect cid (heap_update r (\<lambda>_. s') sv))" for cid
    by (rule sessions_go_on_trans) (simp add: sessions_go_on_heap onClientDisconnect_def)
  ultimately show ?thesis using Ev_written s'(1) by (simp add: session_onWritten_def Let_def)
next
  case (Ev_tick ec io)
  have "sessions_go_on sv (snd (tick_sessions io (sv_sessions sv) (sv\<lparr>sv_timer := False\<rparr>)))"
    by (rule sessions_go_on_trans [OF _ tick_sessions_goes_on]) (simp add: sessions_go_on_heap)
  moreover from this have "sessions_go_on sv (scheduleResourceTick (snd (tick_sessions io (sv_sessions sv) (sv\<lparr>sv_timer := False\<rparr>))))"
    by (rule sessions_go_on_trans) (simp add: sessions_go_on_heap scheduleResourceTick_def)
  ultimately show ?thesis
    using Ev_tick by (auto simp: onResourceTick_def sessions_go_on_heap case_prod_beta Let_def split: sum.split)
qed

lemma server_runs_go_on:
  assumes "server_runs db evs' sv'" "accounts_ok (db_accounts db)"
  shows "prefix evs evs' \<Longrightarrow> \<exists>sv. server_runs db evs sv \<and> sessions_go_on sv sv'"
  using assms
proof (induction arbitrary: evs rule: server_runs.induct)
  case start
  then show ?case using server_runs.start [of db] by (intro exI [of _ "server_main db"]) auto
next
  case (step evs' sv ev sv')
  show ?case
  proof (cases "evs = evs' @ [ev]")
    case True
    then show ?thesis using server_runs.step [OF step.hyps] by (intro exI [of _ sv']) simp
  next
    case False
    then have "prefix evs evs'" using step.prems(1) by (simp add: prefix_snoc)
    then obtain sv0 where "server_runs db evs sv0" "sessions_go_on sv0 sv" using step.IH step.prems(2) by blast
    moreover have "sessions_go_on sv sv'"
      using server_step_goes_on [OF server_runs_inv [OF step.hyps(1) step.prems(2)] step.hyps(2)] step.hyps(3) by simp
    ultimately show ?thesis by (blast intro: sessions_go_on_trans)
  qed
qed

text \<open>What the peer of a session has received, of all that was sent to it.\<close>

lemma sent_prefix_texts: "prefix (ss_sent s) (session_texts s)"
  by (simp add: session_texts_def)

section \<open>What a tick produces\<close>

definition pool_of :: "server \<Rightarrow> string \<Rightarrow> resources option" where
  "pool_of sv u = map_option (\<lambda>(_, acc). acc_resources acc) (find_uuid u (db_accounts (sv_db sv)))"

definition seq_of :: "server \<Rightarrow> u8 \<Rightarrow> u32" where
  "seq_of sv cid = (case map_of (sv_lastSeqByType sv) cid of
     None \<Rightarrow> 0 | Some m \<Rightarrow> (case map_of m MSG_RESOURCE_UPDATE of None \<Rightarrow> 0 | Some n \<Rightarrow> n))"

lemma next_sequence_seq:
  "fst (next_sequence cid MSG_RESOURCE_UPDATE sv) = seq_of sv cid + 1"
  "seq_of (snd (next_sequence cid MSG_RESOURCE_UPDATE sv)) c = (if c = cid then seq_of sv cid + 1 else seq_of sv c)"
  by (simp_all add: next_sequence_def seq_of_def Let_def split: option.split)

text \<open>A tick on behalf of one session that goes well.\<close>

lemma tick_session_done:
  assumes inv: "server_inv sv" and r: "r < length (sv_heap sv)" and u: "ss_uuid (sv_heap sv ! r) \<noteq> []"
    and t: "tick_session io cid (Some r) sv = (Inr (), sv')"
  shows "\<exists>pool. pool_of sv (ss_uuid (sv_heap sv ! r)) = Some pool
    \<and> (\<forall>u. pool_of sv' u = (if u = ss_uuid (sv_heap sv ! r) then Some (produce pool) else pool_of sv u))
    \<and> (\<forall>c. seq_of sv' c = (if c = cid then seq_of sv c + 1 else seq_of sv c))
    \<and> sv_heap sv' = (sv_heap sv)[r := session_post
        (resource_update (seq_of sv cid + 1) (ss_uuid (sv_heap sv ! r)) (produce pool)) (sv_heap sv ! r)]"
proof -
  let ?u = "ss_uuid (sv_heap sv ! r)" and ?db = "sv_db sv"
  have ok: "accounts_ok (db_accounts ?db)" using inv by (simp add: server_inv_def)
  then have um: "umap_inv (db_accounts ?db)" by (simp add: accounts_ok_def)
  obtain user acc where f: "find_uuid ?u (db_accounts ?db) = Some (user, acc)"
    using server_inv_heap_session [OF inv r] u by (auto simp: session_known_def)
  have utf8: "utf8_valid ?u" using find_uuid_Some [OF f] ok by (auto simp: accounts_ok_def account_ok_def)
  let ?pool = "produce (acc_resources acc)" and ?sq = "next_sequence cid MSG_RESOURCE_UPDATE sv"
  let ?upd = "db_updateResources io ?u ?pool ?db"
  have db: "sv_db (snd ?sq) = ?db" "sv_heap (snd ?sq) = sv_heap sv" by (subst next_sequence_frame, simp)+
  have eq: "(case fst ?upd of
      Inl e \<Rightarrow> (Inl e, snd ?sq\<lparr>sv_db := snd ?upd\<rparr>)
    | Inr _ \<Rightarrow> heap_send r (resource_update (fst ?sq) ?u ?pool) (snd ?sq\<lparr>sv_db := snd ?upd\<rparr>)) = (Inr (), sv')"
    using u f db t by (simp add: tick_session_def db_getResources_def Let_def case_prod_beta split: sum.split_asm sum.split)
  then have sv': "sv' = heap_update r (session_post (resource_update (fst ?sq) ?u ?pool)) (snd ?sq\<lparr>sv_db := snd ?upd\<rparr>)"
    by (auto simp: heap_send_post utf8 split: sum.splits)
  let ?f = "\<lambda>a. a\<lparr>acc_resources := ?pool\<rparr>"
  have "acc_uuid (?f acc) = ?u" using find_uuid_Some [OF f] by simp
  note upd = update_uuid_accounts [where f = ?f and io = io, OF um f this]
  have "pool_of sv' v = (if v = ?u then Some ?pool else pool_of sv v)" for v
    using upd by (simp add: sv' pool_of_def db_updateResources_def)
  moreover have "pool_of sv ?u = Some (acc_resources acc)" using f by (simp add: pool_of_def)
  moreover have "seq_of sv' c = (if c = cid then seq_of sv c + 1 else seq_of sv c)" for c
    using next_sequence_seq(2) [of cid sv c] by (simp add: sv' seq_of_def)
  moreover have "sv_heap sv' = (sv_heap sv)[r := session_post
      (resource_update (seq_of sv cid + 1) ?u ?pool) (sv_heap sv ! r)]"
    by (simp add: sv' heap_update_def db(2) next_sequence_seq(1))
  ultimately show ?thesis by blast
qed

lemma tick_session_skip:
  "ss_uuid (sv_heap sv ! r) = [] \<Longrightarrow> tick_session io cid (Some r) sv = (Inr (), sv)"
  by (simp add: tick_session_def)

text \<open>Every session in the map with the account's uuid adds to its pool once; every logged-in
  client's number goes up by one.\<close>

abbreviation logged_in :: "server \<Rightarrow> (u8 \<times> nat option) list \<Rightarrow> string \<Rightarrow> nat" where
  "logged_in sv l u \<equiv> length (filter (\<lambda>p. ss_uuid (sv_heap sv ! the (snd p)) = u) l)"

definition add_pool :: "nat \<Rightarrow> resources \<Rightarrow> resources" where
  "add_pool n pool = \<lparr>wood = wood pool + of_nat (10 * n), food = food pool + of_nat (10 * n),
     iron = iron pool + of_nat (10 * n)\<rparr>"

lemma add_pool_0 [simp]: "add_pool 0 pool = pool"
  by (simp add: add_pool_def)

lemma add_pool_produce: "add_pool n (produce pool) = add_pool (Suc n) pool"
  by (simp add: add_pool_def produce_def)

lemma tick_sessions_done:
  assumes "server_inv sv" "distinct (map fst l)"
    "\<And>p. p \<in> set l \<Longrightarrow> \<exists>r. snd p = Some r \<and> r < length (sv_heap sv) \<and> ss_clientId (sv_heap sv ! r) = fst p"
    "tick_sessions io l sv = (Inr (), sv')"
  shows "(\<forall>u. u \<noteq> [] \<longrightarrow> pool_of sv' u = map_option (add_pool (logged_in sv l u)) (pool_of sv u))
    \<and> (\<forall>c. seq_of sv' c = (if \<exists>r. (c, Some r) \<in> set l \<and> ss_uuid (sv_heap sv ! r) \<noteq> [] then seq_of sv c + 1 else seq_of sv c))"
  using assms
proof (induction l arbitrary: sv)
  case Nil
  then show ?case by (simp add: option.map_ident)
next
  case (Cons p l)
  obtain r where r: "snd p = Some r" "r < length (sv_heap sv)" "ss_clientId (sv_heap sv ! r) = fst p"
    using Cons.prems(3) [of p] by auto
  obtain res sv1 where t: "tick_session (io (fst p)) (fst p) (Some r) sv = (res, sv1)" by fastforce
  have res: "res = Inr ()" and rest: "tick_sessions io l sv1 = (Inr (), sv')"
    using Cons.prems(4) t r(1) by (cases p; cases res; simp)+
  have inv1: "server_inv sv1" using tick_session_fine [OF Cons.prems(1) r(2), of "io (fst p)" "fst p"] t res by simp
  show ?case
  proof (cases "ss_uuid (sv_heap sv ! r) = []")
    case True
    then have eq: "sv1 = sv" using t res by (simp add: tick_session_skip)
    have "(\<exists>q. (c, Some q) \<in> set (p # l) \<and> ss_uuid (sv_heap sv ! q) \<noteq> [])
        = (\<exists>q. (c, Some q) \<in> set l \<and> ss_uuid (sv_heap sv ! q) \<noteq> [])" for c
      using True r(1) by auto
    moreover have "logged_in sv (p # l) u = logged_in sv l u" if "u \<noteq> []" for u
      using True that r(1) by simp
    ultimately show ?thesis
      using Cons.IH [of sv] Cons.prems rest eq by simp
  next
    case False
    let ?u = "ss_uuid (sv_heap sv ! r)"
    obtain pool where d: "pool_of sv ?u = Some pool"
        "\<And>u. pool_of sv1 u = (if u = ?u then Some (produce pool) else pool_of sv u)"
        "\<And>c. seq_of sv1 c = (if c = fst p then seq_of sv c + 1 else seq_of sv c)"
        "sv_heap sv1 = (sv_heap sv)[r := session_post
          (resource_update (seq_of sv (fst p) + 1) ?u (produce pool)) (sv_heap sv ! r)]"
      using tick_session_done [OF Cons.prems(1) r(2) False] t res by blast
    have heap: "ss_uuid (sv_heap sv1 ! q) = ss_uuid (sv_heap sv ! q)"
        "ss_clientId (sv_heap sv1 ! q) = ss_clientId (sv_heap sv ! q)" for q
      using r(2) by (simp_all add: d(4) nth_list_update)
    have ih: "(\<forall>u. u \<noteq> [] \<longrightarrow> pool_of sv' u = map_option (add_pool (logged_in sv1 l u)) (pool_of sv1 u))
      \<and> (\<forall>c. seq_of sv' c = (if \<exists>r. (c, Some r) \<in> set l \<and> ss_uuid (sv_heap sv1 ! r) \<noteq> [] then seq_of sv1 c + 1 else seq_of sv1 c))"
      by (rule Cons.IH [OF inv1 _ _ rest]) (use Cons.prems(2,3) d(4) heap(2) in simp_all)
    have "pool_of sv' u = map_option (add_pool (logged_in sv (p # l) u)) (pool_of sv u)" if "u \<noteq> []" for u
      using ih that d(1,2) r(1) by (auto simp: heap(1) add_pool_produce)
    moreover have "seq_of sv' c = (if \<exists>q. (c, Some q) \<in> set (p # l) \<and> ss_uuid (sv_heap sv ! q) \<noteq> []
        then seq_of sv c + 1 else seq_of sv c)" for c
    proof (cases "c = fst p")
      case True
      then have "(c, Some q) \<notin> set l" for q
        using Cons.prems(2) image_eqI [of "fst p" fst "(c, Some q)" "set l"] by auto
      moreover have "(c, Some r) \<in> set (p # l)" using True r(1) by (cases p) simp
      ultimately show ?thesis using ih True False d(3) by auto
    next
      case F: False
      then have "(c, Some q) \<in> set (p # l) \<longleftrightarrow> (c, Some q) \<in> set l" for q by auto
      then show ?thesis using ih F by (simp add: heap(1) d(3))
    qed
    ultimately show ?thesis by blast
  qed
qed

lemma onResourceTick_done:
  assumes "server_inv sv" "onResourceTick False io sv = (Inr (), sv')"
  shows "(\<forall>u. u \<noteq> [] \<longrightarrow> pool_of sv' u = map_option (add_pool (logged_in sv (sv_sessions sv) u)) (pool_of sv u))
    \<and> (\<forall>c. seq_of sv' c = (if \<exists>r. (c, Some r) \<in> set (sv_sessions sv) \<and> ss_uuid (sv_heap sv ! r) \<noteq> []
        then seq_of sv c + 1 else seq_of sv c))
    \<and> sv_timer sv'"
proof -
  let ?sv = "sv\<lparr>sv_timer := False\<rparr>"
  obtain sv1 where t: "tick_sessions io (sv_sessions sv) ?sv = (Inr (), sv1)" "sv' = scheduleResourceTick sv1"
    using assms(2) by (auto simp: onResourceTick_def Let_def split: prod.splits sum.splits)
  have d: "distinct (map fst (sv_sessions sv))" using assms(1) by (simp add: server_inv_def umap_inv_def)
  have f: "pool_of ?sv = pool_of sv" "seq_of ?sv = seq_of sv" "pool_of sv' = pool_of sv1" "seq_of sv' = seq_of sv1"
    by (simp_all add: fun_eq_iff pool_of_def seq_of_def t(2) scheduleResourceTick_def)
  have "server_inv ?sv" using assms(1) by simp
  from tick_sessions_done [OF this d _ t(1)] server_inv_entry [OF assms(1)]
  show ?thesis unfolding f by (simp add: t(2) scheduleResourceTick_def)
qed

end
