(* ===== verification/Gui.thy ===== *)
theory Gui
  imports Prelude Complex_Main
begin

text \<open>
  The widgets of the client: \<open>Timer\<close>, \<open>CFont\<close>, \<open>Button\<close> and \<open>TextBox\<close>. What raylib
  tells the program in one frame (mouse, keys, time, screen sz, the collision test and the
  text metrics) is the record \<open>frame\<close>; coordinates and sizes are rationals, so rounding of
  \<open>float\<close> is not modelled. A font is shared by the widgets that hold a pointer to it, so
  the operations of \<open>TextBox\<close> take the font and return it.
\<close>

section \<open>What raylib provides in a frame\<close>

record rect =
  rc_x :: rat
  rc_y :: rat
  rc_width :: rat
  rc_height :: rat

record frame =
  fr_hits :: "rect \<Rightarrow> bool"
  fr_down :: bool
  fr_pressed :: bool
  fr_released :: bool
  fr_backspace :: bool
  fr_now :: int
  fr_screen :: "rat \<times> rat"
  fr_measure :: "string \<Rightarrow> rat \<Rightarrow> rat \<Rightarrow> rat"

section \<open>Timer and font\<close>

text \<open>Time points are in nanoseconds.\<close>

record timer =
  tm_startTime :: int
  tm_endTime :: int

definition timer_init :: "int \<Rightarrow> timer" where
  "timer_init now = \<lparr>tm_startTime = now, tm_endTime = 0\<rparr>"

definition timer_refresh :: "int \<Rightarrow> timer \<Rightarrow> timer" where
  "timer_refresh now t = t\<lparr>tm_startTime := now\<rparr>"

definition hasTimePassedMS :: "int \<Rightarrow> int \<Rightarrow> timer \<Rightarrow> bool \<times> timer" where
  "hasTimePassedMS milliseconds now t =
     (let t' = t\<lparr>tm_endTime := now\<rparr>
      in (milliseconds \<le> cdiv (tm_endTime t' - tm_startTime t') 1000000, t'))"

record cfont =
  cf_fontSpacing :: rat
  cf_fontSize :: rat

definition cfont_load :: cfont where
  "cfont_load = \<lparr>cf_fontSpacing = 1, cf_fontSize = 20\<rparr>"

definition setFontSpacing :: "rat \<Rightarrow> cfont \<Rightarrow> cfont" where
  "setFontSpacing spacing f = f\<lparr>cf_fontSpacing := spacing\<rparr>"

definition setFontSize :: "rat \<Rightarrow> cfont \<Rightarrow> cfont" where
  "setFontSize sz f = f\<lparr>cf_fontSize := sz\<rparr>"

section \<open>Button\<close>

datatype button_state = BS_NORMAL | BS_HOVERED | BS_PRESSED

record button =
  bt_bounds :: rect
  bt_text :: string
  bt_state :: button_state
  bt_wasPressed :: bool

definition button_init :: "rect \<Rightarrow> string \<Rightarrow> button" where
  "button_init bounds text =
     \<lparr>bt_bounds = bounds, bt_text = text, bt_state = BS_NORMAL, bt_wasPressed = False\<rparr>"

datatype button_event = On_click | On_hover | On_release

text \<open>The callbacks run are returned in order.\<close>

definition button_Update :: "frame \<Rightarrow> button \<Rightarrow> button_event list \<times> button" where
  "button_Update fr b =
     (if fr_hits fr (bt_bounds b)
      then (if fr_pressed fr
            then ([On_click], b\<lparr>bt_state := BS_PRESSED, bt_wasPressed := True\<rparr>)
            else if fr_down fr then ([], b\<lparr>bt_state := BS_PRESSED\<rparr>)
            else (let b' = b\<lparr>bt_state := BS_HOVERED\<rparr>
                  in if bt_wasPressed b \<and> fr_released fr
                     then ([On_hover, On_release], b'\<lparr>bt_wasPressed := False\<rparr>)
                     else ([On_hover], b')))
      else ([], b\<lparr>bt_state := BS_NORMAL, bt_wasPressed := False\<rparr>))"

section \<open>Text box\<close>

datatype textbox_state = NOT_ACTIVE | HOVERED | ACTIVE

record textbox =
  tb_inputText :: string
  tb_outputText :: string
  tb_position :: "rat \<times> rat"
  tb_baseSize :: "rat \<times> rat"
  tb_state :: textbox_state
  tb_scale :: rat
  tb_animateFocus :: bool
  tb_showingCursor :: bool
  tb_timer :: timer

definition kScaleHover :: rat where
  "kScaleHover = 105 / 100"

definition kScaleSpeed :: rat where
  "kScaleSpeed = 15 / 100"

definition kBlinkInterval :: int where
  "kBlinkInterval = 1000"

definition kDefaultFontSize :: rat where
  "kDefaultFontSize = 20"

definition kDefaultFontSpacing :: rat where
  "kDefaultFontSpacing = 2"

text \<open>Without a texture the box takes the size of one frame of the fallback texture.\<close>

definition textbox_init :: "frame \<Rightarrow> textbox" where
  "textbox_init fr =
     \<lparr>tb_inputText = [], tb_outputText = ''-'',
      tb_position = (fst (fr_screen fr) / 2, snd (fr_screen fr) / 2), tb_baseSize = (180, 36),
      tb_state = NOT_ACTIVE, tb_scale = 1, tb_animateFocus = True, tb_showingCursor = True,
      tb_timer = timer_init (fr_now fr)\<rparr>"

definition textbox_SetCenter :: "rat \<times> rat \<Rightarrow> textbox \<Rightarrow> textbox" where
  "textbox_SetCenter center t = t\<lparr>tb_position := center\<rparr>"

definition textbox_SetDimensions :: "rat \<times> rat \<Rightarrow> textbox \<Rightarrow> textbox" where
  "textbox_SetDimensions dimensions t = t\<lparr>tb_baseSize := dimensions\<rparr>"

definition textbox_SetFocusAnimation :: "bool \<Rightarrow> textbox \<Rightarrow> textbox" where
  "textbox_SetFocusAnimation on t = t\<lparr>tb_animateFocus := on\<rparr>"

definition GetTransformedBounds :: "textbox \<Rightarrow> rect" where
  "GetTransformedBounds t =
     (let w = fst (tb_baseSize t) * tb_scale t; h = snd (tb_baseSize t) * tb_scale t
      in \<lparr>rc_x = fst (tb_position t) - w / 2, rc_y = snd (tb_position t) - h / 2,
          rc_width = w, rc_height = h\<rparr>)"

definition textbox_UpdateState :: "frame \<Rightarrow> textbox \<Rightarrow> textbox" where
  "textbox_UpdateState fr t =
     (if fr_hits fr (GetTransformedBounds t)
      then (if fr_pressed fr then t\<lparr>tb_state := ACTIVE\<rparr>
            else if tb_state t \<noteq> ACTIVE then t\<lparr>tb_state := HOVERED\<rparr> else t)
      else if fr_pressed fr then t\<lparr>tb_state := NOT_ACTIVE\<rparr>
      else if tb_state t = HOVERED then t\<lparr>tb_state := NOT_ACTIVE\<rparr> else t)"

text \<open>\<open>GetCharPressed\<close> takes the next character code of the frame; an empty queue gives 0.\<close>

fun read_chars :: "int list \<Rightarrow> string \<Rightarrow> string \<times> int list" where
  "read_chars [] text = (text, [])"
| "read_chars (key # keys) text =
     (if 0 < key then read_chars keys (if 32 \<le> key \<and> key \<le> 125 then text @ [chr key] else text)
      else (text, keys))"

definition textbox_HandleInput :: "frame \<Rightarrow> int list \<Rightarrow> textbox \<Rightarrow> textbox \<times> int list" where
  "textbox_HandleInput fr keys t =
     (let (text, keys') = read_chars keys (tb_inputText t)
      in (t\<lparr>tb_inputText := (if fr_backspace fr \<and> text \<noteq> [] then butlast text else text)\<rparr>, keys'))"

text \<open>The font shrinks by one until the text fits or its size is no longer above eight.\<close>

function fit_font :: "(rat \<Rightarrow> rat) \<Rightarrow> rat \<Rightarrow> rat \<Rightarrow> rat" where
  "fit_font width maxWidth sz =
     (if maxWidth < width sz \<and> 8 < sz then fit_font width maxWidth (sz - 1) else sz)"
  by pat_completeness auto
termination
  by (relation "measure (\<lambda>(w, m, s). nat \<lceil>s\<rceil>)") auto

declare fit_font.simps [simp del]

definition textbox_UpdateOutputText :: "frame \<Rightarrow> textbox \<times> cfont \<Rightarrow> textbox \<times> cfont" where
  "textbox_UpdateOutputText fr tf =
     (let (t, font0) = tf;
          maxWidth = rc_width (GetTransformedBounds t) - 10;
          font1 = setFontSpacing kDefaultFontSpacing (setFontSize kDefaultFontSize font0);
          displayText = tb_inputText t;
          font = setFontSize (fit_font (\<lambda>sz. fr_measure fr displayText sz (cf_fontSpacing font1))
                                maxWidth (cf_fontSize font1)) font1;
          out = displayText @ (if tb_showingCursor t then ''|'' else []);
          (passed, tm) = hasTimePassedMS kBlinkInterval (fr_now fr) (tb_timer t);
          t1 = t\<lparr>tb_timer := tm\<rparr>;
          t2 = (if passed then t1\<lparr>tb_showingCursor := \<not> tb_showingCursor t1,
                                 tb_timer := timer_refresh (fr_now fr) (tb_timer t1)\<rparr> else t1)
      in (t2\<lparr>tb_outputText := (if out = [] then ''-'' else out)\<rparr>, font))"

definition textbox_Animate :: "textbox \<Rightarrow> textbox" where
  "textbox_Animate t =
     (if \<not> tb_animateFocus t then t
      else (let targetScale = (if tb_state t = HOVERED \<or> tb_state t = ACTIVE then kScaleHover else 1)
            in t\<lparr>tb_scale := tb_scale t + (targetScale - tb_scale t) * kScaleSpeed\<rparr>))"

definition textbox_Update :: "frame \<Rightarrow> int list \<Rightarrow> textbox \<times> cfont \<Rightarrow> (textbox \<times> cfont) \<times> int list" where
  "textbox_Update fr keys tf =
     (let t1 = textbox_UpdateState fr (fst tf);
          (t2, keys') = (if tb_state t1 = ACTIVE then textbox_HandleInput fr keys t1 else (t1, keys));
          (t3, font) = textbox_UpdateOutputText fr (t2, snd tf)
      in ((textbox_Animate t3, font), keys'))"

end
