(* ===== verification/Client.thy ===== *)
theory Client
  imports Protocol Gui
begin

text \<open>
  The client: \<open>NetworkClient\<close> (its receiving thread fills a queue the frame loop polls),
  \<open>GameContext\<close> and \<open>Player\<close>, the scenes and the \<open>SceneManager\<close>, and the frame loop of
  \<open>Application\<close>. The receiving thread and the frame loop meet only in the queue, under its
  mutex, so their steps interleave atomically. Drawing and logging are left out.
\<close>

section \<open>The network client\<close>

record net_client =
  nc_running :: bool
  nc_connected :: bool
  nc_incoming :: string
  nc_recvQueue :: "message list"
  nc_sent :: "string list"

definition net_init :: net_client where
  "net_init = \<lparr>nc_running = False, nc_connected = False, nc_incoming = [], nc_recvQueue = [],
     nc_sent = []\<rparr>"

text \<open>\<open>ok\<close>: the name resolves and the server accepts.\<close>

definition net_connect :: "bool \<Rightarrow> net_client \<Rightarrow> bool \<times> net_client" where
  "net_connect ok nc =
     (if ok then (True, nc\<lparr>nc_connected := True, nc_running := True\<rparr>) else (False, nc))"

text \<open>One turn of \<open>recvLoop\<close>; \<open>None\<close> when it has ended or waits for more bytes.\<close>

definition net_recv_turn :: "net_client \<Rightarrow> net_client option" where
  "net_recv_turn nc =
     (if \<not> nc_running nc then None
      else (case take_line (nc_incoming nc) of
              None \<Rightarrow> None
            | Some (line, rest) \<Rightarrow>
                (let nc1 = nc\<lparr>nc_incoming := rest\<rparr>
                 in Some (case message_parse (strip_cr line) of
                      Inl e \<Rightarrow> nc1
                    | Inr msg \<Rightarrow> nc1\<lparr>nc_recvQueue := nc_recvQueue nc1 @ [msg]\<rparr>))))"

lemma net_recv_turn_less: "net_recv_turn nc = Some nc' \<Longrightarrow> length (nc_incoming nc') < length (nc_incoming nc)"
  by (auto simp: net_recv_turn_def Let_def split: if_splits option.splits sum.splits dest: take_line_length)

function net_recvLoop :: "net_client \<Rightarrow> net_client" where
  "net_recvLoop nc = (case net_recv_turn nc of None \<Rightarrow> nc | Some nc' \<Rightarrow> net_recvLoop nc')"
  by pat_completeness auto
termination
  by (relation "measure (\<lambda>nc. length (nc_incoming nc))") (auto simp: net_recv_turn_less)

declare net_recvLoop.simps [simp del]

text \<open>Bytes arrive; or the read fails, which ends the loop.\<close>

definition net_receive :: "string \<Rightarrow> net_client \<Rightarrow> net_client" where
  "net_receive bytes nc = net_recvLoop (nc\<lparr>nc_incoming := nc_incoming nc @ bytes\<rparr>)"

definition net_recv_error :: "net_client \<Rightarrow> net_client" where
  "net_recv_error nc = nc\<lparr>nc_running := False\<rparr>"

definition net_shutdown :: "net_client \<Rightarrow> net_client" where
  "net_shutdown nc = (if \<not> nc_running nc then nc else nc\<lparr>nc_running := False, nc_connected := False\<rparr>)"

text \<open>A blocking write of the whole text; \<open>ok\<close>: the socket takes it.\<close>

definition net_sendMessage :: "bool \<Rightarrow> message \<Rightarrow> net_client \<Rightarrow> net_client res" where
  "net_sendMessage ok msg nc =
     rbind (message_serialize msg) (\<lambda>out.
       if nc_connected nc \<and> ok then Inr (nc\<lparr>nc_sent := nc_sent nc @ [out]\<rparr>)
       else Inl (System_error ''write''))"

definition net_pollMessage :: "net_client \<Rightarrow> message option \<times> net_client" where
  "net_pollMessage nc =
     (case nc_recvQueue nc of
        [] \<Rightarrow> (None, nc) | m # ms \<Rightarrow> (Some m, nc\<lparr>nc_recvQueue := ms\<rparr>))"

section \<open>Game state and scenes\<close>

record game_context =
  gc_clientId :: u32
  gc_player :: resources
  gc_lastSeqByType :: "(string \<times> u32) list"
  gc_uuid :: string

definition context_init :: game_context where
  "context_init = \<lparr>gc_clientId = 0, gc_player = resources_init, gc_lastSeqByType = [], gc_uuid = []\<rparr>"

definition player_UpdateResources :: "resources \<Rightarrow> game_context \<Rightarrow> game_context" where
  "player_UpdateResources r ctx = ctx\<lparr>gc_player := r\<rparr>"

datatype scene_id = Scene_Login | Scene_Game

text \<open>Both text boxes of the login scene hold the same font.\<close>

record login_scene =
  ls_username :: string
  ls_pass :: string
  ls_font :: cfont
  ls_usernameTextbox :: textbox
  ls_passTextbox :: textbox
  ls_loginButton :: button

datatype scene = Login_scene login_scene | Game_scene

definition login_construct :: "frame \<Rightarrow> login_scene" where
  "login_construct fr =
     \<lparr>ls_username = [], ls_pass = [], ls_font = cfont_load,
      ls_usernameTextbox = textbox_init fr, ls_passTextbox = textbox_init fr,
      ls_loginButton = button_init
        \<lparr>rc_x = fst (fr_screen fr) / 2 - 100, rc_y = snd (fr_screen fr) / 2 + 125,
         rc_width = 200, rc_height = 50\<rparr> ''Login''\<rparr>"

definition place_textboxes :: "frame \<Rightarrow> login_scene \<Rightarrow> login_scene" where
  "place_textboxes fr ls =
     (let x = fst (fr_screen fr) / 2; y = snd (fr_screen fr) / 2
      in ls\<lparr>ls_usernameTextbox := textbox_SetDimensions (200, 40)
                (textbox_SetCenter (x, y - 50) (ls_usernameTextbox ls)),
            ls_passTextbox := textbox_SetDimensions (200, 40)
                (textbox_SetCenter (x, y + 50) (ls_passTextbox ls))\<rparr>)"

definition login_onEnter :: "frame \<Rightarrow> login_scene \<Rightarrow> login_scene" where
  "login_onEnter fr ls0 =
     (let ls = place_textboxes fr (ls0\<lparr>ls_font := cfont_load\<rparr>)
      in ls\<lparr>ls_usernameTextbox := textbox_SetFocusAnimation True (ls_usernameTextbox ls),
            ls_passTextbox := textbox_SetFocusAnimation True (ls_passTextbox ls)\<rparr>)"

definition login_request :: "string \<Rightarrow> string \<Rightarrow> message" where
  "login_request user pass = \<lparr>msg_type = MSG_LOGIN_REQUEST, msg_sequence = 1,
     msg_payload = json_braces [(''id'', JString user), (''password'', JString pass)]\<rparr>"

definition login_clicked :: "bool \<Rightarrow> login_scene \<Rightarrow> net_client \<Rightarrow> net_client res" where
  "login_clicked ok ls nc =
     (if ls_username ls \<noteq> [] \<and> ls_pass ls \<noteq> []
      then net_sendMessage ok (login_request (ls_username ls) (ls_pass ls)) nc
      else Inr nc)"

definition login_Update ::
  "bool \<Rightarrow> frame \<Rightarrow> int list \<Rightarrow> login_scene \<Rightarrow> net_client \<Rightarrow> (login_scene \<times> net_client) res" where
  "login_Update ok fr keys ls0 nc =
     (let ls = place_textboxes fr ls0;
          ((user, font1), keys1) = textbox_Update fr keys (ls_usernameTextbox ls, ls_font ls);
          ((pass, font2), keys2) = textbox_Update fr keys1 (ls_passTextbox ls, font1);
          (events, bt) = button_Update fr (ls_loginButton ls);
          ls' = ls\<lparr>ls_usernameTextbox := user, ls_passTextbox := pass, ls_font := font2,
                   ls_username := tb_inputText user, ls_pass := tb_inputText pass,
                   ls_loginButton := bt\<rparr>
      in rbind (if On_click \<in> set events then login_clicked ok ls' nc else Inr nc) (\<lambda>nc'.
           Inr (ls', nc')))"

text \<open>\<open>handleMessage\<close>: whether the message was handled, or an exception.\<close>

definition login_handleMessage :: "message \<Rightarrow> game_context \<Rightarrow> (bool \<times> game_context) res" where
  "login_handleMessage msg ctx =
     (if msg_type msg = MSG_LOGIN_RESULT
      then rbind (rbind (json_at (msg_payload msg) ''uuid'') get_string) (\<lambda>uuid.
             Inr (True, ctx\<lparr>gc_uuid := uuid\<rparr>))
      else Inr (False, ctx))"

definition game_handleMessage :: "message \<Rightarrow> game_context \<Rightarrow> (bool \<times> game_context) res" where
  "game_handleMessage msg ctx =
     (if msg_type msg = MSG_RESOURCE_UPDATE
      then (let p = msg_payload msg in
        rbind (rbind (json_at p ''uuid'') get_string) (\<lambda>uuid.
        if uuid = gc_uuid ctx
        then rbind (rbind (json_at p ''wood'') get_uint64) (\<lambda>w.
             rbind (rbind (json_at p ''food'') get_uint64) (\<lambda>f.
             rbind (rbind (json_at p ''iron'') get_uint64) (\<lambda>i.
             Inr (True, player_UpdateResources \<lparr>wood = w, food = f, iron = i\<rparr> ctx))))
        else Inr (True, ctx)))
      else Inr (False, ctx))"

fun scene_handleMessage :: "scene option \<Rightarrow> message \<Rightarrow> game_context \<Rightarrow> (bool \<times> game_context) res" where
  "scene_handleMessage None msg ctx = Inr (False, ctx)"
| "scene_handleMessage (Some (Login_scene _)) msg ctx = login_handleMessage msg ctx"
| "scene_handleMessage (Some Game_scene) msg ctx = game_handleMessage msg ctx"

section \<open>Scene manager\<close>

record scene_manager =
  sm_currentID :: scene_id
  sm_current :: "scene option"
  sm_factories :: "scene_id list"

definition scenes_init :: scene_manager where
  "scenes_init = \<lparr>sm_currentID = Scene_Login, sm_current = None, sm_factories = []\<rparr>"

definition registerScene :: "scene_id \<Rightarrow> scene_manager \<Rightarrow> scene_manager" where
  "registerScene i sm = sm\<lparr>sm_factories := List.insert i (sm_factories sm)\<rparr>"

text \<open>The factory's scene, entered.\<close>

fun make_scene :: "frame \<Rightarrow> scene_id \<Rightarrow> scene" where
  "make_scene fr Scene_Login = Login_scene (login_onEnter fr (login_construct fr))"
| "make_scene fr Scene_Game = Game_scene"

definition changeScene :: "frame \<Rightarrow> scene_id \<Rightarrow> scene_manager \<Rightarrow> scene_manager" where
  "changeScene fr i sm0 =
     (let sm = sm0\<lparr>sm_current := None\<rparr>
      in if i \<notin> set (sm_factories sm) then sm
         else sm\<lparr>sm_current := Some (make_scene fr i), sm_currentID := i\<rparr>)"

definition scenes_Update ::
  "bool \<Rightarrow> frame \<Rightarrow> int list \<Rightarrow> scene_manager \<Rightarrow> net_client \<Rightarrow> (scene_manager \<times> net_client) res" where
  "scenes_Update ok fr keys sm nc =
     (case sm_current sm of
        Some (Login_scene ls) \<Rightarrow>
          rbind (login_Update ok fr keys ls nc) (\<lambda>(ls', nc').
            Inr (sm\<lparr>sm_current := Some (Login_scene ls')\<rparr>, nc'))
      | _ \<Rightarrow> Inr (sm, nc))"

section \<open>The application\<close>

record application =
  ap_ctx :: game_context
  ap_net :: net_client
  ap_scenes :: scene_manager

definition app_init :: "bool \<Rightarrow> frame \<Rightarrow> application" where
  "app_init ok fr =
     \<lparr>ap_ctx = context_init, ap_net = snd (net_connect ok net_init),
      ap_scenes = changeScene fr Scene_Login
        (registerScene Scene_Game (registerScene Scene_Login scenes_init))\<rparr>"

definition last_seq :: "string \<Rightarrow> game_context \<Rightarrow> u32" where
  "last_seq type ctx = (case map_of (gc_lastSeqByType ctx) type of None \<Rightarrow> 0 | Some n \<Rightarrow> n)"

definition set_last_seq :: "string \<Rightarrow> u32 \<Rightarrow> game_context \<Rightarrow> game_context" where
  "set_last_seq type n ctx = ctx\<lparr>gc_lastSeqByType := umap_set type n (gc_lastSeqByType ctx)\<rparr>"

text \<open>
  The body of the polling loop: stale messages and gaps are dropped, the rest goes to the
  context or to the scene. \<open>lastSeqByType[type]\<close> creates the entry it looks up. An exception
  leaves the context as it is at that point.
\<close>

definition app_onMessage :: "scene option \<Rightarrow> message \<Rightarrow> game_context \<Rightarrow> unit res \<times> game_context" where
  "app_onMessage sc msg ctx0 =
     (let type = msg_type msg; lastSeq = last_seq type ctx0;
          ctx = set_last_seq type lastSeq ctx0
      in if msg_sequence msg \<le> lastSeq then (Inr (), ctx)
         else if msg_sequence msg \<noteq> lastSeq + 1 then (Inr (), ctx)
         else (let ctx1 = set_last_seq type (msg_sequence msg) ctx in
           if type = MSG_ASSIGN_CLIENT_ID
           then (case rbind (json_at (msg_payload msg) ''clientId'') get_uint8 of
                   Inl e \<Rightarrow> (Inl e, ctx1)
                 | Inr cid \<Rightarrow> (Inr (), ctx1\<lparr>gc_clientId := ucast cid\<rparr>))
           else (case scene_handleMessage sc msg ctx1 of
                   Inl e \<Rightarrow> (Inl e, ctx1)
                 | Inr (handled, ctx2) \<Rightarrow> (Inr (), ctx2))))"

function app_poll :: "scene option \<Rightarrow> net_client \<Rightarrow> game_context \<Rightarrow> unit res \<times> net_client \<times> game_context" where
  "app_poll sc nc ctx =
     (case net_pollMessage nc of
        (None, nc') \<Rightarrow> (Inr (), nc', ctx)
      | (Some msg, nc') \<Rightarrow>
          (case app_onMessage sc msg ctx of
             (Inl e, ctx') \<Rightarrow> (Inl e, nc', ctx')
           | (Inr _, ctx') \<Rightarrow> app_poll sc nc' ctx'))"
  by pat_completeness auto
termination
  by (relation "measure (\<lambda>(sc, nc, ctx). length (nc_recvQueue nc))")
     (auto simp: net_pollMessage_def split: list.splits)

declare app_poll.simps [simp del]

definition app_Update :: "bool \<Rightarrow> frame \<Rightarrow> int list \<Rightarrow> application \<Rightarrow> unit res \<times> application" where
  "app_Update ok fr keys app =
     (let (r, nc, ctx) = app_poll (sm_current (ap_scenes app)) (ap_net app) (ap_ctx app);
          app1 = app\<lparr>ap_net := nc, ap_ctx := ctx\<rparr>
      in case r of
           Inl e \<Rightarrow> (Inl e, app1)
         | Inr _ \<Rightarrow>
             (let sm = (if gc_uuid ctx \<noteq> [] then changeScene fr Scene_Game (ap_scenes app1)
                        else ap_scenes app1)
              in case scenes_Update ok fr keys sm (ap_net app1) of
                   Inl e \<Rightarrow> (Inl e, app1\<lparr>ap_scenes := sm\<rparr>)
                 | Inr (sm', nc') \<Rightarrow> (Inr (), app1\<lparr>ap_scenes := sm', ap_net := nc'\<rparr>)))"

end
