(* ===== verification/Reception.thy ===== *)
theory Reception
  imports Serving Client
begin

unbundle bit_operations_syntax

text \<open>
  The client's side: every line that arrives becomes a message whatever pieces the socket
  delivers, the sequence filter lets the messages of a type through in order and once, and the
  game state follows the server's updates.
\<close>

section \<open>Receiving\<close>

definition messages_of :: "string list \<Rightarrow> message list" where
  "messages_of lines = concat (map (\<lambda>l. case message_parse l of Inl _ \<Rightarrow> [] | Inr m \<Rightarrow> [m]) lines)"

lemma messages_of_simps [simp]:
  "messages_of [] = []"
  "messages_of (l # ls) = (case message_parse l of Inl _ \<Rightarrow> [] | Inr m \<Rightarrow> [m]) @ messages_of ls"
  "messages_of (ls @ ks) = messages_of ls @ messages_of ks"
  by (simp_all add: messages_of_def)

text \<open>What \<open>recvLoop\<close> does to the buffer is what \<open>take_lines\<close> does.\<close>

lemma net_recvLoop_lines:
  "nc_running nc \<Longrightarrow> net_recvLoop nc = nc\<lparr>nc_incoming := snd (take_lines (nc_incoming nc)),
     nc_recvQueue := nc_recvQueue nc @ messages_of (fst (take_lines (nc_incoming nc)))\<rparr>"
proof (induction nc rule: net_recvLoop.induct)
  case (1 nc)
  show ?case
  proof (cases "take_line (nc_incoming nc)")
    case None
    then have "net_recv_turn nc = None" by (simp add: net_recv_turn_def)
    then show ?thesis using None by (simp add: net_recvLoop.simps [of nc] take_lines_None)
  next
    case (Some p)
    obtain l r where p: "p = (l, r)" by fastforce
    let ?nc = "nc\<lparr>nc_incoming := r, nc_recvQueue := nc_recvQueue nc
        @ (case message_parse (strip_cr l) of Inl _ \<Rightarrow> [] | Inr m \<Rightarrow> [m])\<rparr>"
    have t: "net_recv_turn nc = Some ?nc"
      using Some p 1(2) by (simp add: net_recv_turn_def Let_def split: sum.split)
    have "net_recvLoop nc = net_recvLoop ?nc" using t by (simp add: net_recvLoop.simps [of nc])
    also have "\<dots> = ?nc\<lparr>nc_incoming := snd (take_lines r),
        nc_recvQueue := nc_recvQueue ?nc @ messages_of (fst (take_lines r))\<rparr>"
      using 1(1) [OF t] 1(2) by simp
    finally show ?thesis using Some p by (simp add: take_lines_Some)
  qed
qed

lemma take_lines_rest: "take_lines (snd (take_lines b)) = ([], snd (take_lines b))"
proof (induction b rule: take_lines.induct)
  case (1 b)
  show ?case
  proof (cases "take_line b")
    case (Some p)
    then show ?thesis using 1 [OF Some] by (cases p) (simp add: take_lines_Some)
  qed (simp add: take_lines_None)
qed

lemma net_receive_lines:
  "nc_running nc \<Longrightarrow> net_receive b nc = nc\<lparr>nc_incoming := snd (take_lines (nc_incoming nc @ b)),
     nc_recvQueue := nc_recvQueue nc @ messages_of (fst (take_lines (nc_incoming nc @ b)))\<rparr>"
  by (simp add: net_receive_def net_recvLoop_lines)

lemma receive_chunks:
  assumes "nc_running nc" "take_line (nc_incoming nc) = None"
  shows "fold net_receive chunks nc = nc\<lparr>nc_incoming := snd (take_lines (nc_incoming nc @ concat chunks)),
     nc_recvQueue := nc_recvQueue nc @ messages_of (fst (take_lines (nc_incoming nc @ concat chunks)))\<rparr>"
  using assms
proof (induction chunks arbitrary: nc)
  case Nil
  then show ?case by (simp add: take_lines_None)
next
  case (Cons b chunks)
  let ?nc = "net_receive b nc"
  have nc: "?nc = nc\<lparr>nc_incoming := snd (take_lines (nc_incoming nc @ b)),
     nc_recvQueue := nc_recvQueue nc @ messages_of (fst (take_lines (nc_incoming nc @ b)))\<rparr>"
    by (rule net_receive_lines [OF Cons.prems(1)])
  have none: "take_line (nc_incoming ?nc) = None"
    using take_lines_rest [of "nc_incoming nc @ b"] by (cases "take_line (nc_incoming ?nc)") (auto simp: nc take_lines_Some)
  have app: "take_lines (nc_incoming nc @ b @ concat chunks)
      = (fst (take_lines (nc_incoming nc @ b)) @ fst (take_lines (snd (take_lines (nc_incoming nc @ b)) @ concat chunks)),
         snd (take_lines (snd (take_lines (nc_incoming nc @ b)) @ concat chunks)))"
    using take_lines_append [of "nc_incoming nc @ b" "concat chunks"] by (simp add: case_prod_beta Let_def)
  have "fold net_receive (b # chunks) nc = fold net_receive chunks ?nc" by simp
  also have "\<dots> = ?nc\<lparr>nc_incoming := snd (take_lines (nc_incoming ?nc @ concat chunks)),
     nc_recvQueue := nc_recvQueue ?nc @ messages_of (fst (take_lines (nc_incoming ?nc @ concat chunks)))\<rparr>"
    by (rule Cons.IH) (use Cons.prems(1) none nc in simp_all)
  finally show ?case unfolding nc by (simp add: app)
qed

definition sent_text :: "message list \<Rightarrow> string" where
  "sent_text ms = concat (map (\<lambda>m. message_line m @ newline) ms)"

definition as_read :: "message \<Rightarrow> message" where
  "as_read m = m\<lparr>msg_payload := parsed (msg_payload m)\<rparr>"

lemma take_lines_sent: "list_all sendable ms \<Longrightarrow> take_lines (sent_text ms) = (map message_line ms, [])"
proof -
  assume "list_all sendable ms"
  then have "list_all printable (map message_line ms)" by (auto simp: list_all_iff message_line_printable)
  from take_lines_lines [OF this, of "[]"] show ?thesis by (simp add: sent_text_def comp_def take_lines_None)
qed

lemma messages_of_sent: "list_all sendable ms \<Longrightarrow> messages_of (map message_line ms) = map as_read ms"
  by (induction ms) (simp_all add: message_parse_line as_read_def)

lemma receive_sent:
  assumes "list_all sendable ms" "concat chunks = sent_text ms" "nc_running nc" "nc_incoming nc = []"
  shows "fold net_receive chunks nc = nc\<lparr>nc_recvQueue := nc_recvQueue nc @ map as_read ms\<rparr>"
  using receive_chunks [of nc chunks] assms by (simp add: take_lines_sent messages_of_sent)

section \<open>The sequence filter\<close>

lemma last_seq_set [simp]: "last_seq t (set_last_seq u n ctx) = (if t = u then n else last_seq t ctx)"
  by (simp add: last_seq_def set_last_seq_def)

lemma set_last_seq_frame [simp]:
  "gc_uuid (set_last_seq t n ctx) = gc_uuid ctx" "gc_player (set_last_seq t n ctx) = gc_player ctx"
  "gc_clientId (set_last_seq t n ctx) = gc_clientId ctx"
  by (simp_all add: set_last_seq_def)

lemma last_seq_fields [simp]:
  "last_seq t (ctx\<lparr>gc_uuid := u\<rparr>) = last_seq t ctx" "last_seq t (ctx\<lparr>gc_player := p\<rparr>) = last_seq t ctx"
  "last_seq t (ctx\<lparr>gc_clientId := c\<rparr>) = last_seq t ctx"
  by (simp_all add: last_seq_def)

text \<open>A number that is already there is not changed by noting it again.\<close>

lemma umap_set_same: "map_of m k = Some v \<Longrightarrow> umap_set k v m = m"
proof -
  have "map_of m k = Some v \<Longrightarrow> umap_replace k v m = m" by (induction m) (auto split: if_splits)
  then show "map_of m k = Some v \<Longrightarrow> umap_set k v m = m" by (simp add: umap_set_def)
qed

lemma set_last_seq_same: "last_seq t ctx \<noteq> 0 \<Longrightarrow> set_last_seq t (last_seq t ctx) ctx = ctx"
  by (auto simp: last_seq_def set_last_seq_def umap_set_same split: option.splits)

text \<open>The message that is next is handled; every other is dropped.\<close>

definition next_for :: "game_context \<Rightarrow> message \<Rightarrow> bool" where
  "next_for ctx m \<longleftrightarrow> unat (msg_sequence m) = Suc (unat (last_seq (msg_type m) ctx))"

lemma next_for_iff: "next_for ctx m \<longleftrightarrow>
    \<not> msg_sequence m \<le> last_seq (msg_type m) ctx \<and> msg_sequence m = last_seq (msg_type m) ctx + 1"
proof -
  have "unat b = Suc (unat a) \<longleftrightarrow> \<not> b \<le> a \<and> b = a + 1" for a b :: u32
  proof -
    have lt: "unat a < 2 ^ 32" "unat b < 2 ^ 32"
      using unsigned_less [of a, where 'a = nat] unsigned_less [of b, where 'a = nat] by simp_all
    have suc: "unat (a + 1) = Suc (unat a) mod 2 ^ 32" by (simp add: unat_word_ariths(1))
    have "b = a + 1 \<longleftrightarrow> unat b = Suc (unat a) mod 2 ^ 32" by (metis suc unsigned_word_eqI)
    moreover have "\<not> b \<le> a \<longleftrightarrow> unat a < unat b" by (simp add: word_le_nat_alt not_le)
    ultimately show ?thesis using lt by (cases "Suc (unat a) = 2 ^ 32") (auto simp: mod_less)
  qed
  then show ?thesis by (simp add: next_for_def)
qed

lemma onMessage_dropped:
  "\<not> next_for ctx m \<Longrightarrow> app_onMessage sc m ctx = (Inr (), set_last_seq (msg_type m) (last_seq (msg_type m) ctx) ctx)"
  by (cases "msg_sequence m \<le> last_seq (msg_type m) ctx") (simp_all add: app_onMessage_def next_for_iff Let_def)

lemma handle_last_seq:
  "scene_handleMessage sc m ctx = Inr (b, ctx') \<Longrightarrow> last_seq t ctx' = last_seq t ctx"
  by (cases "(sc, m, ctx)" rule: scene_handleMessage.cases)
    (auto simp: login_handleMessage_def game_handleMessage_def player_UpdateResources_def rbind_eq_Inr Let_def split: if_splits)

text \<open>The context a message is handled in.\<close>

definition taken :: "message \<Rightarrow> game_context \<Rightarrow> game_context" where
  "taken m ctx = set_last_seq (msg_type m) (msg_sequence m) (set_last_seq (msg_type m) (last_seq (msg_type m) ctx) ctx)"

lemma taken_frame [simp]:
  "gc_uuid (taken m ctx) = gc_uuid ctx" "gc_player (taken m ctx) = gc_player ctx"
  "gc_clientId (taken m ctx) = gc_clientId ctx"
  "last_seq t (taken m ctx) = (if t = msg_type m then msg_sequence m else last_seq t ctx)"
  by (simp_all add: taken_def)

lemma onMessage_handled:
  assumes "next_for ctx m"
  shows "app_onMessage sc m ctx =
    (if msg_type m = MSG_ASSIGN_CLIENT_ID
     then (case rbind (json_at (msg_payload m) ''clientId'') get_uint8 of
             Inl e \<Rightarrow> (Inl e, taken m ctx) | Inr cid \<Rightarrow> (Inr (), (taken m ctx)\<lparr>gc_clientId := ucast cid\<rparr>))
     else (case scene_handleMessage sc m (taken m ctx) of
             Inl e \<Rightarrow> (Inl e, taken m ctx) | Inr (handled, ctx') \<Rightarrow> (Inr (), ctx')))"
proof -
  have c: "(msg_sequence m \<le> last_seq (msg_type m) ctx) = False"
    "(msg_sequence m \<noteq> last_seq (msg_type m) ctx + 1) = False"
    using assms unfolding next_for_iff by blast+
  show ?thesis by (simp only: app_onMessage_def Let_def taken_def c if_False)
qed

lemma onMessage_next:
  assumes "next_for ctx m"
  shows "last_seq t (snd (app_onMessage sc m ctx)) = (if t = msg_type m then msg_sequence m else last_seq t ctx)"
proof (cases "scene_handleMessage sc m (taken m ctx)")
  case (Inr p)
  then show ?thesis
    using handle_last_seq [of sc m "taken m ctx" "fst p" "snd p" t]
    by (auto simp: onMessage_handled [OF assms] case_prod_beta split: sum.split)
qed (auto simp: onMessage_handled [OF assms] split: sum.split)

text \<open>So the number of a type never goes down and moves in steps of one.\<close>

lemma onMessage_last_seq:
  "unat (last_seq t (snd (app_onMessage sc m ctx)))
     = unat (last_seq t ctx) + (if t = msg_type m \<and> next_for ctx m then 1 else 0)"
proof (cases "next_for ctx m")
  case True
  then show ?thesis using onMessage_next [OF True, of t sc] by (auto simp: next_for_def)
qed (simp add: onMessage_dropped)

lemma app_poll_Nil: "nc_recvQueue nc = [] \<Longrightarrow> app_poll sc nc ctx = (Inr (), nc, ctx)"
  by (simp add: app_poll.simps [of sc nc] net_pollMessage_def)

lemma app_poll_Cons:
  "nc_recvQueue nc = m # ms \<Longrightarrow> app_poll sc nc ctx = (case app_onMessage sc m ctx of
     (Inl e, ctx') \<Rightarrow> (Inl e, nc\<lparr>nc_recvQueue := ms\<rparr>, ctx')
   | (Inr _, ctx') \<Rightarrow> app_poll sc (nc\<lparr>nc_recvQueue := ms\<rparr>) ctx')"
  by (simp add: app_poll.simps [of sc nc] net_pollMessage_def)

text \<open>The queue is empty after a poll that ends.\<close>

lemma app_poll_empties:
  "app_poll sc nc ctx = (Inr (), nc', ctx') \<Longrightarrow> nc' = nc\<lparr>nc_recvQueue := []\<rparr>"
proof (induction "nc_recvQueue nc" arbitrary: nc ctx)
  case Nil
  then show ?case by (simp add: app_poll_Nil)
next
  case (Cons m ms)
  obtain r c where o: "app_onMessage sc m ctx = (r, c)" by fastforce
  then have "app_poll sc (nc\<lparr>nc_recvQueue := ms\<rparr>) c = (Inr (), nc', ctx')"
    using Cons.prems Cons.hyps(2) [symmetric] by (cases r) (simp_all add: app_poll_Cons)
  from Cons.hyps(1) [OF _ this] show ?case by simp
qed

lemma app_poll_last_seq:
  "unat (last_seq t ctx) \<le> unat (last_seq t (snd (snd (app_poll sc nc ctx))))"
proof (induction "nc_recvQueue nc" arbitrary: nc ctx)
  case Nil
  then show ?case by (simp add: app_poll_Nil)
next
  case (Cons m ms)
  obtain r c where o: "app_onMessage sc m ctx = (r, c)" by fastforce
  have "unat (last_seq t ctx) \<le> unat (last_seq t c)" using onMessage_last_seq [of t sc m ctx] o by simp
  moreover have "unat (last_seq t c) \<le> unat (last_seq t (snd (snd (app_poll sc (nc\<lparr>nc_recvQueue := ms\<rparr>) c))))"
    using Cons.hyps(1) [of "nc\<lparr>nc_recvQueue := ms\<rparr>" c] by simp
  ultimately show ?case using Cons.hyps(2) [symmetric] o by (cases r) (simp_all add: app_poll_Cons)
qed

text \<open>What the polls of some frames leave, each with its scene and its queue.\<close>

definition polled :: "(scene option \<times> net_client) list \<Rightarrow> game_context \<Rightarrow> game_context" where
  "polled frames ctx = fold (\<lambda>(sc, nc) c. snd (snd (app_poll sc nc c))) frames ctx"

lemma polled_last_seq: "unat (last_seq t ctx) \<le> unat (last_seq t (polled frames ctx))"
proof (induction frames arbitrary: ctx)
  case (Cons f frames)
  obtain sc nc where f: "f = (sc, nc)" by fastforce
  have "unat (last_seq t ctx) \<le> unat (last_seq t (snd (snd (app_poll sc nc ctx))))" by (rule app_poll_last_seq)
  also have "\<dots> \<le> unat (last_seq t (polled frames (snd (snd (app_poll sc nc ctx)))))" by (rule Cons.IH)
  finally show ?case by (simp add: polled_def f)
qed (simp add: polled_def)

section \<open>Resource updates\<close>

lemma type_names [simp]:
  "MSG_RESOURCE_UPDATE \<noteq> MSG_ASSIGN_CLIENT_ID" "MSG_LOGIN_RESULT \<noteq> MSG_ASSIGN_CLIENT_ID"
  "MSG_LOGIN_RESULT \<noteq> MSG_RESOURCE_UPDATE" "MSG_RESOURCE_UPDATE \<noteq> MSG_LOGIN_RESULT"
  by (simp_all add: MSG_RESOURCE_UPDATE_def MSG_ASSIGN_CLIENT_ID_def MSG_LOGIN_RESULT_def)

text \<open>What the server sends is what the client reads: the payloads have no other reading.\<close>

lemma parsed_update: "as_read (resource_update n uuid pool) = resource_update n uuid pool"
proof -
  have "smap_inv [(''food'', a), (''iron'', b), (''uuid'', c), (''wood'', d)]" for a b c d :: json
    by (simp add: smap_inv_def)
  then show ?thesis
    by (simp add: as_read_def resource_update_def resource_payload parsed_object json_unsigned_def del: parsed.simps(1))
qed

lemma parsed_reply: "as_read (login_reply uuid) = login_reply uuid"
  by (simp add: as_read_def login_reply_def braces_one)

lemma parsed_handshake: "as_read (handshake cid) = handshake cid"
  by (simp add: as_read_def handshake_def braces_one json_unsigned_def)

lemma resource_update_frame [simp]:
  "msg_type (resource_update n uuid pool) = MSG_RESOURCE_UPDATE" "msg_sequence (resource_update n uuid pool) = n"
  by (simp_all add: resource_update_def)

lemma game_update:
  "game_handleMessage (resource_update n uuid pool) ctx
     = Inr (True, if uuid = gc_uuid ctx then ctx\<lparr>gc_player := pool\<rparr> else ctx)"
  by (simp add: game_handleMessage_def resource_update_def resource_payload json_at_def get_string_def
      get_uint64_def get_arithmetic_value_def json_unsigned_def player_UpdateResources_def Let_def)

lemma onMessage_update:
  assumes "unat n = Suc (unat (last_seq MSG_RESOURCE_UPDATE ctx))"
  shows "app_onMessage (Some Game_scene) (resource_update n uuid pool) ctx
     = (Inr (), (if uuid = gc_uuid ctx then (taken (resource_update n uuid pool) ctx)\<lparr>gc_player := pool\<rparr>
                 else taken (resource_update n uuid pool) ctx))"
proof -
  have "next_for ctx (resource_update n uuid pool)" using assms by (simp add: next_for_def)
  from onMessage_handled [OF this] show ?thesis by (simp add: game_update)
qed

text \<open>A run of the server's updates, numbered as the server numbers them.\<close>

fun updates :: "u32 \<Rightarrow> string \<Rightarrow> resources list \<Rightarrow> message list" where
  "updates n uuid [] = []"
| "updates n uuid (pool # pools) = resource_update (n + 1) uuid pool # updates (n + 1) uuid pools"

lemma unat_Suc_u32: "unat (n :: u32) + 1 < 2 ^ 32 \<Longrightarrow> unat (n + 1) = Suc (unat n)"
  by (simp add: unat_word_ariths(1))

lemma poll_updates:
  assumes "nc_recvQueue nc = updates (last_seq MSG_RESOURCE_UPDATE ctx) (gc_uuid ctx) pools"
    "unat (last_seq MSG_RESOURCE_UPDATE ctx) + length pools < 2 ^ 32"
  shows "\<exists>ctx'. app_poll (Some Game_scene) nc ctx = (Inr (), nc\<lparr>nc_recvQueue := []\<rparr>, ctx')
    \<and> gc_player ctx' = last (gc_player ctx # pools) \<and> gc_uuid ctx' = gc_uuid ctx
    \<and> last_seq MSG_RESOURCE_UPDATE ctx' = last_seq MSG_RESOURCE_UPDATE ctx + of_nat (length pools)"
  using assms
proof (induction pools arbitrary: nc ctx)
  case Nil
  then show ?case by (simp add: app_poll_Nil)
next
  case (Cons pool pools)
  let ?n = "last_seq MSG_RESOURCE_UPDATE ctx"
  let ?m = "resource_update (?n + 1) (gc_uuid ctx) pool"
  let ?c = "(taken ?m ctx)\<lparr>gc_player := pool\<rparr>"
  have n: "unat (?n + 1) = Suc (unat ?n)" by (rule unat_Suc_u32) (use Cons.prems(2) in simp)
  have poll: "app_poll (Some Game_scene) nc ctx
      = app_poll (Some Game_scene) (nc\<lparr>nc_recvQueue := updates (?n + 1) (gc_uuid ctx) pools\<rparr>) ?c"
    using app_poll_Cons [of nc ?m "updates (?n + 1) (gc_uuid ctx) pools"] Cons.prems(1) onMessage_update [OF n]
    by simp
  have "\<exists>ctx'. app_poll (Some Game_scene) (nc\<lparr>nc_recvQueue := updates (?n + 1) (gc_uuid ctx) pools\<rparr>) ?c
        = (Inr (), nc\<lparr>nc_recvQueue := []\<rparr>, ctx')
    \<and> gc_player ctx' = last (pool # pools) \<and> gc_uuid ctx' = gc_uuid ctx
    \<and> last_seq MSG_RESOURCE_UPDATE ctx' = ?n + 1 + of_nat (length pools)"
    using Cons.IH [of "nc\<lparr>nc_recvQueue := updates (?n + 1) (gc_uuid ctx) pools\<rparr>" ?c] Cons.prems(2) n by simp
  then show ?case by (simp add: poll add.assoc)
qed

lemma updates_sendable: "utf8_valid uuid \<Longrightarrow> list_all sendable (updates n uuid pools)"
  by (induction pools arbitrary: n) simp_all

lemma updates_as_read: "map as_read (updates n uuid pools) = updates n uuid pools"
  by (induction pools arbitrary: n) (simp_all add: parsed_update)

text \<open>From the wire to the screen's numbers, in whatever pieces the text arrives.\<close>

lemma client_follows:
  assumes "utf8_valid (gc_uuid ctx)" "nc_running nc" "nc_incoming nc = []" "nc_recvQueue nc = []"
    "concat chunks = sent_text (updates (last_seq MSG_RESOURCE_UPDATE ctx) (gc_uuid ctx) pools)"
    "unat (last_seq MSG_RESOURCE_UPDATE ctx) + length pools < 2 ^ 32"
  shows "\<exists>ctx'. app_poll (Some Game_scene) (fold net_receive chunks nc) ctx = (Inr (), nc, ctx')
    \<and> gc_player ctx' = last (gc_player ctx # pools)"
proof -
  let ?ms = "updates (last_seq MSG_RESOURCE_UPDATE ctx) (gc_uuid ctx) pools"
  have "fold net_receive chunks nc = nc\<lparr>nc_recvQueue := ?ms\<rparr>"
    using receive_sent [OF updates_sendable [OF assms(1)] assms(5,2,3)] assms(4) by (simp add: updates_as_read)
  moreover have "nc\<lparr>nc_recvQueue := []\<rparr> = nc" using assms(4) by simp
  ultimately show ?thesis using poll_updates [of "nc\<lparr>nc_recvQueue := ?ms\<rparr>" ctx pools] assms(6) by auto
qed

text \<open>A client that has not seen the first update drops all that follow until the numbers have
  wrapped round, the number 0 included: the server does not start its numbering again for a client
  id it hands out a second time.\<close>

lemma poll_missed:
  assumes "nc_recvQueue nc = updates n uuid pools" "unat n + length pools \<le> 2 ^ 32"
    "unat (last_seq MSG_RESOURCE_UPDATE ctx) < unat n"
  shows "\<exists>ctx'. app_poll sc nc ctx = (Inr (), nc\<lparr>nc_recvQueue := []\<rparr>, ctx')
    \<and> gc_player ctx' = gc_player ctx \<and> last_seq MSG_RESOURCE_UPDATE ctx' = last_seq MSG_RESOURCE_UPDATE ctx"
  using assms
proof (induction pools arbitrary: nc ctx n)
  case Nil
  then show ?case by (simp add: app_poll_Nil)
next
  case (Cons pool pools)
  let ?m = "resource_update (n + 1) uuid pool"
  let ?c = "set_last_seq MSG_RESOURCE_UPDATE (last_seq MSG_RESOURCE_UPDATE ctx) ctx"
  have n: "unat (n + 1) = (if pools = [] then Suc (unat n) mod 2 ^ 32 else Suc (unat n))"
    using Cons.prems(2) by (cases pools) (simp_all add: unat_word_ariths(1))
  have "\<not> next_for ctx ?m" using n Cons.prems(2,3)
    by (cases "Suc (unat n) = 2 ^ 32") (auto simp: next_for_def split: if_splits)
  from onMessage_dropped [OF this, of sc]
  have poll: "app_poll sc nc ctx = app_poll sc (nc\<lparr>nc_recvQueue := updates (n + 1) uuid pools\<rparr>) ?c"
    using app_poll_Cons [of nc ?m "updates (n + 1) uuid pools"] Cons.prems(1) by simp
  show ?case
  proof (cases "pools = []")
    case True
    then show ?thesis by (simp add: poll app_poll_Nil)
  next
    case False
    then show ?thesis
      using Cons.IH [of "nc\<lparr>nc_recvQueue := updates (n + 1) uuid pools\<rparr>" "n + 1" ?c] Cons.prems(2,3) n
      by (simp add: poll)
  qed
qed

section \<open>Logging in\<close>

lemma login_reply_frame [simp]:
  "msg_type (login_reply u) = MSG_LOGIN_RESULT" "msg_sequence (login_reply u) = 1"
  by (simp_all add: login_reply_def)

lemma login_result:
  "login_handleMessage (login_reply u) ctx = Inr (True, ctx\<lparr>gc_uuid := u\<rparr>)"
  by (simp add: login_handleMessage_def login_reply_def braces_one json_at_def get_string_def)

text \<open>The first result sets the identifier; a second one is dropped, for every reply has number 1.\<close>

lemma first_login_result:
  assumes "last_seq MSG_LOGIN_RESULT ctx = 0"
  shows "app_onMessage (Some (Login_scene ls)) (login_reply u) ctx
     = (Inr (), (taken (login_reply u) ctx)\<lparr>gc_uuid := u\<rparr>)"
proof -
  have "next_for ctx (login_reply u)" using assms by (simp add: next_for_def)
  from onMessage_handled [OF this] show ?thesis by (simp add: login_result)
qed

lemma later_login_result:
  assumes "last_seq MSG_LOGIN_RESULT ctx \<noteq> 0"
  shows "app_onMessage sc (login_reply u) ctx = (Inr (), ctx)"
proof -
  have "\<not> next_for ctx (login_reply u)" using assms unat_eq_zero by (auto simp: next_for_def)
  from onMessage_dropped [OF this] show ?thesis by (simp add: set_last_seq_same [OF assms])
qed

lemma login_request_sendable:
  "utf8_valid user \<Longrightarrow> utf8_valid pass \<Longrightarrow> sendable (login_request user pass)"
  by (simp add: sendable_def login_request_def json_braces_def json_init_def smap_emplace_def)
    (auto intro!: utf8_valid_ascii)

lemma login_request_payload:
  "msg_payload (as_read (login_request user pass)) = JObject [(''id'', JString user), (''password'', JString pass)]"
  by (simp add: as_read_def login_request_def json_braces_def json_init_def smap_emplace_def)

lemma login_handler_request:
  "login_handler io draws cid (as_read (login_request user pass)) sv = login_user io draws cid user pass sv"
  by (simp add: login_handler_def login_request_payload json_at_def get_string_def)

text \<open>The four ways a login request ends: right password, wrong password, a new account, and a
  new account that cannot be saved.\<close>

lemma login_right:
  "map_of (db_accounts (sv_db sv)) user = Some acc \<Longrightarrow> acc_password acc = pass \<Longrightarrow>
     login_user io draws cid user pass sv = login_finish cid (acc_uuid acc) sv"
  by (simp add: login_user_def db_userExists_def db_verifyUser_def db_getUser_def)

lemma login_wrong:
  "map_of (db_accounts (sv_db sv)) user = Some acc \<Longrightarrow> acc_password acc \<noteq> pass \<Longrightarrow>
     login_user io draws cid user pass sv = (Inr (), sv)"
  by (simp add: login_user_def db_userExists_def db_verifyUser_def)

end
