(* ===== verification/Exchange.thy ===== *)
theory Exchange
  imports Reception
begin

unbundle bit_operations_syntax

text \<open>
  Client and server together: a login request from the line the server reads to the reply the
  client takes, the accounts a registration leaves, and what happens when an identifier of
  eight bits is handed out a second time.
\<close>

text \<open>A line from a client in the map, through the reading, the handler and the reply.\<close>

lemma take_line_sent:
  assumes "sendable m"
  shows "take_line (message_text m @ rest) = Some (message_line m, rest)"
  using take_line_append [OF printable_no_newline [OF message_line_printable [OF assms]], of rest]
  by (simp add: message_text_def newline_def)

lemma onLine_message:
  assumes "sendable m" "r < length (sv_heap sv)" "ss_reading (sv_heap sv ! r)"
    "ss_incoming (sv_heap sv ! r) = message_text m @ rest"
  shows "session_onLine io draws r sv =
    (let s = (sv_heap sv ! r)\<lparr>ss_incoming := rest, ss_reading := False\<rparr>;
         (res, sv2) = onClientMessage io draws (ss_clientId s) (as_read m) (heap_update r (\<lambda>_. s) sv)
     in case res of
          Inl e \<Rightarrow> (if caught e then (Inr (), heap_update r session_doRead sv2) else (Inl e, sv2))
        | Inr _ \<Rightarrow> (Inr (), heap_update r session_doRead sv2))"
proof -
  have "session_take_line (sv_heap sv ! r)
      = Some (message_line m, (sv_heap sv ! r)\<lparr>ss_incoming := rest, ss_reading := False\<rparr>)"
    using take_line_sent [OF assms(1), of rest] assms(3,4)
    by (simp add: session_take_line_def strip_cr_printable message_line_printable assms(1))
  moreover have "message_parse (message_line m) = Inr (as_read m)"
    using message_parse_line [OF assms(1)] by (simp add: as_read_def)
  ultimately show ?thesis by (simp add: session_onLine_def Let_def)
qed

lemma login_request_type [simp]: "msg_type (as_read (login_request user pass)) = MSG_LOGIN_REQUEST"
  by (simp add: as_read_def login_request_def)

lemma doRead_post:
  "session_doRead (session_post m (session_setUUID u (s\<lparr>ss_incoming := a, ss_reading := b\<rparr>)))
     = session_post m (session_setUUID u (s\<lparr>ss_incoming := a, ss_reading := True\<rparr>))"
  by (cases s) (simp add: session_doRead_def session_post_def session_setUUID_def)

lemma login_known:
  assumes "utf8_valid user" "utf8_valid pass" "utf8_valid (acc_uuid acc)"
    "r < length (sv_heap sv)" "ss_reading (sv_heap sv ! r)"
    "ss_incoming (sv_heap sv ! r) = message_text (login_request user pass) @ rest"
    "map_of (sv_sessions sv) (ss_clientId (sv_heap sv ! r)) = Some (Some r)"
    "map_of (sv_handlers sv) MSG_LOGIN_REQUEST = Some Login_handler"
    "map_of (db_accounts (sv_db sv)) user = Some acc"
  shows "\<exists>sv'. session_onLine io draws r sv = (Inr (), sv') \<and> sv_db sv' = sv_db sv
    \<and> sv_sessions sv' = sv_sessions sv
    \<and> sv_heap sv' = (sv_heap sv)[r := (if acc_password acc = pass
        then session_post (login_reply (acc_uuid acc)) (session_setUUID (acc_uuid acc)
               ((sv_heap sv ! r)\<lparr>ss_incoming := rest, ss_reading := True\<rparr>))
        else (sv_heap sv ! r)\<lparr>ss_incoming := rest, ss_reading := True\<rparr>)]"
proof -
  let ?s = "(sv_heap sv ! r)\<lparr>ss_incoming := rest, ss_reading := False\<rparr>"
  let ?sv = "heap_update r (\<lambda>_. ?s) sv"
  let ?cid = "ss_clientId (sv_heap sv ! r)"
  have msg: "onClientMessage io draws ?cid (as_read (login_request user pass)) ?sv
      = login_user io draws ?cid user pass ?sv"
    by (simp add: onClientMessage_def assms(8) login_handler_request)
  note line = onLine_message [OF login_request_sendable [OF assms(1,2)] assms(4-6), of io draws]
  show ?thesis
  proof (cases "acc_password acc = pass")
    case True
    have "login_user io draws ?cid user pass ?sv = (Inr (), heap_update r (session_post (login_reply (acc_uuid acc)))
        (heap_update r (session_setUUID (acc_uuid acc)) ?sv))"
      using login_right [of ?sv user acc pass io draws ?cid] login_finish_present [of ?sv ?cid r "acc_uuid acc"]
        True assms(3,7,9) by simp
    then show ?thesis
      using True assms(4,5) msg by (simp add: line Let_def heap_update_def doRead_post)
  next
    case False
    then have "login_user io draws ?cid user pass ?sv = (Inr (), ?sv)"
      using login_wrong [of ?sv user acc pass io draws ?cid] assms(9) by simp
    then show ?thesis
      using False assms(4,5) msg by (simp add: line Let_def heap_update_def session_doRead_def)
  qed
qed

text \<open>A user the server does not know is registered: the account is saved before the reply.\<close>

lemma login_new:
  assumes "map_of (db_accounts (sv_db sv)) user = None" "utf8_valid user" "utf8_valid pass"
    "accounts_ok (db_accounts (sv_db sv))" "map_of (sv_sessions sv) cid = Some (Some r)"
  shows "\<exists>sv'. login_user io_ok draws cid user pass sv = (Inr (), sv')
    \<and> (let uuid = generateUuid (fst draws) (snd draws);
           acc = account_init\<lparr>acc_password := pass, acc_uuid := uuid\<rparr>
       in map_of (db_accounts (sv_db sv')) = (map_of (db_accounts (sv_db sv)))(user \<mapsto> acc) \<and> synced (sv_db sv')
        \<and> sv_heap sv' = (sv_heap sv)[r := session_post (login_reply uuid) (session_setUUID uuid (sv_heap sv ! r))])"
proof -
  let ?uuid = "generateUuid (fst draws) (snd draws)"
  let ?acc = "account_init\<lparr>acc_password := pass, acc_uuid := ?uuid\<rparr>"
  let ?db = "(sv_db sv)\<lparr>db_accounts := umap_set user ?acc (db_accounts (sv_db sv))\<rparr>"
  have "accounts_ok (db_accounts ?db)"
    using accounts_ok_umap_set [OF assms(4,2), of ?acc] assms(3) by (simp add: account_ok_def account_init_def)
  from db_save_synced [OF this] have save: "fst (db_save io_ok ?db) = Inr ()" "synced (snd (db_save io_ok ?db))" by simp_all
  have add: "db_addUser io_ok draws user pass (sv_db sv) = (Inr ?uuid, snd (db_save io_ok ?db))"
    using save(1) assms(1) by (simp add: db_addUser_def db_userExists_def Let_def case_prod_beta)
  let ?sv = "sv\<lparr>sv_db := snd (db_save io_ok ?db)\<rparr>"
  have "login_user io_ok draws cid user pass sv = login_finish cid ?uuid ?sv"
    using assms(1) add by (simp add: login_user_def db_userExists_def)
  also have "\<dots> = (Inr (), heap_update r (session_post (login_reply ?uuid)) (heap_update r (session_setUUID ?uuid) ?sv))"
    by (rule login_finish_present) (use assms(5) in simp_all)
  finally show ?thesis
    using save(2) by (simp add: Let_def db_save_frame heap_update_def list_update_beyond split: if_splits)
      (cases "r < length (sv_heap sv)"; simp add: list_update_beyond)
qed

section \<open>A login that comes too late\<close>

lemma login_finish_gone:
  "map_of (sv_sessions sv) cid = None \<Longrightarrow> login_finish cid uuid sv
     = (Inl null_session, sv\<lparr>sv_sessions := umap_set cid None (sv_sessions sv)\<rparr>)"
  by (simp add: login_finish_def server_getSession_def)

lemma login_unknown:
  "map_of (db_accounts (sv_db sv)) user = None \<Longrightarrow> login_user io draws cid user pass sv
     = (case db_addUser io draws user pass (sv_db sv) of
          (Inl e, db') \<Rightarrow> (Inl e, sv\<lparr>sv_db := db'\<rparr>)
        | (Inr uuid, db') \<Rightarrow> login_finish cid uuid (sv\<lparr>sv_db := db'\<rparr>))"
  by (simp add: login_user_def db_userExists_def)

lemma disconnect_frame [simp]:
  "sv_db (onClientDisconnect cid sv) = sv_db sv" "map_of (sv_sessions (onClientDisconnect cid sv)) cid = None"
  by (simp_all add: onClientDisconnect_def)

section \<open>Two clients under one id\<close>

text \<open>Ids are eight bits: a new session takes the place of the session that had the id.\<close>

lemma onAccept_sessions:
  "onAccept False sv = (Inr (), sv') \<Longrightarrow>
     sv_sessions sv' = umap_set (sv_nextClientId sv) (Some (length (sv_heap sv))) (sv_sessions sv)
     \<and> sv_nextClientId sv' = sv_nextClientId sv + 1 \<and> length (sv_heap sv') = Suc (length (sv_heap sv))
     \<and> (\<forall>r < length (sv_heap sv). sv_heap sv' ! r = sv_heap sv ! r) \<and> sv_accepting sv'
     \<and> sv_lastSeqByType sv' = sv_lastSeqByType sv"
  by (auto simp: onAccept_def Let_def heap_send_post heap_update_def server_doAccept_def nth_append)

lemma onAccept_ok: "\<exists>sv'. onAccept False sv = (Inr (), sv')"
  by (simp add: onAccept_def Let_def heap_send_post)

text \<open>When the earlier session's connection ends, the later session is taken from the map.\<close>

lemma stale_disconnect:
  assumes "map_of (sv_sessions sv) cid = Some (Some new)" "old \<noteq> new" "old < length (sv_heap sv)"
    "ss_clientId (sv_heap sv ! old) = cid"
  shows "map_of (sv_sessions (session_onReadError old sv)) cid = None
    \<and> sv_heap (session_onReadError old sv) ! new = sv_heap sv ! new"
  using assms by (simp add: session_onReadError_def onClientDisconnect_def heap_update_def)

text \<open>The numbers of an id's updates outlive its sessions.\<close>

lemma seq_of_disconnect: "seq_of (session_onReadError r sv) cid = seq_of sv cid"
  by (simp add: session_onReadError_def onClientDisconnect_def seq_of_def)

lemma seq_of_accept: "onAccept ec sv = (Inr (), sv') \<Longrightarrow> seq_of sv' cid = seq_of sv cid"
  by (cases ec) (auto simp: onAccept_def Let_def heap_send_post seq_of_def server_doAccept_def)

end
