(* ===== verification/MsgPack.thy ===== *)
theory MsgPack
  imports BinaryFormat
begin

unbundle bit_operations_syntax

text \<open>
  MessagePack in \<open>common/json.hpp\<close>: \<open>binary_writer::write_msgpack\<close> and the functions of
  \<open>binary_reader\<close> that read the format, with \<open>to_msgpack\<close> and \<open>from_msgpack\<close> on bytes. The
  reader's switch over the first byte is one definition, which gets the function that reads a
  nested value; the recursion itself goes by the depth of nesting, and the input's length bounds
  that, since every level starts with a byte.
\<close>

section \<open>Writing\<close>

definition write_msgpack_unsigned :: "u64 \<Rightarrow> string" where
  "write_msgpack_unsigned n =
     (if n < 128 then write_number 1 n
      else if n \<le> 0xFF then chr 0xCC # write_number 1 n
      else if n \<le> 0xFFFF then chr 0xCD # write_number 2 n
      else if n \<le> 0xFFFFFFFF then chr 0xCE # write_number 4 n
      else chr 0xCF # write_number 8 n)"

definition write_msgpack_integer :: "u64 \<Rightarrow> string" where
  "write_msgpack_integer n =
     (if 0 \<le> sint n then write_msgpack_unsigned n
      else if - 32 \<le> sint n then write_number 1 n
      else if - (2 ^ 7) \<le> sint n then chr 0xD0 # write_number 1 n
      else if - (2 ^ 15) \<le> sint n then chr 0xD1 # write_number 2 n
      else if - (2 ^ 31) \<le> sint n then chr 0xD2 # write_number 4 n
      else chr 0xD3 # write_number 8 n)"

text \<open>A length above \<open>2 ^ 32 - 1\<close> has no control byte: nothing is written for it.\<close>

definition write_msgpack_string :: "string \<Rightarrow> string" where
  "write_msgpack_string s =
     (let N = word_of_nat (length s) :: u64
      in (if N \<le> 31 then write_number 1 (0xA0 OR N)
          else if N \<le> 0xFF then chr 0xD9 # write_number 1 N
          else if N \<le> 0xFFFF then chr 0xDA # write_number 2 N
          else if N \<le> 0xFFFFFFFF then chr 0xDB # write_number 4 N
          else []) @ s)"

definition write_msgpack_array_start :: "nat \<Rightarrow> string" where
  "write_msgpack_array_start count =
     (let N = word_of_nat count :: u64
      in if N \<le> 15 then write_number 1 (0x90 OR N)
         else if N \<le> 0xFFFF then chr 0xDC # write_number 2 N
         else if N \<le> 0xFFFFFFFF then chr 0xDD # write_number 4 N
         else [])"

definition write_msgpack_object_start :: "nat \<Rightarrow> string" where
  "write_msgpack_object_start count =
     (let N = word_of_nat count :: u64
      in if N \<le> 15 then write_number 1 (0x80 OR (N AND 0xF))
         else if N \<le> 0xFFFF then chr 0xDE # write_number 2 N
         else if N \<le> 0xFFFFFFFF then chr 0xDF # write_number 4 N
         else [])"

text \<open>The type byte of \<open>fixext\<close>, for the sizes that have one.\<close>

definition fixext_type :: "nat \<Rightarrow> char option" where
  "fixext_type N =
     (if N = 1 then Some (chr 0xD4) else if N = 2 then Some (chr 0xD5) else if N = 4 then Some (chr 0xD6)
      else if N = 8 then Some (chr 0xD7) else if N = 16 then Some (chr 0xD8) else None)"

definition write_msgpack_binary :: "string \<Rightarrow> u64 option \<Rightarrow> string" where
  "write_msgpack_binary bs subtype =
     (let use_ext = subtype \<noteq> None; N = word_of_nat (length bs) :: u64
      in (if N \<le> 0xFF
          then (case if use_ext then fixext_type (length bs) else None of
                  Some output_type \<Rightarrow> [output_type]
                | None \<Rightarrow> (if use_ext then chr 0xC7 else chr 0xC4) # write_number 1 N)
          else if N \<le> 0xFFFF then (if use_ext then chr 0xC8 else chr 0xC5) # write_number 2 N
          else if N \<le> 0xFFFFFFFF then (if use_ext then chr 0xC9 else chr 0xC6) # write_number 4 N
          else [])
         @ (case subtype of Some k \<Rightarrow> write_number 1 k | None \<Rightarrow> []) @ bs)"

fun write_msgpack :: "json \<Rightarrow> string" where
  "write_msgpack JNull = [chr 0xC0]"
| "write_msgpack (JBoolean b) = [if b then chr 0xC3 else chr 0xC2]"
| "write_msgpack (JNumber_integer n) = write_msgpack_integer n"
| "write_msgpack (JNumber_unsigned n) = write_msgpack_unsigned n"
| "write_msgpack (JNumber_float x) = write_compact_float (chr 0xCA) (chr 0xCB) x"
| "write_msgpack (JString s) = write_msgpack_string s"
| "write_msgpack (JArray xs) = write_msgpack_array_start (length xs) @ concat (map write_msgpack xs)"
| "write_msgpack (JBinary bs subtype) = write_msgpack_binary bs subtype"
| "write_msgpack (JObject m) =
     write_msgpack_object_start (length m)
     @ concat (map (\<lambda>p. write_msgpack_string (fst p) @ write_msgpack (snd p)) m)"
| "write_msgpack JDiscarded = []"

definition to_msgpack :: "json \<Rightarrow> string" where
  "to_msgpack = write_msgpack"

section \<open>Reading\<close>

definition get_msgpack_string ::
  "'s json_sax \<Rightarrow> (string \<Rightarrow> binary_reader \<Rightarrow> 's \<Rightarrow> 's reading) \<Rightarrow> binary_reader \<Rightarrow> 's \<Rightarrow> 's reading" where
  "get_msgpack_string h f r d =
     br_and (unexpect_eof Format_msgpack ''string'' h r d) (\<lambda>r d.
       let current = br_current r; sized_string = (\<lambda>len. binary_get_string Format_msgpack len h f)
       in if 0xA0 \<le> current \<and> current \<le> 0xBF then sized_string (word_of_int (current AND 0x1F)) r d
          else if current = 0xD9 then get_number 1 Format_msgpack h sized_string r d
          else if current = 0xDA then get_number 2 Format_msgpack h sized_string r d
          else if current = 0xDB then get_number 4 Format_msgpack h sized_string r d
          else br_and (br_error Format_msgpack 113 (binary_token_string r)
              (''expected length specification (0xA0-0xBF, 0xD9-0xDB); last byte: 0x'' @ binary_token_string r)
              ''string'' h r d) (f []))"

definition get_msgpack_ext ::
  "u64 \<Rightarrow> 's json_sax \<Rightarrow> (string \<Rightarrow> u64 option \<Rightarrow> binary_reader \<Rightarrow> 's \<Rightarrow> 's reading)
     \<Rightarrow> binary_reader \<Rightarrow> 's \<Rightarrow> 's reading" where
  "get_msgpack_ext len h f =
     get_number 1 Format_msgpack h (\<lambda>subtype.
       binary_get_binary Format_msgpack len h (\<lambda>result. f result (Some (as_signed 1 subtype AND 0xFF))))"

definition get_msgpack_binary ::
  "'s json_sax \<Rightarrow> (string \<Rightarrow> u64 option \<Rightarrow> binary_reader \<Rightarrow> 's \<Rightarrow> 's reading)
     \<Rightarrow> binary_reader \<Rightarrow> 's \<Rightarrow> 's reading" where
  "get_msgpack_binary h f r d =
     (let current = br_current r;
          bin = (\<lambda>len. binary_get_binary Format_msgpack len h (\<lambda>result. f result None));
          ext = (\<lambda>len. get_msgpack_ext len h f)
      in if current = 0xC4 then get_number 1 Format_msgpack h bin r d
         else if current = 0xC5 then get_number 2 Format_msgpack h bin r d
         else if current = 0xC6 then get_number 4 Format_msgpack h bin r d
         else if current = 0xC7 then get_number 1 Format_msgpack h ext r d
         else if current = 0xC8 then get_number 2 Format_msgpack h ext r d
         else if current = 0xC9 then get_number 4 Format_msgpack h ext r d
         else if current = 0xD4 then ext 1 r d
         else if current = 0xD5 then ext 2 r d
         else if current = 0xD6 then ext 4 r d
         else if current = 0xD7 then ext 8 r d
         else if current = 0xD8 then ext 16 r d
         else Inr (False, r, d))"

definition get_msgpack_array ::
  "(binary_reader \<Rightarrow> 's \<Rightarrow> 's reading) \<Rightarrow> 's json_sax \<Rightarrow> u64 \<Rightarrow> binary_reader \<Rightarrow> 's \<Rightarrow> 's reading" where
  "get_msgpack_array p h len r d =
     br_and (br_sax (sax_start_array h len) r d) (\<lambda>r d.
     br_and (read_elements (unat len) p r d) (br_sax (sax_end_array h)))"

definition get_msgpack_object ::
  "(binary_reader \<Rightarrow> 's \<Rightarrow> 's reading) \<Rightarrow> 's json_sax \<Rightarrow> u64 \<Rightarrow> binary_reader \<Rightarrow> 's \<Rightarrow> 's reading" where
  "get_msgpack_object p h len r d =
     br_and (br_sax (sax_start_object h len) r d) (\<lambda>r d.
     br_and (read_members (unat len) (get_msgpack_string h) p h r d) (br_sax (sax_end_object h)))"

text \<open>The switch of \<open>parse_msgpack_internal\<close> over the byte that \<open>get\<close> has read.\<close>

definition msgpack_switch ::
  "(binary_reader \<Rightarrow> 's \<Rightarrow> 's reading) \<Rightarrow> 's json_sax \<Rightarrow> binary_reader \<Rightarrow> 's \<Rightarrow> 's reading" where
  "msgpack_switch p h r d =
     (let current = br_current r;
          unsigned = (\<lambda>n. br_sax (sax_number_unsigned h n));
          signed_of = (\<lambda>k n. br_sax (sax_number_integer h (as_signed k n)))
      in if current = eof then unexpect_eof Format_msgpack ''value'' h r d
         else if current \<le> 0x7F then unsigned (word_of_int current) r d
         else if current \<le> 0x8F then get_msgpack_object p h (word_of_int (current AND 0xF)) r d
         else if current \<le> 0x9F then get_msgpack_array p h (word_of_int (current AND 0xF)) r d
         else if current \<le> 0xBF \<or> current = 0xD9 \<or> current = 0xDA \<or> current = 0xDB
         then get_msgpack_string h (\<lambda>s. br_sax (sax_string h s)) r d
         else if current = 0xC0 then br_sax (sax_null h) r d
         else if current = 0xC2 then br_sax (sax_boolean h False) r d
         else if current = 0xC3 then br_sax (sax_boolean h True) r d
         else if 0xC4 \<le> current \<and> current \<le> 0xC9 \<or> 0xD4 \<le> current \<and> current \<le> 0xD8
         then get_msgpack_binary h (\<lambda>b subtype. br_sax (sax_binary h b subtype)) r d
         else if current = 0xCA
         then get_number 4 Format_msgpack h (\<lambda>n. br_sax (sax_number_float h (dbl_of_flt (ucast n)) [])) r d
         else if current = 0xCB then get_number 8 Format_msgpack h (\<lambda>n. br_sax (sax_number_float h n [])) r d
         else if current = 0xCC then get_number 1 Format_msgpack h unsigned r d
         else if current = 0xCD then get_number 2 Format_msgpack h unsigned r d
         else if current = 0xCE then get_number 4 Format_msgpack h unsigned r d
         else if current = 0xCF then get_number 8 Format_msgpack h unsigned r d
         else if current = 0xD0 then get_number 1 Format_msgpack h (signed_of 1) r d
         else if current = 0xD1 then get_number 2 Format_msgpack h (signed_of 2) r d
         else if current = 0xD2 then get_number 4 Format_msgpack h (signed_of 4) r d
         else if current = 0xD3 then get_number 8 Format_msgpack h (signed_of 8) r d
         else if current = 0xDC then get_number 2 Format_msgpack h (get_msgpack_array p h) r d
         else if current = 0xDD then get_number 4 Format_msgpack h (get_msgpack_array p h) r d
         else if current = 0xDE then get_number 2 Format_msgpack h (get_msgpack_object p h) r d
         else if current = 0xDF then get_number 4 Format_msgpack h (get_msgpack_object p h) r d
         else if 0xE0 \<le> current then signed_of 1 (word_of_int current) r d
         else br_error Format_msgpack 112 (binary_token_string r)
           (''invalid byte: 0x'' @ binary_token_string r) ''value'' h r d)"

primrec parse_msgpack_internal :: "nat \<Rightarrow> 's json_sax \<Rightarrow> binary_reader \<Rightarrow> 's \<Rightarrow> 's reading" where
  "parse_msgpack_internal 0 h r d = Inl (Undefined_behaviour ''deeper than the input is long'')"
| "parse_msgpack_internal (Suc n) h r d = msgpack_switch (parse_msgpack_internal n h) h (br_get r) d"

definition msgpack_sax_parse :: "bool \<Rightarrow> 's json_sax \<Rightarrow> binary_reader \<Rightarrow> 's \<Rightarrow> 's reading" where
  "msgpack_sax_parse strict h r d =
     br_and (parse_msgpack_internal (Suc (length (br_ia r))) h r d) (strict_binary_end Format_msgpack strict h)"

definition from_msgpack_with :: "nat \<Rightarrow> bool \<Rightarrow> bool \<Rightarrow> string \<Rightarrow> json res" where
  "from_msgpack_with max_size strict allow_exceptions bytes =
     rbind (msgpack_sax_parse strict dom_sax (br_init bytes) (dom_init max_size allow_exceptions JNull))
       (\<lambda>(b, _, d). Inr (if b then dom_root d else JDiscarded))"

definition from_msgpack :: "nat \<Rightarrow> string \<Rightarrow> json res" where
  "from_msgpack max_size = from_msgpack_with max_size True True"

end
