(* ===== verification/Packing.thy ===== *)
theory Packing
  imports MsgPack BinaryValues
begin

unbundle bit_operations_syntax

text \<open>
  MessagePack: what the writer writes the reader reads, for any SAX handler and then for the builder,
  and what the reader makes of arbitrary input.
\<close>

section \<open>Numbers\<close>

lemma switch_fixint:
  "br_current r = c \<Longrightarrow> 0 \<le> c \<Longrightarrow> c \<le> 0x7F \<Longrightarrow>
     msgpack_switch p h r d = br_sax (sax_number_unsigned h (word_of_int c)) r d"
  by (simp add: msgpack_switch_def)

lemma unsigned_packed:
  assumes "sax_number_unsigned h n d = Inr (True, d')"
  shows "consumes (\<lambda>r. msgpack_switch p h (br_get r)) (write_msgpack_unsigned n) d d'"
proof -
  let ?f = "\<lambda>n. br_sax (sax_number_unsigned h n)"
  have f: "consumes (?f (take_bit (8 * k) n)) [] d d'" if "unat n < 256 ^ k" for k
    using consumes_sax [of "sax_number_unsigned h n", OF assms] take_small [OF that] by simp
  consider "n < 128" | "128 \<le> n" "n \<le> 0xFF" | "0xFF < n" "n \<le> 0xFFFF" | "0xFFFF < n" "n \<le> 0xFFFFFFFF" | "0xFFFFFFFF < n"
    by (metis linorder_not_le)
  then show ?thesis
  proof cases
    case 1
    then have n: "unat n < 128" by (simp add: word_less_nat_alt)
    have e: "uint n = int (unat n)" by (rule uint_nat)
    have u: "uint n \<le> 127" using n unfolding e by linarith
    have "after_byte (uint n) (msgpack_switch p h) [] d d'"
      by (rule switch_after [OF consumes_sax [of "sax_number_unsigned h n", OF assms]])
        (simp add: switch_fixint u)
    moreover have "byte (char_of (unat n)) = uint n"
      unfolding e by (rule byte_char_of) (use n in linarith)
    ultimately have "consumes (\<lambda>r. msgpack_switch p h (br_get r)) [char_of (unat n)] d d'"
      by (intro consumes_get) simp
    then show ?thesis using 1 n by (simp add: write_msgpack_unsigned_def write_number_1)
  next
    case 2
    then show ?thesis
      using number_consumed [of ?f 1 n d d' Format_msgpack "chr 0xCC" "msgpack_switch p h" h] f [of 1] by (simp add: write_msgpack_unsigned_def word_le_nat_alt
          word_less_nat_alt msgpack_switch_def)
  next
    case 3
    then show ?thesis
      using number_consumed [of ?f 2 n d d' Format_msgpack "chr 0xCD" "msgpack_switch p h" h] f [of 2] by (simp add: write_msgpack_unsigned_def word_le_nat_alt
          word_less_nat_alt msgpack_switch_def)
  next
    case 4
    then show ?thesis
      using number_consumed [of ?f 4 n d d' Format_msgpack "chr 0xCE" "msgpack_switch p h" h] f [of 4] by (simp add: write_msgpack_unsigned_def word_le_nat_alt
          word_less_nat_alt msgpack_switch_def)
  next
    case 5
    have "unat n < 256 ^ 8" using unat_u64 [of n] by simp
    then show ?thesis
      using 5 number_consumed [of ?f 8 n d d' Format_msgpack "chr 0xCF" "msgpack_switch p h" h] f [of 8] by (simp add: write_msgpack_unsigned_def word_le_nat_alt
          word_less_nat_alt msgpack_switch_def)
  qed
qed

lemma switch_negative_fixint:
  "br_current r = c \<Longrightarrow> 0xE0 \<le> c \<Longrightarrow>
     msgpack_switch p h r d = br_sax (sax_number_integer h (as_signed 1 (word_of_int c))) r d"
  by (simp add: msgpack_switch_def)

lemma low_byte:
  fixes n :: u64
  shows "word_of_int (byte (char_of (unat n))) = take_bit 8 n"
    "- 256 \<le> sint n \<Longrightarrow> sint n < 0 \<Longrightarrow> byte (char_of (unat n)) = sint n + 256"
proof -
  have b: "byte (char_of (unat n)) = uint n mod 256"
    using byte_char_of [of "unat n mod 256"] unfolding uint_nat by (simp add: of_nat_mod)
  have "uint n mod 256 = uint (take_bit 8 n)"
    by (simp only: unsigned_take_bit_eq) (simp add: take_bit_eq_mod)
  then show "word_of_int (byte (char_of (unat n))) = take_bit 8 n"
    unfolding b by (simp only: word_of_int_uint)
  have "uint n mod 256 = (sint n + 256) mod 256"
    by (simp add: uint_sint take_bit_eq_mod mod_mod_cancel)
  then show "- 256 \<le> sint n \<Longrightarrow> sint n < 0 \<Longrightarrow> byte (char_of (unat n)) = sint n + 256"
    unfolding b by (simp only: mod_pos_pos_trivial)
qed

lemma integer_packed:
  assumes "sax_number_integer h n d = Inr (True, d')" "sint n < 0"
  shows "consumes (\<lambda>r. msgpack_switch p h (br_get r)) (write_msgpack_integer n) d d'"
proof -
  let ?f = "\<lambda>k n. br_sax (sax_number_integer h (as_signed k n))"
  have f: "consumes (?f k (take_bit (8 * k) n)) [] d d'" if "- (2 ^ (8 * k - 1)) \<le> sint n" "0 < k" "k \<le> 8" for k
  proof -
    have "sint n < 2 ^ (8 * k - 1)" using assms(2) by (rule order_less_trans) simp
    then show ?thesis
      using consumes_sax [of "sax_number_integer h n", OF assms(1)] signed_back [OF that(1) _ that(2,3)] by simp
  qed
  consider "- 32 \<le> sint n" | "sint n < - 32" "- 128 \<le> sint n" | "sint n < - 128" "- 32768 \<le> sint n"
    | "sint n < - 32768" "- 2147483648 \<le> sint n" | "sint n < - 2147483648"
    by linarith
  then show ?thesis
  proof cases
    case 1
    let ?c = "char_of (unat n) :: char"
    have "224 \<le> byte ?c" using low_byte(2) [of n] 1 assms(2) by linarith
    moreover have "consumes (?f 1 (take_bit 8 n)) [] d d'" using f [of 1] 1 by simp
    ultimately have "after_byte (byte ?c) (msgpack_switch p h) [] d d'"
      by (intro switch_after) (simp_all add: switch_negative_fixint low_byte(1))
    then have "consumes (\<lambda>r. msgpack_switch p h (br_get r)) [?c] d d'" by (rule consumes_get)
    then show ?thesis using 1 assms(2) by (simp add: write_msgpack_integer_def write_number_1)
  next
    case 2
    then show ?thesis
      using number_consumed [of "?f 1" 1 n d d' Format_msgpack "chr 0xD0" "msgpack_switch p h" h] f [of 1] assms(2)
      by (simp add: write_msgpack_integer_def msgpack_switch_def)
  next
    case 3
    then show ?thesis
      using number_consumed [of "?f 2" 2 n d d' Format_msgpack "chr 0xD1" "msgpack_switch p h" h] f [of 2] assms(2)
      by (simp add: write_msgpack_integer_def msgpack_switch_def)
  next
    case 4
    then show ?thesis
      using number_consumed [of "?f 4" 4 n d d' Format_msgpack "chr 0xD2" "msgpack_switch p h" h] f [of 4] assms(2)
      by (simp add: write_msgpack_integer_def msgpack_switch_def)
  next
    case 5
    then show ?thesis
      using number_consumed [of "?f 8" 8 n d d' Format_msgpack "chr 0xD3" "msgpack_switch p h" h] f [of 8] assms(2) sint_bounds_u64 [of n]
      by (simp add: write_msgpack_integer_def msgpack_switch_def)
  qed
qed

section \<open>Strings, binary values and containers\<close>

text \<open>A string is a control byte that tells its kind, and the rest.\<close>

abbreviation string_head :: "int \<Rightarrow> bool" where
  "string_head c \<equiv> 0xA0 \<le> c \<and> c \<le> 0xBF \<or> c = 0xD9 \<or> c = 0xDA \<or> c = 0xDB"

lemma switch_string:
  "br_current r = c \<Longrightarrow> string_head c \<Longrightarrow>
     msgpack_switch p h r d = get_msgpack_string h (\<lambda>s. br_sax (sax_string h s)) r d"
  by (auto simp: msgpack_switch_def)

lemma control_bytes:
  "\<forall>n \<in> set [0..<32]. unat (0xA0 OR word_of_nat n :: u64) = 0xA0 + n \<and> (0xA0 + int n) AND 0x1F = int n"
  "\<forall>n \<in> set [0..<16]. unat (0x90 OR word_of_nat n :: u64) = 0x90 + n \<and> (0x90 + int n) AND 0xF = int n"
  "\<forall>n \<in> set [0..<16]. unat (0x80 OR (word_of_nat n AND 0xF) :: u64) = 0x80 + n \<and> (0x80 + int n) AND 0xF = int n"
  by code_simp+

lemma string_sized:
  assumes "consumes (f s) bs d d'" "unat n = length s"
  shows "consumes (binary_get_string Format_msgpack n h f) (s @ bs) d d'"
  using consumes_chars [of f "[]" s bs d d'] assms by (simp add: binary_get_string_def)

lemma string_head_number:
  assumes "consumes (f s) bs d d'" "unat n = length s" "unat n < 256 ^ k"
    "\<And>r d. br_current r = c \<Longrightarrow> get_msgpack_string h f r d
       = get_number k Format_msgpack h (\<lambda>len. binary_get_string Format_msgpack len h f) r d"
  shows "after_byte c (get_msgpack_string h f) (write_number k n @ s @ bs) d d'"
  by (rule switch_after [OF consumes_number assms(4)])
    (simp_all only: take_small [OF assms(3)] string_sized [of f s bs d d', OF assms(1,2)] input_format.distinct not_False_eq_True)

lemma string_packed:
  assumes "consumes (f s) bs d d'" "length s < 2 ^ 32"
  obtains c cs where "write_msgpack_string s = c # cs" "string_head (byte c)"
    "after_byte (byte c) (get_msgpack_string h f) (cs @ bs) d d'"
proof -
  let ?n = "word_of_nat (length s) :: u64"
  have n: "unat ?n = length s" by (rule unat_count [OF assms(2)])
  note head = string_head_number [of f s bs d d' ?n, OF assms(1) n]
  consider "length s \<le> 31" | "31 < length s" "length s \<le> 0xFF" | "0xFF < length s" "length s \<le> 0xFFFF"
    | "0xFFFF < length s" "length s \<le> 0xFFFFFFFF"
    using assms(2) by (cases "length s \<le> 31"; cases "length s \<le> 0xFF"; cases "length s \<le> 0xFFFF") auto
  then show ?thesis
  proof cases
    case 1
    let ?c = "char_of (0xA0 + length s) :: char"
    have c: "unat (0xA0 OR ?n) = 0xA0 + length s" "(0xA0 + int (length s)) AND 0x1F = int (length s)"
      using control_bytes(1) 1 by auto
    have b: "byte ?c = 0xA0 + int (length s)" using 1 by (subst byte_char_of) simp_all
    have "consumes (binary_get_string Format_msgpack ?n h f) (s @ bs) d d'"
      by (rule string_sized [of f s bs d d', OF assms(1) n])
    then have "after_byte (byte ?c) (get_msgpack_string h f) (s @ bs) d d'"
      by (rule switch_after) (use 1 c(2) in \<open>simp add: get_msgpack_string_def unexpect_eof_def b\<close>)
    moreover have "write_msgpack_string s = ?c # s"
      using 1 by (simp add: write_msgpack_string_def word_le_nat_alt n write_number_1 c(1))
    ultimately show ?thesis using 1 that [of ?c s] by (simp add: b)
  next
    case 2
    have "after_byte 0xD9 (get_msgpack_string h f) (write_number 1 ?n @ s @ bs) d d'"
      by (rule head) (use 2 n in \<open>simp_all add: get_msgpack_string_def unexpect_eof_def\<close>)
    then show ?thesis using 2 that [of "chr 0xD9" "write_number 1 ?n @ s"]
      by (simp add: write_msgpack_string_def word_le_nat_alt n)
  next
    case 3
    have "after_byte 0xDA (get_msgpack_string h f) (write_number 2 ?n @ s @ bs) d d'"
      by (rule head) (use 3 n in \<open>simp_all add: get_msgpack_string_def unexpect_eof_def\<close>)
    then show ?thesis using 3 that [of "chr 0xDA" "write_number 2 ?n @ s"]
      by (simp add: write_msgpack_string_def word_le_nat_alt n)
  next
    case 4
    have "after_byte 0xDB (get_msgpack_string h f) (write_number 4 ?n @ s @ bs) d d'"
      by (rule head) (use 4 n in \<open>simp_all add: get_msgpack_string_def unexpect_eof_def\<close>)
    then show ?thesis using 4 that [of "chr 0xDB" "write_number 4 ?n @ s"]
      by (simp add: write_msgpack_string_def word_le_nat_alt n)
  qed
qed

text \<open>Binary values, with and without a subtype.\<close>

lemma subtype_back:
  fixes k :: u64
  assumes "k < 256"
  shows "as_signed (Suc 0) (take_bit 8 k) AND 0xFF = k"
proof -
  have "as_signed (Suc 0) (take_bit 8 k) AND mask 8 = take_bit 8 k"
    by (rule bit_word_eqI) (auto simp: as_signed_def bit_and_iff bit_mask_iff bit_signed_take_bit_iff bit_take_bit_iff min_absorb1
        cong: conj_cong)
  moreover have "take_bit (8 * 1) k = k" by (rule take_small) (use assms in \<open>simp add: word_less_nat_alt\<close>)
  ultimately show ?thesis by (simp add: mask_eq_exp_minus_1)
qed

lemma binary_sized:
  assumes "consumes (f s st) bs d d'" "unat n = length s"
  shows "consumes (binary_get_binary Format_msgpack n h (\<lambda>s. f s st)) (s @ bs) d d'"
  using consumes_chars [of "\<lambda>s. f s st" "[]" s bs d d'] assms by (simp add: binary_get_binary_def)

lemma ext_sized:
  assumes "consumes (f s (Some k)) bs d d'" "unat n = length s" "k < 256"
  shows "consumes (get_msgpack_ext n h f) (write_number (Suc 0) k @ s @ bs) d d'"
proof -
  have "consumes (binary_get_binary Format_msgpack n h (\<lambda>s. f s (Some (as_signed 1 (take_bit (8 * Suc 0) k) AND 0xFF))))
      (s @ bs) d d'"
    using binary_sized [of f s "Some k" bs d d', OF assms(1,2)] subtype_back [OF assms(3)] by simp
  then show ?thesis unfolding get_msgpack_ext_def One_nat_def by (rule consumes_number) simp
qed

lemma binary_head_number:
  assumes "consumes (q n) bs d d'" "unat n < 256 ^ k"
    "\<And>r d. br_current r = c \<Longrightarrow> g r d = get_number k Format_msgpack h q r d"
  shows "after_byte c g (write_number k n @ bs) d d'"
  by (rule switch_after [OF consumes_number assms(3)])
    (simp_all only: take_small [OF assms(2)] assms(1) input_format.distinct not_False_eq_True)

abbreviation binary_head :: "int \<Rightarrow> bool" where
  "binary_head c \<equiv> 0xC4 \<le> c \<and> c \<le> 0xC9 \<or> 0xD4 \<le> c \<and> c \<le> 0xD8"

lemma switch_binary:
  "br_current r = c \<Longrightarrow> binary_head c \<Longrightarrow>
     msgpack_switch p h r d = get_msgpack_binary h (\<lambda>b subtype. br_sax (sax_binary h b subtype)) r d"
  by (auto simp: msgpack_switch_def)

lemma count_cases:
  assumes "n < (2 ^ 32 :: nat)"
  obtains "n \<le> 0xFF" | "0xFF < n" "n \<le> 0xFFFF" | "0xFFFF < n" "n \<le> 0xFFFFFFFF"
  using assms by (cases "n \<le> 0xFF"; cases "n \<le> 0xFFFF") auto

lemma bin_packed:
  assumes "consumes (f s None) bs d d'" "length s < 2 ^ 32"
  obtains c cs where "write_msgpack_binary s None = c # cs" "binary_head (byte c)"
    "after_byte (byte c) (get_msgpack_binary h f) (cs @ bs) d d'"
proof -
  let ?n = "word_of_nat (length s) :: u64"
  let ?q = "\<lambda>len. binary_get_binary Format_msgpack len h (\<lambda>s. f s None)"
  have n: "unat ?n = length s" by (rule unat_count [OF assms(2)])
  note head = binary_head_number [of ?q ?n "s @ bs" d d', OF binary_sized [of f s None bs d d', OF assms(1) n]]
  show ?thesis
  proof (rule count_cases [OF assms(2)])
    assume l: "length s \<le> 0xFF"
    have "after_byte 0xC4 (get_msgpack_binary h f) (write_number 1 ?n @ s @ bs) d d'"
      by (rule head) (use l n in \<open>simp_all add: get_msgpack_binary_def\<close>)
    then show ?thesis using l that [of "chr 0xC4" "write_number 1 ?n @ s"]
      by (simp add: write_msgpack_binary_def word_le_nat_alt n)
  next
    assume l: "0xFF < length s" "length s \<le> 0xFFFF"
    have "after_byte 0xC5 (get_msgpack_binary h f) (write_number 2 ?n @ s @ bs) d d'"
      by (rule head) (use l n in \<open>simp_all add: get_msgpack_binary_def\<close>)
    then show ?thesis using l that [of "chr 0xC5" "write_number 2 ?n @ s"]
      by (simp add: write_msgpack_binary_def word_le_nat_alt n)
  next
    assume l: "0xFFFF < length s" "length s \<le> 0xFFFFFFFF"
    have "after_byte 0xC6 (get_msgpack_binary h f) (write_number 4 ?n @ s @ bs) d d'"
      by (rule head) (use l n in \<open>simp_all add: get_msgpack_binary_def\<close>)
    then show ?thesis using l that [of "chr 0xC6" "write_number 4 ?n @ s"]
      by (simp add: write_msgpack_binary_def word_le_nat_alt n)
  qed
qed

lemma fixext_sizes: "fixext_type n = None \<or> n = 1 \<or> n = 2 \<or> n = 4 \<or> n = 8 \<or> n = 16"
  by (simp add: fixext_type_def)

lemma ext_packed:
  assumes "consumes (f s (Some k)) bs d d'" "length s < 2 ^ 32" "k < 256"
  obtains c cs where "write_msgpack_binary s (Some k) = c # cs" "binary_head (byte c)"
    "after_byte (byte c) (get_msgpack_binary h f) (cs @ bs) d d'"
proof -
  let ?n = "word_of_nat (length s) :: u64"
  let ?q = "\<lambda>len. get_msgpack_ext len h f"
  let ?s = "write_number (Suc 0) k @ s"
  have n: "unat ?n = length s" by (rule unat_count [OF assms(2)])
  have ext: "consumes (?q m) (?s @ bs) d d'" if "unat m = length s" for m
    using ext_sized [of f s k bs d d', OF assms(1) that assms(3)] by simp
  note head = binary_head_number [of ?q ?n "?s @ bs" d d', OF ext [OF n]]
  note packed = that
  have fixed: ?thesis if fx: "fixext_type (length s) = Some c" "length s \<le> 0xFF" "binary_head (byte c)"
      "after_byte (byte c) (get_msgpack_binary h f) (?s @ bs) d d'" for c
    by (rule packed [of c ?s])
      (use fx in \<open>simp_all add: write_msgpack_binary_def word_le_nat_alt n\<close>)
  show ?thesis
  proof (rule count_cases [OF assms(2)])
    assume l: "length s \<le> 0xFF"
    show ?thesis
      using fixext_sizes [of "length s"]
    proof (elim disjE, goal_cases)
      case 1
      have "after_byte 0xC7 (get_msgpack_binary h f) (write_number 1 ?n @ ?s @ bs) d d'"
        by (rule head) (use l n in \<open>simp_all add: get_msgpack_binary_def\<close>)
      then show ?thesis using l 1 that [of "chr 0xC7" "write_number 1 ?n @ ?s"]
        by (simp add: write_msgpack_binary_def word_le_nat_alt n)
    next
      case 2
      have "after_byte 0xD4 (get_msgpack_binary h f) (?s @ bs) d d'"
        by (rule switch_after [OF ext [of 1]]) (use 2 in \<open>simp_all add: get_msgpack_binary_def\<close>)
      then show ?thesis using 2 fixed [of "chr 0xD4"] by (simp add: fixext_type_def)
    next
      case 3
      have "after_byte 0xD5 (get_msgpack_binary h f) (?s @ bs) d d'"
        by (rule switch_after [OF ext [of 2]]) (use 3 in \<open>simp_all add: get_msgpack_binary_def\<close>)
      then show ?thesis using 3 fixed [of "chr 0xD5"] by (simp add: fixext_type_def)
    next
      case 4
      have "after_byte 0xD6 (get_msgpack_binary h f) (?s @ bs) d d'"
        by (rule switch_after [OF ext [of 4]]) (use 4 in \<open>simp_all add: get_msgpack_binary_def\<close>)
      then show ?thesis using 4 fixed [of "chr 0xD6"] by (simp add: fixext_type_def)
    next
      case 5
      have "after_byte 0xD7 (get_msgpack_binary h f) (?s @ bs) d d'"
        by (rule switch_after [OF ext [of 8]]) (use 5 in \<open>simp_all add: get_msgpack_binary_def\<close>)
      then show ?thesis using 5 fixed [of "chr 0xD7"] by (simp add: fixext_type_def)
    next
      case 6
      have "after_byte 0xD8 (get_msgpack_binary h f) (?s @ bs) d d'"
        by (rule switch_after [OF ext [of 16]]) (use 6 in \<open>simp_all add: get_msgpack_binary_def\<close>)
      then show ?thesis using 6 fixed [of "chr 0xD8"] by (simp add: fixext_type_def)
    qed
  next
    assume l: "0xFF < length s" "length s \<le> 0xFFFF"
    have "after_byte 0xC8 (get_msgpack_binary h f) (write_number 2 ?n @ ?s @ bs) d d'"
      by (rule head) (use l n in \<open>simp_all add: get_msgpack_binary_def\<close>)
    then show ?thesis using l that [of "chr 0xC8" "write_number 2 ?n @ ?s"]
      by (simp add: write_msgpack_binary_def word_le_nat_alt n)
  next
    assume l: "0xFFFF < length s" "length s \<le> 0xFFFFFFFF"
    have "after_byte 0xC9 (get_msgpack_binary h f) (write_number 4 ?n @ ?s @ bs) d d'"
      by (rule head) (use l n in \<open>simp_all add: get_msgpack_binary_def\<close>)
    then show ?thesis using l that [of "chr 0xC9" "write_number 4 ?n @ ?s"]
      by (simp add: write_msgpack_binary_def word_le_nat_alt n)
  qed
qed

text \<open>Containers: the control byte with the number of elements, then \<open>q\<close>.\<close>

lemma start_packed:
  assumes "consumes (q (word_of_nat n)) bs d d'" "n < 2 ^ 32" "0 \<le> base" "base + 15 < 256"
    "\<And>r d. br_current r = base + int n \<Longrightarrow> n \<le> 15 \<Longrightarrow> g r d = q (word_of_nat n) r d"
    "\<And>r d. br_current r = byte c2 \<Longrightarrow> g r d = get_number 2 Format_msgpack h q r d"
    "\<And>r d. br_current r = byte c4 \<Longrightarrow> g r d = get_number 4 Format_msgpack h q r d"
  shows "consumes (\<lambda>r. g (br_get r)) ((if n \<le> 15 then [chr (base + int n)]
    else if n \<le> 0xFFFF then c2 # write_number 2 (word_of_nat n) else c4 # write_number 4 (word_of_nat n)) @ bs) d d'"
proof -
  have n: "unat (word_of_nat n :: u64) = n" by (rule unat_count [OF assms(2)])
  consider "n \<le> 15" | "15 < n" "n \<le> 0xFFFF" | "0xFFFF < n" "n \<le> 0xFFFFFFFF"
    using assms(2) by (cases "n \<le> 15"; cases "n \<le> 0xFFFF") auto
  then show ?thesis
  proof cases
    case 1
    have "after_byte (byte (chr (base + int n))) g bs d d'"
      by (rule switch_after [OF assms(1)]) (use 1 assms(3-5) in simp)
    from consumes_get [OF this] show ?thesis using 1 by simp
  next
    case 2
    have "after_byte (byte c2) g (write_number 2 (word_of_nat n) @ bs) d d'"
      by (rule binary_head_number [OF assms(1) _ assms(6)]) (use 2 n in simp_all)
    from consumes_get [OF this] show ?thesis using 2 by simp
  next
    case 3
    have "after_byte (byte c4) g (write_number 4 (word_of_nat n) @ bs) d d'"
      by (rule binary_head_number [OF assms(1) _ assms(7)]) (use 3 n in simp_all)
    from consumes_get [OF this] show ?thesis using 3 by simp
  qed
qed

lemma array_start_bytes:
  assumes "n < 2 ^ 32"
  shows "write_msgpack_array_start n = (if n \<le> 15 then [chr (0x90 + int n)]
    else if n \<le> 0xFFFF then chr 0xDC # write_number 2 (word_of_nat n) else chr 0xDD # write_number 4 (word_of_nat n))"
proof (cases "n \<le> 15")
  case True
  then have "unat (0x90 OR word_of_nat n :: u64) = 0x90 + n" using control_bytes(2) by auto
  moreover have "char_of (0x90 + n) = chr (0x90 + int n)" by (simp flip: chr_int)
  ultimately show ?thesis
    using True by (simp add: write_msgpack_array_start_def word_le_nat_alt unat_count [OF assms] write_number_1)
next
  case False
  then show ?thesis using assms
    by (simp add: write_msgpack_array_start_def word_le_nat_alt unat_count [OF assms])
qed

lemma object_start_bytes:
  assumes "n < 2 ^ 32"
  shows "write_msgpack_object_start n = (if n \<le> 15 then [chr (0x80 + int n)]
    else if n \<le> 0xFFFF then chr 0xDE # write_number 2 (word_of_nat n) else chr 0xDF # write_number 4 (word_of_nat n))"
proof (cases "n \<le> 15")
  case True
  then have "unat (0x80 OR (word_of_nat n AND 0xF) :: u64) = 0x80 + n" using control_bytes(3) by auto
  moreover have "char_of (0x80 + n) = chr (0x80 + int n)" by (simp flip: chr_int)
  ultimately show ?thesis
    using True by (simp add: write_msgpack_object_start_def word_le_nat_alt unat_count [OF assms] write_number_1)
next
  case False
  then show ?thesis using assms
    by (simp add: write_msgpack_object_start_def word_le_nat_alt unat_count [OF assms])
qed

lemma array_start_packed:
  assumes "consumes (get_msgpack_array p h (word_of_nat n)) bs d d'" "n < 2 ^ 32"
  shows "consumes (\<lambda>r. msgpack_switch p h (br_get r)) (write_msgpack_array_start n @ bs) d d'"
  unfolding array_start_bytes [OF assms(2)]
proof (rule start_packed [of "get_msgpack_array p h", OF assms], goal_cases)
  case (3 r d)
  then have "(0x90 + int n) AND 0xF = int n" using control_bytes(2) by auto
  then show ?case using 3 by (simp add: msgpack_switch_def)
qed (simp_all add: msgpack_switch_def)

lemma object_start_packed:
  assumes "consumes (get_msgpack_object p h (word_of_nat n)) bs d d'" "n < 2 ^ 32"
  shows "consumes (\<lambda>r. msgpack_switch p h (br_get r)) (write_msgpack_object_start n @ bs) d d'"
  unfolding object_start_bytes [OF assms(2)]
proof (rule start_packed [of "get_msgpack_object p h", OF assms], goal_cases)
  case (3 r d)
  then have "(0x80 + int n) AND 0xF = int n" using control_bytes(3) by auto
  then show ?case using 3 by (simp add: msgpack_switch_def)
qed (simp_all add: msgpack_switch_def)

section \<open>The round trip\<close>

lemma write_msgpack_nonempty: "packable v \<Longrightarrow> write_msgpack v \<noteq> []"
proof (cases v)
  case (JObject m)
  assume "packable v"
  then show ?thesis using JObject by (simp add: object_start_bytes)
next
  case (JArray xs)
  assume "packable v"
  then show ?thesis using JArray by (simp add: array_start_bytes)
next
  case (JString s)
  assume "packable v"
  then show ?thesis using JString
    by (simp add: write_msgpack_string_def Let_def word_le_nat_alt unat_count)
next
  case (JBinary s k)
  assume "packable v"
  then show ?thesis using JBinary
    by (simp add: write_msgpack_binary_def Let_def word_le_nat_alt unat_count split: option.split)
qed (simp_all add: write_msgpack_integer_def write_msgpack_unsigned_def write_compact_float_def)

lemma key_packed:
  assumes "consumes (f k) [] d d'" "length k < 2 ^ 32"
  shows "consumes (\<lambda>r. get_msgpack_string h f (br_get r)) (write_msgpack_string k) d d'"
proof -
  obtain c cs where "write_msgpack_string k = c # cs" "after_byte (byte c) (get_msgpack_string h f) (cs @ []) d d'"
    by (rule string_packed [of f k "[]" d d' h, OF assms])
  then show ?thesis using consumes_get by fastforce
qed

text \<open>What the reader makes of the bytes, for any handler that takes the events; the fuel must cover
  the depth, for which the number of bytes is enough.\<close>

lemma array_packed:
  assumes "\<And>x d d'. x \<in> set xs \<Longrightarrow> accepts h (pack_events x) d d' \<Longrightarrow> consumes p (write_msgpack x) d d'"
    "length xs < 2 ^ 32" "accepts h (pack_events (JArray xs)) d d'"
  shows "consumes (\<lambda>r. msgpack_switch p h (br_get r)) (write_msgpack (JArray xs)) d d'"
proof -
  let ?n = "word_of_nat (length xs) :: u64"
  obtain d1 d2 where d: "sax_start_array h ?n d = Inr (True, d1)" "accepts h (concat (map pack_events xs)) d1 d2"
      "sax_end_array h d2 = Inr (True, d')"
    using assms(3) by (auto simp: accepts_append)
  note first = consumes_sax [of "sax_start_array h ?n" d d1, OF d(1)]
  note last = consumes_sax [of "sax_end_array h" d2 d', OF d(3)]
  have elements: "consumes (read_elements (length xs) p) (concat (map write_msgpack xs)) d1 d2"
    by (rule consumes_elements [OF assms(1) d(2)])
  have "consumes (\<lambda>r d. br_and (br_sax (sax_start_array h ?n) r d) (\<lambda>r d.
      br_and (read_elements (length xs) p r d) (br_sax (sax_end_array h)))) ([] @ concat (map write_msgpack xs) @ []) d d'"
    by (rule consumes_and [OF first consumes_and [OF elements last]])
  then have "consumes (get_msgpack_array p h ?n) (concat (map write_msgpack xs)) d d'"
    by (simp add: get_msgpack_array_def unat_count [OF assms(2)] consumes_def)
  then show ?thesis using array_start_packed assms(2) by simp
qed

lemma object_packed:
  assumes "\<And>q d d'. q \<in> set m \<Longrightarrow> accepts h (pack_events (snd q)) d d' \<Longrightarrow> consumes p (write_msgpack (snd q)) d d'"
    "length m < 2 ^ 32" "\<And>q. q \<in> set m \<Longrightarrow> length (fst q) < 2 ^ 32" "accepts h (pack_events (JObject m)) d d'"
  shows "consumes (\<lambda>r. msgpack_switch p h (br_get r)) (write_msgpack (JObject m)) d d'"
proof -
  let ?n = "word_of_nat (length m) :: u64" and ?bs = "concat (map (\<lambda>p. write_msgpack_string (fst p) @ write_msgpack (snd p)) m)"
  obtain d1 d2 where d: "sax_start_object h ?n d = Inr (True, d1)"
      "accepts h (concat (map (\<lambda>p. Ev_key (fst p) # pack_events (snd p)) m)) d1 d2"
      "sax_end_object h d2 = Inr (True, d')"
    using assms(4) by (auto simp: accepts_append)
  note first = consumes_sax [of "sax_start_object h ?n" d d1, OF d(1)]
  note last = consumes_sax [of "sax_end_object h" d2 d', OF d(3)]
  have members: "consumes (read_members (length m) (get_msgpack_string h) p h) ?bs d1 d2"
    by (rule consumes_members [where es = pack_events and ks = write_msgpack_string and bs = write_msgpack, OF assms(1) _ d(2)])
      (assumption, assumption, rule key_packed, assumption, erule assms(3))
  have "consumes (\<lambda>r d. br_and (br_sax (sax_start_object h ?n) r d) (\<lambda>r d.
      br_and (read_members (length m) (get_msgpack_string h) p h r d) (br_sax (sax_end_object h)))) ([] @ ?bs @ []) d d'"
    by (rule consumes_and [OF first consumes_and [OF members last]])
  then have "consumes (get_msgpack_object p h ?n) ?bs d d'"
    by (simp add: get_msgpack_object_def unat_count [OF assms(2)] consumes_def)
  then show ?thesis using object_start_packed assms(2) by simp
qed

lemma scalar_packed:
  assumes "packable v" "accepts h (pack_events v) d d'" "\<not> is_structured v" "comparable v"
  shows "consumes (\<lambda>r. msgpack_switch p h (br_get r)) (write_msgpack v) d d'"
proof (cases v)
  case (JString s)
  let ?f = "\<lambda>s. br_sax (sax_string h s)"
  have "consumes (?f s) [] d d'" using assms(2) JString consumes_sax [of "sax_string h s" d d'] by simp
  then obtain c cs where c: "write_msgpack_string s = c # cs" "string_head (byte c)"
      "after_byte (byte c) (get_msgpack_string h ?f) (cs @ []) d d'"
    by (rule string_packed [of ?f s "[]" d d' h]) (use assms(1) JString in simp)
  then have "after_byte (byte c) (msgpack_switch p h) cs d d'"
    by (simp add: after_byte_def switch_string del: One_nat_def)
  from consumes_get [OF this] show ?thesis using JString c(1) by simp
next
  case (JBinary s k)
  let ?f = "\<lambda>b subtype. br_sax (sax_binary h b subtype)"
  have f: "consumes (?f s k) [] d d'" using assms(2) JBinary consumes_sax [of "sax_binary h s k" d d'] by simp
  obtain c cs where c: "write_msgpack_binary s k = c # cs" "binary_head (byte c)"
      "after_byte (byte c) (get_msgpack_binary h ?f) (cs @ []) d d'"
  proof (cases k)
    case None
    show ?thesis
      by (rule bin_packed [of ?f s "[]" d d' h]) (use f None assms(1) JBinary that in simp_all)
  next
    case (Some w)
    show ?thesis
      by (rule ext_packed [of ?f s w "[]" d d' h]) (use f Some assms(1) JBinary that in simp_all)
  qed
  then have "after_byte (byte c) (msgpack_switch p h) cs d d'"
    by (simp add: after_byte_def switch_binary)
  from consumes_get [OF this] show ?thesis using JBinary c(1) by simp
next
  case JNull
  have "after_byte 0xC0 (msgpack_switch p h) [] d d'"
    by (rule switch_after [OF consumes_sax [of "sax_null h"]])
      (use assms(2) JNull in \<open>simp_all add: msgpack_switch_def\<close>)
  then show ?thesis using consumes_get [of "chr 0xC0"] JNull by simp
next
  case (JBoolean b)
  have "after_byte (if b then 0xC3 else 0xC2) (msgpack_switch p h) [] d d'"
    by (rule switch_after [OF consumes_sax [of "sax_boolean h b"]])
      (use assms(2) JBoolean in \<open>simp_all add: msgpack_switch_def split: if_splits\<close>)
  then show ?thesis using consumes_get [of "if b then chr 0xC3 else chr 0xC2"] JBoolean by (simp split: if_splits)
next
  case (JNumber_integer n)
  then show ?thesis
    using assms(2) integer_packed [of h n d d' p] unsigned_packed [of h n d d' p]
    by (auto simp: write_msgpack_integer_def [of n] split: if_splits)
next
  case (JNumber_float x)
  have "consumes (\<lambda>r. msgpack_switch p h (br_get r)) (write_compact_float (chr 0xCA) (chr 0xCB) x) d d'"
    by (rule compact_float_consumed [where format = Format_msgpack and h = h])
      (use assms JNumber_float in \<open>simp_all add: msgpack_switch_def\<close>)
  then show ?thesis using JNumber_float by simp
qed (use assms unsigned_packed in \<open>simp_all add: is_structured_def is_array_def is_object_def\<close>)

lemma scalar_next:
  assumes "packable v" "length (write_msgpack v) \<le> k" "accepts h (pack_events v) d d'" "comparable v" "\<not> is_structured v"
  shows "consumes (parse_msgpack_internal k h) (write_msgpack v) d d'"
proof -
  obtain j where "k = Suc j" using write_msgpack_nonempty [OF assms(1)] assms(2) by (cases k) auto
  then show ?thesis using scalar_packed [OF assms(1,3,5,4), of "parse_msgpack_internal j h"] by (simp add: consumes_def)
qed

lemma start_bytes_pos:
  "n < 2 ^ 32 \<Longrightarrow> length (write_msgpack_array_start n) + k \<le> Suc j \<Longrightarrow> k \<le> j"
  "n < 2 ^ 32 \<Longrightarrow> length (write_msgpack_object_start n) + k \<le> Suc j \<Longrightarrow> k \<le> j"
  by (auto simp: array_start_bytes object_start_bytes split: if_splits)

lemma value_packed:
  "packable v \<Longrightarrow> length (write_msgpack v) \<le> k \<Longrightarrow> accepts h (pack_events v) d d' \<Longrightarrow> comparable v \<Longrightarrow>
     consumes (parse_msgpack_internal k h) (write_msgpack v) d d'"
proof (induction v arbitrary: k d d')
  case (JObject m)
  obtain j where k: "k = Suc j" using write_msgpack_nonempty [OF JObject.prems(1)] JObject.prems(2) by (cases k) auto
  have "consumes (parse_msgpack_internal j h) (write_msgpack (snd q)) e e'"
    if q: "q \<in> set m" "accepts h (pack_events (snd q)) e e'" for q e e'
  proof (rule JObject.IH [OF q(1) _ _ _ q(2)])
    have "length (write_msgpack (snd q)) \<le> length (concat (map (\<lambda>p. write_msgpack_string (fst p) @ write_msgpack (snd p)) m))"
      using length_le_concat [OF q(1), of "\<lambda>p. write_msgpack_string (fst p) @ write_msgpack (snd p)"] by simp
    then show "length (write_msgpack (snd q)) \<le> j"
      using start_bytes_pos(2) [OF _ JObject.prems(2) [unfolded k write_msgpack.simps length_append]] JObject.prems(1)
      by simp
  qed (use JObject.prems(1,4) q(1) in \<open>auto simp: snds.simps\<close>)
  then show ?case using object_packed [of m h "parse_msgpack_internal j h" d d'] JObject.prems by (simp add: k)
next
  case (JArray xs)
  obtain j where k: "k = Suc j" using write_msgpack_nonempty [OF JArray.prems(1)] JArray.prems(2) by (cases k) auto
  have "consumes (parse_msgpack_internal j h) (write_msgpack x) e e'"
    if x: "x \<in> set xs" "accepts h (pack_events x) e e'" for x e e'
  proof (rule JArray.IH [OF x(1) _ _ x(2)])
    show "length (write_msgpack x) \<le> j"
      using length_le_concat [OF x(1), of write_msgpack] JArray.prems(1)
        start_bytes_pos(1) [OF _ JArray.prems(2) [unfolded k write_msgpack.simps length_append]] by simp
  qed (use JArray.prems(1,4) x(1) in simp_all)
  then show ?case using array_packed [of xs h "parse_msgpack_internal j h" d d'] JArray.prems by (simp add: k)
qed (rule scalar_next; simp add: is_structured_def is_array_def is_object_def)+

theorem msgpack_back:
  assumes "packable v" "json_inv v" "comparable v" "2 ^ 32 \<le> n + 1"
  shows "from_msgpack n (to_msgpack v) = Inr (unpacked v)"
proof -
  let ?d = "dom_init n True JNull" and ?bs = "write_msgpack v"
  have "slot ?d [] (\<lambda>v. v)" by (rule slot_root) (simp add: dom_init_def)
  then obtain oe where acc: "accepts dom_sax (pack_events v) ?d (?d\<lparr>dom_root := unpacked v, dom_object_element := oe\<rparr>)"
    by (rule buildsD [OF pack_events_build [OF assms(1,2,4)]]) (simp_all add: dom_init_def)
  let ?e = "?d\<lparr>dom_root := unpacked v, dom_object_element := oe\<rparr>"
  have "consumes (parse_msgpack_internal (Suc (length ?bs)) dom_sax) ?bs ?d ?e"
    by (rule value_packed [OF assms(1) _ acc assms(3)]) simp
  moreover have "br_ia (br_init ?bs) = ?bs @ []" by (simp add: br_init_def)
  ultimately obtain r where r: "parse_msgpack_internal (Suc (length ?bs)) dom_sax (br_init ?bs) ?d = Inr (True, r, ?e)"
      "br_ia r = []"
    unfolding consumes_def by blast
  obtain r' where "strict_binary_end Format_msgpack True dom_sax r ?e = Inr (True, r', ?e)"
    using strict_end_at_end [OF _ r(2), of Format_msgpack dom_sax ?e] by blast
  then show ?thesis
    using r(1) by (simp add: from_msgpack_def from_msgpack_with_def msgpack_sax_parse_def to_msgpack_def br_init_def
        del: parse_msgpack_internal.simps)
qed

lemma write_unpacked: "write_msgpack (unpacked v) = write_msgpack v"
proof (induction v)
  case (JObject m)
  have "map ((\<lambda>p. write_msgpack_string (fst p) @ write_msgpack (snd p)) \<circ> (\<lambda>p. (fst p, unpacked (snd p)))) m
      = map (\<lambda>p. write_msgpack_string (fst p) @ write_msgpack (snd p)) m"
    using JObject by (auto simp: snds.simps)
  then show ?case by (simp only: write_msgpack.simps unpacked.simps length_map map_map)
next
  case (JArray xs)
  then have "map (write_msgpack \<circ> unpacked) xs = map write_msgpack xs" by simp
  then show ?case by (simp only: write_msgpack.simps unpacked.simps length_map map_map)
qed (auto simp: write_msgpack_integer_def)

section \<open>Reading arbitrary input\<close>

abbreviation packed :: "json \<Rightarrow> bool" where
  "packed v \<equiv> packable v \<and> json_inv v"

interpretation msgpack: input_values packed "\<lambda>s. length s < 2 ^ 32" "\<lambda>n. n < 2 ^ 32"
  by unfold_locales auto

text \<open>A string arrives with its length, which fits into four bytes.\<close>

lemma msgpack_format: "Format_msgpack \<noteq> Format_json" "Format_msgpack \<noteq> Format_bjdata"
  by simp_all

lemmas msgpack_number = number_then_outcome [OF _ msgpack_format]

lemma sized_string_outcome:
  assumes "dom_allow_exceptions d" "unat n < 2 ^ 32"
    "\<And>s r'. length s < 2 ^ 32 \<Longrightarrow> shorter r' r \<Longrightarrow> reading_outcome P (f s r' d)"
  shows "reading_outcome P (get_chars (unat n) Format_msgpack context dom_sax f [] r d)"
  using chars_outcome [OF assms(1) msgpack_format(1), of "unat n" r P f "[]"] assms(2,3) by simp

lemma msgpack_string_keys: "reads_keys (\<lambda>s. length s < 2 ^ 32) (get_msgpack_string dom_sax)"
proof (rule reads_keysI)
  fix P :: "binary_reader \<Rightarrow> dom_parser \<Rightarrow> bool" and f :: "string \<Rightarrow> binary_reader \<Rightarrow> dom_parser \<Rightarrow> dom_parser reading"
    and r :: binary_reader and d :: dom_parser
  assume d: "dom_allow_exceptions d" and c: "br_current r < 256"
    and f: "\<And>s r'. length s < 2 ^ 32 \<Longrightarrow> shorter r' r \<Longrightarrow> reading_outcome P (f s r' d)"
  have str: "reading_outcome P (binary_get_string Format_msgpack n dom_sax f r' d)"
    if "unat n < 2 ^ 32" "shorter r' r" for n r'
    unfolding binary_get_string_def
    by (rule sized_string_outcome [OF d that(1)]) (rule f, assumption, erule shorter_trans [OF _ that(2)])
  have num: "reading_outcome P (get_number k Format_msgpack dom_sax (\<lambda>n. binary_get_string Format_msgpack n dom_sax f) r d)"
    if "k \<le> 4" for k
    by (rule msgpack_number [OF d that]) (rule str)
  obtain e where e: "br_error Format_msgpack 113 (binary_token_string r)
      (''expected length specification (0xA0-0xBF, 0xD9-0xDB); last byte: 0x'' @ binary_token_string r)
      ''string'' dom_sax r d = Inl e" "binary_error e"
    using dom_error [OF d msgpack_format(1)] by metis
  show "reading_outcome P (get_msgpack_string dom_sax f r d)"
    unfolding get_msgpack_string_def
    by (rule outcome_and [OF unexpect_eof_outcome [OF d msgpack_format(1), of r "\<lambda>r' d'. r' = r \<and> d' = d"]])
      (simp, elim conjE, hypsubst, simp only: Let_def e br_and_simps reading_outcome_simps split: if_split,
        use c in \<open>auto simp: str num low_count [simplified]\<close>)
qed

lemma binary_outcome:
  assumes "dom_allow_exceptions d" "binary_head (br_current r)"
    "\<And>s k r'. length s < 2 ^ 32 \<Longrightarrow> (case k of Some w \<Rightarrow> w < 256 | None \<Rightarrow> True) \<Longrightarrow> shorter r' r \<Longrightarrow>
       reading_outcome P (f s k r' d)"
  shows "reading_outcome P (get_msgpack_binary dom_sax f r d)"
proof -
  have bin: "reading_outcome P (binary_get_binary Format_msgpack n dom_sax (\<lambda>s. f s k) r' d)"
    if "unat n < 2 ^ 32" "shorter r' r" "case k of Some w \<Rightarrow> w < 256 | None \<Rightarrow> True" for n r' k
    unfolding binary_get_binary_def
    by (rule sized_string_outcome [OF assms(1) that(1)])
      (rule assms(3), assumption, rule that(3), erule shorter_trans [OF _ that(2)])
  have low: "n AND 0xFF < (256 :: u64)" for n
    using word_and_le1 [of n "0xFF"] by (simp add: word_less_nat_alt word_le_nat_alt)
  have ext: "reading_outcome P (get_msgpack_ext n dom_sax f r' d)" if "unat n < 2 ^ 32" "shorter r' r" for n r'
    unfolding get_msgpack_ext_def
    by (rule msgpack_number [OF assms(1)], simp, rule bin [OF that(1)])
      (erule shorter_trans [OF _ that(2)], simp add: low)
  have num: "reading_outcome P (get_number k Format_msgpack dom_sax (\<lambda>n. binary_get_binary Format_msgpack n dom_sax (\<lambda>s. f s None)) r d)"
      "reading_outcome P (get_number k Format_msgpack dom_sax (\<lambda>n. get_msgpack_ext n dom_sax f) r d)"
    if "k \<le> 4" for k
    by (rule msgpack_number [OF assms(1) that], rule bin; simp)
      (rule msgpack_number [OF assms(1) that], rule ext)
  show ?thesis
    using assms(2) by (auto simp: get_msgpack_binary_def Let_def num ext)
qed

text \<open>Containers of MessagePack: the number of elements is known.\<close>

lemma msgpack_array_outcome:
  assumes p: "reads_values packed k p" and s: "slot d q put" "dom_allow_exceptions d" "length (br_ia r) < k"
    and r: "shorter r0 r" and n: "unat n < 2 ^ 32"
  shows "fills packed r d put (get_msgpack_array p dom_sax n r0 d)"
  unfolding get_msgpack_array_def
proof (rule msgpack.array_outcome [OF s(1,2) r, of "\<lambda>l. l = unat n"], goal_cases)
  case (2 r1 d1)
  have "length (br_ia r1) < k" using 2(3) s(3) by (simp add: shorter_def)
  then show ?case by (rule msgpack.elements_outcome [OF p 2(1,2)])
qed (use n in simp)

lemma msgpack_object_outcome:
  assumes p: "reads_values packed k p" and s: "slot d q put" "dom_allow_exceptions d" "length (br_ia r) < k"
    and r: "shorter r0 r" and n: "unat n < 2 ^ 32"
  shows "fills packed r d put (get_msgpack_object p dom_sax n r0 d)"
  unfolding get_msgpack_object_def
proof (rule msgpack.object_outcome [OF s(1,2) r, of "\<lambda>l. l \<le> 0 + unat n"], goal_cases)
  case (2 r1 d1)
  have "length (br_ia r1) < k" using 2(3) s(3) by (simp add: shorter_def)
  from msgpack.members_outcome [OF msgpack_string_keys p 2(1,2) this, of "unat n"] show ?case by simp
qed (use n in simp)

lemma switch_outcome:
  assumes p: "reads_values packed k p" and s: "slot d q put" "dom_allow_exceptions d" "length (br_ia r) < k"
    and c: "- 1 \<le> br_current r" "br_current r < 256"
  shows "fills packed r d put (msgpack_switch p dom_sax r d)"
proof -
  have scalar: "fills packed r d put (br_sax ev r d)" if "packed v" "ev d = dom_value v d" for ev v
    by (rule value_fills [OF s(1), of packed v]) (simp_all add: that)
  have str: "fills packed r d put (get_msgpack_string dom_sax (\<lambda>s. br_sax (sax_string dom_sax s)) r d)"
    by (rule reads_keysD [OF msgpack_string_keys s(2) c], rule value_fills [OF s(1), of packed "JString _"])
      (simp_all add: dom_sax_def)
  have bin: "fills packed r d put (get_msgpack_binary dom_sax (\<lambda>b subtype. br_sax (sax_binary dom_sax b subtype)) r d)"
    if "binary_head (br_current r)"
    by (rule binary_outcome [OF s(2) that], rule value_fills [OF s(1), of packed "JBinary _ _"]) (simp_all add: dom_sax_def)
  have array: "fills packed r d put (get_number j Format_msgpack dom_sax (get_msgpack_array p dom_sax) r d)" if "j \<le> 4" for j
    by (rule msgpack_number [OF s(2) that], rule msgpack_array_outcome [OF p s])
  have object: "fills packed r d put (get_number j Format_msgpack dom_sax (get_msgpack_object p dom_sax) r d)" if "j \<le> 4" for j
    by (rule msgpack_number [OF s(2) that], rule msgpack_object_outcome [OF p s])
  have fixed: "fills packed r d put (get_msgpack_array p dom_sax (word_of_int (br_current r AND 0xF)) r d)"
      "fills packed r d put (get_msgpack_object p dom_sax (word_of_int (br_current r AND 0xF)) r d)" if "br_current r \<noteq> eof"
    using that c by (auto intro!: msgpack_array_outcome [OF p s] msgpack_object_outcome [OF p s] low_count)
  note number = scalar_number_outcome [OF s(1,2) msgpack_format, where good = packed]
  have float: "fills packed r d put (get_number j Format_msgpack dom_sax (\<lambda>n. br_sax (sax_number_float dom_sax (g n) [])) r d)" for j g
    by (rule number [of "\<lambda>n. JNumber_float (g n)"]) (simp_all add: dom_sax_def)
  have unsigned: "fills packed r d put (get_number j Format_msgpack dom_sax (\<lambda>n. br_sax (sax_number_unsigned dom_sax n)) r d)" for j
    by (rule number [of JNumber_unsigned]) (simp_all add: dom_sax_def)
  have signed: "fills packed r d put (get_number j Format_msgpack dom_sax (\<lambda>n. br_sax (sax_number_integer dom_sax (g n))) r d)" for j g
    by (rule number [of "\<lambda>n. JNumber_integer (g n)"]) (simp_all add: dom_sax_def)
  have fixint: "fills packed r d put (br_sax (sax_number_unsigned dom_sax n) r d)"
      "fills packed r d put (br_sax (sax_number_integer dom_sax n) r d)" for n
    by (rule scalar [of "JNumber_unsigned n"]; simp add: dom_sax_def)
      (rule scalar [of "JNumber_integer n"]; simp add: dom_sax_def)
  have constants: "fills packed r d put (br_sax (sax_null dom_sax) r d)" "fills packed r d put (br_sax (sax_boolean dom_sax b) r d)" for b
    by (rule scalar [of JNull]; simp add: dom_sax_def) (rule scalar [of "JBoolean b"]; simp add: dom_sax_def)
  have eof: "fills packed r d put (unexpect_eof Format_msgpack context dom_sax r d)" if "br_current r = eof" for "context"
    by (rule unexpect_eof_outcome [OF s(2) msgpack_format(1)]) (use that in simp)
  have error: "fills packed r d put (br_error Format_msgpack 112 t detail context dom_sax r d)" for t detail "context"
    by (rule error_outcome [OF s(2) msgpack_format(1)]) simp
  show ?thesis
    unfolding msgpack_switch_def Let_def
    by (rule outcome_if | rule eof, assumption | rule fixint fixed str constants float unsigned signed error, assumption?
      | rule bin, assumption | rule array object, simp)+
qed

lemma reads_values_fuel: "reads_values packed k (parse_msgpack_internal k dom_sax)"
proof (induction k)
  case 0
  then show ?case by (simp add: reads_values_def)
next
  case (Suc k)
  show ?case
  proof (rule reads_valuesI)
    fix r :: binary_reader and d q put assume s: "slot d q put" "dom_allow_exceptions d" "length (br_ia r) < Suc k"
    show "fills packed r d put (parse_msgpack_internal (Suc k) dom_sax r d)"
    proof (cases "br_current (br_get r) = eof")
      case True
      then show ?thesis
        using unexpect_eof_outcome [OF s(2) msgpack_format(1), of "br_get r" "\<lambda>r' d'. shorter r' r \<and> filled packed d put d'"]
        by (simp add: msgpack_switch_def)
    next
      case False
      have "length (br_ia (br_get r)) < k" using br_get_length(2) [OF False] s(3) by simp
      from switch_outcome [OF Suc.IH s(1,2) this current_range]
      show ?thesis unfolding parse_msgpack_internal.simps by (rule fills_mono) (rule shorter_get)
    qed
  qed
qed

theorem from_msgpack_outcome:
  "case from_msgpack n bs of Inl e \<Rightarrow> binary_error e | Inr v \<Rightarrow> packable v \<and> json_inv v"
proof -
  have "reading_outcome (\<lambda>r d. packed (dom_root d)) (msgpack_sax_parse True dom_sax (br_init bs) (dom_init n True JNull))"
    unfolding msgpack_sax_parse_def
    by (rule document_outcome [OF reads_values_fuel [of "Suc (length (br_ia (br_init bs)))"]]) simp_all
  then show ?thesis
    by (auto simp: from_msgpack_def from_msgpack_with_def reading_outcome_def split: sum.splits)
qed

end
