(* ===== verification/JsonPatch.thy ===== *)
theory JsonPatch
  imports JsonPointer Serializer
begin

text \<open>
  JSON Patch (RFC 6902) and JSON Merge Patch (RFC 7396) of \<open>common/json.hpp\<close>:
  \<open>patch_inplace\<close> with its operations, \<open>patch\<close>, \<open>diff\<close> and \<open>merge_patch\<close>. An operation
  returns its outcome with the value as it left it, since \<open>patch_inplace\<close> keeps what it changed
  before it failed. Where C++ leaves open which operand of a comparison is evaluated first, the
  left one is here.
\<close>

section \<open>Operations\<close>

definition json_push_back :: "json \<Rightarrow> json \<Rightarrow> json res" where
  "json_push_back val j = (case j of
     JNull \<Rightarrow> Inr (JArray [val])
   | JArray xs \<Rightarrow> Inr (JArray (xs @ [val]))
   | _ \<Rightarrow> Inl (type_error_create 308 (''cannot use push_back() with '' @ type_name j)))"

definition insert_at :: "nat \<Rightarrow> 'a \<Rightarrow> 'a list \<Rightarrow> 'a list" where
  "insert_at i x xs = take i xs @ x # drop i xs"

definition remove_at :: "nat \<Rightarrow> 'a list \<Rightarrow> 'a list" where
  "remove_at i xs = take i xs @ drop (Suc i) xs"

text \<open>\<open>erase(idx)\<close>\<close>

definition json_erase_index :: "nat \<Rightarrow> json \<Rightarrow> json res" where
  "json_erase_index i j = (case j of
     JArray xs \<Rightarrow> if length xs \<le> i then Inl (index_out_of_range i) else Inr (JArray (remove_at i xs))
   | _ \<Rightarrow> Inl (type_error_create 307 (''cannot use erase() with '' @ type_name j)))"

text \<open>What an operation does to the parent of its target.\<close>

definition add_child :: "string \<Rightarrow> json \<Rightarrow> json \<Rightarrow> json res" where
  "add_child last_path val parent = (case parent of
     JNull \<Rightarrow> json_index_set parent last_path val
   | JObject _ \<Rightarrow> json_index_set parent last_path val
   | JArray xs \<Rightarrow>
       (if last_path = ''-'' then json_push_back val parent
        else rbind (array_index last_path) (\<lambda>idx.
          if length xs < idx then Inl (index_out_of_range idx) else Inr (JArray (insert_at idx val xs))))
   | _ \<Rightarrow> Inl (Undefined_behaviour ''assertion failed in patch_inplace''))"

definition remove_child :: "string \<Rightarrow> json \<Rightarrow> json res" where
  "remove_child last_path parent = (case parent of
     JObject m \<Rightarrow>
       (case map_of m last_path of
          Some _ \<Rightarrow> Inr (JObject (smap_erase last_path m))
        | None \<Rightarrow> Inl (key_not_found last_path))
   | JArray _ \<Rightarrow> rbind (array_index last_path) (\<lambda>i. json_erase_index i parent)
   | _ \<Rightarrow> Inr parent)"

text \<open>A reference is changed: the outcome and the document.\<close>

definition change_ref :: "json_pointer \<Rightarrow> (json \<Rightarrow> json res) \<Rightarrow> json \<Rightarrow> unit res \<times> json" where
  "change_ref ptr f result = (case rbind (get_checked ptr result) (\<lambda>(p, v). rbind (f v) (\<lambda>w. Inr (p, w))) of
     Inl e \<Rightarrow> (Inl e, result)
   | Inr (p, w) \<Rightarrow> (Inr (), json_update p (\<lambda>_. w) result))"

definition operation_add :: "json_pointer \<Rightarrow> json \<Rightarrow> json \<Rightarrow> unit res \<times> json" where
  "operation_add ptr val result =
     (if ptr = [] then (Inr (), val)
      else case rbind (pointer_top ptr) (\<lambda>top_pointer.
          if top_pointer \<noteq> ptr then get_checked top_pointer result else Inr ([], result)) of
        Inl e \<Rightarrow> (Inl e, result)
      | Inr _ \<Rightarrow> change_ref (butlast ptr) (add_child (last ptr) val) result)"

definition operation_remove :: "json_pointer \<Rightarrow> json \<Rightarrow> unit res \<times> json" where
  "operation_remove ptr result = (case pointer_back ptr of
     Inl e \<Rightarrow> (Inl e, result)
   | Inr last_path \<Rightarrow> change_ref (butlast ptr) (remove_child last_path) result)"

section \<open>Patches\<close>

datatype patch_op = Op_add | Op_remove | Op_replace | Op_move | Op_copy | Op_test | Op_invalid

definition get_op :: "string \<Rightarrow> patch_op" where
  "get_op op =
     (if op = ''add'' then Op_add else if op = ''remove'' then Op_remove
      else if op = ''replace'' then Op_replace else if op = ''move'' then Op_move
      else if op = ''copy'' then Op_copy else if op = ''test'' then Op_test else Op_invalid)"

text \<open>\<open>get_value\<close>: a mandatory member of the operation object.\<close>

definition patch_member :: "(string \<times> json) list \<Rightarrow> string \<Rightarrow> string \<Rightarrow> bool \<Rightarrow> json res" where
  "patch_member val op member string_type =
     (let error_msg = (if op = ''op'' then ''operation'' else ''operation '' @ squoted op)
      in case map_of val member of
           None \<Rightarrow> Inl (parse_error_at 105 0 (error_msg @ '' must have member '' @ squoted member))
         | Some v \<Rightarrow>
             if string_type \<and> \<not> is_string v
             then Inl (parse_error_at 105 0 (error_msg @ '' must have string member '' @ squoted member))
             else Inr v)"

definition patch_string :: "(string \<times> json) list \<Rightarrow> string \<Rightarrow> string \<Rightarrow> string res" where
  "patch_string val op member = rbind (patch_member val op member True) get_string"

definition other_error_create :: "nat \<Rightarrow> string \<Rightarrow> exn" where
  "other_error_create i what_arg = Json_other_error (int i) (exception_name ''other_error'' i @ what_arg)"

definition is_out_of_range :: "exn \<Rightarrow> bool" where
  "is_out_of_range e = (case e of Json_out_of_range _ _ \<Rightarrow> True | _ \<Rightarrow> False)"

text \<open>\<open>test\<close>: an \<open>out_of_range\<close> counts as a failed test, other errors go through.\<close>

definition operation_test :: "(string \<times> json) list \<Rightarrow> json_pointer \<Rightarrow> json \<Rightarrow> unit res" where
  "operation_test val ptr result =
     (let success = (case rbind (get_checked ptr result) (\<lambda>(_, v).
            rbind (patch_member val ''test'' ''value'' False) (\<lambda>w. Inr (json_eq v w))) of
          Inl e \<Rightarrow> if is_out_of_range e then Inr False else Inl e
        | Inr b \<Rightarrow> Inr b)
      in rbind success (\<lambda>b.
        if b then Inr ()
        else rbind (json_dump (JObject val)) (\<lambda>t. Inl (other_error_create 501 (''unsuccessful: '' @ t)))))"

text \<open>An operation that reads its operands before it touches the document.\<close>

definition with_value :: "'a res \<Rightarrow> ('a \<Rightarrow> unit res \<times> json) \<Rightarrow> json \<Rightarrow> unit res \<times> json" where
  "with_value r f result = (case r of Inl e \<Rightarrow> (Inl e, result) | Inr v \<Rightarrow> f v)"

definition then_do :: "unit res \<times> json \<Rightarrow> (json \<Rightarrow> unit res \<times> json) \<Rightarrow> unit res \<times> json" where
  "then_do r f = (case fst r of Inl e \<Rightarrow> r | Inr _ \<Rightarrow> f (snd r))"

definition from_location :: "(string \<times> json) list \<Rightarrow> string \<Rightarrow> json \<Rightarrow> (json_pointer \<times> json) res" where
  "from_location val op result =
     rbind (patch_string val op ''from'') (\<lambda>from_path.
     rbind (pointer_split from_path) (\<lambda>from_ptr.
     rbind (get_checked from_ptr result) (\<lambda>(_, v). Inr (from_ptr, v))))"

definition patch_operation :: "json \<Rightarrow> json \<Rightarrow> unit res \<times> json" where
  "patch_operation val result = (case val of
     JObject ms \<Rightarrow>
       with_value
         (rbind (patch_string ms ''op'' ''op'') (\<lambda>op.
          rbind (patch_string ms op ''path'') (\<lambda>path.
          rbind (pointer_split path) (\<lambda>ptr. Inr (op, ptr)))))
         (\<lambda>(op, ptr). case get_op op of
            Op_add \<Rightarrow> with_value (patch_member ms ''add'' ''value'' False) (\<lambda>v. operation_add ptr v result) result
          | Op_remove \<Rightarrow> operation_remove ptr result
          | Op_replace \<Rightarrow>
              with_value (patch_member ms ''replace'' ''value'' False) (\<lambda>v. change_ref ptr (\<lambda>_. Inr v) result) result
          | Op_move \<Rightarrow>
              with_value (from_location ms ''move'' result)
                (\<lambda>(from_ptr, v). then_do (operation_remove from_ptr result) (operation_add ptr v)) result
          | Op_copy \<Rightarrow>
              with_value (from_location ms ''copy'' result) (\<lambda>(_, v). operation_add ptr v result) result
          | Op_test \<Rightarrow> (operation_test ms ptr result, result)
          | Op_invalid \<Rightarrow> (Inl (parse_error_at 105 0 (''operation value '' @ squoted op @ '' is invalid'')), result))
         result
   | _ \<Rightarrow> (Inl (parse_error_at 104 0 ''JSON patch must be an array of objects''), result))"

fun patch_operations :: "json list \<Rightarrow> json \<Rightarrow> unit res \<times> json" where
  "patch_operations [] result = (Inr (), result)"
| "patch_operations (val # vals) result = then_do (patch_operation val result) (patch_operations vals)"

definition patch_inplace :: "json \<Rightarrow> json \<Rightarrow> unit res \<times> json" where
  "patch_inplace json_patch result = (case json_patch of
     JArray vals \<Rightarrow> patch_operations vals result
   | _ \<Rightarrow> (Inl (parse_error_at 104 0 ''JSON patch must be an array of objects''), result))"

definition json_patch :: "json \<Rightarrow> json \<Rightarrow> json res" where
  "json_patch p j = (case patch_inplace p j of (Inl e, _) \<Rightarrow> Inl e | (Inr _, result) \<Rightarrow> Inr result)"

section \<open>Differences\<close>

definition replace_op :: "string \<Rightarrow> json \<Rightarrow> json" where
  "replace_op path target =
     json_init [JArray [JString ''op'', JString ''replace''], JArray [JString ''path'', JString path],
       JArray [JString ''value'', target]]"

definition remove_op :: "string \<Rightarrow> json" where
  "remove_op path = json_init [JArray [JString ''op'', JString ''remove''], JArray [JString ''path'', JString path]]"

definition add_op :: "string \<Rightarrow> json \<Rightarrow> json" where
  "add_op path target =
     json_init [JArray [JString ''op'', JString ''add''], JArray [JString ''path'', JString path],
       JArray [JString ''value'', target]]"

fun json_diff :: "json \<Rightarrow> json \<Rightarrow> string \<Rightarrow> json list"
  and diff_elements :: "json list \<Rightarrow> json list \<Rightarrow> nat \<Rightarrow> string \<Rightarrow> json list"
  and diff_members :: "(string \<times> json) list \<Rightarrow> (string \<times> json) list \<Rightarrow> string \<Rightarrow> json list"
where
  "json_diff (JArray xs) target path =
     (if json_eq (JArray xs) target then []
      else case target of
        JArray ys \<Rightarrow>
          diff_elements xs ys 0 path
          @ rev (map (\<lambda>i. remove_op (path @ ''/'' @ show_nat i)) [length ys..<length xs])
          @ map (add_op (path @ ''/-'')) (drop (length xs) ys)
      | _ \<Rightarrow> [replace_op path target])"
| "json_diff (JObject m) target path =
     (if json_eq (JObject m) target then []
      else case target of
        JObject n \<Rightarrow>
          diff_members m n path
          @ map (\<lambda>p. add_op (path @ ''/'' @ escape_token (fst p)) (snd p)) (filter (\<lambda>p. map_of m (fst p) = None) n)
      | _ \<Rightarrow> [replace_op path target])"
| "json_diff source target path = (if json_eq source target then [] else [replace_op path target])"
| "diff_elements [] ys i path = []"
| "diff_elements (x # xs) ys i path = (case ys of
     [] \<Rightarrow> []
   | y # ys \<Rightarrow> json_diff x y (path @ ''/'' @ show_nat i) @ diff_elements xs ys (i + 1) path)"
| "diff_members [] n path = []"
| "diff_members (p # m) n path =
     (let path_key = path @ ''/'' @ escape_token (fst p)
      in (case map_of n (fst p) of
            Some w \<Rightarrow> json_diff (snd p) w path_key
          | None \<Rightarrow> [remove_op path_key])
         @ diff_members m n path)"

section \<open>Merging\<close>

fun merge_patch :: "json \<Rightarrow> json \<Rightarrow> json"
  and merge_members :: "(string \<times> json) list \<Rightarrow> (string \<times> json) list \<Rightarrow> (string \<times> json) list"
where
  "merge_patch j (JObject ps) = JObject (merge_members (case j of JObject m \<Rightarrow> m | _ \<Rightarrow> []) ps)"
| "merge_patch j apply_patch = apply_patch"
| "merge_members m [] = m"
| "merge_members m (p # ps) =
     (if is_null (snd p) then merge_members (smap_erase (fst p) m) ps
      else let m' = smap_emplace (fst p) JNull m
        in merge_members (smap_set (fst p) (merge_patch (the (map_of m' (fst p))) (snd p)) m') ps)"

end
