(* ===== verification/Pointing.thy ===== *)
theory Pointing
  imports JsonPointer
begin

text \<open>
  Facts about JSON pointers: escaping and unescaping are inverse, a pointer and its text determine
  each other, an array index is the decimal numeral of a number below the largest \<open>size_t\<close>, and a
  checked reference reads and writes the place its tokens name, in the part of the document another
  reference leads to.
\<close>

section \<open>Escaping\<close>

definition escape_byte :: "char \<Rightarrow> string" where
  "escape_byte c = (if c = CHR ''~'' then ''~0'' else if c = CHR ''/'' then ''~1'' else [c])"

lemma replace_Nil [simp]: "replace_substring [] f t = []"
  by (simp add: replace_substring.simps)

lemma replace_one [simp]:
  "replace_substring (c # s) [a] t = (if c = a then t else [c]) @ replace_substring s [a] t"
  by (subst replace_substring.simps) simp

lemma replace_two:
  "replace_substring (c # s) [a, b] t =
     (if c = a \<and> s \<noteq> [] \<and> hd s = b then t @ replace_substring (tl s) [a, b] t else c # replace_substring s [a, b] t)"
  by (subst replace_substring.simps) (cases s; auto)

lemma escape_token_eq: "escape_token s = concat (map escape_byte s)"
  by (induction s) (auto simp: escape_token_def escape_byte_def)

lemma replace_tilde_one:
  "replace_substring (concat (map escape_byte s)) ''~1'' ''/'' =
     concat (map (\<lambda>c. if c = CHR ''~'' then ''~0'' else [c]) s)"
  by (induction s) (auto simp: escape_byte_def replace_two)

lemma replace_tilde_zero:
  "replace_substring (concat (map (\<lambda>c. if c = CHR ''~'' then ''~0'' else [c]) s)) ''~0'' ''~'' = s"
  by (induction s) (auto simp: replace_two)

lemma unescape_escape [simp]: "unescape_token (escape_token s) = s"
  by (simp add: unescape_token_def escape_token_eq replace_tilde_one replace_tilde_zero)

lemma well_escaped_escape [simp]: "well_escaped (escape_token s)"
  by (induction s) (auto simp: escape_token_eq escape_byte_def)

lemma no_slash_escape [simp]: "CHR ''/'' \<notin> set (escape_token s)"
  by (auto simp: escape_token_eq escape_byte_def split: if_splits)

lemma well_escaped_is_escape:
  "well_escaped s \<Longrightarrow> CHR ''/'' \<notin> set s \<Longrightarrow> \<exists>u. s = escape_token u"
proof (induction s rule: length_induct)
  case (1 s)
  show ?case
  proof (cases s)
    case Nil
    then show ?thesis by (intro exI [of _ "[]"]) (simp add: escape_token_eq)
  next
    case (Cons c s')
    show ?thesis
    proof (cases "c = CHR ''~''")
      case True
      then obtain d s'' where d: "s' = d # s''" "d = CHR ''0'' \<or> d = CHR ''1''" "well_escaped s''"
        using 1(2) Cons by (cases s') (auto split: if_splits)
      have "length s'' < length s" "CHR ''/'' \<notin> set s''" using Cons d(1) 1(3) by simp_all
      then obtain u where u: "s'' = escape_token u" using 1(1) d(3) by blast
      then have "s = escape_token ((if d = CHR ''0'' then CHR ''~'' else CHR ''/'') # u)"
        using True Cons d(1,2) by (auto simp: escape_token_eq escape_byte_def)
      then show ?thesis by blast
    next
      case False
      then have "length s' < length s" "CHR ''/'' \<notin> set s'" "well_escaped s'" using Cons 1(2,3) by simp_all
      then obtain u where "s' = escape_token u" using 1(1) by blast
      moreover have "c \<noteq> CHR ''/''" using Cons 1(3) by auto
      ultimately have "s = escape_token (c # u)" using False Cons by (simp add: escape_token_eq escape_byte_def)
      then show ?thesis by blast
    qed
  qed
qed

section \<open>The text of a pointer\<close>

lemma pointer_to_string_eq: "pointer_to_string ts = concat (map (\<lambda>t. ''/'' @ escape_token t) ts)"
proof -
  have "foldl (\<lambda>a b. a @ ''/'' @ escape_token b) s ts = s @ concat (map (\<lambda>t. ''/'' @ escape_token t) ts)" for s
    by (induction ts arbitrary: s) simp_all
  then show ?thesis by (simp add: pointer_to_string_def)
qed

lemma pointer_to_string_simps [simp]:
  "pointer_to_string [] = []"
  "pointer_to_string (t # ts) = ''/'' @ escape_token t @ pointer_to_string ts"
  "pointer_to_string (ts @ us) = pointer_to_string ts @ pointer_to_string us"
  by (simp_all add: pointer_to_string_eq)

lemma takeWhile_no_slash:
  "CHR ''/'' \<notin> set s \<Longrightarrow> takeWhile (\<lambda>c. c \<noteq> CHR ''/'') (s @ rest) = s @ takeWhile (\<lambda>c. c \<noteq> CHR ''/'') rest"
  "CHR ''/'' \<notin> set s \<Longrightarrow> dropWhile (\<lambda>c. c \<noteq> CHR ''/'') (s @ rest) = dropWhile (\<lambda>c. c \<noteq> CHR ''/'') rest"
  by (induction s) auto

lemma split_tokens_text: "split_tokens (escape_token t @ pointer_to_string ts) = Inr (t # ts)"
proof (induction ts arbitrary: t)
  case Nil
  then show ?case
    using takeWhile_no_slash [OF no_slash_escape, of t "[]"]
    by (subst split_tokens.simps) (simp add: Let_def del: takeWhile_eq_all_conv dropWhile_eq_Nil_conv)
next
  case (Cons u ts)
  then show ?case
    by (subst split_tokens.simps) (simp add: Let_def takeWhile_no_slash)
qed

lemma split_tokens_parse: "split_tokens s = Inr ts \<Longrightarrow> ''/'' @ s = pointer_to_string ts \<and> ts \<noteq> []"
proof (induction s arbitrary: ts rule: split_tokens.induct)
  case (1 s)
  let ?t = "takeWhile (\<lambda>c. c \<noteq> CHR ''/'') s" and ?r = "dropWhile (\<lambda>c. c \<noteq> CHR ''/'') s"
  have we: "well_escaped ?t" using 1(2) by (subst (asm) split_tokens.simps) (auto simp: Let_def split: if_splits)
  have "CHR ''/'' \<notin> set ?t" by (auto dest: set_takeWhileD)
  then obtain u where u: "?t = escape_token u" using well_escaped_is_escape [OF we] by blast
  define r where "r = ?r"
  have s: "escape_token u @ r = s" unfolding r_def u [symmetric] by (rule takeWhile_dropWhile_id)
  have eq: "split_tokens s = (if r = [] then Inr [u] else rbind (split_tokens (tl r)) (\<lambda>ts. Inr (u # ts)))"
    using we unfolding u by (subst split_tokens.simps) (simp add: Let_def u r_def del: dropWhile_eq_Nil_conv)
  show ?case
  proof (cases "r = []")
    case True
    then show ?thesis using 1(2) s unfolding eq by auto
  next
    case False
    then obtain us where us: "split_tokens (tl r) = Inr us" "ts = u # us"
      using 1(2) unfolding eq by (auto simp: rbind_eq_Inr)
    have "hd r = CHR ''/''" using hd_dropWhile [OF False [unfolded r_def]] by (simp add: r_def)
    then have "r = ''/'' @ tl r" using False by (cases r) auto
    moreover have "''/'' @ tl r = pointer_to_string us"
      using 1(1) [OF refl refl _ False [unfolded r_def], folded r_def, OF _ us(1)] we by simp
    ultimately have "escape_token u @ pointer_to_string us = s" using s by simp
    then show ?thesis using us(2) by auto
  qed
qed

theorem pointer_split_iff: "pointer_split s = Inr ts \<longleftrightarrow> s = pointer_to_string ts"
proof (cases ts)
  case Nil
  have "pointer_split s \<noteq> Inr []" if "s \<noteq> []"
    using that split_tokens_parse [of "tl s" "[]"] by (auto simp: pointer_split_def)
  then show ?thesis using Nil by (auto simp: pointer_split_def)
next
  case (Cons t us)
  show ?thesis
  proof
    assume "pointer_split s = Inr ts"
    then have "s \<noteq> []" "hd s = CHR ''/''" "split_tokens (tl s) = Inr ts"
      using Cons by (auto simp: pointer_split_def split: if_splits)
    then show "s = pointer_to_string ts" using split_tokens_parse [of "tl s" ts] by (cases s) auto
  next
    assume "s = pointer_to_string ts"
    then show "pointer_split s = Inr ts" using Cons split_tokens_text [of t us] by (simp add: pointer_split_def)
  qed
qed

section \<open>Array indices\<close>

lemma show_digits:
  assumes "list_all is_digit s" "s \<noteq> []" "hd s = CHR ''0'' \<Longrightarrow> length s = 1"
  shows "show_nat (digits_value s) = s"
  using assms
proof (induction s rule: rev_induct)
  case (snoc c s)
  have c: "digit_value c < 10" using snoc.prems(1) by (auto simp: is_digit_def digit_value_def)
  have "byte (digit_char (digit_value c)) = byte c"
    using c snoc.prems(1) by (simp add: is_digit_def digit_value_def)
  then have c': "digit_char (digit_value c) = c" by (simp only: byte_eq_iff)
  show ?case
  proof (cases "s = []")
    case True
    then show ?thesis using c c' by (simp add: digits_value_def)
  next
    case False
    then have IH: "show_nat (digits_value s) = s" and hd: "hd s \<noteq> CHR ''0''"
      using snoc by (auto simp: hd_append)
    then have "digits_value s \<noteq> 0" by (metis hd_show_nat)
    then have "10 \<le> digits_value s * 10 + digit_value c" by linarith
    then show ?thesis using c c' IH by (simp add: digits_value_snoc show_nat_ge10)
  qed
qed simp

lemma show_nat_shape_10: "1 < length (show_nat n) \<longleftrightarrow> 10 \<le> n"
  by (cases "n < 10") (auto simp: show_nat_ge10)

lemma byte_between_digits:
  "byte (CHR ''1'') \<le> byte c \<and> byte c \<le> byte (CHR ''9'') \<longleftrightarrow> is_digit c \<and> c \<noteq> CHR ''0''"
proof -
  have "byte (CHR ''0'') = 48" by simp
  then have "c \<noteq> CHR ''0'' \<longleftrightarrow> byte c \<noteq> 48" by (metis byte_eq_iff)
  then show ?thesis by (auto simp: is_digit_def)
qed

theorem array_index_iff: "array_index t = Inr i \<longleftrightarrow> t = show_nat i \<and> i < 2 ^ 64 - 1"
proof
  assume a: "array_index t = Inr i"
  define d where "d = takeWhile is_digit t"
  from a obtain res where res: "strtoull d = Some res" "d \<noteq> []" "length d = length t" "unat res = i" "i < 2 ^ 64 - 1"
    unfolding array_index_def Let_def d_def by (auto split: if_splits option.splits)
  have dt: "d = t" using res(3) unfolding d_def by (metis takeWhile_eq_take take_all le_refl)
  then have dig: "list_all is_digit t" unfolding d_def by (metis set_takeWhileD list_all_iff)
  have v: "digits_value t = i"
  proof -
    have "takeWhile is_digit d = t" using dt d_def by simp
    then have "digits_value t < 2 ^ 64" "res = word_of_nat (digits_value t)"
      using res(1) by (auto simp: strtoull_def Let_def split: if_splits)
    then show ?thesis using res(4) by (simp add: unat_of_nat)
  qed
  have "length t = 1" if "hd t = CHR ''0''"
    using a that res(2) dt unfolding array_index_def by (cases t) (auto split: if_splits)
  then show "t = show_nat i \<and> i < 2 ^ 64 - 1" using show_digits [OF dig] res(2,5) dt v by metis
next
  assume i: "t = show_nat i \<and> i < 2 ^ 64 - 1"
  have "hd t \<noteq> CHR ''0''" if "1 < length t" using that i show_nat_shape_10 [of i] by (auto simp: hd_show_nat)
  moreover have "is_digit (hd t)" using i show_nat_digits [of "hd t" i] by simp
  moreover have "strtoull (takeWhile is_digit t) = Some (word_of_nat i)" "unat (word_of_nat i :: u64) = i"
    using i by (simp_all add: strtoull_def unat_of_nat)
  ultimately show "array_index t = Inr i"
    using i byte_between_digits [of "hd t"] unfolding array_index_def Let_def by auto
qed

section \<open>References\<close>

lemma get_checked_lookup: "get_checked ts j = Inr (p, v) \<Longrightarrow> json_lookup p j = Some v"
  by (induction ts j arbitrary: p rule: get_checked.induct)
    (auto simp: rbind_eq_Inr split: json.splits option.splits if_splits)

lemma get_checked_append:
  "get_checked (ts @ us) j =
     rbind (get_checked ts j) (\<lambda>(p, v). rbind (get_checked us v) (\<lambda>(q, w). Inr (p @ q, w)))"
  by (induction ts j rule: get_checked.induct)
    (auto simp: rbind_def split: sum.splits json.splits option.splits)

lemma map_of_update: "map_of (map (\<lambda>(k', v). (k', if k' = k then f v else v)) m) k' =
    (if k' = k then map_option f (map_of m k) else map_of m k')"
  by (induction m) auto

lemma get_checked_update: "get_checked ts j = Inr (p, v) \<Longrightarrow> get_checked ts (json_update p (\<lambda>_. w) j) = Inr (p, w)"
  by (induction ts j arbitrary: p rule: get_checked.induct)
    (auto simp: rbind_def map_of_update split: sum.splits json.splits option.splits if_splits)

lemma json_update_twice: "json_update p f (json_update p g j) = json_update p (\<lambda>x. f (g x)) j"
  by (induction p g j rule: json_update.induct) auto

lemma path_update_append: "json_update (p @ q) f j = json_update p (json_update q f) j"
  by (induction p "json_update q f" j rule: json_update.induct) auto

lemma json_update_same: "json_inv j \<Longrightarrow> json_lookup p j = Some v \<Longrightarrow> json_update p (\<lambda>_. v) j = j"
proof (induction p j rule: json_lookup.induct)
  case (2 k p m)
  then obtain u where u: "map_of m k = Some u" "json_lookup p u = Some v" by (auto split: option.splits)
  then have "json_inv u" using 2(2) by (force dest: map_of_SomeD)
  then have "json_update p (\<lambda>_. v) u = u" using 2(1) u by simp
  moreover have "w = u" if "(k, w) \<in> set m" for w
    using that u(1) 2(2) by (simp add: smap_inv_distinct)
  ultimately show ?case by (auto intro!: map_idI)
qed (auto split: if_splits simp: all_set_conv_all_nth)

lemma json_inv_update: "json_inv j \<Longrightarrow> json_inv w \<Longrightarrow> json_inv (json_update p (\<lambda>_. w) j)"
proof (induction p "\<lambda>_::json. w" j rule: json_update.induct)
  case (2 k p m)
  have "map fst (map (\<lambda>(k', v). (k', if k' = k then json_update p (\<lambda>_. w) v else v)) m) = map fst m" by auto
  then have "smap_inv (map (\<lambda>(k', v). (k', if k' = k then json_update p (\<lambda>_. w) v else v)) m)"
    using 2(2) unfolding smap_inv_def json_inv.simps by argo
  then show ?case using 2 by auto
qed (auto dest: set_update_subset_insert [THEN subsetD])

lemma get_checked_top: "get_checked (t # ts) j = Inr r \<Longrightarrow> \<exists>r'. get_checked [t] j = Inr r'"
  by (auto simp: rbind_eq_Inr split: json.splits option.splits if_splits)

end
