(* ===== verification/Patching.thy ===== *)
theory Patching
  imports JsonPatch Pointing
begin

text \<open>
  What \<open>diff\<close> computes, \<open>patch\<close> applies: the patch between two values turns the first into a
  value equal to the second. A patch below a pointer only changes what the pointer refers to, so
  the proof follows the recursion of \<open>diff\<close>. Each operation of a patch is shown to do what RFC 6902
  says, at any place of any document, and a patch keeps objects ordered. Merging is shown to do what
  RFC 7396 says member by member.
\<close>

section \<open>The operations of a difference\<close>

lemma replace_op_eq:
  "replace_op path v = JObject [(''op'', JString ''replace''), (''path'', JString path), (''value'', v)]"
  by (simp add: replace_op_def json_init_def smap_emplace_def)

lemma remove_op_eq: "remove_op path = JObject [(''op'', JString ''remove''), (''path'', JString path)]"
  by (simp add: remove_op_def json_init_def smap_emplace_def)

lemma add_op_eq:
  "add_op path v = JObject [(''op'', JString ''add''), (''path'', JString path), (''value'', v)]"
  by (simp add: add_op_def json_init_def smap_emplace_def)

lemmas operation_simps = patch_operation_def with_value_def patch_string_def patch_member_def get_string_def get_op_def
  pointer_split_iff [of "pointer_to_string _", THEN iffD2, OF refl]

lemma patch_replace: "patch_operation (replace_op (pointer_to_string ts) v) doc = change_ref ts (\<lambda>_. Inr v) doc"
  by (simp add: replace_op_eq operation_simps)

lemma patch_remove: "patch_operation (remove_op (pointer_to_string ts)) doc = operation_remove ts doc"
  by (simp add: remove_op_eq operation_simps)

lemma patch_add: "patch_operation (add_op (pointer_to_string ts) v) doc = operation_add ts v doc"
  by (simp add: add_op_eq operation_simps)

lemma change_ref_place:
  "get_checked ts doc = Inr (p, s) \<Longrightarrow> f s = Inr w \<Longrightarrow> change_ref ts f doc = (Inr (), json_update p (\<lambda>_. w) doc)"
  by (simp add: change_ref_def)

lemma operation_add_place:
  assumes "get_checked ts doc = Inr (p, s)" "add_child k v s = Inr w"
  shows "operation_add (ts @ [k]) v doc = (Inr (), json_update p (\<lambda>_. w) doc)"
proof (cases ts)
  case Nil
  then show ?thesis using assms by (simp add: operation_add_def pointer_top_def change_ref_place)
next
  case (Cons t us)
  then obtain r where "get_checked [t] doc = Inr r" using get_checked_top assms(1) by blast
  then show ?thesis using Cons assms by (simp add: operation_add_def pointer_top_def change_ref_place del: get_checked.simps)
qed

lemma operation_remove_place:
  "get_checked ts doc = Inr (p, s) \<Longrightarrow> remove_child k s = Inr w \<Longrightarrow>
     operation_remove (ts @ [k]) doc = (Inr (), json_update p (\<lambda>_. w) doc)"
  by (simp add: operation_remove_def pointer_back_def change_ref_place)

section \<open>Patches below a pointer\<close>

definition turns :: "json list \<Rightarrow> json_pointer \<Rightarrow> json \<Rightarrow> json \<Rightarrow> bool" where
  "turns ops ts s r \<longleftrightarrow> (\<forall>doc p. json_inv doc \<and> get_checked ts doc = Inr (p, s) \<longrightarrow>
     patch_operations ops doc = (Inr (), json_update p (\<lambda>_. r) doc))"

lemma turns_Nil [simp]: "turns [] ts s s"
  by (auto simp: turns_def json_update_same get_checked_lookup)

lemma patch_operations_append:
  "patch_operations (as @ bs) doc = then_do (patch_operations as doc) (patch_operations bs)"
  by (induction as arbitrary: doc) (auto simp: then_do_def split: sum.splits)

lemma turns_append:
  assumes "turns as ts s r" "json_inv r" "turns bs ts r u"
  shows "turns (as @ bs) ts s u"
  unfolding turns_def
proof safe
  fix doc p
  assume doc: "json_inv doc" "get_checked ts doc = Inr (p, s)"
  let ?doc = "json_update p (\<lambda>_. r) doc"
  have "patch_operations as doc = (Inr (), ?doc)" using assms(1) doc by (auto simp: turns_def)
  moreover have "json_inv ?doc" "get_checked ts ?doc = Inr (p, r)"
    using json_inv_update [OF doc(1) assms(2)] get_checked_update [OF doc(2)] by auto
  then have "patch_operations bs ?doc = (Inr (), json_update p (\<lambda>_. u) ?doc)"
    using assms(3) unfolding turns_def by blast
  ultimately show "patch_operations (as @ bs) doc = (Inr (), json_update p (\<lambda>_. u) doc)"
    by (simp add: patch_operations_append then_do_def json_update_twice)
qed

lemma turns_replace: "turns [replace_op (pointer_to_string ts) t] ts s t"
  by (simp add: turns_def patch_replace change_ref_place then_do_def)

lemma turns_operation:
  "(\<And>doc p. get_checked ts doc = Inr (p, s) \<Longrightarrow> patch_operation a doc = (Inr (), json_update p (\<lambda>_. w) doc)) \<Longrightarrow>
     turns [a] ts s w"
  by (simp add: turns_def then_do_def)

lemma turns_add: "add_child k v s = Inr w \<Longrightarrow> turns [add_op (pointer_to_string ts @ ''/'' @ escape_token k) v] ts s w"
  using patch_add [of "ts @ [k]" v] operation_add_place by (auto intro!: turns_operation)

lemma turns_remove:
  "remove_child k s = Inr w \<Longrightarrow> turns [remove_op (pointer_to_string ts @ ''/'' @ escape_token k)] ts s w"
  using patch_remove [of "ts @ [k]"] operation_remove_place by (auto intro!: turns_operation)

lemma turns_below:
  assumes "get_checked us s = Inr (q, v)" "turns ops (ts @ us) v w"
  shows "turns ops ts s (json_update q (\<lambda>_. w) s)"
  unfolding turns_def
proof safe
  fix doc p
  assume doc: "json_inv doc" "get_checked ts doc = Inr (p, s)"
  then have "get_checked (ts @ us) doc = Inr (p @ q, v)" using assms(1) by (simp add: get_checked_append)
  then have "patch_operations ops doc = (Inr (), json_update (p @ q) (\<lambda>_. w) doc)"
    using assms(2) doc(1) by (auto simp: turns_def)
  moreover have "json_update (p @ q) (\<lambda>_. w) doc = json_update p (\<lambda>_. json_update q (\<lambda>_. w) s) doc"
    using json_update_twice [of p "json_update q (\<lambda>_. w)" "\<lambda>_. s" doc]
      json_update_same [OF doc(1) get_checked_lookup [OF doc(2)]] by (simp add: path_update_append)
  ultimately show "patch_operations ops doc = (Inr (), json_update p (\<lambda>_. json_update q (\<lambda>_. w) s) doc)" by simp
qed

lemma turns_member:
  assumes "smap_inv m" "map_of m k = Some v" "turns ops (ts @ [k]) v w"
  shows "turns ops ts (JObject m) (JObject (smap_set k w m))"
proof -
  have "smap_inv (map (\<lambda>(k', v). (k', if k' = k then w else v)) m)"
  proof -
    have "map fst (map (\<lambda>(k', v). (k', if k' = k then w else v)) m) = map fst m" by auto
    then show ?thesis using assms(1) unfolding smap_inv_def by argo
  qed
  then have "json_update [Key k] (\<lambda>_. w) (JObject m) = JObject (smap_set k w m)"
    using assms(1,2) by (auto intro!: smap_eqI simp: map_of_update map_of_smap_set cong: if_cong)
  then show ?thesis using turns_below [OF _ assms(3), of "JObject m" "[Key k]"] assms(2) by simp
qed

lemma show_nat_not_dash [simp]: "show_nat i \<noteq> ''-''"
  using show_nat_digits [of "CHR ''-''" i] by auto

lemma array_index_show [simp]: "i < 2 ^ 64 - 1 \<Longrightarrow> array_index (show_nat i) = Inr i"
  by (simp only: array_index_iff simp_thms)

lemma turns_element:
  assumes "i < length xs" "i < 2 ^ 64 - 1" "turns ops (ts @ [show_nat i]) (xs ! i) w"
  shows "turns ops ts (JArray xs) (JArray (xs[i := w]))"
  using turns_below [OF _ assms(3), of "JArray xs" "[Idx i]"] assms(1) array_index_show [OF assms(2)] by simp

lemma escape_show_nat [simp]: "escape_token (show_nat i) = show_nat i"
proof -
  have "escape_byte c = [c]" if "is_digit c" for c using that by (auto simp: escape_byte_def is_digit_def)
  then have "map escape_byte (show_nat i) = map (\<lambda>c. [c]) (show_nat i)" using show_nat_digits by (intro map_cong) auto
  then show ?thesis by (simp only: escape_token_eq concat_map_singleton map_ident)
qed

section \<open>The patch between two values\<close>

text \<open>Array indices have to be below the largest \<open>size_t\<close>.\<close>

fun fits_arrays :: "json \<Rightarrow> bool" where
  "fits_arrays (JArray xs) \<longleftrightarrow> length xs < 2 ^ 64 \<and> (\<forall>x \<in> set xs. fits_arrays x)"
| "fits_arrays (JObject m) \<longleftrightarrow> (\<forall>p \<in> set m. fits_arrays (snd p))"
| "fits_arrays _ \<longleftrightarrow> True"

lemma turns_truncate:
  assumes "length xs < 2 ^ 64" "json_inv (JArray xs)"
  shows "turns (rev (map (\<lambda>i. remove_op (pointer_to_string ts @ ''/'' @ show_nat i)) [n..<length xs])) ts
     (JArray xs) (JArray (take n xs))"
  using assms
proof (induction xs rule: rev_induct)
  case (snoc x xs)
  show ?case
  proof (cases "n \<le> length xs")
    case True
    have "remove_child (show_nat (length xs)) (JArray (xs @ [x])) = Inr (JArray xs)"
      using array_index_show [of "length xs"] snoc.prems(1) by (simp add: remove_child_def json_erase_index_def remove_at_def)
    from turns_remove [OF this]
    have "turns [remove_op (pointer_to_string ts @ ''/'' @ show_nat (length xs))] ts (JArray (xs @ [x])) (JArray xs)" by simp
    moreover have "turns (rev (map (\<lambda>i. remove_op (pointer_to_string ts @ ''/'' @ show_nat i)) [n..<length xs])) ts
        (JArray xs) (JArray (take n xs))" using snoc by simp
    ultimately have "turns ([remove_op (pointer_to_string ts @ ''/'' @ show_nat (length xs))]
        @ rev (map (\<lambda>i. remove_op (pointer_to_string ts @ ''/'' @ show_nat i)) [n..<length xs])) ts
        (JArray (xs @ [x])) (JArray (take n xs))"
      using snoc.prems(2) by (intro turns_append) auto
    then show ?thesis using True by simp
  qed simp
qed simp

lemma turns_push_back:
  assumes "json_inv (JArray xs)" "json_inv (JArray ys)"
  shows "turns (map (add_op (pointer_to_string ts @ ''/-'')) ys) ts (JArray xs) (JArray (xs @ ys))"
  using assms
proof (induction ys arbitrary: xs)
  case (Cons y ys)
  have "add_child ''-'' y (JArray xs) = Inr (JArray (xs @ [y]))" by (simp add: add_child_def json_push_back_def)
  from turns_add [OF this]
  have "turns [add_op (pointer_to_string ts @ ''/-'') y] ts (JArray xs) (JArray (xs @ [y]))"
    by (simp add: escape_token_eq escape_byte_def)
  moreover have "turns (map (add_op (pointer_to_string ts @ ''/-'')) ys) ts (JArray (xs @ [y])) (JArray ((xs @ [y]) @ ys))"
    using Cons by (intro Cons.IH) auto
  ultimately show ?case using Cons.prems turns_append [of "[_]"] by fastforce
qed simp

lemma json_inv_smap_set: "json_inv (JObject m) \<Longrightarrow> json_inv v \<Longrightarrow> json_inv (JObject (smap_set k v m))"
  using set_smap_set [of k v m] by auto

lemma json_inv_smap_erase: "json_inv (JObject m) \<Longrightarrow> json_inv (JObject (smap_erase k m))"
  using smap_inv_erase [of m k] by (auto simp: smap_erase_def)

lemma turns_new_members:
  assumes "json_inv (JObject cur)" "\<forall>q \<in> set n. json_inv (snd q)"
  shows "turns (map (\<lambda>p. add_op (pointer_to_string ts @ ''/'' @ escape_token (fst p)) (snd p)) n) ts
     (JObject cur) (JObject (fold (\<lambda>p. smap_set (fst p) (snd p)) n cur))"
  using assms
proof (induction n arbitrary: cur)
  case (Cons p n)
  have "add_child (fst p) (snd p) (JObject cur) = Inr (JObject (smap_set (fst p) (snd p) cur))"
    by (simp add: add_child_def json_index_set_def)
  note one = turns_add [OF this, of ts] and inv = json_inv_smap_set [OF Cons.prems(1), of "snd p" "fst p"]
  have "turns (map (\<lambda>p. add_op (pointer_to_string ts @ ''/'' @ escape_token (fst p)) (snd p)) n) ts
     (JObject (smap_set (fst p) (snd p) cur)) (JObject (fold (\<lambda>p. smap_set (fst p) (snd p)) n (smap_set (fst p) (snd p) cur)))"
    using Cons.prems inv by (intro Cons.IH) auto
  from turns_append [OF one _ this] show ?case using inv Cons.prems by simp
qed simp

lemma members_eqI:
  assumes "smap_inv m" "smap_inv n" "\<And>k. rel_option json_eq (map_of m k) (map_of n k)"
  shows "members_eq m n"
proof -
  have "map_of m k = None \<longleftrightarrow> map_of n k = None" for k using assms(3) [of k] by (auto simp: option.rel_sel)
  then have "fst ` set m = fst ` set n" by (simp add: map_of_eq_None_iff set_eq_iff)
  then have keys: "map fst m = map fst n"
    using assms(1,2) unfolding smap_inv_def by (intro strict_sorted_equal) simp_all
  show ?thesis unfolding members_eq_iff list_all2_conv_all_nth
  proof (intro conjI allI impI)
    show "length m = length n" using keys by (metis length_map)
    fix i assume i: "i < length m"
    then have k: "fst (m ! i) = fst (n ! i)" by (metis keys \<open>length m = length n\<close> nth_map)
    have "map_of m (fst (m ! i)) = Some (snd (m ! i))" "map_of n (fst (n ! i)) = Some (snd (n ! i))"
      using i \<open>length m = length n\<close> assms(1,2) by (simp_all add: smap_inv_distinct)
    then show "json_eq (snd (m ! i)) (snd (n ! i))" "fst (m ! i) = fst (n ! i)"
      using assms(3) [of "fst (m ! i)"] k by simp_all
  qed
qed

lemma map_of_fold_set:
  "json_inv (JObject cur) \<Longrightarrow> distinct (map fst n) \<Longrightarrow> (\<forall>q \<in> set n. json_inv (snd q)) \<Longrightarrow>
     json_inv (JObject (fold (\<lambda>p. smap_set (fst p) (snd p)) n cur))
     \<and> map_of (fold (\<lambda>p. smap_set (fst p) (snd p)) n cur) k = (case map_of n k of Some v \<Rightarrow> Some v | None \<Rightarrow> map_of cur k)"
proof (induction n arbitrary: cur)
  case (Cons p n)
  have "json_inv (JObject (smap_set (fst p) (snd p) cur))" using Cons.prems by (intro json_inv_smap_set) auto
  then have IH: "json_inv (JObject (fold (\<lambda>p. smap_set (fst p) (snd p)) n (smap_set (fst p) (snd p) cur)))"
      "map_of (fold (\<lambda>p. smap_set (fst p) (snd p)) n (smap_set (fst p) (snd p) cur)) k =
        (case map_of n k of Some v \<Rightarrow> Some v | None \<Rightarrow> map_of (smap_set (fst p) (snd p) cur) k)"
    using Cons.IH [of "smap_set (fst p) (snd p) cur"] Cons.prems by simp_all
  have "map_of n (fst p) = None" using Cons.prems(2) by (simp add: map_of_eq_None_iff)
  moreover have "map_of (smap_set (fst p) (snd p) cur) k = (if k = fst p then Some (snd p) else map_of cur k)"
    using Cons.prems(1) by (simp add: map_of_smap_set)
  moreover have "map_of (p # n) k = (if k = fst p then Some (snd p) else map_of n k)" by (cases p) simp
  ultimately show ?case using IH by (simp cong: option.case_cong split: if_splits)
qed simp

lemma map_of_filter_keys: "map_of (filter (\<lambda>p. Q (fst p)) n) k = (if Q k then map_of n k else None)"
  by (induction n) auto

lemma turns_whole:
  assumes "json_inv s" "json_inv t" "comparable t"
  shows "\<exists>r. turns (if json_eq s t then [] else [replace_op (pointer_to_string ts) t]) ts s r \<and> json_inv r \<and> json_eq r t"
proof (cases "json_eq s t")
  case True
  then show ?thesis using assms(1) by (intro exI [of _ s]) simp
next
  case False
  then show ?thesis using assms(2,3) turns_replace by (intro exI [of _ t]) (simp add: json_eq_refl)
qed

lemma turns_diff:
  "json_inv s \<Longrightarrow> json_inv t \<Longrightarrow> fits_arrays s \<Longrightarrow> comparable t \<Longrightarrow>
     \<exists>r. turns (json_diff s t (pointer_to_string ts)) ts s r \<and> json_inv r \<and> json_eq r t"
  "(\<forall>x \<in> set xs. json_inv x \<and> fits_arrays x) \<Longrightarrow> (\<forall>y \<in> set ys. json_inv y \<and> comparable y) \<Longrightarrow>
     length zs + length xs < 2 ^ 64 \<Longrightarrow> (\<forall>z \<in> set zs. json_inv z) \<Longrightarrow>
     \<exists>rs. turns (diff_elements xs ys (length zs) (pointer_to_string ts)) ts
         (JArray (zs @ xs)) (JArray (zs @ rs @ drop (length ys) xs))
       \<and> (\<forall>r \<in> set rs. json_inv r) \<and> list_all2 json_eq rs (take (length xs) ys)"
  "(\<forall>p \<in> set ms. json_inv (snd p) \<and> fits_arrays (snd p)) \<Longrightarrow> (\<forall>q \<in> set n. json_inv (snd q) \<and> comparable (snd q)) \<Longrightarrow>
     json_inv (JObject cur) \<Longrightarrow> distinct (map fst ms) \<Longrightarrow> (\<forall>p \<in> set ms. map_of cur (fst p) = Some (snd p)) \<Longrightarrow>
     \<exists>cur'. turns (diff_members ms n (pointer_to_string ts)) ts (JObject cur) (JObject cur') \<and> json_inv (JObject cur')
       \<and> (\<forall>k. k \<notin> fst ` set ms \<longrightarrow> map_of cur' k = map_of cur k)
       \<and> (\<forall>k \<in> fst ` set ms. rel_option json_eq (map_of cur' k) (map_of n k))"
proof (induction s t "pointer_to_string ts" and xs ys "length zs" "pointer_to_string ts" and ms n "pointer_to_string ts"
    arbitrary: ts and zs ts and cur ts rule: json_diff_diff_elements_diff_members.induct)
  case (1 xs target)
  show ?case
  proof (cases "json_eq (JArray xs) target \<or> (\<nexists>ys. target = JArray ys)")
    case True
    then have "json_diff (JArray xs) target (pointer_to_string ts) =
        (if json_eq (JArray xs) target then [] else [replace_op (pointer_to_string ts) target])"
      by (cases target) (auto simp del: json_eq.simps)
    then show ?thesis using turns_whole 1(2,3,5) by metis
  next
    case False
    then obtain ys where ys: "target = JArray ys" by blast
    note neq = False [unfolded ys, simplified]
    obtain rs where rs: "turns (diff_elements xs ys 0 (pointer_to_string ts)) ts (JArray xs) (JArray (rs @ drop (length ys) xs))"
        "\<forall>r \<in> set rs. json_inv r" "list_all2 json_eq rs (take (length xs) ys)"
      using 1(1) [OF _ ys, of "[]" ts] 1(2-) neq ys by auto
    let ?r = "JArray (rs @ drop (length xs) ys)"
    have len: "length rs = min (length ys) (length xs)" using list_all2_lengthD [OF rs(3)] by simp
    have inv: "json_inv (JArray (rs @ drop (length ys) xs))" "json_inv (JArray (drop (length xs) ys))"
      using rs(2) 1(2,3) ys by (auto dest: in_set_dropD)
    have eqs: "length (rs @ drop (length ys) xs) = length xs" using len by simp
    have "take (length ys) (rs @ drop (length ys) xs) = rs" using len by (cases "length ys \<le> length xs") simp_all
    then have "turns (rev (map (\<lambda>i. remove_op (pointer_to_string ts @ ''/'' @ show_nat i)) [length ys..<length xs])) ts
        (JArray (rs @ drop (length ys) xs)) (JArray rs)"
      using turns_truncate [of "rs @ drop (length ys) xs" ts "length ys"] inv(1) 1(4) unfolding eqs
      by (simp del: take_append json_inv.simps)
    moreover have "turns (map (add_op (pointer_to_string ts @ ''/-'')) (drop (length xs) ys)) ts (JArray rs) ?r"
      using inv rs(2) by (intro turns_push_back) auto
    ultimately have "turns (json_diff (JArray xs) target (pointer_to_string ts)) ts (JArray xs) ?r"
      using neq ys rs inv by (auto intro!: turns_append [OF rs(1)] turns_append)
    moreover have "json_inv ?r" using rs(2) inv(2) by auto
    moreover have "json_eq ?r target"
    proof -
      have "list_all2 json_eq (drop (length xs) ys) (drop (length xs) ys)"
        using 1(5) ys by (auto simp: list_all2_same json_eq_refl dest: in_set_dropD)
      from list_all2_appendI [OF rs(3) this] show ?thesis using ys by (simp add: elements_eq_iff)
    qed
    ultimately show ?thesis by blast
  qed
next
  case (2 m target)
  show ?case
  proof (cases "json_eq (JObject m) target \<or> (\<nexists>n. target = JObject n)")
    case True
    then have "json_diff (JObject m) target (pointer_to_string ts) =
        (if json_eq (JObject m) target then [] else [replace_op (pointer_to_string ts) target])"
      by (cases target) (auto simp del: json_eq.simps)
    then show ?thesis using turns_whole 2(2,3,5) by metis
  next
    case False
    then obtain n where n: "target = JObject n" by blast
    note neq = False [unfolded n, simplified]
    obtain cur where cur: "turns (diff_members m n (pointer_to_string ts)) ts (JObject m) (JObject cur)" "json_inv (JObject cur)"
        "\<forall>k. k \<notin> fst ` set m \<longrightarrow> map_of cur k = map_of m k" "\<forall>k \<in> fst ` set m. rel_option json_eq (map_of cur k) (map_of n k)"
      using 2(1) [OF _ n, of ts m] 2(2-) neq n by (auto simp: smap_inv_distinct)
    let ?new = "filter (\<lambda>p. map_of m (fst p) = None) n"
    let ?r = "fold (\<lambda>p. smap_set (fst p) (snd p)) ?new cur"
    have new: "\<forall>q \<in> set ?new. json_inv (snd q)" "distinct (map fst ?new)"
      using 2(3) n smap_inv_distinct [of n] by (auto intro: distinct_map_filter)
    note r = map_of_fold_set [OF cur(2) new(2,1)]
    have "turns (json_diff (JObject m) target (pointer_to_string ts)) ts (JObject m) (JObject ?r)"
      using neq n turns_append [OF cur(1,2) turns_new_members [OF cur(2) new(1)]] by auto
    moreover have "json_inv (JObject ?r)" using r by blast
    moreover have "members_eq ?r n"
    proof (rule members_eqI)
      show "smap_inv ?r" "smap_inv n" using r 2(3) n by simp_all
      fix k
      have "json_eq v v" if "map_of n k = Some v" for v
        using 2(5) n that map_of_SomeD [OF that] by (force simp: json_eq_refl)
      then have refl: "rel_option json_eq (map_of n k) (map_of n k)" by (cases "map_of n k") auto
      have rk: "map_of ?r k = (case if map_of m k = None then map_of n k else None of Some v \<Rightarrow> Some v | None \<Rightarrow> map_of cur k)"
        using r [of k] unfolding map_of_filter_keys [of "\<lambda>k. map_of m k = None"] by blast
      show "rel_option json_eq (map_of ?r k) (map_of n k)"
      proof (cases "map_of m k = None")
        case True
        then have "map_of cur k = None" using cur(3) by (metis map_of_eq_None_iff)
        then show ?thesis using True refl unfolding rk by (cases "map_of n k") simp_all
      next
        case False
        then have "k \<in> fst ` set m" by (metis map_of_eq_None_iff)
        then have "rel_option json_eq (map_of cur k) (map_of n k)" using cur(4) by blast
        then show ?thesis unfolding rk if_not_P [OF False] by simp
      qed
    qed
    ultimately show ?thesis using n by (intro exI [of _ "JObject ?r"]) simp
  qed
next
  case (5 x xs ys)
  show ?case
  proof (cases ys)
    case (Cons y ys')
    obtain r where r: "turns (json_diff x y (pointer_to_string ts @ ''/'' @ show_nat (length zs))) (ts @ [show_nat (length zs)]) x r"
        "json_inv r" "json_eq r y"
      using 5(1) [OF Cons, of "ts @ [show_nat (length zs)]"] 5(3-) Cons by auto
    obtain rs where rs: "turns (diff_elements xs ys' (length zs + 1) (pointer_to_string ts)) ts
         (JArray ((zs @ [r]) @ xs)) (JArray ((zs @ [r]) @ rs @ drop (length ys') xs))"
       "\<forall>r \<in> set rs. json_inv r" "list_all2 json_eq rs (take (length xs) ys')"
      using 5(2) [OF Cons, of "zs @ [r]" ts] 5(3-) Cons r(2) by auto
    have "turns (json_diff x y (pointer_to_string ts @ ''/'' @ show_nat (length zs))) ts
        (JArray (zs @ x # xs)) (JArray ((zs @ [r]) @ xs))"
      using turns_element [of "length zs" "zs @ x # xs" _ ts r] r(1) 5(5) by simp
    moreover have "json_inv (JArray ((zs @ [r]) @ xs))" using r(2) 5(3,6) by auto
    ultimately have "turns (diff_elements (x # xs) ys (length zs) (pointer_to_string ts)) ts
        (JArray (zs @ x # xs)) (JArray (zs @ (r # rs) @ drop (length ys) (x # xs)))"
      using turns_append [OF _ _ rs(1)] Cons by simp
    then show ?thesis using r rs Cons by (intro exI [of _ "r # rs"]) auto
  qed simp
next
  case (6 n)
  then show ?case by (intro exI [of _ cur]) simp
next
  case (7 p m n)
  obtain cur1 where cur1: "turns (case map_of n (fst p) of
        Some w \<Rightarrow> json_diff (snd p) w (pointer_to_string ts @ ''/'' @ escape_token (fst p))
      | None \<Rightarrow> [remove_op (pointer_to_string ts @ ''/'' @ escape_token (fst p))]) ts (JObject cur) (JObject cur1)"
    "json_inv (JObject cur1)" "rel_option json_eq (map_of cur1 (fst p)) (map_of n (fst p))"
    "\<forall>k. k \<noteq> fst p \<longrightarrow> map_of cur1 k = map_of cur k"
  proof (cases "map_of n (fst p)")
    case None
    let ?cur = "smap_erase (fst p) cur"
    have "remove_child (fst p) (JObject cur) = Inr (JObject ?cur)" using 7(7) by (simp add: remove_child_def)
    then show ?thesis
      using turns_remove that [of ?cur] None json_inv_smap_erase [OF 7(5)] by (simp add: map_of_smap_erase)
  next
    case (Some w)
    have w: "json_inv w" "comparable w" using 7(4) map_of_SomeD [OF Some] by auto
    obtain r where r: "turns (json_diff (snd p) w (pointer_to_string ts @ ''/'' @ escape_token (fst p))) (ts @ [fst p]) (snd p) r"
        "json_inv r" "json_eq r w"
      using 7(1) [OF _ Some, of "ts @ [fst p]"] 7(3) w by auto
    then show ?thesis
      using turns_member [of cur "fst p" "snd p" _ ts r] that [of "smap_set (fst p) r cur"] Some 7(5,7)
        json_inv_smap_set [OF 7(5) r(2)] by (simp add: map_of_smap_set)
  qed
  obtain cur2 where cur2: "turns (diff_members m n (pointer_to_string ts)) ts (JObject cur1) (JObject cur2)" "json_inv (JObject cur2)"
       "\<forall>k. k \<notin> fst ` set m \<longrightarrow> map_of cur2 k = map_of cur1 k"
       "\<forall>k \<in> fst ` set m. rel_option json_eq (map_of cur2 k) (map_of n k)"
  proof -
    have "map_of cur1 (fst q) = Some (snd q)" if "q \<in> set m" for q
    proof -
      have "fst q \<noteq> fst p" using 7(6) that by (metis distinct.simps(2) image_eqI list.simps(9) list.set_map)
      then show ?thesis using cur1(4) 7(7) that by simp
    qed
    then show ?thesis using 7(2) [OF refl, of ts cur1] 7(3,4,6) cur1(2) that by auto
  qed
  have "turns (diff_members (p # m) n (pointer_to_string ts)) ts (JObject cur) (JObject cur2)"
    using turns_append [OF cur1(1,2) cur2(1)] unfolding diff_members.simps Let_def .
  then show ?case using cur1(3,4) cur2 7(6) by (intro exI [of _ cur2]) auto
qed (use turns_whole in \<open>simp_all del: json_eq.simps\<close>)

theorem patch_diff:
  assumes "json_inv s" "json_inv t" "fits_arrays s" "comparable t"
  shows "\<exists>r. json_patch (JArray (json_diff s t [])) s = Inr r \<and> json_inv r \<and> json_eq r t"
proof -
  obtain r where r: "turns (json_diff s t (pointer_to_string [])) [] s r" "json_inv r" "json_eq r t"
    using turns_diff(1) [OF assms, of "[]"] by blast
  have "patch_operations (json_diff s t []) s = (Inr (), r)"
    using r(1) assms(1) by (simp add: turns_def)
  then show ?thesis using r by (simp add: json_patch_def patch_inplace_def)
qed

lemma diff_Nil_iff:
  assumes "json_inv s" "json_inv t" "fits_arrays s" "comparable t"
  shows "json_diff s t [] = [] \<longleftrightarrow> json_eq s t"
proof
  assume "json_diff s t [] = []"
  then show "json_eq s t" using patch_diff [OF assms] by (auto simp: json_patch_def patch_inplace_def)
next
  assume "json_eq s t"
  then show "json_diff s t [] = []" by (cases s) (simp_all del: json_eq.simps)
qed

section \<open>Patches keep values well-formed\<close>

lemma json_inv_lookup: "json_inv j \<Longrightarrow> json_lookup p j = Some v \<Longrightarrow> json_inv v"
  by (induction p j rule: json_lookup.induct) (force dest: map_of_SomeD split: option.splits if_splits)+

lemma change_ref_inv:
  assumes "json_inv j" "\<And>v w. json_inv v \<Longrightarrow> f v = Inr w \<Longrightarrow> json_inv w"
  shows "json_inv (snd (change_ref ts f j))"
proof (cases "rbind (get_checked ts j) (\<lambda>(p, v). rbind (f v) (\<lambda>w. Inr (p, w)))")
  case (Inr r)
  then obtain p v w where r: "get_checked ts j = Inr (p, v)" "f v = Inr w" "r = (p, w)" by (auto simp: rbind_eq_Inr)
  then have "json_inv w" using assms(2) json_inv_lookup [OF assms(1) get_checked_lookup] by blast
  then show ?thesis using Inr r json_inv_update [OF assms(1)] by (simp add: change_ref_def)
qed (use assms(1) in \<open>simp add: change_ref_def\<close>)

lemma add_child_inv: "json_inv v \<Longrightarrow> json_inv parent \<Longrightarrow> add_child k v parent = Inr w \<Longrightarrow> json_inv w"
  using json_inv_smap_set [of _ v k]
  by (cases parent) (auto simp: add_child_def json_index_set_def json_push_back_def rbind_eq_Inr insert_at_def smap_inv_Cons
      dest!: in_set_takeD in_set_dropD split: if_splits)

lemma remove_child_inv: "json_inv parent \<Longrightarrow> remove_child k parent = Inr w \<Longrightarrow> json_inv w"
  using json_inv_smap_erase [of _ k]
  by (cases parent) (auto simp: remove_child_def json_erase_index_def remove_at_def rbind_eq_Inr
      dest!: in_set_takeD in_set_dropD split: if_splits option.splits)

lemma operation_add_inv: "json_inv v \<Longrightarrow> json_inv j \<Longrightarrow> json_inv (snd (operation_add ts v j))"
  by (auto simp: operation_add_def intro: change_ref_inv add_child_inv split: sum.splits)

lemma operation_remove_inv: "json_inv j \<Longrightarrow> json_inv (snd (operation_remove ts j))"
  by (auto simp: operation_remove_def intro: change_ref_inv remove_child_inv split: sum.splits)

lemma patch_member_inv: "json_inv (JObject ms) \<Longrightarrow> patch_member ms op k b = Inr v \<Longrightarrow> json_inv v"
  by (force simp: patch_member_def Let_def dest: map_of_SomeD split: option.splits if_splits)

lemma with_value_inv: "json_inv j \<Longrightarrow> (\<And>v. r = Inr v \<Longrightarrow> json_inv (snd (f v))) \<Longrightarrow> json_inv (snd (with_value r f j))"
  by (auto simp: with_value_def split: sum.splits)

lemma then_do_inv: "json_inv (snd r) \<Longrightarrow> (\<And>j. json_inv j \<Longrightarrow> json_inv (snd (f j))) \<Longrightarrow> json_inv (snd (then_do r f))"
  by (auto simp: then_do_def split: sum.splits)

lemma patch_operation_inv:
  assumes "json_inv val" "json_inv j"
  shows "json_inv (snd (patch_operation val j))"
proof (cases "\<exists>ms. val = JObject ms")
  case True
  then obtain ms where ms: "val = JObject ms" by blast
  have loc: "json_inv v" if "from_location ms op j = Inr (q, v)" for op q v
    using that assms(2) by (auto simp: from_location_def rbind_eq_Inr dest!: get_checked_lookup intro: json_inv_lookup)
  have member: "json_inv v" if "patch_member ms op k b = Inr v" for op k b v
    using patch_member_inv that assms(1) ms by blast
  have by_op: "json_inv (snd (case get_op op of
      Op_add \<Rightarrow> with_value (patch_member ms ''add'' ''value'' False) (\<lambda>v. operation_add ptr v j) j
    | Op_remove \<Rightarrow> operation_remove ptr j
    | Op_replace \<Rightarrow> with_value (patch_member ms ''replace'' ''value'' False) (\<lambda>v. change_ref ptr (\<lambda>_. Inr v) j) j
    | Op_move \<Rightarrow> with_value (from_location ms ''move'' j)
        (\<lambda>(from_ptr, v). then_do (operation_remove from_ptr j) (operation_add ptr v)) j
    | Op_copy \<Rightarrow> with_value (from_location ms ''copy'' j) (\<lambda>(_, v). operation_add ptr v j) j
    | Op_test \<Rightarrow> (operation_test ms ptr j, j)
    | Op_invalid \<Rightarrow> (Inl (parse_error_at 105 0 (''operation value '' @ squoted op @ '' is invalid'')), j)))" for op ptr
    using assms(2)
    by (cases "get_op op") (auto intro!: with_value_inv then_do_inv operation_add_inv operation_remove_inv change_ref_inv
        dest!: loc member)
  show ?thesis unfolding patch_operation_def ms json.case
    by (rule with_value_inv [OF assms(2)]) (use by_op in \<open>auto split: prod.splits\<close>)
next
  case False
  then show ?thesis using assms(2) by (cases val) (auto simp: patch_operation_def)
qed

lemma patch_operations_inv:
  "(\<forall>v \<in> set vals. json_inv v) \<Longrightarrow> json_inv j \<Longrightarrow> json_inv (snd (patch_operations vals j))"
  by (induction vals arbitrary: j) (auto intro!: then_do_inv patch_operation_inv)

theorem patch_inplace_inv: "json_inv p \<Longrightarrow> json_inv j \<Longrightarrow> json_inv (snd (patch_inplace p j))"
  by (cases p) (auto simp: patch_inplace_def intro: patch_operations_inv)

section \<open>Merging\<close>

definition members :: "json \<Rightarrow> (string \<times> json) list" where
  "members j = (case j of JObject m \<Rightarrow> m | _ \<Rightarrow> [])"

definition member_or_null :: "(string \<times> json) list \<Rightarrow> string \<Rightarrow> json" where
  "member_or_null m k = (case map_of m k of Some v \<Rightarrow> v | None \<Rightarrow> JNull)"

lemma members_JObject [simp]: "members (JObject m) = m"
  by (simp add: members_def)

lemma json_inv_members: "json_inv j \<Longrightarrow> json_inv (JObject (members j))"
  by (cases j) (auto simp: members_def)

lemma json_inv_member_or_null: "json_inv (JObject m) \<Longrightarrow> json_inv (member_or_null m k)"
  by (force simp: member_or_null_def dest: map_of_SomeD split: option.splits)

lemma emplaced_member:
  assumes "smap_inv m"
  shows "the (map_of (smap_emplace k JNull m) k) = member_or_null m k"
    "smap_set k v (smap_emplace k JNull m) = smap_set k v m"
  using assms
  by (auto simp: member_or_null_def map_of_smap_emplace fun_eq_iff map_of_smap_set intro!: smap_eqI split: option.splits)

lemma merge_inv:
  "json_inv j \<Longrightarrow> json_inv p \<Longrightarrow> json_inv (merge_patch j p)"
  "json_inv (JObject m) \<Longrightarrow> (\<forall>q \<in> set ps. json_inv (snd q)) \<Longrightarrow> json_inv (JObject (merge_members m ps))"
proof (induction j p and m ps rule: merge_patch_merge_members.induct)
  case (1 j ps)
  then show ?case using json_inv_members [OF 1(2)] by (simp add: members_def)
next
  case (4 m p ps)
  show ?case
  proof (cases "snd p = JNull")
    case True
    then show ?thesis using 4 json_inv_smap_erase [OF 4(4)] by simp
  next
    case False
    have "json_inv (merge_patch (member_or_null m (fst p)) (snd p))"
      using 4(2) [OF _ refl] False 4(4,5) json_inv_member_or_null [OF 4(4)] by (simp add: emplaced_member)
    from json_inv_smap_set [OF 4(4) this] show ?thesis
      using 4(3) [OF _ refl] False 4(4,5) by (simp add: emplaced_member Let_def)
  qed
qed simp_all

lemma map_of_merge_members:
  assumes "smap_inv m" "distinct (map fst ps)"
  shows "smap_inv (merge_members m ps) \<and> map_of (merge_members m ps) k =
    (case map_of ps k of
       None \<Rightarrow> map_of m k
     | Some v \<Rightarrow> if v = JNull then None else Some (merge_patch (member_or_null m k) v))"
  using assms
proof (induction ps arbitrary: m)
  case (Cons p ps)
  have none: "map_of ps (fst p) = None" using Cons.prems(2) by (simp add: map_of_eq_None_iff)
  have cons: "map_of (p # ps) k = (if k = fst p then Some (snd p) else map_of ps k)" by (cases p) simp
  show ?case
  proof (cases "snd p = JNull")
    case True
    then show ?thesis
      using Cons.IH [of "smap_erase (fst p) m"] Cons.prems none
      unfolding cons by (auto simp: map_of_smap_erase member_or_null_def split: option.splits)
  next
    case False
    then show ?thesis
      using Cons.IH [of "smap_set (fst p) (merge_patch (member_or_null m (fst p)) (snd p)) m"] Cons.prems none
      unfolding cons by (auto simp: map_of_smap_set emplaced_member Let_def member_or_null_def split: option.splits)
  qed
qed simp

lemma merge_patch_not_object: "\<nexists>ps. p = JObject ps \<Longrightarrow> merge_patch j p = p"
  by (cases p) auto

theorem merge_patch_member:
  assumes "json_inv j" "json_inv (JObject ps)"
  shows "\<exists>m. merge_patch j (JObject ps) = JObject m \<and> smap_inv m \<and> (\<forall>k. map_of m k =
    (case map_of ps k of
       None \<Rightarrow> map_of (members j) k
     | Some v \<Rightarrow> if v = JNull then None else Some (merge_patch (member_or_null (members j) k) v)))"
  using map_of_merge_members [of "members j" ps] json_inv_members [OF assms(1)] assms(2)
  by (simp add: smap_inv_distinct members_def)

text \<open>Merging the same patch again changes nothing.\<close>

theorem merge_patch_idem: "json_inv j \<Longrightarrow> json_inv p \<Longrightarrow> merge_patch (merge_patch j p) p = merge_patch j p"
proof (induction p arbitrary: j)
  case (JObject ps)
  obtain m where m: "merge_patch j (JObject ps) = JObject m" "smap_inv m" "\<And>k. map_of m k =
      (case map_of ps k of
         None \<Rightarrow> map_of (members j) k
       | Some v \<Rightarrow> if v = JNull then None else Some (merge_patch (member_or_null (members j) k) v))"
    using merge_patch_member [OF JObject(2,3)] by blast
  have inv: "json_inv (JObject m)" using merge_inv(1) [OF JObject(2,3)] m(1) by simp
  obtain m' where m': "merge_patch (JObject m) (JObject ps) = JObject m'" "smap_inv m'" "\<And>k. map_of m' k =
      (case map_of ps k of
         None \<Rightarrow> map_of m k
       | Some v \<Rightarrow> if v = JNull then None else Some (merge_patch (member_or_null m k) v))"
    using merge_patch_member [OF inv JObject(3)] unfolding members_JObject by blast
  have "map_of m' k = map_of m k" for k
  proof (cases "map_of ps k")
    case (Some v)
    show ?thesis
    proof (cases "v = JNull")
      case False
      let ?u = "member_or_null (members j) k"
      have "(k, v) \<in> set ps" using Some by (rule map_of_SomeD)
      then have "merge_patch (merge_patch ?u v) v = merge_patch ?u v"
        using JObject(1) [of "(k, v)" v ?u] JObject(3) json_inv_member_or_null [OF json_inv_members [OF JObject(2)]]
        by (force simp: snds.simps)
      moreover have "member_or_null m k = merge_patch ?u v" using m(3) [of k] Some False by (simp add: member_or_null_def)
      ultimately show ?thesis using m(3) [of k] m'(3) [of k] Some False by simp
    qed (use m m' Some in simp)
  qed (use m' in simp)
  then have "m' = m" using m(2) m'(2) by (intro smap_eqI) auto
  then show ?case using m(1) m'(1) by simp
qed simp_all

section \<open>The operations one by one\<close>

text \<open>An operation on a child depends on its parent only, and leaves the rest of the document alone.\<close>

lemma operation_add_fails:
  assumes "get_checked ts doc = Inr (p, s)" "add_child k v s = Inl e"
  shows "operation_add (ts @ [k]) v doc = (Inl e, doc)"
proof (cases ts)
  case Nil
  then show ?thesis using assms by (simp add: operation_add_def pointer_top_def change_ref_def)
next
  case (Cons t us)
  then obtain r where "get_checked [t] doc = Inr r" using get_checked_top assms(1) by blast
  then show ?thesis using Cons assms by (simp add: operation_add_def pointer_top_def change_ref_def del: get_checked.simps)
qed

lemma operation_remove_fails:
  "get_checked ts doc = Inr (p, s) \<Longrightarrow> remove_child k s = Inl e \<Longrightarrow> operation_remove (ts @ [k]) doc = (Inl e, doc)"
  by (simp add: operation_remove_def pointer_back_def change_ref_def)

lemmas child_operations = patch_add patch_remove operation_add_place operation_add_fails
  operation_remove_place operation_remove_fails

lemma json_inv_place: "json_inv doc \<Longrightarrow> get_checked ts doc = Inr (p, s) \<Longrightarrow> json_inv s"
  using json_inv_lookup get_checked_lookup by blast

lemma patch_object_member:
  assumes "json_inv doc" "get_checked ts doc = Inr (p, JObject m)"
  shows "patch_operation (add_op (pointer_to_string (ts @ [k])) v) doc
      = (Inr (), json_update p (\<lambda>_. JObject (smap_set k v m)) doc)"
    and "patch_operation (remove_op (pointer_to_string (ts @ [k]))) doc
      = (if map_of m k = None then (Inl (key_not_found k), doc)
         else (Inr (), json_update p (\<lambda>_. JObject (smap_erase k m)) doc))"
    and "smap_inv (smap_set k v m) \<and> map_of (smap_set k v m) = (map_of m)(k \<mapsto> v)"
    and "smap_inv (smap_erase k m) \<and> map_of (smap_erase k m) = (map_of m)(k := None)"
  using assms(2) json_inv_place [OF assms] child_operations
  by (auto simp: add_child_def json_index_set_def remove_child_def fun_eq_iff map_of_smap_set map_of_smap_erase
      simp del: pointer_to_string_simps)

lemma patch_array_element:
  assumes "get_checked ts doc = Inr (p, JArray xs)"
  shows "patch_operation (add_op (pointer_to_string (ts @ [''-''])) v) doc
      = (Inr (), json_update p (\<lambda>_. JArray (xs @ [v])) doc)"
    and "i < 2 ^ 64 - 1 \<Longrightarrow> patch_operation (add_op (pointer_to_string (ts @ [show_nat i])) v) doc
      = (if i \<le> length xs then (Inr (), json_update p (\<lambda>_. JArray (take i xs @ v # drop i xs)) doc)
         else (Inl (index_out_of_range i), doc))"
    and "i < 2 ^ 64 - 1 \<Longrightarrow> patch_operation (remove_op (pointer_to_string (ts @ [show_nat i]))) doc
      = (if i < length xs then (Inr (), json_update p (\<lambda>_. JArray (take i xs @ drop (Suc i) xs)) doc)
         else (Inl (index_out_of_range i), doc))"
  using assms child_operations array_index_show [of i]
  by (auto simp: add_child_def json_push_back_def insert_at_def remove_child_def json_erase_index_def remove_at_def
      simp del: pointer_to_string_simps)

lemma patch_other_child:
  assumes "json_inv doc" "get_checked ts doc = Inr (p, s)" "json_type s \<notin> {T_object, T_array}"
  shows "patch_operation (add_op (pointer_to_string (ts @ [k])) v) doc
      = (if s = JNull then (Inr (), json_update p (\<lambda>_. JObject [(k, v)]) doc)
         else (Inl (Undefined_behaviour ''assertion failed in patch_inplace''), doc))"
    and "patch_operation (remove_op (pointer_to_string (ts @ [k]))) doc = (Inr (), doc)"
proof -
  have "remove_child k s = Inr s" using assms(3) by (cases s) (simp_all add: remove_child_def)
  then show "patch_operation (remove_op (pointer_to_string (ts @ [k]))) doc = (Inr (), doc)"
    using json_update_same [OF assms(1) get_checked_lookup [OF assms(2)]] assms(2) child_operations
    by (simp del: pointer_to_string_simps)
qed (use assms(2,3) child_operations in
    \<open>cases s; auto simp: add_child_def json_index_set_def simp del: pointer_to_string_simps\<close>)

text \<open>\<open>move\<close> and \<open>copy\<close> add the value at their source, \<open>test\<close> compares.\<close>

definition transfer_op :: "string \<Rightarrow> string \<Rightarrow> string \<Rightarrow> json" where
  "transfer_op op from_path path = JObject [(''from'', JString from_path), (''op'', JString op), (''path'', JString path)]"

definition test_op :: "string \<Rightarrow> json \<Rightarrow> json" where
  "test_op path v = JObject [(''op'', JString ''test''), (''path'', JString path), (''value'', v)]"

lemma patch_transfer:
  assumes "get_checked us doc = Inr (q, u)"
  shows "patch_operation (transfer_op ''copy'' (pointer_to_string us) (pointer_to_string ts)) doc
      = patch_operation (add_op (pointer_to_string ts) u) doc"
    and "patch_operation (transfer_op ''move'' (pointer_to_string us) (pointer_to_string ts)) doc
      = then_do (patch_operation (remove_op (pointer_to_string us)) doc) (patch_operation (add_op (pointer_to_string ts) u))"
proof -
  have "patch_operation (add_op (pointer_to_string ts) u) = operation_add ts u" by (simp add: fun_eq_iff patch_add)
  then show "patch_operation (transfer_op ''copy'' (pointer_to_string us) (pointer_to_string ts)) doc
      = patch_operation (add_op (pointer_to_string ts) u) doc"
    "patch_operation (transfer_op ''move'' (pointer_to_string us) (pointer_to_string ts)) doc
      = then_do (patch_operation (remove_op (pointer_to_string us)) doc) (patch_operation (add_op (pointer_to_string ts) u))"
    unfolding patch_remove by (simp_all add: transfer_op_def operation_simps from_location_def assms)
qed

lemma patch_test:
  assumes "get_checked ts doc = Inr (p, s)"
  shows "snd (patch_operation (test_op (pointer_to_string ts) v) doc) = doc
    \<and> (fst (patch_operation (test_op (pointer_to_string ts) v) doc) = Inr ()) = json_eq s v"
  by (simp add: test_op_def operation_simps operation_test_def assms rbind_def split: sum.split)

section \<open>Corner cases\<close>

text \<open>An unsigned number and the negative number with the same 64 bits compare equal.\<close>

lemma unsigned_equals_negative: "json_eq (JNumber_unsigned w) (JNumber_integer w)"
  by simp

text \<open>
  Below a value that is neither an object nor an array, \<open>remove\<close> does nothing and succeeds, and
  \<open>add\<close> runs into the assertion that there is no such parent; below null, \<open>add\<close> makes an object.
\<close>

lemma remove_below_primitive:
  "json_type v \<notin> {T_object, T_array} \<Longrightarrow> patch_operation (remove_op (pointer_to_string [k])) v = (Inr (), v)"
  by (cases v) (simp_all add: patch_remove operation_remove_def pointer_back_def change_ref_def remove_child_def
      del: pointer_to_string_simps)

lemma add_below_primitive:
  "json_type v \<notin> {T_object, T_array, T_null} \<Longrightarrow>
     patch_operation (add_op (pointer_to_string [k]) w) v = (Inl (Undefined_behaviour ''assertion failed in patch_inplace''), v)"
  by (cases v) (simp_all add: patch_add operation_add_def pointer_top_def change_ref_def add_child_def
      del: pointer_to_string_simps)

lemma add_below_null:
  "patch_operation (add_op (pointer_to_string [k]) w) JNull = (Inr (), JObject [(k, w)])"
  by (simp add: patch_add operation_add_def pointer_top_def change_ref_def add_child_def json_index_set_def
      del: pointer_to_string_simps)

text \<open>\<open>contains\<close> throws on the empty token and on numbers beyond 64 bits, instead of saying no.\<close>

lemma contains_throws: "pointer_contains [[]] (JArray xs) = Inl (unresolved_token [])"
  by (simp add: array_index_def strtoull_def digits_value_def)

end
