(* ===== verification/Widgets.thy ===== *)
theory Widgets
  imports Client Wellformed
begin

unbundle bit_operations_syntax

text \<open>
  The client's own state machines: the scene manager under the frame loop, what a text box
  lets in and how it fits its font, and the callbacks of a button.
\<close>

section \<open>Scenes\<close>

lemma changeScene_registered:
  "i \<in> set (sm_factories sm) \<Longrightarrow>
     sm_current (changeScene fr i sm) = Some (make_scene fr i) \<and> sm_currentID (changeScene fr i sm) = i"
  by (simp add: changeScene_def Let_def)

text \<open>An unknown scene leaves none, under the identifier of the last.\<close>

lemma changeScene_unknown:
  "i \<notin> set (sm_factories sm) \<Longrightarrow>
     sm_current (changeScene fr i sm) = None \<and> sm_currentID (changeScene fr i sm) = sm_currentID sm"
  by (simp add: changeScene_def Let_def)

lemma changeScene_factories [simp]: "sm_factories (changeScene fr i sm) = sm_factories sm"
  by (simp add: changeScene_def Let_def)

text \<open>Both scenes have a factory, and the current identifier is that of the scene shown.\<close>

definition scenes_ok :: "scene_manager \<Rightarrow> bool" where
  "scenes_ok sm \<longleftrightarrow> set (sm_factories sm) = {Scene_Login, Scene_Game}
     \<and> (case sm_current sm of
          Some (Login_scene _) \<Rightarrow> sm_currentID sm = Scene_Login
        | Some Game_scene \<Rightarrow> sm_currentID sm = Scene_Game
        | None \<Rightarrow> False)"

lemma app_init_scenes: "scenes_ok (ap_scenes (app_init ok fr))"
  by (auto simp: app_init_def scenes_ok_def registerScene_def scenes_init_def changeScene_def Let_def)

lemma changeScene_ok: "scenes_ok sm \<Longrightarrow> scenes_ok (changeScene fr i sm)"
  by (cases i) (simp_all add: scenes_ok_def changeScene_def Let_def)

lemma scenes_Update_frame:
  "scenes_Update ok fr keys sm nc = Inr (sm', nc') \<Longrightarrow> sm_factories sm' = sm_factories sm
     \<and> sm_currentID sm' = sm_currentID sm
     \<and> (case sm_current sm of Some (Login_scene _) \<Rightarrow> \<exists>ls. sm_current sm' = Some (Login_scene ls)
        | c \<Rightarrow> sm_current sm' = c)"
  by (auto simp: scenes_Update_def rbind_eq_Inr split: option.splits scene.splits)

lemma scenes_Update_ok:
  "scenes_ok sm \<Longrightarrow> scenes_Update ok fr keys sm nc = Inr (sm', nc') \<Longrightarrow> scenes_ok sm'"
  using scenes_Update_frame [of ok fr keys sm nc sm' nc']
  by (cases "sm_current sm") (auto simp: scenes_ok_def split: scene.splits)

lemma app_Update_scenes:
  assumes "scenes_ok (ap_scenes app)"
  shows "scenes_ok (ap_scenes (snd (app_Update ok fr keys app)))"
proof -
  obtain r nc ctx where p: "app_poll (sm_current (ap_scenes app)) (ap_net app) (ap_ctx app) = (r, nc, ctx)"
    by (cases "app_poll (sm_current (ap_scenes app)) (ap_net app) (ap_ctx app)")
  define sm where "sm = (if gc_uuid ctx \<noteq> [] then changeScene fr Scene_Game (ap_scenes app) else ap_scenes app)"
  have sm: "scenes_ok sm" using assms changeScene_ok by (simp add: sm_def)
  show ?thesis
  proof (cases r)
    case (Inl e)
    then show ?thesis using assms p by (simp add: app_Update_def)
  next
    case (Inr u)
    have "ap_scenes (snd (app_Update ok fr keys app))
        = (case scenes_Update ok fr keys sm nc of Inl e \<Rightarrow> sm | Inr (sm', nc') \<Rightarrow> sm')"
      using p Inr unfolding sm_def by (simp add: app_Update_def Let_def split: sum.split prod.split)
    then show ?thesis using sm scenes_Update_ok [OF sm, of ok fr keys nc] by (simp split: sum.split prod.split)
  qed
qed

text \<open>Once the identifier is known, an update that goes well ends in the game scene.\<close>

lemma app_Update_game:
  assumes "scenes_ok (ap_scenes app)" "app_Update ok fr keys app = (Inr (), app')" "gc_uuid (ap_ctx app') \<noteq> []"
  shows "sm_current (ap_scenes app') = Some Game_scene"
proof -
  obtain r nc ctx where p: "app_poll (sm_current (ap_scenes app)) (ap_net app) (ap_ctx app) = (r, nc, ctx)"
    by (cases "app_poll (sm_current (ap_scenes app)) (ap_net app) (ap_ctx app)")
  have "Scene_Game \<in> set (sm_factories (ap_scenes app))" using assms(1) by (simp add: scenes_ok_def)
  then have "sm_current (changeScene fr Scene_Game (ap_scenes app)) = Some Game_scene"
    by (simp add: changeScene_registered)
  then show ?thesis
    using assms(2,3) p by (auto simp: app_Update_def Let_def scenes_Update_def split: sum.splits if_splits)
qed

section \<open>The text boxes\<close>

definition typed :: "string \<Rightarrow> bool" where
  "typed s \<longleftrightarrow> (\<forall>c \<in> set s. 32 \<le> byte c \<and> byte c \<le> 125)"

lemma typed_utf8: "typed s \<Longrightarrow> utf8_valid s"
  by (rule utf8_valid_ascii) (auto simp: typed_def)

lemma typed_snoc: "typed (s @ [chr k]) \<longleftrightarrow> typed s" if "32 \<le> k" "k \<le> 125"
  using that by (auto simp: typed_def)

lemma read_chars_typed: "typed s \<Longrightarrow> typed (fst (read_chars keys s))"
proof (induction keys arbitrary: s)
  case (Cons k keys)
  show ?case
    using Cons.IH [of s] Cons.IH [of "s @ [chr k]"] Cons.prems by (simp add: typed_snoc)
qed simp

text \<open>The characters that are taken are those of the code's range, in the order they came.\<close>

lemma read_chars_filter:
  assumes "\<forall>k \<in> set keys. 0 < k"
  shows "read_chars keys s = (s @ map chr (filter (\<lambda>k. 32 \<le> k \<and> k \<le> 125) keys), [])"
  using assms by (induction keys s rule: read_chars.induct) auto

lemma textbox_Update_typed: "typed (tb_inputText t) \<Longrightarrow> typed (tb_inputText (fst (fst (textbox_Update fr keys (t, f)))))"
proof -
  have tail: "typed s \<Longrightarrow> typed (butlast s)" for s by (auto simp: typed_def dest: in_set_butlastD)
  have st: "tb_inputText (textbox_UpdateState fr t) = tb_inputText t" for t
    by (simp add: textbox_UpdateState_def)
  have inp: "typed (tb_inputText t) \<Longrightarrow> typed (tb_inputText (fst (textbox_HandleInput fr keys t)))" for t
    using read_chars_typed [of "tb_inputText t" keys] tail
    by (simp add: textbox_HandleInput_def case_prod_unfold Let_def)
  have out: "tb_inputText (fst (textbox_UpdateOutputText fr tf)) = tb_inputText (fst tf)" for tf
    by (cases tf) (simp add: textbox_UpdateOutputText_def Let_def hasTimePassedMS_def)
  have ani: "tb_inputText (textbox_Animate t) = tb_inputText t" for t
    by (simp add: textbox_Animate_def Let_def)
  let ?t1 = "textbox_UpdateState fr t"
  let ?r2 = "if tb_state ?t1 = ACTIVE then textbox_HandleInput fr keys ?t1 else (?t1, keys)"
  have eq: "tb_inputText (fst (fst (textbox_Update fr keys (t, f)))) = tb_inputText (fst ?r2)"
    by (simp only: textbox_Update_def Let_def case_prod_unfold fst_conv snd_conv ani out)
  assume "typed (tb_inputText t)"
  then have "typed (tb_inputText (fst ?r2))" using inp [of ?t1] st [of t] by simp
  then show ?thesis by (simp only: eq)
qed

text \<open>The font size: the first of the sizes 20, 19, \<dots> at which the text fits, or the last
  that is not above eight.\<close>

lemma fit_font_spec:
  "\<exists>k. fit_font width m sz = sz - of_nat k
     \<and> (width (fit_font width m sz) \<le> m \<or> fit_font width m sz \<le> 8)
     \<and> (\<forall>i < k. m < width (sz - of_nat i) \<and> 8 < sz - of_nat i)"
proof (induction width m sz rule: fit_font.induct)
  case (1 width m sz)
  show ?case
  proof (cases "m < width sz \<and> 8 < sz")
    case True
    then obtain k where k: "fit_font width m (sz - 1) = sz - 1 - of_nat k"
        "width (fit_font width m (sz - 1)) \<le> m \<or> fit_font width m (sz - 1) \<le> 8"
        "\<forall>i < k. m < width (sz - 1 - of_nat i) \<and> 8 < sz - 1 - of_nat i"
      using 1 by blast
    have "m < width (sz - of_nat i) \<and> 8 < sz - of_nat i" if "i < Suc k" for i
      using that True k(3) by (cases i) (auto simp: algebra_simps)
    then show ?thesis
      using k(1,2) True by (intro exI [of _ "Suc k"]) (simp add: fit_font.simps [of width m sz] algebra_simps)
  next
    case False
    then show ?thesis by (intro exI [of _ 0]) (auto simp: fit_font.simps [of width m sz])
  qed
qed

lemma fit_font_lower: "7 < sz \<Longrightarrow> 7 < fit_font width m sz"
proof (induction width m sz rule: fit_font.induct)
  case (1 width m sz)
  then show ?case by (cases "m < width sz \<and> 8 < sz") (auto simp: fit_font.simps [of width m sz])
qed

lemma fit_font_upper: "fit_font width m sz \<le> sz"
proof (induction width m sz rule: fit_font.induct)
  case (1 width m sz)
  then show ?case by (cases "m < width sz \<and> 8 < sz") (auto simp: fit_font.simps [of width m sz])
qed

lemma fit_font_20: "8 \<le> fit_font width m 20 \<and> fit_font width m 20 \<le> 20"
proof -
  obtain k where k: "fit_font width m 20 = 20 - of_nat k" using fit_font_spec by blast
  have "7 < fit_font width m 20" by (rule fit_font_lower) simp
  then have "of_nat k < (13 :: rat)" using k by simp
  then have "k \<le> 12" by (simp add: of_nat_less_iff [where 'a = rat, of k 13, simplified])
  then have "of_nat k \<le> (12 :: rat)" using of_nat_mono [of k 12, where 'a = rat] by simp
  then show ?thesis using k fit_font_upper [of width m 20] by simp
qed

text \<open>Both boxes of the login scene hold one font: it ends with the size of the second.\<close>

lemma UpdateOutputText_font:
  "snd (textbox_UpdateOutputText fr (t, f)) =
     \<lparr>cf_fontSpacing = 2, cf_fontSize = fit_font (\<lambda>sz. fr_measure fr (tb_inputText t) sz 2)
        (rc_width (GetTransformedBounds t) - 10) 20\<rparr>"
  by (cases f) (simp add: textbox_UpdateOutputText_def Let_def case_prod_beta setFontSpacing_def setFontSize_def
      kDefaultFontSpacing_def kDefaultFontSize_def)

section \<open>The button\<close>

text \<open>What a run of frames does to a button; the callbacks in order.\<close>

fun button_run :: "frame list \<Rightarrow> button \<Rightarrow> button_event list \<times> button" where
  "button_run [] b = ([], b)"
| "button_run (fr # frs) b =
     (let (es, b1) = button_Update fr b; (fs, b2) = button_run frs b1 in (es @ fs, b2))"

text \<open>Clicks and releases alternate, a click first: no release without a press inside the bounds.\<close>

fun alternate :: "bool \<Rightarrow> button_event list \<Rightarrow> bool" where
  "alternate p [] = True"
| "alternate p (On_click # es) = alternate True es"
| "alternate p (On_release # es) = (p \<and> alternate False es)"
| "alternate p (On_hover # es) = alternate p es"

lemma alternate_mono: "alternate False es \<Longrightarrow> alternate p es"
proof (induction es)
  case (Cons e es)
  then show ?case by (cases e; cases p) simp_all
qed simp

lemma button_Update_alternates:
  assumes "alternate (bt_wasPressed (snd (button_Update fr b))) es"
  shows "alternate (bt_wasPressed b) (fst (button_Update fr b) @ es)"
proof (cases "fr_hits fr (bt_bounds b)")
  case True
  then show ?thesis
    using assms by (cases "fr_pressed fr"; cases "fr_down fr"; cases "bt_wasPressed b \<and> fr_released fr")
      (auto simp: button_Update_def Let_def)
next
  case False
  then show ?thesis using assms alternate_mono by (simp add: button_Update_def)
qed

lemma button_alternates: "alternate (bt_wasPressed b) (fst (button_run frs b))"
proof (induction frs arbitrary: b)
  case (Cons fr frs)
  from button_Update_alternates [OF Cons.IH] show ?case by (simp add: case_prod_beta Let_def)
qed simp

lemma button_click_inside:
  "On_click \<in> set (fst (button_Update fr b)) \<longleftrightarrow> fr_hits fr (bt_bounds b) \<and> fr_pressed fr"
  by (auto simp: button_Update_def Let_def)

lemma button_bounds [simp]: "bt_bounds (snd (button_Update fr b)) = bt_bounds b"
  by (auto simp: button_Update_def Let_def)

end
