(* ===== verification/Spec2Isabelle.thy ===== *)
theory Spec2Isabelle
  imports Acceptance CborPacking Exchange Packing Patching Widgets
begin

text \<open>
  A verification development for net-pixeld, a small multiplayer game in C++: a server that keeps
  accounts in a JSON file and sends every logged-in client its resources once a second, and a
  client with a login scene and a game scene. They exchange lines of JSON over TCP. The JSON
  library (\<open>common/json.hpp\<close>) is part of the repository and is modelled from its source.

  \<^bold>\<open>The parts and how they interact.\<close> Client and server both build messages (\<open>Protocol::Message\<close>),
  which serialize to one line and are parsed from one. On the server an event loop runs the handlers
  of a listening socket, a timer and one strand per \<open>Session\<close>; a line becomes a message, the message
  goes to the handler registered for its type (the login handler of \<open>main\<close>), which asks the account
  database (\<open>JsonDB\<close>) and answers through the session; the timer's tick reads and updates the
  resources of every logged-in account and sends them. On the client a thread turns the bytes of the
  socket into a queue of messages (\<open>NetworkClient\<close>); every frame \<open>Application::Update\<close> polls the
  queue, filters the messages by sequence number, lets the current scene handle them and updates the
  scene, whose widgets read the keyboard and the mouse.

  \<^bold>\<open>Theories, in the order of the code's layers.\<close> Models of code are in the first group, what is proved
  about them in the second.

  \<^item> \<open>Prelude\<close>: words \<open>u8\<close>, \<open>u32\<close>, \<open>u64\<close>, the exceptions as values (\<open>exn\<close>, in which undefined behaviour
    is a constructor of its own), results and their bind; bytes are characters with \<open>byte\<close>.
  \<^item> \<open>Containers\<close>: \<open>std::map\<close> as a sorted list and \<open>std::unordered_map\<close> as a list without duplicate
    keys, both instances of the locales \<open>kv_map\<close> and \<open>kv_map_erase\<close>.
  \<^item> \<open>JsonValue\<close>, \<open>JsonNumber\<close>, \<open>Lexer\<close>, \<open>Sax\<close>, \<open>Parser\<close>: \<open>basic_json\<close> with its conversions and element
    access; numbers and their text; class \<open>lexer\<close>; the SAX interface with the DOM builder and the
    acceptor; class \<open>parser\<close> as the loop \<open>sax_parse_internal\<close>, one turn a definition.
  \<^item> \<open>Utf8\<close>, \<open>Grisu\<close>, \<open>Serializer\<close>: the table-driven decoder, \<open>detail::to_chars\<close>, class \<open>serializer\<close> with
    its 512-byte string buffer and its three error handlers, and \<open>dump\<close>.
  \<^item> \<open>JsonCompare\<close>, \<open>JsonPointer\<close>, \<open>JsonPatch\<close>: the operators \<open>==\<close> and \<open><\<close>; class \<open>json_pointer\<close> with
    \<open>contains\<close>, \<open>flatten\<close> and \<open>unflatten\<close>; \<open>patch_inplace\<close> with its operations, \<open>diff\<close> and \<open>merge_patch\<close>.
  \<^item> \<open>BinaryFormat\<close>, \<open>MsgPack\<close>, \<open>Cbor\<close>: the utilities of \<open>binary_writer\<close> and \<open>binary_reader\<close>, floats among them,
    and MessagePack: \<open>write_msgpack\<close>, \<open>parse_msgpack_internal\<close>, \<open>to_msgpack\<close>, \<open>from_msgpack\<close>; the same
    for CBOR, with its tags, indefinite lengths and half-precision floats.
  \<^item> \<open>Protocol\<close>: \<open>common/Protocol.hpp\<close>, the taking of lines from a buffer as both sides do it,
    \<open>common/Resource.hpp\<close> and the file name of \<open>common/Logger.hpp\<close>.
  \<^item> \<open>JsonDB\<close>: \<open>server/inc/JsonDB.hpp\<close>; a disk is a map from paths to contents.
  \<^item> \<open>Session\<close>, \<open>Server\<close>: \<open>server/src/Session.cpp\<close>, \<open>Server.cpp\<close> and \<open>main.cpp\<close>; sessions are shared
    pointers, so they live in a heap (\<open>sv_heap\<close>) and the session map holds references, or \<open>None\<close> for a
    null pointer. \<open>server_step\<close> runs one completion handler, \<open>enabled\<close> says when asio may run it, and
    \<open>server_runs\<close> is the relation of runs.
  \<^item> \<open>Gui\<close>, \<open>Client\<close>: \<open>client/src/gui\<close>, \<open>app\<close>, \<open>font\<close>, \<open>scenes\<close>, \<open>game\<close> and \<open>network\<close>: widgets, scenes, the
    scene manager, the application's \<open>Update\<close> and the network client.

  \<^item> \<open>Escaping\<close>, \<open>Dumping\<close>: \<open>dump_escaped\<close> and \<open>dump\<close> refine functions from strings and values to text
    (\<open>escape\<close>, \<open>dump_text\<close>, \<open>printed\<close>).
  \<^item> \<open>GrisuDigits\<close>, \<open>GrisuBounds\<close>, \<open>GrisuText\<close>, \<open>FloatScan\<close>: Grisu2 over the reals: the digit generation
    stays inside the scaled interval, the cached powers are accurate enough, the text it formats is
    a text that \<open>strtod\<close> reads back, and the lexer scans that text as a float.
  \<^item> \<open>Pointing\<close>, \<open>Patching\<close>: the text of pointers, what they resolve to, and the contracts of \<open>diff\<close> and
    \<open>merge_patch\<close>, with the corner cases in which the code does something unexpected.
  \<^item> \<open>BinaryReading\<close>, \<open>BinaryValues\<close>: what the proofs about binary formats share: numbers and floats in bytes,
    what it is for a reader to consume bytes, the events of a value, and the outcome of reading
    arbitrary input. The locale \<open>input_values\<close> states what a format's values and counts must satisfy
    for containers built from any input to be good values.
  \<^item> \<open>Packing\<close>, \<open>CborPacking\<close>: MessagePack and CBOR: the reader on what the writer writes, for any SAX
    handler that takes the events, and the reader with the builder on any input (\<open>input_values\<close>
    interpreted once for each format); two corner cases of CBOR.
  \<^item> \<open>Scanning\<close>, \<open>Parsing\<close>, \<open>Roundtrip\<close>: the lexer on such text, the parser's loop for any SAX handler as the
    events of the value, the builder on those events, and so the round trip.
  \<^item> \<open>Wellformed\<close>, \<open>Acceptance\<close>: arbitrary input. The locale \<open>sax_contract\<close> states what the parser needs of a
    handler; it is interpreted for the builder and the acceptor.
  \<^item> \<open>Wire\<close>, \<open>Database\<close>, \<open>Serving\<close>, \<open>Reception\<close>, \<open>Exchange\<close>, \<open>Widgets\<close>: the program's own components: messages on
    the wire, what the database saves and loads, the invariant of the server and its runs, what the
    client makes of the lines it receives, client and server together, the widgets.

  \<^bold>\<open>What the properties show.\<close> JSON (C1 to C8): every input is parsed to a well-formed value or refused
  with one of two errors, \<open>accept\<close> agrees with \<open>parse\<close>, a dumped value is read back, dumping meets its
  specification, the binary formats are read back, every token consumes input. Messages (C9, C10): the round trip, and the independence
  from how TCP cuts the stream. Database (C11 to C17): save and load, crash safety and what is missing
  for it, what the operations do. Server (C18 to C25): its invariant, how a handler can end, the order
  of texts, the tick, the login, and what goes wrong when an identifier is used again. Client (C26 to
  C33): the sequence filter, the resources shown, login results, scenes, text boxes, fonts, buttons.
  Doubles (C34, C35): what Grisu2 promises and the round trip of every finite double. Pointers and
  patches (C36 to C39): pointers and their text, \<open>diff\<close> then \<open>patch\<close>, the operations of RFC 6902, merging by RFC 7396.
  MessagePack and CBOR from any bytes (C40).
  Some properties state defects of the code; they are proved like the others and say so.

  \<^bold>\<open>Bounds and termination.\<close> Loops are total functions with a measure; only the
  readers of binary formats have fuel, because with a handler that goes on after errors the loops of
  the code that wait for a break byte need not end: the recursion of \<open>parse_msgpack_internal\<close> has one
  more than the input has bytes, the recursions of CBOR have twice the number of bytes and three, and
  C40 says that with exceptions this is enough. The lexer
  and the parser's loop consume input (\<open>scan_progress\<close>, \<open>budget\<close>); the loops of \<open>dump_escaped\<close> and
  of Grisu count down; \<open>fit_font\<close> stops between 20 and 8. Machine integers keep their width; C++'s
  buffers keep theirs (512 bytes of \<open>dump_escaped\<close>, 64 of the numbers, 20 digits at most), and an access
  out of one is the exception \<open>Undefined_behaviour\<close>. Theorems about indented text ask for a step of at
  most 512 blanks, for which the doubling of the indentation string at each level is enough.

  \<^bold>\<open>Parameters.\<close> What comes from outside is an argument: whether a system call succeeds and how much a
  write writes (\<open>io_env\<close>), the two random draws of an identifier, the bytes and errors of a socket,
  what raylib reports in a frame (\<open>frame\<close>, with the measured width of text). Crash safety is about the
  sequence of system calls; that the file system keeps their order is part of it.

  \<^bold>\<open>Simplifications.\<close> \<open>strtoull\<close>, \<open>strtoll\<close> and \<open>strtod\<close> of the C library are their documented results
  (\<open>strtod\<close> rounds to nearest, ties to even). Screen coordinates and sizes are exact numbers in place
  of floats. Where C++ leaves
  the order of two operands open, the left one comes first. The client's two threads touch the queue under a mutex, so their interleavings are
  sequences of receiving and polling. Logging has no effect on the state and
  is left out, but for the message of a failed accept, which is undefined behaviour
  (\<open>accept_logged\<close>).

  \<^bold>\<open>Not modelled.\<close> Drawing, sound, window handling and the reading of assets, which only call raylib;
  asio's own sockets and threads; allocation failure; parts of the JSON library that the program never
  calls: the other binary formats (BSON, UBJSON, BJData), iterators, the callback parser and
  the wide-character input adapters.
\<close>

text \<open>ASCII text is well-formed; with this rule the simplifier decides literals.\<close>

lemma utf8_ascii: "byte c < 128 \<Longrightarrow> utf8_valid (c # s) \<longleftrightarrow> utf8_valid s"
  using utf8_valid_Cons_char [of "[c]" s] by simp

text \<open>A frame in which nothing happens, for the examples.\<close>

definition fr0 :: frame where
  "fr0 = \<lparr>fr_hits = (\<lambda>_. False), fr_down = False, fr_pressed = False, fr_released = False, fr_backspace = False,
     fr_now = 0, fr_screen = (800, 600), fr_measure = (\<lambda>_ _ _. 0)\<rparr>"

section \<open>JSON\<close>

text \<open>
  C1. Parsing any input whatsoever ends in one of two ways: an exception that is parse error 101 or
  number overflow 406, or a value all of whose strings and keys are well-formed UTF-8, whose
  objects are ordered without duplicates and whose doubles are finite. In particular no assertion
  of the DOM builder fails.
\<close>

theorem json_parse_total: "case json_parse s of Inl e \<Rightarrow> input_error e | Inr v \<Rightarrow> json_wf v"
  by (rule json_parse_outcome)

text \<open>
  C2. What \<open>dump\<close> writes, \<open>parse\<close> reads and \<open>accept\<close> accepts: for a value without binaries
  whose strings are well-formed, the compact text parses to the same value, where a signed number
  that is not negative has become unsigned and a double that is not finite null, and that value
  has the same text. Finite doubles come back bit for bit.
\<close>

theorem json_dump_parse:
  assumes "textual v" "json_inv v"
  shows "\<exists>t. json_dump v = Inr t \<and> json_parse t = Inr (parsed v) \<and> json_accept t
    \<and> json_dump (parsed v) = Inr t \<and> parsed (parsed v) = parsed v"
  using json_parse_text [OF assms(1), of "[]" "[]" False False 0 0]
    json_accept_text [OF assms(1), of "[]" "[]" False False 0 0]
    json_dump_textual [OF assms(1)] json_dump_textual [OF parsed_textual [OF assms(2,1)]]
  by (simp add: dump_text_parsed [OF assms(2)] parsed_parsed [OF assms(2)])

theorem json_dump_parse_witness:
  "\<exists>t. json_dump (JArray [JString ''a'', JNumber_integer 5]) = Inr t
    \<and> json_parse t = Inr (parsed (JArray [JString ''a'', JNumber_integer 5])) \<and> json_accept t
    \<and> json_dump (parsed (JArray [JString ''a'', JNumber_integer 5])) = Inr t
    \<and> parsed (parsed (JArray [JString ''a'', JNumber_integer 5])) = parsed (JArray [JString ''a'', JNumber_integer 5])"
  by (rule json_dump_parse) (auto intro!: utf8_valid_ascii)

text \<open>
  C3. \<open>accept\<close> and \<open>parse\<close> agree on every input: the acceptor says yes exactly when parsing
  throws nothing.
\<close>

theorem json_accept_parse: "json_accept s = (\<exists>v. json_parse s = Inr v)"
  by (rule json_accept_iff)

text \<open>
  C4. The layout does not matter: the text of a value with any indentation, with or without
  escaping of everything that is not ASCII, and with white space around it, parses to the same
  value; reading from a stream stops behind the value, whatever non-numeric text follows.
\<close>

theorem json_parse_layout:
  assumes "textual v" "white ws" "white ws'" "ends_integer rest"
  shows "json_parse (ws @ dump_text v pp ea step cur @ ws') = Inr (parsed v)
    \<and> json_read_stream (ws @ dump_text v pp ea step cur @ rest) = Inr (parsed v)"
  using json_parse_text [OF assms(1-3)] json_read_stream_text [OF assms(1,2,4)] by blast

theorem json_parse_layout_witness:
  "json_parse ('' '' @ dump_text (JObject [(''k'', JNull)]) True True 2 0 @ newline) = Inr (parsed (JObject [(''k'', JNull)]))
    \<and> json_read_stream ('' '' @ dump_text (JObject [(''k'', JNull)]) True True 2 0 @ ''x'') = Inr (parsed (JObject [(''k'', JNull)]))"
  by (rule json_parse_layout) (auto simp: white_def newline_def is_whitespace_def ends_integer_def is_digit_def
      intro!: utf8_valid_ascii)

text \<open>
  C5. Indented output refines a specification: for an indentation of at most 512, \<open>dump(n)\<close>
  returns exactly the specified text when every string and key is well-formed UTF-8, and throws type error 316 otherwise.
\<close>

theorem json_dump_indent_spec:
  assumes "0 \<le> n" "n \<le> 512"
  shows "(case json_dump_indent n j of
       Inr t \<Rightarrow> utf8_json j \<and> t = dump_text j True False (word_of_int n) 0
     | Inl e \<Rightarrow> \<not> utf8_json j \<and> is_type_error_316 e)"
  by (rule json_dump_indent_text [OF assms])

theorem json_dump_indent_spec_witness:
  "(case json_dump_indent 2 (JArray [JNull]) of
       Inr t \<Rightarrow> utf8_json (JArray [JNull]) \<and> t = dump_text (JArray [JNull]) True False (word_of_int 2) 0
     | Inl e \<Rightarrow> \<not> utf8_json (JArray [JNull]) \<and> is_type_error_316 e)"
  by (rule json_dump_indent_spec) simp_all

text \<open>
  C6. The strict string writer, with its 512-byte buffer and its decoding automaton, writes a
  well-formed string with each character escaped as specified, and throws type error 316 on every
  string that is not well-formed UTF-8.
\<close>

theorem dump_escaped_spec:
  assumes "sz_ok sz" "sz_error_handler sz = EH_strict"
  shows "(case dump_escaped ea s sz of
       Inr sz' \<Rightarrow> utf8_valid s \<and> appends (escape ea s) sz sz'
     | Inl e \<Rightarrow> \<not> utf8_valid s \<and> is_type_error_316 e)"
  by (rule dump_escaped_strict [OF assms])

theorem dump_escaped_spec_witness:
  "(case dump_escaped False ''a'' (serializer_init (CHR '' '') EH_strict) of
       Inr sz' \<Rightarrow> utf8_valid ''a'' \<and> appends (escape False ''a'') (serializer_init (CHR '' '') EH_strict) sz'
     | Inl e \<Rightarrow> \<not> utf8_valid ''a'' \<and> is_type_error_316 e)"
  by (rule dump_escaped_spec) (simp_all add: serializer_init_def sz_ok_def)

text \<open>
  C7. The binary formats: a value whose strings, binaries and containers have a length below 2 to the 32
  and which has no NaN is read back from its encoding, for a reader that allows containers of that
  size: from MessagePack if its subtypes fit into a byte, from CBOR with any subtypes when tags are
  stored, and with any treatment of tags when it has no subtypes. Only integers that are not negative
  have become unsigned, so what is read equals the value under \<open>==\<close>, and its encodings are the same.
\<close>

theorem binary_roundtrip:
  assumes "json_inv v" "comparable v" "2 ^ 32 \<le> n + 1"
  shows "(packable v \<longrightarrow> from_msgpack n (to_msgpack v) = Inr (unpacked v))
    \<and> (encodable v \<and> (t = Tag_store \<or> untagged v) \<longrightarrow> from_cbor n t (to_cbor v) = Inr (unpacked v))
    \<and> json_eq (unpacked v) v
    \<and> to_msgpack (unpacked v) = to_msgpack v \<and> to_cbor (unpacked v) = to_cbor v"
  using msgpack_back [OF _ assms] cbor_back [OF _ assms] unpacked_equal [OF assms(2)] write_unpacked [of v]
    write_cbor_unpacked [of v]
  by (simp add: to_msgpack_def to_cbor_def)

theorem binary_roundtrip_witness:
  "from_msgpack (2 ^ 40) (to_msgpack (JObject [(''a'', JArray [JNull, JNumber_integer 5]), (''b'', JBinary ''xyz'' (Some 7))]))
     = Inr (JObject [(''a'', JArray [JNull, JNumber_unsigned 5]), (''b'', JBinary ''xyz'' (Some 7))])
   \<and> from_cbor (2 ^ 40) Tag_store (to_cbor (JObject [(''a'', JArray [JNull, JNumber_integer 5]), (''b'', JBinary ''xyz'' (Some 7))]))
     = Inr (JObject [(''a'', JArray [JNull, JNumber_unsigned 5]), (''b'', JBinary ''xyz'' (Some 7))])"
  using binary_roundtrip [of "JObject [(''a'', JArray [JNull, JNumber_integer 5]), (''b'', JBinary ''xyz'' (Some 7))]" "2 ^ 40" Tag_store]
  by (simp add: smap_inv_Cons)

text \<open>
  C8. The scanner makes progress: every token other than the end of input and a lexical error has
  consumed at least one character, and no call puts back more than it has read. This is what
  bounds the parser's loop.
\<close>

theorem scan_progress:
  "length (pending (snd (scan l))) \<le> length (pending l) \<and>
   (fst (scan l) \<noteq> Tok_end_of_input \<longrightarrow> fst (scan l) \<noteq> Tok_parse_error \<longrightarrow>
      length (pending (snd (scan l))) < length (pending l))"
  by (rule scan_consumes)

theorem scan_progress_witness:
  "length (pending (snd (scan (lexer_init ''[1]'' False)))) < 3"
proof -
  have "fst (scan (lexer_init ''[1]'' False)) = Tok_begin_array" by code_simp
  then show ?thesis using scan_progress [of "lexer_init ''[1]'' False"] by (simp add: pending_def lexer_init_def)
qed

section \<open>Messages\<close>

text \<open>
  C9. A message is one line: for a sendable message (type and payload in UTF-8), what
  \<open>serialize\<close> returns is a line without control characters and a newline, and parsing the line
  gives the message back, with the payload as the parser represents it.
\<close>

theorem message_roundtrip:
  assumes "sendable m"
  shows "\<exists>line. message_serialize m = Inr (line @ newline) \<and> printable line \<and> strip_cr line = line
    \<and> message_parse line = Inr (m\<lparr>msg_payload := parsed (msg_payload m)\<rparr>)"
  using message_serialize_line [OF assms] message_line_printable [OF assms] message_parse_line [OF assms]
  by (auto simp: strip_cr_printable)

theorem message_roundtrip_witness:
  "\<exists>line. message_serialize (handshake 7) = Inr (line @ newline) \<and> printable line \<and> strip_cr line = line
    \<and> message_parse line = Inr ((handshake 7)\<lparr>msg_payload := parsed (msg_payload (handshake 7))\<rparr>)"
  by (rule message_roundtrip) simp

text \<open>
  C10. Framing: however the socket cuts the text of a sequence of sendable messages into pieces, the
  client's receive loop puts exactly these messages into its queue, in order, and its buffer is
  empty at the end.
\<close>

theorem receive_any_chunks:
  assumes "list_all sendable ms" "concat chunks = sent_text ms" "nc_running nc" "nc_incoming nc = []"
  shows "fold net_receive chunks nc = nc\<lparr>nc_recvQueue := nc_recvQueue nc @ map as_read ms\<rparr>"
  by (rule receive_sent [OF assms])

theorem receive_any_chunks_witness:
  "fold net_receive [take 5 (sent_text [handshake 1]), drop 5 (sent_text [handshake 1])] (net_init\<lparr>nc_running := True\<rparr>)
     = net_init\<lparr>nc_running := True, nc_recvQueue := [as_read (handshake 1)]\<rparr>"
  using receive_any_chunks [of "[handshake 1]"
    "[take 5 (sent_text [handshake 1]), drop 5 (sent_text [handshake 1])]" "net_init\<lparr>nc_running := True\<rparr>"]
  by (simp add: net_init_def)

section \<open>The account database\<close>

text \<open>
  C11. A save on a working disk succeeds, and opening the file again gives every account back: the
  same users with the same passwords, identifiers, resources and camp levels.
\<close>

theorem db_save_open:
  assumes "accounts_ok (db_accounts db)"
  shows "\<exists>disk db'. db_save io_ok db = (Inr (), db\<lparr>db_disk := disk\<rparr>)
    \<and> db_open (db_filepath db) disk = Inr db' \<and> map_of (db_accounts db') = map_of (db_accounts db)"
  using db_save_ok [OF assms] by (auto simp: loads_def)

theorem db_save_open_witness:
  "\<exists>disk db'. db_save io_ok \<lparr>db_filepath = ''f'', db_accounts = [(''u'', account_init)], db_disk = []\<rparr>
      = (Inr (), \<lparr>db_filepath = ''f'', db_accounts = [(''u'', account_init)], db_disk = disk\<rparr>)
    \<and> db_open ''f'' disk = Inr db' \<and> map_of (db_accounts db') = [''u'' \<mapsto> account_init]"
  using db_save_open [of "\<lparr>db_filepath = ''f'', db_accounts = [(''u'', account_init)], db_disk = []\<rparr>"]
  by (simp add: accounts_ok_def umap_inv_def account_ok_def account_init_def utf8_ascii)

text \<open>
  C12. A save is atomic as long as writes are complete: whichever of its system calls is the last one
  the program gets to, the file holds the old accounts or the new ones, and loads. The states the
  disk goes through begin with the disk before the save and end with what \<open>save()\<close> leaves.
\<close>

theorem db_save_crash_safe:
  assumes "loads (db_filepath db) (db_disk db) old" "accounts_ok (db_accounts db)"
    "io_open io \<or> map_of (db_disk db) (db_tmp db) = None" "io_written io = None"
    "d \<in> set (save_trace io db)"
  shows "(loads (db_filepath db) d old \<or> loads (db_filepath db) d (map_of (db_accounts db)))
    \<and> hd (save_trace io db) = db_disk db \<and> last (save_trace io db) = db_disk (snd (db_save io db))"
  using save_crash_safe [OF assms] save_trace_ends by simp

theorem db_save_crash_safe_witness:
  "loads ''f'' [(''f.tmp'', [])] Map.empty \<or> loads ''f'' [(''f.tmp'', [])] [''u'' \<mapsto> account_init]"
proof -
  let ?db = "\<lparr>db_filepath = ''f'', db_accounts = [(''u'', account_init)], db_disk = []\<rparr>"
  have "loads ''f'' [] Map.empty" by (simp add: loads_def db_open_def accounts_ok_def)
  moreover have "[(''f.tmp'', [])] \<in> set (save_trace io_ok ?db)"
    by (simp add: save_trace_def Let_def disk_open_write_def io_ok_def umap_set_def db_tmp_def split: sum.split)
  ultimately show ?thesis
    using db_save_crash_safe [of ?db Map.empty io_ok "[(''f.tmp'', [])]"]
    by (simp add: io_ok_def accounts_ok_def umap_inv_def account_ok_def account_init_def utf8_ascii)
qed

text \<open>
  C13. Whatever the file holds, if it opens then every account in memory can be written again: names,
  passwords, identifiers and camp names are well-formed UTF-8, so a later save on a working disk
  never throws.
\<close>

theorem db_open_saves:
  assumes "db_open filepath disk = Inr db"
  shows "synced db \<and> fst (db_save io_ok db) = Inr ()"
  using db_open_synced [OF assms] db_save_synced [OF db_open_ok [OF assms]] by blast

theorem db_open_saves_witness:
  "\<exists>db. db_open ''f'' [(''f'', ''{\"accounts\":{\"u\":{\"password\":\"p\"}}}'')] = Inr db
    \<and> map_of (db_accounts db) ''u'' = Some (account_init\<lparr>acc_password := ''p''\<rparr>) \<and> fst (db_save io_ok db) = Inr ()"
proof -
  have "case db_open ''f'' [(''f'', ''{\"accounts\":{\"u\":{\"password\":\"p\"}}}'')] of
      Inr db \<Rightarrow> map_of (db_accounts db) ''u'' = Some (account_init\<lparr>acc_password := ''p''\<rparr>) | _ \<Rightarrow> False" by code_simp
  then obtain db where "db_open ''f'' [(''f'', ''{\"accounts\":{\"u\":{\"password\":\"p\"}}}'')] = Inr db"
      "map_of (db_accounts db) ''u'' = Some (account_init\<lparr>acc_password := ''p''\<rparr>)"
    by (auto split: sum.splits simp del: map_of_eq_Some_iff Some_eq_map_of_iff)
  then show ?thesis using db_open_saves by blast
qed

text \<open>
  C14. A write that is cut short is not noticed: the save reports success and the rename replaces the
  good file by the first part of the new text. When nothing was written, the next start fails to
  open the database with the parse error 101.
\<close>

theorem db_save_write_unchecked:
  assumes "accounts_ok (db_accounts db)"
  shows "\<exists>disk t. accounts_text (db_accounts db) = Inr t
    \<and> db_save (io_ok\<lparr>io_written := Some n\<rparr>) db = (Inr (), db\<lparr>db_disk := disk\<rparr>)
    \<and> map_of disk (db_filepath db) = Some (take n t)
    \<and> (n = 0 \<longrightarrow> (\<exists>pos what. db_open (db_filepath db) disk = Inl (Json_parse_error 101 pos what)))"
proof -
  have "case json_read_stream [] of Inl (Json_parse_error i _ _) \<Rightarrow> i = 101 | _ \<Rightarrow> False" by code_simp
  then have "\<exists>pos what. json_read_stream [] = Inl (Json_parse_error 101 pos what)" by (auto split: sum.splits exn.splits)
  then show ?thesis
    using db_save_cut [OF accounts_text_ok [OF assms], of n] accounts_text_ok [OF assms]
    by (auto simp: db_open_def)
qed

theorem db_save_write_unchecked_witness:
  "\<exists>disk e. db_save (io_ok\<lparr>io_written := Some 0\<rparr>) \<lparr>db_filepath = ''f'', db_accounts = [], db_disk = [(''f'', ''{}'')]\<rparr>
      = (Inr (), \<lparr>db_filepath = ''f'', db_accounts = [], db_disk = disk\<rparr>)
    \<and> db_open ''f'' disk = Inl e"
  using db_save_write_unchecked [of "\<lparr>db_filepath = ''f'', db_accounts = [], db_disk = [(''f'', ''{}'')]\<rparr>" 0]
  by (auto simp: accounts_ok_def)

text \<open>
  C15. \<open>updateResources\<close> changes the resources of the account with the identifier and nothing else: the
  map of accounts differs in that user only, whose account keeps its password, identifier and camp
  levels; no user appears or disappears, the file is the same, and what \<open>getResources\<close> returns is
  the new resources for this identifier and what it was for every other. An unknown identifier
  throws and changes nothing, also not the disk. This holds in memory whatever the disk does.
\<close>

theorem update_then_get:
  assumes "umap_inv (db_accounts db)"
  shows "case find_uuid uuid (db_accounts db) of
     None \<Rightarrow> db_getResources db uuid = Inl (uuid_not_found uuid)
       \<and> db_updateResources io uuid r db = (Inl (uuid_not_found uuid), db)
   | Some (user, acc) \<Rightarrow> (let db' = snd (db_updateResources io uuid r db) in
       map_of (db_accounts db) user = Some acc \<and> acc_uuid acc = uuid
       \<and> map_of (db_accounts db') = (map_of (db_accounts db))(user \<mapsto>
           \<lparr>acc_password = acc_password acc, acc_uuid = uuid, acc_resources = r, acc_campLevels = acc_campLevels acc\<rparr>)
       \<and> map fst (db_accounts db') = map fst (db_accounts db) \<and> db_filepath db' = db_filepath db
       \<and> db_getResources db uuid = Inr (acc_resources acc) \<and> db_getResources db' uuid = Inr r
       \<and> (uuid' = uuid \<or> db_getResources db' uuid' = db_getResources db uuid'))"
proof (cases "find_uuid uuid (db_accounts db)")
  case None
  then show ?thesis by (simp add: db_getResources_def db_updateResources_def update_uuid_def)
next
  case (Some p)
  obtain user acc where p: "p = (user, acc)" by fastforce
  let ?f = "\<lambda>acc. acc\<lparr>acc_resources := r\<rparr>"
  have acc: "map_of (db_accounts db) user = Some acc" "acc_uuid acc = uuid"
    using find_uuid_lookup [OF assms Some [unfolded p]] by simp_all
  then have "acc_uuid (?f acc) = uuid"
      "?f acc = \<lparr>acc_password = acc_password acc, acc_uuid = uuid, acc_resources = r, acc_campLevels = acc_campLevels acc\<rparr>"
    by simp_all
  note upd = update_uuid_accounts [where f = ?f and io = io, OF assms Some [unfolded p] this(1)]
    and whole = update_uuid_map [where f = ?f and io = io, OF Some [unfolded p], unfolded this(2)]
    and keys = update_uuid_keys [where f = ?f and io = io and uuid = uuid, OF assms]
  show ?thesis
    using upd(1) upd(2) [of uuid'] whole keys acc Some p
    by (cases "uuid' = uuid") (simp_all add: db_getResources_def db_updateResources_def Let_def
        del: map_of_eq_Some_iff Some_eq_map_of_iff)
qed

theorem update_then_get_witness:
  "map_of (db_accounts (snd (db_updateResources io_ok ''x'' \<lparr>wood = 1, food = 2, iron = 3\<rparr>
     \<lparr>db_filepath = ''f'', db_accounts = [(''u'', account_init\<lparr>acc_uuid := ''x'', acc_password := ''p''\<rparr>), (''v'', account_init)], db_disk = []\<rparr>)))
   = [''u'' \<mapsto> \<lparr>acc_password = ''p'', acc_uuid = ''x'', acc_resources = \<lparr>wood = 1, food = 2, iron = 3\<rparr>, acc_campLevels = []\<rparr>,
      ''v'' \<mapsto> account_init]"
  using update_then_get [of "\<lparr>db_filepath = ''f'',
      db_accounts = [(''u'', account_init\<lparr>acc_uuid := ''x'', acc_password := ''p''\<rparr>), (''v'', account_init)], db_disk = []\<rparr>"
      "''x''" io_ok "\<lparr>wood = 1, food = 2, iron = 3\<rparr>"]
  by (simp add: umap_inv_def account_init_def Let_def fun_upd_twist)

text \<open>
  C16. \<open>addUser\<close> refines an insertion into a map from names to accounts: a known name throws and
  changes nothing; for a new one the map gains exactly the account, with the password and the
  identifier returned, no resources and no camps, and after a save that succeeds the disk holds
  the new map.
\<close>

theorem addUser_inserts:
  assumes "synced db" "utf8_valid name" "utf8_valid password"
  shows "case db_addUser io_ok draws name password db of
     (Inl e, db') \<Rightarrow> map_of (db_accounts db) name \<noteq> None \<and> db' = db
       \<and> e = Runtime_error (''User already exists: '' @ name)
   | (Inr uuid, db') \<Rightarrow> map_of (db_accounts db) name = None
       \<and> map_of (db_accounts db') = (map_of (db_accounts db))
           (name \<mapsto> \<lparr>acc_password = password, acc_uuid = uuid, acc_resources = \<lparr>wood = 0, food = 0, iron = 0\<rparr>,
                     acc_campLevels = []\<rparr>)
       \<and> synced db'"
proof (cases "map_of (db_accounts db) name")
  case None
  have "accounts_ok (db_accounts (snd (db_addUser io_ok draws name password db)))"
    using addUser_ok assms by (simp add: synced_def)
  then have "accounts_ok (umap_set name (account_init\<lparr>acc_password := password,
      acc_uuid := generateUuid (fst draws) (snd draws)\<rparr>) (db_accounts db))"
    using None by (simp add: db_addUser_def db_userExists_def Let_def case_prod_beta db_save_frame)
  then show ?thesis
    using None db_save_synced [of "db\<lparr>db_accounts := umap_set name (account_init\<lparr>acc_password := password,
      acc_uuid := generateUuid (fst draws) (snd draws)\<rparr>) (db_accounts db)\<rparr>"]
    by (simp add: db_addUser_def db_userExists_def Let_def case_prod_beta db_save_frame account_init_def resources_init_def)
qed (simp add: db_addUser_def db_userExists_def)

theorem addUser_inserts_witness:
  "map_of (db_accounts (snd (db_addUser io_ok (1, 2) ''u'' ''p'' \<lparr>db_filepath = ''f'', db_accounts = [], db_disk = []\<rparr>))) ''u''
     \<noteq> None"
proof -
  let ?db = "\<lparr>db_filepath = ''f'', db_accounts = [], db_disk = []\<rparr>"
  have "db_open ''f'' [] = Inr ?db" by (simp add: db_open_def)
  then have "synced ?db" by (rule db_open_synced)
  from addUser_inserts [OF this, of "''u''" "''p''" "(1, 2)"] show ?thesis
    by (cases "db_addUser io_ok (1, 2) ''u'' ''p'' ?db"; cases "fst (db_addUser io_ok (1, 2) ''u'' ''p'' ?db)")
      (auto simp: utf8_ascii)
qed

text \<open>
  C17. An identifier has 32 characters, all of them digits or letters from a to f, and two pairs of draws
  give the same identifier only when they are equal.
\<close>

theorem generateUuid_unique:
  "length (generateUuid a b) = 32 \<and> set (generateUuid a b) \<subseteq> set ''0123456789abcdef''
   \<and> utf8_valid (generateUuid a b) \<and> (generateUuid a b = generateUuid c d) = (a = c \<and> b = d)"
  using generateUuid_length generateUuid_digits generateUuid_inj generateUuid_utf8 by blast

section \<open>The server\<close>

text \<open>
  C18. In every state the server reaches, the session map has no duplicate and no null entry, every
  entry refers to a session of that client id, no session writes with an empty queue, the account
  of every logged-in session exists, and the accounts are fit to be saved.
\<close>

theorem server_keeps_invariant:
  assumes "server_runs db evs sv" "accounts_ok (db_accounts db)"
  shows "server_inv sv"
  by (rule server_runs_inv [OF assms])

theorem server_keeps_invariant_witness:
  "server_inv (snd (server_step (Ev_accept False) (server_main \<lparr>db_filepath = ''f'', db_accounts = [], db_disk = []\<rparr>)))"
proof -
  let ?db = "\<lparr>db_filepath = ''f'', db_accounts = [], db_disk = []\<rparr>"
  obtain sv where sv: "onAccept False (server_main ?db) = (Inr (), sv)" using onAccept_ok by blast
  have "server_runs ?db ([] @ [Ev_accept False]) sv"
    by (rule server_runs.step [OF server_runs.start])
      (simp add: server_main_def server_doAccept_def, simp add: sv)
  from server_keeps_invariant [OF this] sv show ?thesis by (simp add: accounts_ok_def)
qed

text \<open>
  C19. An event that can happen in a reachable state either succeeds or ends the program in one of
  four ways only: an accept fails, whose log message passes a \<open>std::string\<close> for \<open>%s\<close>; the file
  system fails the save of a resource tick; a client that is no longer in the session map logs in; a
  message has a sequence number that is a double outside the range of 32 bits. No queue is popped or
  read while it is empty.
\<close>

theorem server_step_outcomes:
  assumes "server_runs db evs sv" "accounts_ok (db_accounts db)" "enabled ev sv"
  shows "case server_step ev sv of
     (Inr _, sv') \<Rightarrow> server_inv sv'
   | (Inl e, _) \<Rightarrow> fatal ev sv e"
  using server_step_fine [OF server_runs_inv [OF assms(1,2)] assms(3)] by (auto split: prod.splits sum.splits)

theorem server_step_outcomes_witness:
  "case server_step (Ev_tick False (\<lambda>_. io_ok)) (server_main \<lparr>db_filepath = ''f'', db_accounts = [], db_disk = []\<rparr>) of
     (Inr _, sv') \<Rightarrow> server_inv sv'
   | (Inl e, _) \<Rightarrow> fatal (Ev_tick False (\<lambda>_. io_ok)) (server_main \<lparr>db_filepath = ''f'', db_accounts = [], db_disk = []\<rparr>) e"
  by (rule server_step_outcomes [OF server_runs.start])
    (simp_all add: accounts_ok_def server_main_def server_init_def server_doAccept_def server_registerHandler_def
      scheduleResourceTick_def)

text \<open>
  C20. Messages to a client are neither reordered, duplicated nor lost while they are queued: along any
  run the texts of a session (received by the peer, being written, waiting, posted) only grow at the
  end, what the peer has received only grows, and it is at every moment an initial part of what was
  sent.
\<close>

theorem sent_in_order:
  assumes "server_runs db (evs @ evs') sv'" "accounts_ok (db_accounts db)"
  shows "\<exists>sv. server_runs db evs sv \<and> (\<forall>r < length (sv_heap sv).
      prefix (session_texts (sv_heap sv ! r)) (session_texts (sv_heap sv' ! r))
    \<and> prefix (ss_sent (sv_heap sv ! r)) (ss_sent (sv_heap sv' ! r))
    \<and> prefix (ss_sent (sv_heap sv' ! r)) (session_texts (sv_heap sv' ! r)))"
  using server_runs_go_on [OF assms, of evs] sent_prefix_texts
  by (auto simp: sessions_go_on_def goes_on_def)

theorem sent_in_order_witness:
  "\<exists>sv sv'. server_runs \<lparr>db_filepath = ''f'', db_accounts = [], db_disk = []\<rparr> [Ev_accept False] sv
    \<and> server_runs \<lparr>db_filepath = ''f'', db_accounts = [], db_disk = []\<rparr> [Ev_accept False, Ev_posted 0] sv'
    \<and> sv_heap sv \<noteq> [] \<and> prefix (session_texts (sv_heap sv ! 0)) (session_texts (sv_heap sv' ! 0))
    \<and> prefix (ss_sent (sv_heap sv' ! 0)) (session_texts (sv_heap sv' ! 0))"
proof -
  let ?db = "\<lparr>db_filepath = ''f'', db_accounts = [], db_disk = []\<rparr>"
  obtain sv1 where sv1: "onAccept False (server_main ?db) = (Inr (), sv1)" using onAccept_ok by blast
  have run1: "server_runs ?db ([] @ [Ev_accept False]) sv1"
    by (rule server_runs.step [OF server_runs.start]) (simp add: server_main_def server_doAccept_def, simp add: sv1)
  have en: "enabled (Ev_posted 0) sv1"
    using sv1 by (auto simp: onAccept_def Let_def heap_send_post heap_update_def server_doAccept_def session_post_def
        session_start_def session_doRead_def server_main_def server_init_def server_registerHandler_def scheduleResourceTick_def)
  have "server_inv sv1" using server_runs_inv [OF run1] by (simp add: accounts_ok_def)
  from session_onPosted_fine [OF this, of 0] en obtain sv2 where sv2: "session_onPosted 0 sv1 = (Inr (), sv2)"
    by (auto split: prod.splits sum.splits)
  have run2: "server_runs ?db ([Ev_accept False] @ [Ev_posted 0]) sv2"
    by (rule server_runs.step [OF run1 [simplified] en]) (simp add: sv2)
  from sent_in_order [OF run2] obtain sv where sv: "server_runs ?db [Ev_accept False] sv"
      "\<forall>r < length (sv_heap sv). prefix (session_texts (sv_heap sv ! r)) (session_texts (sv_heap sv2 ! r))
        \<and> prefix (ss_sent (sv_heap sv ! r)) (ss_sent (sv_heap sv2 ! r))
        \<and> prefix (ss_sent (sv_heap sv2 ! r)) (session_texts (sv_heap sv2 ! r))"
    by (auto simp: accounts_ok_def)
  from sv(1) have "server_runs ?db ([] @ [Ev_accept False]) sv" by simp
  then obtain sv0 where "onAccept False sv0 = (Inr (), sv)"
    by (rule server_runs_stepE) simp
  then have "0 < length (sv_heap sv)" using onAccept_sessions by simp
  moreover from this sv(2) have "prefix (session_texts (sv_heap sv ! 0)) (session_texts (sv_heap sv2 ! 0))"
      "prefix (ss_sent (sv_heap sv2 ! 0)) (session_texts (sv_heap sv2 ! 0))" by blast+
  ultimately show ?thesis using sv(1) run2 by (intro exI [of _ sv] exI [of _ sv2]) simp
qed

text \<open>
  C21. A tick that goes well adds ten of each resource to an account for every logged-in session in the
  map, raises the update number of exactly these clients by one, changes no other account and no
  other number, and arms the timer again.
\<close>

theorem tick_produces:
  assumes "server_inv sv" "onResourceTick False io sv = (Inr (), sv')"
  shows "(\<forall>u. u \<noteq> [] \<longrightarrow> pool_of sv' u = map_option (add_pool (logged_in sv (sv_sessions sv) u)) (pool_of sv u))
    \<and> (\<forall>c. seq_of sv' c = (if \<exists>r. (c, Some r) \<in> set (sv_sessions sv) \<and> ss_uuid (sv_heap sv ! r) \<noteq> []
        then seq_of sv c + 1 else seq_of sv c))
    \<and> sv_timer sv'"
  by (rule onResourceTick_done [OF assms])

theorem tick_produces_witness:
  "\<exists>sv sv'. onResourceTick False (\<lambda>_. io_ok) sv = (Inr (), sv') \<and> seq_of sv 1 = 0 \<and> seq_of sv' 1 = 1
    \<and> pool_of sv' ''x'' = Some \<lparr>wood = 10, food = 10, iron = 10\<rparr> \<and> sv_timer sv'"
proof -
  let ?db = "\<lparr>db_filepath = ''f'', db_accounts = [(''u'', account_init\<lparr>acc_uuid := ''x''\<rparr>)], db_disk = []\<rparr>"
  let ?sv = "(server_main ?db)\<lparr>sv_heap := [(session_init 1)\<lparr>ss_uuid := ''x''\<rparr>], sv_sessions := [(1, Some 0)]\<rparr>"
  let ?db1 = "?db\<lparr>db_accounts := [(''u'', account_init\<lparr>acc_uuid := ''x'', acc_resources := \<lparr>wood = 10, food = 10, iron = 10\<rparr>\<rparr>)]\<rparr>"
  note main = server_main_def server_init_def server_doAccept_def server_registerHandler_def scheduleResourceTick_def
  have "accounts_ok (db_accounts ?db1)"
    by (simp add: accounts_ok_def umap_inv_def account_ok_def account_init_def utf8_ascii)
  from db_save_ok [OF this] obtain disk where "db_save io_ok ?db1 = (Inr (), ?db1\<lparr>db_disk := disk\<rparr>)" by blast
  then have "\<exists>sv'. onResourceTick False (\<lambda>_. io_ok) ?sv = (Inr (), sv')"
    by (simp add: onResourceTick_def main tick_session_def session_init_def account_init_def resources_init_def
        db_getResources_def db_updateResources_def update_uuid_def produce_def next_sequence_def heap_send_post utf8_ascii
        umap_set_def Let_def)
  then obtain sv' where tick: "onResourceTick False (\<lambda>_. io_ok) ?sv = (Inr (), sv')" ..
  have "server_inv ?sv"
    by (simp add: server_inv_def main session_inv_def session_known_def session_init_def accounts_ok_def umap_inv_def
        account_ok_def account_init_def utf8_ascii)
  from tick_produces [OF this tick] have "pool_of sv' ''x'' = Some \<lparr>wood = 10, food = 10, iron = 10\<rparr>" "seq_of sv' 1 = 1" "sv_timer sv'"
    by (simp_all add: main pool_of_def seq_of_def add_pool_def session_init_def account_init_def resources_init_def)
  moreover have "seq_of ?sv 1 = 0" by (simp add: seq_of_def main)
  ultimately show ?thesis using tick by blast
qed

text \<open>
  C22. Logging in to a known account, from the line the server reads to the reply it posts: with the
  right password the session gets the account's identifier and the reply with it is the next text
  posted; with a wrong password nothing is sent and only the line is consumed. In both cases the
  database does not change and the session reads on.
\<close>

theorem login_to_known_account:
  assumes "utf8_valid user" "utf8_valid pass" "utf8_valid (acc_uuid acc)"
    "r < length (sv_heap sv)" "ss_reading (sv_heap sv ! r)"
    "ss_incoming (sv_heap sv ! r) = message_text (login_request user pass) @ rest"
    "map_of (sv_sessions sv) (ss_clientId (sv_heap sv ! r)) = Some (Some r)"
    "map_of (sv_handlers sv) MSG_LOGIN_REQUEST = Some Login_handler"
    "map_of (db_accounts (sv_db sv)) user = Some acc"
  shows "\<exists>sv'. session_onLine io draws r sv = (Inr (), sv') \<and> sv_db sv' = sv_db sv
    \<and> sv_sessions sv' = sv_sessions sv
    \<and> sv_heap sv' = (sv_heap sv)[r := (if acc_password acc = pass
        then session_post (login_reply (acc_uuid acc)) (session_setUUID (acc_uuid acc)
               ((sv_heap sv ! r)\<lparr>ss_incoming := rest, ss_reading := True\<rparr>))
        else (sv_heap sv ! r)\<lparr>ss_incoming := rest, ss_reading := True\<rparr>)]"
  by (rule login_known [OF assms])

theorem login_to_known_account_witness:
  "\<exists>sv sv'. session_onLine io_ok (0, 0) 0 sv = (Inr (), sv') \<and> ss_uuid (sv_heap sv ! 0) = [] \<and> ss_uuid (sv_heap sv' ! 0) = ''x''"
proof -
  let ?db = "\<lparr>db_filepath = ''f'', db_accounts = [(''u'', account_init\<lparr>acc_password := ''p'', acc_uuid := ''x''\<rparr>)], db_disk = []\<rparr>"
  let ?s = "(session_init 1)\<lparr>ss_reading := True, ss_incoming := message_text (login_request ''u'' ''p'')\<rparr>"
  let ?sv = "(server_main ?db)\<lparr>sv_heap := [?s], sv_sessions := [(1, Some 0)]\<rparr>"
  have "\<exists>sv'. session_onLine io_ok (0, 0) 0 ?sv = (Inr (), sv') \<and> sv_db sv' = sv_db ?sv
    \<and> sv_sessions sv' = sv_sessions ?sv
    \<and> sv_heap sv' = (sv_heap ?sv)[0 := (if acc_password (account_init\<lparr>acc_password := ''p'', acc_uuid := ''x''\<rparr>) = ''p''
        then session_post (login_reply (acc_uuid (account_init\<lparr>acc_password := ''p'', acc_uuid := ''x''\<rparr>)))
          (session_setUUID (acc_uuid (account_init\<lparr>acc_password := ''p'', acc_uuid := ''x''\<rparr>))
               ((sv_heap ?sv ! 0)\<lparr>ss_incoming := [], ss_reading := True\<rparr>))
        else (sv_heap ?sv ! 0)\<lparr>ss_incoming := [], ss_reading := True\<rparr>)]"
    by (rule login_to_known_account [where user = "''u''"])
      (simp_all add: utf8_ascii server_main_def server_init_def server_registerHandler_def server_doAccept_def
        scheduleResourceTick_def session_init_def umap_set_def)
  then obtain sv' where "session_onLine io_ok (0, 0) 0 ?sv = (Inr (), sv')" "ss_uuid (sv_heap sv' ! 0) = ''x''"
    by (auto simp: session_setUUID_def)
  moreover have "ss_uuid (sv_heap ?sv ! 0) = []" by (simp add: session_init_def)
  ultimately show ?thesis by blast
qed

text \<open>
  C23. Logging in with an unknown name registers it: when the save succeeds the accounts gain exactly
  this one, with the password given and a fresh identifier, memory and disk agree, and the session
  gets the identifier and the reply.
\<close>

theorem login_registers:
  assumes "map_of (db_accounts (sv_db sv)) user = None" "utf8_valid user" "utf8_valid pass"
    "accounts_ok (db_accounts (sv_db sv))" "map_of (sv_sessions sv) cid = Some (Some r)"
  shows "\<exists>sv'. login_user io_ok draws cid user pass sv = (Inr (), sv')
    \<and> (let uuid = generateUuid (fst draws) (snd draws);
           acc = account_init\<lparr>acc_password := pass, acc_uuid := uuid\<rparr>
       in map_of (db_accounts (sv_db sv')) = (map_of (db_accounts (sv_db sv)))(user \<mapsto> acc) \<and> synced (sv_db sv')
        \<and> sv_heap sv' = (sv_heap sv)[r := session_post (login_reply uuid) (session_setUUID uuid (sv_heap sv ! r))])"
  by (rule login_new [OF assms])

theorem login_registers_witness:
  "\<exists>sv'. login_user io_ok (1, 2) 1 ''u'' ''p'' ((server_main \<lparr>db_filepath = ''f'', db_accounts = [], db_disk = []\<rparr>)
      \<lparr>sv_heap := [session_init 1], sv_sessions := [(1, Some 0)]\<rparr>) = (Inr (), sv')
    \<and> map_of (db_accounts (sv_db sv')) ''u'' \<noteq> None"
  using login_registers [of "(server_main \<lparr>db_filepath = ''f'', db_accounts = [], db_disk = []\<rparr>)
      \<lparr>sv_heap := [session_init 1], sv_sessions := [(1, Some 0)]\<rparr>" "''u''" "''p''" 1 0 "(1, 2)"]
  by (auto simp: utf8_ascii server_main_def server_init_def server_registerHandler_def server_doAccept_def
      scheduleResourceTick_def accounts_ok_def Let_def)

text \<open>
  C24. Client ids are eight bits and are handed out again without a check: when an id comes round while
  its session is connected the new session replaces it in the map, and when the earlier session's
  connection then ends, the later session is taken from the map although it is connected.
\<close>

theorem reused_id_loses_session:
  assumes "server_inv sv" "map_of (sv_sessions sv) (sv_nextClientId sv) = Some (Some old)"
    "onAccept False sv = (Inr (), sv')"
  shows "map_of (sv_sessions sv') (sv_nextClientId sv) = Some (Some (length (sv_heap sv)))
    \<and> map_of (sv_sessions (session_onReadError old sv')) (sv_nextClientId sv) = None
    \<and> ss_reading (sv_heap (session_onReadError old sv') ! length (sv_heap sv))"
proof -
  obtain old' where o: "old < length (sv_heap sv)" "ss_clientId (sv_heap sv ! old) = sv_nextClientId sv"
    using server_inv_session [OF assms(1,2)] by blast
  note acc = onAccept_sessions [OF assms(3)]
  have "map_of (sv_sessions sv') (sv_nextClientId sv) = Some (Some (length (sv_heap sv)))" using acc by simp
  moreover from stale_disconnect [OF this, of old] o acc
  have "map_of (sv_sessions (session_onReadError old sv')) (sv_nextClientId sv) = None
    \<and> sv_heap (session_onReadError old sv') ! length (sv_heap sv) = sv_heap sv' ! length (sv_heap sv)" by simp
  moreover have "ss_reading (sv_heap sv' ! length (sv_heap sv))"
    using assms(3) by (auto simp: onAccept_def Let_def heap_send_post heap_update_def server_doAccept_def
        session_start_def session_doRead_def)
  ultimately show ?thesis by simp
qed

theorem reused_id_loses_session_witness:
  "\<exists>sv sv'. onAccept False sv = (Inr (), sv') \<and> map_of (sv_sessions sv') 1 = Some (Some 1)
    \<and> map_of (sv_sessions (session_onReadError 0 sv')) 1 = None"
proof -
  let ?sv = "(server_main \<lparr>db_filepath = ''f'', db_accounts = [], db_disk = []\<rparr>)
      \<lparr>sv_heap := [session_init 1], sv_sessions := [(1, Some 0)]\<rparr>"
  have "server_inv ?sv"
    by (simp add: server_inv_def server_main_def server_init_def server_registerHandler_def server_doAccept_def
        scheduleResourceTick_def accounts_ok_def umap_inv_def)
  moreover have "sv_nextClientId ?sv = 1"
    by (simp add: server_main_def server_init_def server_registerHandler_def server_doAccept_def scheduleResourceTick_def)
  moreover obtain sv' where "onAccept False ?sv = (Inr (), sv')" using onAccept_ok by blast
  ultimately show ?thesis using reused_id_loses_session [of ?sv 0 sv'] by auto
qed

text \<open>
  C25. A login from a client that has left the session map, for instance because a write to it failed
  while its next line was being read. With the right password, and with a new name that could be
  registered and saved, \<open>getSession\<close> puts a null pointer into the map and the handler dereferences
  it: the behaviour is undefined. With a wrong password nothing happens, and when the new account
  cannot be saved the handler throws the error of the save before it gets that far.
\<close>

theorem login_after_disconnect:
  "login_user io draws cid user pass (onClientDisconnect cid sv) =
    (let gone = onClientDisconnect cid sv;
         null_dereferenced = (\<lambda>s. (Inl null_session, s\<lparr>sv_sessions := umap_set cid None (sv_sessions s)\<rparr>))
     in case map_of (db_accounts (sv_db sv)) user of
          Some acc \<Rightarrow> if acc_password acc = pass then null_dereferenced gone else (Inr (), gone)
        | None \<Rightarrow> (case db_addUser io draws user pass (sv_db sv) of
            (Inl e, db') \<Rightarrow> (Inl e, gone\<lparr>sv_db := db'\<rparr>)
          | (Inr uuid, db') \<Rightarrow> null_dereferenced (gone\<lparr>sv_db := db'\<rparr>)))"
proof (cases "map_of (db_accounts (sv_db sv)) user")
  case None
  then show ?thesis
    by (simp add: login_unknown login_finish_gone Let_def del: map_of_eq_None_iff split: prod.split sum.split)
next
  case (Some acc)
  then show ?thesis
    using login_right [of "onClientDisconnect cid sv" user acc pass io draws cid]
      login_wrong [of "onClientDisconnect cid sv" user acc pass io draws cid]
    by (cases "acc_password acc = pass") (simp_all add: login_finish_gone Let_def)
qed

theorem login_after_disconnect_witness:
  "fst (login_user io_ok (0, 0) 1 ''u'' ''p'' (onClientDisconnect 1 (server_main
     \<lparr>db_filepath = ''f'', db_accounts = [(''u'', account_init\<lparr>acc_password := ''p''\<rparr>)], db_disk = []\<rparr>))) = Inl null_session"
  by (subst login_after_disconnect)
    (simp add: server_main_def server_init_def server_registerHandler_def server_doAccept_def scheduleResourceTick_def Let_def)

section \<open>The client\<close>

text \<open>
  C26. The sequence filter: a message is handled exactly when its number is the successor of the last
  one of its type, without wrapping round. Then its number is noted and it goes to the context, when
  it assigns the client id, or else to the scene, and what they return or throw is the outcome;
  otherwise it is dropped and nothing but the entry of its type can be new. Either way the last
  number of its type grows by one or stays, that of every other type stays, and a poll never lowers
  one, so a number of a type is handled at most once.
\<close>

theorem sequence_filter:
  "app_onMessage sc m ctx =
     (if next_for ctx m
      then (if msg_type m = MSG_ASSIGN_CLIENT_ID
            then (case rbind (json_at (msg_payload m) ''clientId'') get_uint8 of
                    Inl e \<Rightarrow> (Inl e, taken m ctx)
                  | Inr cid \<Rightarrow> (Inr (), (taken m ctx)\<lparr>gc_clientId := ucast cid\<rparr>))
            else (case scene_handleMessage sc m (taken m ctx) of
                    Inl e \<Rightarrow> (Inl e, taken m ctx)
                  | Inr (handled, ctx') \<Rightarrow> (Inr (), ctx')))
      else (Inr (), set_last_seq (msg_type m) (last_seq (msg_type m) ctx) ctx))
   \<and> unat (last_seq t (snd (app_onMessage sc m ctx)))
     = unat (last_seq t ctx) + (if t = msg_type m \<and> next_for ctx m then 1 else 0)
   \<and> (next_for ctx m \<or> app_onMessage sc m ctx = (Inr (), set_last_seq (msg_type m) (last_seq (msg_type m) ctx) ctx))
   \<and> unat (last_seq t ctx) \<le> unat (last_seq t (snd (snd (app_poll sc nc ctx))))"
  using onMessage_handled [of ctx m sc] onMessage_last_seq [of t sc m ctx] onMessage_dropped [of ctx m sc]
    app_poll_last_seq [of t ctx sc nc]
  by (cases "next_for ctx m") simp_all

text \<open>
  C27. From the wire to the screen's numbers: when the server's consecutive updates for the player's
  identifier arrive in whatever pieces, the client in the game scene shows the last of them and has
  used up queue and buffer.
\<close>

theorem client_shows_last_update:
  assumes "utf8_valid (gc_uuid ctx)" "nc_running nc" "nc_incoming nc = []" "nc_recvQueue nc = []"
    "concat chunks = sent_text (updates (last_seq MSG_RESOURCE_UPDATE ctx) (gc_uuid ctx) pools)"
    "unat (last_seq MSG_RESOURCE_UPDATE ctx) + length pools < 2 ^ 32"
  shows "\<exists>ctx'. app_poll (Some Game_scene) (fold net_receive chunks nc) ctx = (Inr (), nc, ctx')
    \<and> gc_player ctx' = last (gc_player ctx # pools)"
  by (rule client_follows [OF assms])

theorem client_shows_last_update_witness:
  "\<exists>ctx'. app_poll (Some Game_scene) (fold net_receive [sent_text (updates 0 ''x'' [\<lparr>wood = 10, food = 10, iron = 10\<rparr>])]
      (net_init\<lparr>nc_running := True\<rparr>)) (context_init\<lparr>gc_uuid := ''x''\<rparr>) = (Inr (), net_init\<lparr>nc_running := True\<rparr>, ctx')
    \<and> gc_player ctx' = \<lparr>wood = 10, food = 10, iron = 10\<rparr>"
  using client_shows_last_update [of "context_init\<lparr>gc_uuid := ''x''\<rparr>" "net_init\<lparr>nc_running := True\<rparr>"
      "[sent_text (updates 0 ''x'' [\<lparr>wood = 10, food = 10, iron = 10\<rparr>])]" "[\<lparr>wood = 10, food = 10, iron = 10\<rparr>]"]
  by (simp add: utf8_ascii net_init_def context_init_def last_seq_def)

text \<open>
  C28. The server's numbering for an id goes on when its client leaves and another gets the id, but a
  client starts at zero: from the second user of an id on, every update is dropped, that with the
  number zero included, and the player's resources do not change, until the 32 bits of the numbers
  have wrapped round (136 years at one update a second); the update numbered one after that is the
  first to be shown.
\<close>

theorem second_user_starved:
  assumes "onAccept False (session_onReadError r sv) = (Inr (), sv')" "0 < unat (seq_of sv cid)"
    "unat (seq_of sv cid) + length pools \<le> 2 ^ 32"
    "last_seq MSG_RESOURCE_UPDATE ctx = 0" "nc_recvQueue nc = updates (seq_of sv' cid) uuid pools"
  shows "\<exists>ctx'. app_poll sc nc ctx = (Inr (), nc\<lparr>nc_recvQueue := []\<rparr>, ctx')
    \<and> gc_player ctx' = gc_player ctx \<and> last_seq MSG_RESOURCE_UPDATE ctx' = 0
    \<and> gc_player (snd (app_onMessage (Some Game_scene) (resource_update 1 (gc_uuid ctx') pool) ctx')) = pool"
proof -
  have "seq_of sv' cid = seq_of sv cid" using seq_of_accept [OF assms(1)] seq_of_disconnect by simp
  then obtain ctx' where ctx': "app_poll sc nc ctx = (Inr (), nc\<lparr>nc_recvQueue := []\<rparr>, ctx')"
      "gc_player ctx' = gc_player ctx" "last_seq MSG_RESOURCE_UPDATE ctx' = 0"
    using poll_missed [OF assms(5), of ctx sc] assms(2-4) by auto
  then show ?thesis using onMessage_update [of 1 ctx' "gc_uuid ctx'" pool] by (intro exI [of _ ctx']) simp
qed

theorem second_user_starved_witness:
  "\<exists>ctx'. app_poll (Some Game_scene) (net_init\<lparr>nc_recvQueue := updates 3 ''x'' [\<lparr>wood = 10, food = 10, iron = 10\<rparr>]\<rparr>)
       (context_init\<lparr>gc_uuid := ''x''\<rparr>) = (Inr (), net_init, ctx') \<and> gc_player ctx' = gc_player context_init"
proof -
  let ?sv = "(server_main \<lparr>db_filepath = ''f'', db_accounts = [], db_disk = []\<rparr>)
      \<lparr>sv_heap := [session_init 1], sv_sessions := [(1, Some 0)], sv_lastSeqByType := [(1, [(MSG_RESOURCE_UPDATE, 3)])]\<rparr>"
  obtain sv' where sv': "onAccept False (session_onReadError 0 ?sv) = (Inr (), sv')" using onAccept_ok by blast
  have s: "seq_of ?sv 1 = 3" by (simp add: seq_of_def)
  then have s': "seq_of sv' 1 = 3" using seq_of_accept [OF sv'] seq_of_disconnect by simp
  show ?thesis
    using second_user_starved [OF sv', of 1 "[\<lparr>wood = 10, food = 10, iron = 10\<rparr>]" "context_init\<lparr>gc_uuid := ''x''\<rparr>"
        "net_init\<lparr>nc_recvQueue := updates 3 ''x'' [\<lparr>wood = 10, food = 10, iron = 10\<rparr>]\<rparr>" "''x''" "Some Game_scene"]
    by (auto simp: s s' context_init_def last_seq_def net_init_def)
qed

text \<open>
  C29. The first login result sets the player's identifier and notes the number one, and changes nothing
  else of the game state; every further one is dropped, since the server numbers all of them one:
  whatever has been received and polled in the meantime, in any scene, a later result leaves the
  whole context as it is, so a second login on a connection has no effect on the client.
\<close>

theorem login_result_once:
  assumes "last_seq MSG_LOGIN_RESULT ctx = 0"
  shows "\<exists>ctx'. app_onMessage (Some (Login_scene ls)) (as_read (login_reply u)) ctx = (Inr (), ctx')
    \<and> gc_uuid ctx' = u \<and> gc_player ctx' = gc_player ctx \<and> gc_clientId ctx' = gc_clientId ctx
    \<and> (\<forall>t. last_seq t ctx' = (if t = MSG_LOGIN_RESULT then 1 else last_seq t ctx))
    \<and> app_onMessage sc (as_read (login_reply v)) (polled frames ctx') = (Inr (), polled frames ctx')"
proof -
  let ?ctx = "(taken (login_reply u) ctx)\<lparr>gc_uuid := u\<rparr>"
  have "unat (last_seq MSG_LOGIN_RESULT ?ctx) \<le> unat (last_seq MSG_LOGIN_RESULT (polled frames ?ctx))"
    by (rule polled_last_seq)
  then have "last_seq MSG_LOGIN_RESULT (polled frames ?ctx) \<noteq> 0" by auto
  from later_login_result [OF this] first_login_result [OF assms, of ls u] show ?thesis
    by (intro exI [of _ ?ctx]) (simp add: parsed_reply)
qed

theorem login_result_once_witness:
  "\<exists>ctx'. app_onMessage (Some (Login_scene (login_construct fr0))) (as_read (login_reply ''a'')) context_init = (Inr (), ctx')
    \<and> gc_uuid ctx' = ''a'' \<and> app_onMessage (Some (Login_scene (login_construct fr0))) (as_read (login_reply ''b'')) ctx' = (Inr (), ctx')"
  using login_result_once [of context_init "login_construct fr0" "''a''" "Some (Login_scene (login_construct fr0))" "''b''" "[]"]
  by (auto simp: polled_def context_init_def last_seq_def)

text \<open>
  C30. The frame loop always has a scene and its identifier is right: this holds after construction and
  is kept by every update, also by one that throws; and once the identifier of the player is known,
  an update that goes well ends in the game scene.
\<close>

theorem app_scenes:
  "scenes_ok (ap_scenes (app_init ok fr))
   \<and> (scenes_ok (ap_scenes app) \<longrightarrow> scenes_ok (ap_scenes (snd (app_Update ok fr keys app)))
      \<and> (app_Update ok fr keys app = (Inr (), app') \<longrightarrow> gc_uuid (ap_ctx app') \<noteq> []
          \<longrightarrow> sm_current (ap_scenes app') = Some Game_scene))"
  using app_init_scenes app_Update_scenes app_Update_game by blast

theorem app_scenes_witness:
  "scenes_ok (ap_scenes (snd (app_Update True fr0 [] (app_init True fr0))))"
  using app_scenes [of True fr0 "app_init True fr0" "[]" "app_init True fr0"] by blast

text \<open>
  C31. A text box holds only characters with codes 32 to 125, so the tilde cannot be typed; what it holds
  is therefore always text a message can carry.
\<close>

theorem textbox_text:
  assumes "typed (tb_inputText t)"
  shows "typed (tb_inputText (fst (fst (textbox_Update fr keys (t, f)))))
    \<and> utf8_valid (tb_inputText (fst (fst (textbox_Update fr keys (t, f)))))
    \<and> typed (tb_inputText (textbox_init fr))"
  using textbox_Update_typed [OF assms] typed_utf8 by (simp add: textbox_init_def typed_def)

theorem textbox_text_witness:
  "typed (tb_inputText (fst (fst (textbox_Update fr0 [97, 126] (textbox_init fr0, cfont_load)))))"
proof -
  have "typed (tb_inputText (textbox_init fr0))" by (simp add: textbox_init_def typed_def)
  then show ?thesis using textbox_text by blast
qed

text \<open>
  C32. Fitting the font ends and its result is known: a size from 8 to 20 that is 20 less a whole number,
  the largest of these at which the text fits the box, or 8. The size is left in the font, which
  both boxes of the login scene hold.
\<close>

theorem font_fits:
  "\<exists>k. cf_fontSize (snd (textbox_UpdateOutputText fr (t, f))) = 20 - of_nat k \<and> k \<le> 12
    \<and> (let width = (\<lambda>sz. fr_measure fr (tb_inputText t) sz 2); room = rc_width (GetTransformedBounds t) - 10
        in (width (20 - of_nat k) \<le> room \<or> k = 12) \<and> (\<forall>i < k. room < width (20 - of_nat i)))"
proof -
  let ?w = "\<lambda>sz. fr_measure fr (tb_inputText t) sz 2" and ?m = "rc_width (GetTransformedBounds t) - 10"
  obtain k where k: "fit_font ?w ?m 20 = 20 - of_nat k" "?w (fit_font ?w ?m 20) \<le> ?m \<or> fit_font ?w ?m 20 \<le> 8"
      "\<forall>i < k. ?m < ?w (20 - of_nat i) \<and> 8 < 20 - (of_nat i :: rat)"
    using fit_font_spec [of ?w ?m 20] by blast
  have "of_nat k \<le> (of_nat 12 :: rat)" using fit_font_20 [of ?w ?m] k(1) by simp
  then have le: "k \<le> 12" by (simp only: of_nat_le_iff)
  have "k = 12" if "fit_font ?w ?m 20 \<le> 8"
  proof -
    have "of_nat 12 \<le> (of_nat k :: rat)" using that k(1) by simp
    then have "12 \<le> k" by (simp only: of_nat_le_iff)
    then show ?thesis using le by simp
  qed
  then show ?thesis using k le by (intro exI [of _ k]) (auto simp: UpdateOutputText_font)
qed

theorem font_fits_witness:
  "\<exists>k \<le> 12. cf_fontSize (snd (textbox_UpdateOutputText fr0 (textbox_init fr0, cfont_load))) = 20 - of_nat k"
  using font_fits [of fr0 "textbox_init fr0" cfont_load] by blast

text \<open>
  C33. A button's callbacks over any run of frames: clicks happen exactly in frames where the mouse is
  pressed inside the bounds, and a release is reported only after a click, at most once for it.
\<close>

theorem button_callbacks:
  "alternate (bt_wasPressed b) (fst (button_run frs b))
   \<and> (On_click \<in> set (fst (button_Update fr b))) = (fr_hits fr (bt_bounds b) \<and> fr_pressed fr)"
  using button_alternates button_click_inside by blast

section \<open>Doubles\<close>

text \<open>
  C34. Writing a double: the text of a finite double, which the serializer writes through its buffer of
  64 characters, is at most 24 characters long and \<open>strtod\<close> reads it as the same double, bit for
  bit, negative zero and the subnormal numbers included; a double that is not finite is written
  as \<open>null\<close>. No assertion of the conversion fails.
\<close>

theorem double_roundtrip:
  "\<exists>t. dump_float x = Inr t \<and> (if dbl_isfinite x then strtod t = x \<and> length t \<le> 24 else t = ''null'')"
  using dump_float_reads [of x] by (cases "dbl_isfinite x") (auto simp: dump_float_def)

text \<open>
  C35. Grisu2 is correct: for every positive finite double it returns, without a failed assertion, at
  most 17 decimal digits that do not start with zero and an exponent, whose value lies strictly
  between the points half way to the neighbouring doubles.
\<close>

theorem grisu2_correct:
  assumes "\<not> dbl_sign x" "x \<noteq> 0" "dbl_isfinite x"
  shows "\<exists>buf d. grisu2 x = Inr (buf, d) \<and> numeral_text buf \<and> length buf \<le> 17
    \<and> dbl_lower x < real (digits_value buf) * 10 powi d \<and> real (digits_value buf) * 10 powi d < dbl_upper x"
  using grisu2_between [OF assms] by metis

theorem grisu2_correct_witness:
  "\<exists>buf d. grisu2 4599075939470750515 = Inr (buf, d) \<and> numeral_text buf \<and> length buf \<le> 17
    \<and> dbl_lower 4599075939470750515 < real (digits_value buf) * 10 powi d
    \<and> real (digits_value buf) * 10 powi d < dbl_upper 4599075939470750515"
  by (rule grisu2_correct) (simp_all add: dbl_sign_def dbl_isfinite_def dbl_exponent_def bit_iff_odd_drop_bit drop_bit_eq_div)

section \<open>JSON pointers and patches\<close>

text \<open>
  C36. JSON pointers are their text: the constructor reads a text as a list of reference tokens exactly
  when \<open>to_string\<close> writes these tokens as that text, whatever bytes the tokens contain; so both
  escaping passes with their order are right, and nothing else is accepted.
\<close>

theorem pointer_text: "pointer_split s = Inr ts \<longleftrightarrow> s = pointer_to_string ts"
  by (rule pointer_split_iff)

text \<open>
  C37. The contract of \<open>diff\<close>: between any two values of which the second has no NaN and no discarded
  part, the patch it computes applies to the first without an error and gives a value that equals
  the second; the patch is empty exactly when the values are equal already.
\<close>

theorem diff_then_patch:
  assumes "json_inv s" "json_inv t" "fits_arrays s" "comparable t"
  shows "(\<exists>r. json_patch (JArray (json_diff s t [])) s = Inr r \<and> json_inv r \<and> json_eq r t)
    \<and> (json_diff s t [] = [] \<longleftrightarrow> json_eq s t)"
  using patch_diff [OF assms] diff_Nil_iff [OF assms] by blast

theorem diff_then_patch_witness:
  "\<exists>r. json_patch (JArray (json_diff (JArray [JNull, JObject [(''a/b'', JNull)]]) (JArray [JObject [(''~'', JString ''x'')]]) []))
      (JArray [JNull, JObject [(''a/b'', JNull)]]) = Inr r \<and> json_eq r (JArray [JObject [(''~'', JString ''x'')]])"
  using diff_then_patch [of "JArray [JNull, JObject [(''a/b'', JNull)]]" "JArray [JObject [(''~'', JString ''x'')]]"]
  by (auto simp: smap_inv_Cons simp del: json_diff.simps json_eq.simps)



text \<open>
  C39. \<open>merge_patch\<close> does what RFC 7396 describes: a patch that is no object replaces the value; otherwise
  the result is an object whose member at any key is the old one when the patch does not mention
  the key, none when the patch has null there, and else the old member (or null) merged with the
  patch's. Merging the same patch a second time changes nothing.
\<close>

theorem merge_patch_rfc7396:
  assumes "json_inv j" "json_inv p"
  shows "(case p of
      JObject ps \<Rightarrow> \<exists>m. merge_patch j p = JObject m \<and> smap_inv m \<and> (\<forall>k. map_of m k =
        (case map_of ps k of
           None \<Rightarrow> map_of (members j) k
         | Some v \<Rightarrow> if v = JNull then None else Some (merge_patch (member_or_null (members j) k) v)))
    | _ \<Rightarrow> merge_patch j p = p)
    \<and> merge_patch (merge_patch j p) p = merge_patch j p"
  using merge_patch_member [OF assms(1)] merge_patch_idem [OF assms] assms(2) by (cases p) simp_all

theorem merge_patch_rfc7396_witness:
  "\<exists>m. merge_patch (JObject [(''a'', JString ''x'')]) (JObject [(''a'', JNull), (''b'', JString ''y'')]) = JObject m
     \<and> map_of m ''a'' = None \<and> map_of m ''b'' = Some (JString ''y'')"
  using merge_patch_rfc7396 [of "JObject [(''a'', JString ''x'')]" "JObject [(''a'', JNull), (''b'', JString ''y'')]"]
  by (auto simp: smap_inv_Cons)

section \<open>Binary input\<close>

text \<open>
  C40. Reading MessagePack or CBOR from any bytes whatsoever, with any treatment of tags, ends in one of two
  ways: an exception that is one of the parse errors 110, 112 and 113 or the size error 408, or a
  well-formed value without a discarded part, whose lengths for MessagePack fit the format. In
  particular no assertion of the builder fails, nesting never needs more fuel than the input has
  bytes, and the loops of CBOR that wait for a break byte end.
\<close>

theorem binary_any_input:
  "(case from_msgpack n bs of Inl e \<Rightarrow> binary_error e | Inr v \<Rightarrow> packable v \<and> json_inv v)
   \<and> (case from_cbor n t bs of Inl e \<Rightarrow> binary_error e | Inr v \<Rightarrow> undiscarded v \<and> json_inv v)"
  by (intro conjI from_msgpack_outcome from_cbor_outcome)

end
